(* ===== verification/Prelude.thy ===== *)
theory Prelude
  imports Main "HOL-Library.Word" "HOL-Library.AList" "HOL-Library.Multiset"
begin

text \<open>
  Shared vocabulary of the development.

  \<^item> The machine types of an LP64 target: pointers and \<open>size_t\<close> are 64-bit words, the null
    pointer is the word 0.
  \<^item> The outcome of a C function that may not return normally: a sum type whose left
    component says how the execution stopped (a failed \<open>assert\<close>, an access through a pointer
    that is null or has been freed, an access outside an array, a division by zero, a loop
    that never ends, a call that blocks forever).
  \<^item> The interface of an allocator as far as its callers rely on it: \<open>alloc\<close> answers null or
    an address that is not in use.
  \<^item> Generic lemmas on association lists used as object stores, on \<open>remove1\<close>, and on the
    number of distinct non-null pointers.
  \<^item> The locale \<open>fifo\<close>: the contract of a component that hands items on in order, and what
    follows for every sequence of operations.
\<close>

section \<open>Machine types\<close>

type_synonym ptr = "64 word"
type_synonym size_t = "64 word"
type_synonym uint8_t = "8 word"
type_synonym uint32_t = "32 word"
type_synonym uint64_t = "64 word"

abbreviation NULL :: ptr where
  "NULL \<equiv> 0"

abbreviation SIZE_MAX :: size_t where
  "SIZE_MAX \<equiv> -1"

section \<open>Outcomes of C functions\<close>

datatype c_error =
    AssertFailed   \<comment> \<open>an \<open>assert\<close> of the code failed: the process aborts\<close>
  | BadPointer     \<comment> \<open>access through a null, dangling or foreign pointer\<close>
  | OutOfBounds    \<comment> \<open>access outside the object a pointer belongs to\<close>
  | DivByZero      \<comment> \<open>integer division or remainder by zero\<close>
  | Diverges       \<comment> \<open>the loop never ends\<close>
  | Blocks         \<comment> \<open>the call waits and nothing else runs in this execution\<close>

type_synonym 'a res = "c_error + 'a"

text \<open>Sequencing: the rest runs only when the first part returned.\<close>

definition rbind :: "'a res \<Rightarrow> ('a \<Rightarrow> 'b res) \<Rightarrow> 'b res" where
  "rbind m f = (case m of Inl e \<Rightarrow> Inl e | Inr x \<Rightarrow> f x)"

definition c_assert :: "bool \<Rightarrow> unit res" where
  "c_assert b = (if b then Inr () else Inl AssertFailed)"

text \<open>Definitions that a symbolic execution of the model unfolds are collected here.\<close>

named_theorems c_ops \<open>unfolding equations of model operations\<close>

lemma rbind_Inl [simp]: "rbind (Inl e) f = Inl e"
  by (simp add: rbind_def)

lemma rbind_Inr [simp]: "rbind (Inr x) f = f x"
  by (simp add: rbind_def)

lemma rbind_eq_Inr [simp]: "rbind m f = Inr y \<longleftrightarrow> (\<exists>x. m = Inr x \<and> f x = Inr y)"
  by (cases m) auto

lemma rbind_InrE: "rbind m f = Inr y \<Longrightarrow> (\<And>x. m = Inr x \<Longrightarrow> f x = Inr y \<Longrightarrow> P) \<Longrightarrow> P"
  by (cases m) auto

lemma rbind_assoc: "rbind (rbind m f) g = rbind m (\<lambda>x. rbind (f x) g)"
  by (cases m) auto

lemma c_assert_True [simp]: "c_assert True = Inr ()"
  by (simp add: c_assert_def)

lemma c_assert_False [simp]: "c_assert False = Inl AssertFailed"
  by (simp add: c_assert_def)

lemma c_assert_eq_Inr [simp]: "c_assert b = Inr u \<longleftrightarrow> b"
  by (simp add: c_assert_def)

lemma rbind_cong [fundef_cong]:
  "m = m' \<Longrightarrow> (\<And>x. m' = Inr x \<Longrightarrow> f x = f' x) \<Longrightarrow> rbind m f = rbind m' f'"
  by (cases m') auto

section \<open>Allocators\<close>

text \<open>
  \<open>allocator_t.alloc\<close> of \<open>allocator.h\<close>, seen from a data structure: given the addresses of the
  objects the structure keeps alive, it answers a pointer. The laws are those of the C
  library: the answer is null (no memory) or an address not in use.
\<close>

type_synonym alloc_fn = "ptr list \<Rightarrow> ptr"

definition fresh_alloc :: "alloc_fn \<Rightarrow> bool" where
  "fresh_alloc alloc \<longleftrightarrow> (\<forall>live. alloc live \<noteq> NULL \<longrightarrow> alloc live \<notin> set live)"

lemma fresh_allocD: "fresh_alloc alloc \<Longrightarrow> alloc live \<noteq> NULL \<Longrightarrow> alloc live \<notin> set live"
  by (simp add: fresh_alloc_def)

text \<open>
  A concrete allocator for evaluations: it hands out the first address of a given arena
  that is not in use, and null when all are taken.
\<close>

definition arena_alloc :: "ptr list \<Rightarrow> alloc_fn" where
  "arena_alloc arena live =
     (case filter (\<lambda>p. p \<notin> set live) arena of [] \<Rightarrow> NULL | p # _ \<Rightarrow> p)"

lemma fresh_arena_alloc [simp]: "fresh_alloc (arena_alloc arena)"
  unfolding fresh_alloc_def
proof (intro allI impI)
  fix live
  show "arena_alloc arena live \<notin> set live" if "arena_alloc arena live \<noteq> NULL"
  proof (cases "filter (\<lambda>p. p \<notin> set live) arena")
    case Nil
    with that show ?thesis by (simp add: arena_alloc_def)
  next
    case (Cons p ps)
    then have "p \<notin> set live" by (auto dest: filter_eq_ConsD)
    with Cons show ?thesis by (simp add: arena_alloc_def)
  qed
qed

text \<open>
  An allocator has memory for structures of up to \<open>n\<close> objects. (No allocator that answers
  fresh addresses only can answer every request.)
\<close>

definition alloc_room :: "alloc_fn \<Rightarrow> nat \<Rightarrow> bool" where
  "alloc_room alloc n \<longleftrightarrow> (\<forall>live. length live \<le> n \<longrightarrow> alloc live \<noteq> NULL)"

lemma alloc_room_arena:
  assumes "distinct arena" and "NULL \<notin> set arena" and "n < length arena"
  shows "alloc_room (arena_alloc arena) n"
  unfolding alloc_room_def
proof (intro allI impI)
  fix live :: "ptr list"
  assume "length live \<le> n"
  then have "card (set live) < card (set arena)"
    using assms(1,3) card_length [of live] by (simp add: distinct_card)
  then obtain p where "p \<in> set arena" "p \<notin> set live"
    by (metis List.finite_set card_mono linorder_not_le subsetI)
  then have "filter (\<lambda>p. p \<notin> set live) arena \<noteq> []" by (auto simp: filter_empty_conv)
  then obtain q qs where q: "filter (\<lambda>p. p \<notin> set live) arena = q # qs" by (cases "filter (\<lambda>p. p \<notin> set live) arena") auto
  then have "q \<in> set arena" by (metis filter_eq_ConsD in_set_conv_decomp)
  then show "arena_alloc arena live \<noteq> NULL" using q assms(2) by (auto simp: arena_alloc_def)
qed

section \<open>Object stores\<close>

text \<open>
  The live objects of one kind are an association list from addresses to values. Reading
  an address that is not there is an access through a bad pointer.
\<close>

definition deref :: "(ptr \<times> 'a) list \<Rightarrow> ptr \<Rightarrow> 'a res" where
  "deref st p = (case map_of st p of None \<Rightarrow> Inl BadPointer | Some x \<Rightarrow> Inr x)"

abbreviation live :: "(ptr \<times> 'a) list \<Rightarrow> ptr list" where
  "live st \<equiv> map fst st"

abbreviation store_at :: "ptr \<Rightarrow> 'a \<Rightarrow> (ptr \<times> 'a) list \<Rightarrow> (ptr \<times> 'a) list" where
  "store_at \<equiv> AList.update"

abbreviation release :: "ptr \<Rightarrow> (ptr \<times> 'a) list \<Rightarrow> (ptr \<times> 'a) list" where
  "release \<equiv> AList.delete"

declare map_of_eq_Some_iff [simp del] Some_eq_map_of_iff [simp del]

lemma deref_eq_Inr [simp]: "deref st p = Inr x \<longleftrightarrow> map_of st p = Some x"
  by (auto simp: deref_def split: option.splits)

lemma deref_Some [simp]: "map_of st p = Some x \<Longrightarrow> deref st p = Inr x"
  by simp

lemma deref_None [simp]: "map_of st p = None \<Longrightarrow> deref st p = Inl BadPointer"
  by (simp add: deref_def)

lemma map_of_store_at [simp]: "map_of (store_at p x st) = (map_of st)(p \<mapsto> x)"
  by (simp add: update_conv')

lemma map_of_release [simp]: "map_of (release p st) = (map_of st)(p := None)"
  by (simp add: delete_conv')

lemma set_live_store_at [simp]: "fst ` set (store_at p x st) = insert p (fst ` set st)"
  by (metis dom_map_of_conv_image_fst dom_fun_upd map_of_store_at option.distinct(1))

lemma set_live_release [simp]: "fst ` set (release p st) = fst ` set st - {p}"
  by (metis dom_map_of_conv_image_fst dom_fun_upd map_of_release)

lemma distinct_live_store_at [simp]:
  "distinct (live st) \<Longrightarrow> distinct (live (store_at p x st))"
  by (rule distinct_update)

lemma distinct_live_release [simp]:
  "distinct (live st) \<Longrightarrow> distinct (live (release p st))"
  by (rule distinct_delete)

lemma map_of_in_live: "map_of st p = Some x \<Longrightarrow> p \<in> fst ` set st"
  by (rule map_of_SomeD [THEN rev_image_eqI]) simp_all

lemma map_of_None_iff [simp]: "map_of st p = None \<longleftrightarrow> p \<notin> fst ` set st"
  by (rule map_of_eq_None_iff)

section \<open>Lists\<close>

lemma length_distinct_ptrs:
  fixes ps :: "ptr list"
  assumes "distinct ps" and "NULL \<notin> set ps"
  shows "length ps < 2 ^ 64"
proof -
  have "insert NULL (set ps) \<subseteq> UNIV" by simp
  then have "card (insert NULL (set ps)) \<le> card (UNIV :: ptr set)"
    by (rule card_mono [rotated]) simp
  moreover have "card (insert NULL (set ps)) = Suc (length ps)"
    using assms by (simp add: distinct_card)
  ultimately show ?thesis by (simp add: card_word)
qed

lemma remove1_map_inj:
  "inj_on f (insert x (set xs)) \<Longrightarrow> remove1 (f x) (map f xs) = map f (remove1 x xs)"
  by (induction xs) (auto simp: inj_on_def)

lemma find_unique:
  "(\<And>x y. x \<in> set xs \<Longrightarrow> y \<in> set xs \<Longrightarrow> P x \<Longrightarrow> P y \<Longrightarrow> x = y) \<Longrightarrow>
     List.find P xs = Some z \<longleftrightarrow> z \<in> set xs \<and> P z"
  by (induction xs) (force split: if_splits)+

lemma distinct_concat_upt:
  assumes "\<And>i. i < n \<Longrightarrow> distinct (f i)"
    and "\<And>i j. i < n \<Longrightarrow> j < n \<Longrightarrow> i \<noteq> j \<Longrightarrow> set (f i) \<inter> set (f j) = {}"
  shows "distinct (concat (map f [0..<n]))"
  using assms
proof (induction n)
  case (Suc n)
  have "distinct (concat (map f [0..<n]))" using Suc.IH Suc.prems by simp
  moreover have "set (f i) \<inter> set (f n) = {}" if "i < n" for i
    using Suc.prems(2) [of i n] that by simp
  ultimately show ?case using Suc.prems(1) [of n] by (auto simp: disjoint_iff)
qed simp

lemma map_the_map_of_live:
  assumes "distinct (live st)"
  shows "map (\<lambda>p. the (map_of st p)) (live st) = map snd st"
  using assms by (induction st) (auto simp: rev_image_eqI)

lemma unat_word_of_nat_less: "i < unat (w :: 64 word) \<Longrightarrow> unat (word_of_nat i :: 64 word) = i"
  by (rule le_unat_uoi [OF less_imp_le])

lemma unat64_less: "unat (w :: 64 word) < 18446744073709551616"
  using unsigned_less [of w] by simp

lemma unat_word_of_nat_id: "n < 18446744073709551616 \<Longrightarrow> unat (word_of_nat n :: 64 word) = n"
  by (simp add: unat_of_nat take_bit_nat_eq_self)

lemma unat_ucast_32_64: "unat (ucast (w :: 32 word) :: 64 word) = unat w"
  using unsigned_less [of w, where ?'a = nat] by (simp add: unsigned_ucast_eq take_bit_nat_eq_self)

section \<open>C strings\<close>

abbreviation NUL :: char where
  "NUL \<equiv> CHR 0x00"

text \<open>The bytes of a C string: everything in front of the first NUL.\<close>

definition c_string :: "string \<Rightarrow> string" where
  "c_string s = takeWhile (\<lambda>c. c \<noteq> NUL) s"

lemma c_string_terminated: "NUL \<notin> set xs \<Longrightarrow> c_string (xs @ NUL # rest) = xs"
  by (induction xs) (auto simp: c_string_def)

lemma c_string_split:
  assumes "NUL \<in> set s"
  obtains rest where "s = c_string s @ NUL # rest" "NUL \<notin> set (c_string s)"
proof -
  obtain xs rest where s: "s = xs @ NUL # rest" "NUL \<notin> set xs"
    using assms by (meson split_list_first)
  then have "c_string s = xs" by (simp add: c_string_terminated)
  with s that show thesis by simp
qed

lemma c_string_no_NUL [simp]: "NUL \<notin> set (c_string s)"
  by (auto simp: c_string_def dest: set_takeWhileD)

section \<open>First-in first-out components\<close>

text \<open>
  A queue-like component seen through its operations: an operation takes some items in, gives
  some items out and leaves a new state. \<open>run_ops\<close> runs a sequence of operations and collects
  what went in and what came out.
\<close>

fun run_ops :: "('op \<Rightarrow> 'q \<Rightarrow> ('b list \<times> 'b list \<times> 'q) res) \<Rightarrow> 'op list \<Rightarrow> 'q \<Rightarrow>
    ('b list \<times> 'b list \<times> 'q) res" where
  "run_ops exec [] q = Inr ([], [], q)"
| "run_ops exec (x # xs) q =
     rbind (exec x q) (\<lambda>(ins, outs, q1).
     rbind (run_ops exec xs q1) (\<lambda>(ins', outs', q2). Inr (ins @ ins', outs @ outs', q2)))"

text \<open>
  The contract: on a well-formed state a valid operation returns, keeps the state well-formed,
  and what was inside followed by what went in is what came out followed by what is inside.
\<close>

locale fifo =
  fixes inv :: "'q \<Rightarrow> bool" and content :: "'q \<Rightarrow> 'b list"
    and valid :: "'op \<Rightarrow> 'q \<Rightarrow> bool"
    and exec :: "'op \<Rightarrow> 'q \<Rightarrow> ('b list \<times> 'b list \<times> 'q) res"
  assumes exec_step: "inv q \<Longrightarrow> valid x q \<Longrightarrow>
      \<exists>ins outs q'. exec x q = Inr (ins, outs, q') \<and> inv q' \<and> content q @ ins = outs @ content q'"
    and valid_stays: "exec x q = Inr (ins, outs, q') \<Longrightarrow> valid y q \<Longrightarrow> valid y q'"
begin

lemma stream_order:
  assumes "inv q" and "\<forall>x \<in> set xs. valid x q"
  shows "\<exists>ins outs q'. run_ops exec xs q = Inr (ins, outs, q') \<and> inv q' \<and>
    content q @ ins = outs @ content q'"
  using assms
proof (induction xs arbitrary: q)
  case (Cons x xs)
  obtain i1 o1 q1 where one: "exec x q = Inr (i1, o1, q1)" "inv q1" "content q @ i1 = o1 @ content q1"
    using exec_step Cons.prems by (metis list.set_intros(1))
  have "\<forall>y \<in> set xs. valid y q1" using valid_stays [OF one(1)] Cons.prems(2) by simp
  with Cons.IH [OF one(2)] obtain i2 o2 q2 where
    two: "run_ops exec xs q1 = Inr (i2, o2, q2)" "inv q2" "content q1 @ i2 = o2 @ content q2"
    by blast
  have "content q @ i1 @ i2 = (o1 @ o2) @ content q2"
    using one(3) two(3) by (metis append.assoc)
  with one(1) two(1,2) show ?case by simp
qed simp

end

end
