(* ===== verification/OsiList.thy ===== *)
theory OsiList
  imports Prelude
begin

text \<open>
  The singly linked list of \<open>src/list.c\<close>, on an explicit store of nodes.

  A \<open>list_t\<close> carries, beside the fields of the C struct, the store of the nodes it owns:
  nodes are allocated and freed by the list only, so the stores of two lists never overlap.
  The loops follow \<open>next\<close> pointers through that store; a loop that only reads and has made
  more steps than there are live nodes has met a node twice and never ends, which is the
  outcome \<open>Diverges\<close>.

  The free callback acts on a state of its client, type \<open>'s\<close>. The specification is a HOL
  list: \<open>list_elems\<close> reads the elements off the store, \<open>list_inv\<close> says that the store is a
  proper list, and the theorems say what every operation does to the elements.
\<close>

section \<open>The data\<close>

record list_node_t =
  node_next :: ptr
  node_data :: ptr

type_synonym 's list_free_cb = "ptr \<Rightarrow> 's \<Rightarrow> 's res"

record 's list_t =
  list_head :: ptr
  list_tail :: ptr
  list_len :: size_t
  free_cb :: "'s list_free_cb option"
  list_allocator :: alloc_fn
  nodes :: "(ptr \<times> list_node_t) list"

abbreviation node_at :: "'s list_t \<Rightarrow> ptr \<Rightarrow> list_node_t res" where
  "node_at l p \<equiv> deref (nodes l) p"

section \<open>The operations\<close>

text \<open>
  \<open>list_new_internal\<close>: the first argument is the answer of the allocator to the request for
  the \<open>list_t\<close> itself, the others are the parameters of the C function.
\<close>

definition list_new_internal ::
  "ptr \<Rightarrow> 's list_free_cb option \<Rightarrow> alloc_fn \<Rightarrow> 's list_t option" where
  "list_new_internal list callback zeroed_allocator =
     (if list = NULL then None
      else Some \<lparr>list_head = NULL, list_tail = NULL, list_len = 0, free_cb = callback,
                 list_allocator = zeroed_allocator, nodes = []\<rparr>)"

definition list_is_empty :: "'s list_t \<Rightarrow> bool" where
  "list_is_empty l \<longleftrightarrow> list_len l = 0"

definition list_length :: "'s list_t \<Rightarrow> size_t" where
  "list_length l = list_len l"

definition list_begin :: "'s list_t \<Rightarrow> ptr" where
  "list_begin l = list_head l"

definition list_end :: "'s list_t \<Rightarrow> ptr" where
  "list_end l = NULL"

definition list_next :: "'s list_t \<Rightarrow> ptr \<Rightarrow> ptr res" where
  "list_next l node =
     rbind (c_assert (node \<noteq> NULL)) (\<lambda>_.
     rbind (node_at l node) (\<lambda>n. Inr (node_next n)))"

definition list_node :: "'s list_t \<Rightarrow> ptr \<Rightarrow> ptr res" where
  "list_node l node =
     rbind (c_assert (node \<noteq> NULL)) (\<lambda>_.
     rbind (node_at l node) (\<lambda>n. Inr (node_data n)))"

fun list_contains_loop :: "nat \<Rightarrow> 's list_t \<Rightarrow> ptr \<Rightarrow> ptr \<Rightarrow> bool res" where
  "list_contains_loop 0 l node data =
     (if node = list_end l then Inr False else Inl Diverges)"
| "list_contains_loop (Suc n) l node data =
     (if node = list_end l then Inr False
      else rbind (list_node l node) (\<lambda>d.
        if d = data then Inr True
        else rbind (list_next l node) (\<lambda>next. list_contains_loop n l next data)))"

definition list_contains :: "'s list_t \<Rightarrow> ptr \<Rightarrow> bool res" where
  "list_contains l data =
     rbind (c_assert (data \<noteq> NULL)) (\<lambda>_.
       list_contains_loop (length (nodes l)) l (list_begin l) data)"

definition list_front :: "'s list_t \<Rightarrow> ptr res" where
  "list_front l =
     rbind (c_assert (\<not> list_is_empty l)) (\<lambda>_.
     rbind (node_at l (list_head l)) (\<lambda>n. Inr (node_data n)))"

definition list_back :: "'s list_t \<Rightarrow> ptr res" where
  "list_back l =
     rbind (c_assert (\<not> list_is_empty l)) (\<lambda>_.
     rbind (node_at l (list_tail l)) (\<lambda>n. Inr (node_data n)))"

definition list_back_node :: "'s list_t \<Rightarrow> ptr res" where
  "list_back_node l =
     rbind (c_assert (\<not> list_is_empty l)) (\<lambda>_. Inr (list_tail l))"

text \<open>Writing the \<open>next\<close> field of a live node.\<close>

definition set_node_next :: "'s list_t \<Rightarrow> ptr \<Rightarrow> ptr \<Rightarrow> 's list_t res" where
  "set_node_next l p q =
     rbind (node_at l p) (\<lambda>n.
       Inr (l\<lparr>nodes := store_at p (n\<lparr>node_next := q\<rparr>) (nodes l)\<rparr>))"

definition list_insert_after :: "'s list_t \<Rightarrow> ptr \<Rightarrow> ptr \<Rightarrow> (bool \<times> 's list_t) res" where
  "list_insert_after l prev_node data =
     rbind (c_assert (prev_node \<noteq> NULL)) (\<lambda>_.
     rbind (c_assert (data \<noteq> NULL)) (\<lambda>_.
     let node = list_allocator l (live (nodes l)) in
     if node = NULL then Inr (False, l)
     else
       rbind (node_at l prev_node) (\<lambda>prev.
       let l1 = l\<lparr>nodes := store_at node \<lparr>node_next = node_next prev, node_data = data\<rparr> (nodes l)\<rparr> in
       rbind (set_node_next l1 prev_node node) (\<lambda>l2.
       let l3 = (if list_tail l2 = prev_node then l2\<lparr>list_tail := node\<rparr> else l2) in
       Inr (True, l3\<lparr>list_len := list_len l3 + 1\<rparr>)))))"

definition list_prepend :: "'s list_t \<Rightarrow> ptr \<Rightarrow> (bool \<times> 's list_t) res" where
  "list_prepend l data =
     rbind (c_assert (data \<noteq> NULL)) (\<lambda>_.
     let node = list_allocator l (live (nodes l)) in
     if node = NULL then Inr (False, l)
     else
       let l1 = l\<lparr>nodes := store_at node \<lparr>node_next = list_head l, node_data = data\<rparr> (nodes l),
                  list_head := node\<rparr>;
           l2 = (if list_tail l1 = NULL then l1\<lparr>list_tail := list_head l1\<rparr> else l1)
       in Inr (True, l2\<lparr>list_len := list_len l2 + 1\<rparr>))"

definition list_append :: "'s list_t \<Rightarrow> ptr \<Rightarrow> (bool \<times> 's list_t) res" where
  "list_append l data =
     rbind (c_assert (data \<noteq> NULL)) (\<lambda>_.
     let node = list_allocator l (live (nodes l)) in
     if node = NULL then Inr (False, l)
     else
       let l1 = l\<lparr>nodes := store_at node \<lparr>node_next = NULL, node_data = data\<rparr> (nodes l)\<rparr> in
       rbind
         (if list_tail l1 = NULL then Inr (l1\<lparr>list_head := node, list_tail := node\<rparr>)
          else rbind (set_node_next l1 (list_tail l1) node) (\<lambda>l2. Inr (l2\<lparr>list_tail := node\<rparr>)))
         (\<lambda>l3. Inr (True, l3\<lparr>list_len := list_len l3 + 1\<rparr>)))"

text \<open>The call \<open>if (list->free_cb) list->free_cb(data)\<close>.\<close>

definition run_free_cb :: "'s list_t \<Rightarrow> ptr \<Rightarrow> 's \<Rightarrow> 's res" where
  "run_free_cb l data s = (case free_cb l of None \<Rightarrow> Inr s | Some cb \<Rightarrow> cb data s)"

text \<open>
  \<open>list_free_node\<close> (\<open>list_free_node_\<close> in the source) answers the successor of the freed node; the free callback runs before
  the node is released.
\<close>

definition list_free_node :: "'s list_t \<Rightarrow> ptr \<Rightarrow> 's \<Rightarrow> (ptr \<times> 's list_t \<times> 's) res" where
  "list_free_node l node s =
     rbind (c_assert (node \<noteq> NULL)) (\<lambda>_.
     rbind (node_at l node) (\<lambda>n.
     rbind (run_free_cb l (node_data n) s) (\<lambda>s'.
       Inr (node_next n,
            l\<lparr>nodes := release node (nodes l), list_len := list_len l - 1\<rparr>, s'))))"

text \<open>The search loop of \<open>list_remove\<close>, with its two cursors.\<close>

fun list_remove_loop ::
  "nat \<Rightarrow> 's list_t \<Rightarrow> ptr \<Rightarrow> ptr \<Rightarrow> ptr \<Rightarrow> 's \<Rightarrow> (bool \<times> 's list_t \<times> 's) res" where
  "list_remove_loop 0 l prev node data s =
     (if node = NULL then Inr (False, l, s) else Inl Diverges)"
| "list_remove_loop (Suc k) l prev node data s =
     (if node = NULL then Inr (False, l, s)
      else rbind (node_at l node) (\<lambda>n.
        if node_data n = data then
          rbind (list_free_node l node s) (\<lambda>(next, l1, s1).
          rbind (set_node_next l1 prev next) (\<lambda>l2.
          Inr (True, if list_tail l2 = node then l2\<lparr>list_tail := prev\<rparr> else l2, s1)))
        else list_remove_loop k l node (node_next n) data s))"

definition list_remove :: "'s list_t \<Rightarrow> ptr \<Rightarrow> 's \<Rightarrow> (bool \<times> 's list_t \<times> 's) res" where
  "list_remove l data s =
     rbind (c_assert (data \<noteq> NULL)) (\<lambda>_.
     if list_is_empty l then Inr (False, l, s)
     else
       rbind (node_at l (list_head l)) (\<lambda>h.
       if node_data h = data then
         rbind (list_free_node l (list_head l) s) (\<lambda>(next, l1, s1).
         let l2 = (if list_tail l1 = list_head l1 then l1\<lparr>list_tail := next\<rparr> else l1)
         in Inr (True, l2\<lparr>list_head := next\<rparr>, s1))
       else list_remove_loop (length (nodes l)) l (list_head l) (node_next h) data s))"

text \<open>Every step of \<open>list_clear\<close> frees a node, so as many steps as live nodes suffice.\<close>

fun list_clear_loop :: "nat \<Rightarrow> 's list_t \<Rightarrow> ptr \<Rightarrow> 's \<Rightarrow> ('s list_t \<times> 's) res" where
  "list_clear_loop 0 l node s = (if node = NULL then Inr (l, s) else Inl BadPointer)"
| "list_clear_loop (Suc k) l node s =
     (if node = NULL then Inr (l, s)
      else rbind (list_free_node l node s) (\<lambda>(next, l1, s1). list_clear_loop k l1 next s1))"

definition list_clear :: "'s list_t \<Rightarrow> 's \<Rightarrow> ('s list_t \<times> 's) res" where
  "list_clear l s =
     rbind (list_clear_loop (length (nodes l)) l (list_head l) s) (\<lambda>(l1, s1).
       Inr (l1\<lparr>list_head := NULL, list_tail := NULL, list_len := 0\<rparr>, s1))"

text \<open>\<open>list_free\<close> on a pointer that may be null; the list itself is gone afterwards.\<close>

definition list_free :: "'s list_t option \<Rightarrow> 's \<Rightarrow> 's res" where
  "list_free lp s =
     (case lp of None \<Rightarrow> Inr s
      | Some l \<Rightarrow> rbind (list_clear l s) (\<lambda>(_, s1). Inr s1))"

text \<open>
  \<open>list_foreach\<close>: the callback works on the caller's context, of type \<open>'c\<close>; the answer is the
  node at which it returned false, or null. (On a cyclic store the model stops after one
  round; no list that the operations build is cyclic.)
\<close>

fun list_foreach_loop ::
  "nat \<Rightarrow> 's list_t \<Rightarrow> ptr \<Rightarrow> (ptr \<Rightarrow> 'c \<Rightarrow> (bool \<times> 'c) res) \<Rightarrow> 'c \<Rightarrow> (ptr \<times> 'c) res" where
  "list_foreach_loop 0 l node callback c = (if node = NULL then Inr (NULL, c) else Inl Diverges)"
| "list_foreach_loop (Suc k) l node callback c =
     (if node = NULL then Inr (NULL, c)
      else rbind (node_at l node) (\<lambda>n.
        rbind (callback (node_data n) c) (\<lambda>(go_on, c1).
        if \<not> go_on then Inr (node, c1)
        else list_foreach_loop k l (node_next n) callback c1)))"

definition list_foreach ::
  "'s list_t \<Rightarrow> (ptr \<Rightarrow> 'c \<Rightarrow> (bool \<times> 'c) res) \<Rightarrow> 'c \<Rightarrow> (ptr \<times> 'c) res" where
  "list_foreach l callback c = list_foreach_loop (length (nodes l)) l (list_head l) callback c"

section \<open>The abstraction\<close>

text \<open>
  \<open>seg h p cs q\<close>: following \<open>next\<close> from \<open>p\<close> visits exactly the nodes and data of \<open>cs\<close> and
  arrives at \<open>q\<close>.
\<close>

fun seg :: "(ptr \<rightharpoonup> list_node_t) \<Rightarrow> ptr \<Rightarrow> (ptr \<times> ptr) list \<Rightarrow> ptr \<Rightarrow> bool" where
  "seg h p [] q \<longleftrightarrow> p = q"
| "seg h p ((a, d) # cs) q \<longleftrightarrow>
     p = a \<and> a \<noteq> NULL \<and> d \<noteq> NULL \<and>
     (case h a of None \<Rightarrow> False | Some n \<Rightarrow> node_data n = d \<and> seg h (node_next n) cs q)"

fun walk :: "nat \<Rightarrow> (ptr \<rightharpoonup> list_node_t) \<Rightarrow> ptr \<Rightarrow> (ptr \<times> ptr) list" where
  "walk 0 h p = []"
| "walk (Suc k) h p =
     (if p = NULL then []
      else case h p of None \<Rightarrow> [] | Some n \<Rightarrow> (p, node_data n) # walk k h (node_next n))"

definition list_cells :: "'s list_t \<Rightarrow> (ptr \<times> ptr) list" where
  "list_cells l = walk (length (nodes l)) (map_of (nodes l)) (list_head l)"

definition list_elems :: "'s list_t \<Rightarrow> ptr list" where
  "list_elems l = map snd (list_cells l)"

definition list_rep :: "'s list_t \<Rightarrow> (ptr \<times> ptr) list \<Rightarrow> bool" where
  "list_rep l cs \<longleftrightarrow>
     seg (map_of (nodes l)) (list_head l) cs NULL \<and>
     distinct (map fst cs) \<and>
     set (map fst cs) = fst ` set (nodes l) \<and>
     distinct (live (nodes l)) \<and>
     list_tail l = (if cs = [] then NULL else fst (last cs)) \<and>
     list_len l = word_of_nat (length cs)"

definition list_inv :: "'s list_t \<Rightarrow> bool" where
  "list_inv l \<longleftrightarrow> list_rep l (list_cells l) \<and> fresh_alloc (list_allocator l)"

subsection \<open>Segments\<close>

lemma seg_append: "seg h p (cs @ ds) q \<longleftrightarrow> (\<exists>r. seg h p cs r \<and> seg h r ds q)"
  by (induction cs arbitrary: p) (auto split: option.splits)

lemma seg_upd [simp]: "a \<notin> fst ` set cs \<Longrightarrow> seg (h(a := v)) p cs q = seg h p cs q"
  by (induction cs arbitrary: p) (auto split: option.splits)

lemma seg_Cons_iff:
  "seg h p ((a, d) # cs) q \<longleftrightarrow>
     p = a \<and> a \<noteq> NULL \<and> d \<noteq> NULL \<and> (\<exists>nx. h a = Some \<lparr>node_next = nx, node_data = d\<rparr> \<and> seg h nx cs q)"
  by (auto split: option.splits) (metis list_node_t.surjective old.unit.exhaust)

declare seg.simps(2) [simp del]
declare seg_Cons_iff [simp]

lemma seg_NULL_left: "seg h NULL cs q \<longleftrightarrow> cs = [] \<and> q = NULL"
  by (cases cs) auto

lemma seg_data_nonnull: "seg h p cs q \<Longrightarrow> NULL \<notin> snd ` set cs"
  by (induction cs arbitrary: p) force+

lemma seg_addr_nonnull: "seg h p cs q \<Longrightarrow> NULL \<notin> fst ` set cs"
  by (induction cs arbitrary: p) force+

lemma walk_seg: "seg h p cs NULL \<Longrightarrow> length cs \<le> k \<Longrightarrow> walk k h p = cs"
proof (induction cs arbitrary: p k)
  case Nil
  then show ?case by (cases k) auto
next
  case (Cons c cs)
  then show ?case by (cases c; cases k) auto
qed

lemma seg_head: "seg h p cs NULL \<Longrightarrow> p = (if cs = [] then NULL else fst (hd cs))"
  by (cases cs) (auto split: prod.splits)

subsection \<open>Represented lists\<close>

lemma list_rep_length: "list_rep l cs \<Longrightarrow> length (nodes l) = length cs"
  by (metis (no_types, lifting) distinct_card length_map list.set_map list_rep_def)

lemma list_rep_cells: "list_rep l cs \<Longrightarrow> list_cells l = cs"
  by (simp add: list_cells_def list_rep_length) (simp add: list_rep_def walk_seg)

lemma list_rep_elems: "list_rep l cs \<Longrightarrow> list_elems l = map snd cs"
  by (simp add: list_elems_def list_rep_cells)

lemma list_inv_iff: "list_inv l \<longleftrightarrow> (\<exists>cs. list_rep l cs) \<and> fresh_alloc (list_allocator l)"
  by (auto simp: list_inv_def dest: list_rep_cells)

lemma list_rep_bound:
  assumes "list_rep l cs"
  shows "length cs < 2 ^ 64"
proof -
  have "NULL \<notin> set (map fst cs)" and "distinct (map fst cs)"
    using assms seg_addr_nonnull by (force simp: list_rep_def)+
  then show ?thesis using length_distinct_ptrs [of "map fst cs"] by simp
qed

lemma list_rep_len: "list_rep l cs \<Longrightarrow> unat (list_len l) = length cs"
  using list_rep_bound [of l cs] by (simp add: list_rep_def unat_of_nat take_bit_nat_eq_self)

lemma list_rep_is_empty: "list_rep l cs \<Longrightarrow> list_is_empty l \<longleftrightarrow> cs = []"
  by (metis length_0_conv list_is_empty_def list_rep_len unat_eq_zero)

lemma list_rep_head_NULL: "list_rep l cs \<Longrightarrow> list_head l = NULL \<longleftrightarrow> cs = []"
  by (cases cs) (auto simp: list_rep_def seg_NULL_left)

lemma list_rep_tail_NULL: "list_rep l cs \<Longrightarrow> list_tail l = NULL \<longleftrightarrow> cs = []"
  by (cases cs rule: rev_cases) (auto simp: list_rep_def seg_append)

lemma list_elems_nonnull: "list_inv l \<Longrightarrow> NULL \<notin> set (list_elems l)"
  using seg_data_nonnull by (force simp: list_inv_def list_rep_def list_elems_def)

section \<open>The operations on represented lists\<close>

lemma list_new_rep:
  "list_new_internal p cb alloc = Some l \<Longrightarrow>
     list_rep l [] \<and> free_cb l = cb \<and> list_allocator l = alloc"
  by (auto simp: list_new_internal_def list_rep_def split: if_splits)

lemma list_contains_loop_seg:
  "seg (map_of (nodes l)) p cs NULL \<Longrightarrow> length cs \<le> k \<Longrightarrow>
     list_contains_loop k l p data = Inr (data \<in> snd ` set cs)"
proof (induction cs arbitrary: p k)
  case Nil
  then show ?case by (cases k) (auto simp: list_end_def)
next
  case (Cons c cs)
  then show ?case
    by (cases c; cases k) (auto simp: list_end_def list_node_def list_next_def)
qed

lemma list_contains_rep:
  "list_rep l cs \<Longrightarrow> data \<noteq> NULL \<Longrightarrow> list_contains l data = Inr (data \<in> snd ` set cs)"
  by (simp add: list_contains_def list_begin_def list_rep_length)
     (simp add: list_rep_def list_contains_loop_seg)

lemma list_front_rep:
  "list_rep l ((a, d) # cs) \<Longrightarrow> list_front l = Inr d"
  using list_rep_is_empty [of l "(a, d) # cs"]
  by (auto simp: list_front_def list_rep_def)

lemma list_rep_snoc_at:
  "list_rep l (cs @ [(a, d)]) \<Longrightarrow> map_of (nodes l) a = Some \<lparr>node_next = NULL, node_data = d\<rparr>"
  by (auto simp: list_rep_def seg_append)

lemma list_back_rep:
  "list_rep l (cs @ [(a, d)]) \<Longrightarrow> list_back l = Inr d"
  using list_rep_is_empty [of l "cs @ [(a, d)]"] list_rep_snoc_at [of l cs a d]
  by (auto simp: list_back_def list_rep_def)

lemma list_back_node_rep:
  "list_rep l (cs @ [(a, d)]) \<Longrightarrow> list_back_node l = Inr a"
  using list_rep_is_empty [of l "cs @ [(a, d)]"]
  by (auto simp: list_back_node_def list_rep_def)

text \<open>
  Insertion. In each case the new node \<open>node\<close> is fresh, so the segments that exist are not
  disturbed by writing it.
\<close>

lemma list_prepend_rep:
  assumes rep: "list_rep l cs" and d: "data \<noteq> NULL"
    and node: "node = list_allocator l (live (nodes l))" "node \<noteq> NULL" "node \<notin> fst ` set (nodes l)"
  shows "\<exists>l'. list_prepend l data = Inr (True, l') \<and> list_rep l' ((node, data) # cs) \<and>
           free_cb l' = free_cb l \<and> list_allocator l' = list_allocator l"
proof -
  have "node \<notin> fst ` set cs" using rep node(3) by (simp add: list_rep_def)
  then show ?thesis
    using assms list_rep_tail_NULL [OF rep]
    by (auto simp: list_prepend_def Let_def list_rep_def)
qed

text \<open>Linking a fresh node in after the node \<open>a\<close>: \<open>list_insert_after\<close>, and \<open>list_append\<close> at the tail.\<close>

lemma list_rep_splice:
  assumes rep: "list_rep l (bs @ (a, e) # ds)" and d: "data \<noteq> NULL"
    and node: "node \<noteq> NULL" "node \<notin> fst ` set (nodes l)"
    and at: "map_of (nodes l) a = Some \<lparr>node_next = nx, node_data = e\<rparr>"
    and l': "l' = l\<lparr>nodes := store_at a \<lparr>node_next = node, node_data = e\<rparr>
                       (store_at node \<lparr>node_next = nx, node_data = data\<rparr> (nodes l)),
                    list_tail := (if ds = [] then node else list_tail l),
                    list_len := list_len l + 1\<rparr>"
  shows "list_rep l' (bs @ (a, e) # (node, data) # ds)"
proof -
  from rep have seg: "seg (map_of (nodes l)) (list_head l) bs a" "seg (map_of (nodes l)) nx ds NULL"
    and e: "a \<noteq> NULL" "e \<noteq> NULL"
    and dist: "distinct (map fst bs)" "distinct (map fst ds)" "a \<notin> fst ` set bs" "a \<notin> fst ` set ds"
      "fst ` set bs \<inter> fst ` set ds = {}"
    and dom: "fst ` set (nodes l) = insert a (fst ` set bs \<union> fst ` set ds)"
    using at by (auto simp: list_rep_def seg_append)
  have new: "node \<notin> fst ` set bs" "node \<notin> fst ` set ds" "node \<noteq> a"
    using node(2) dom by auto
  have "seg (map_of (nodes l')) (list_head l') (bs @ (a, e) # (node, data) # ds) NULL"
    using seg e d node(1) dist new by (simp add: l' seg_append)
  moreover have "distinct (map fst (bs @ (a, e) # (node, data) # ds))"
    using dist new by auto
  moreover have "set (map fst (bs @ (a, e) # (node, data) # ds)) = fst ` set (nodes l')"
    using dom by (auto simp: l')
  ultimately show ?thesis
    using rep unfolding list_rep_def by (simp add: l')
qed

lemma list_rep_at:
  assumes "list_rep l (bs @ (a, e) # ds)"
  obtains nx where "map_of (nodes l) a = Some \<lparr>node_next = nx, node_data = e\<rparr>"
    and "nx = NULL \<longleftrightarrow> ds = []" and "a \<noteq> NULL" and "list_tail l = a \<longleftrightarrow> ds = []"
proof -
  from assms obtain nx where nx: "map_of (nodes l) a = Some \<lparr>node_next = nx, node_data = e\<rparr>"
    "seg (map_of (nodes l)) nx ds NULL" "a \<noteq> NULL"
    by (auto simp: list_rep_def seg_append)
  moreover have "nx = NULL \<longleftrightarrow> ds = []" using nx(2) by (cases ds) (auto simp: seg_NULL_left)
  moreover have "list_tail l = a \<longleftrightarrow> ds = []"
    using assms by (cases ds rule: rev_cases) (auto simp: list_rep_def)
  ultimately show ?thesis using that by blast
qed

lemma list_insert_after_rep:
  assumes rep: "list_rep l (bs @ (a, e) # ds)" and d: "data \<noteq> NULL"
    and node: "node = list_allocator l (live (nodes l))" "node \<noteq> NULL" "node \<notin> fst ` set (nodes l)"
  shows "\<exists>l'. list_insert_after l a data = Inr (True, l') \<and>
           list_rep l' (bs @ (a, e) # (node, data) # ds) \<and>
           free_cb l' = free_cb l \<and> list_allocator l' = list_allocator l"
proof -
  obtain nx where nx: "map_of (nodes l) a = Some \<lparr>node_next = nx, node_data = e\<rparr>"
    "a \<noteq> NULL" "list_tail l = a \<longleftrightarrow> ds = []"
    using list_rep_at [OF rep] by metis
  have na: "node \<noteq> a" using nx(1) node(3) by (metis map_of_in_live)
  show ?thesis
    using nx na d node(2) list_rep_splice [OF rep d node(2,3) nx(1) refl]
    by (auto simp: list_insert_after_def set_node_next_def Let_def node(1) [symmetric])
qed

lemma list_append_rep:
  assumes rep: "list_rep l cs" and d: "data \<noteq> NULL"
    and node: "node = list_allocator l (live (nodes l))" "node \<noteq> NULL" "node \<notin> fst ` set (nodes l)"
  shows "\<exists>l'. list_append l data = Inr (True, l') \<and> list_rep l' (cs @ [(node, data)]) \<and>
           free_cb l' = free_cb l \<and> list_allocator l' = list_allocator l"
proof (cases cs rule: rev_cases)
  case Nil
  with assms show ?thesis
    by (auto simp: list_append_def Let_def list_rep_def)
next
  case (snoc bs c)
  obtain a e where c: "c = (a, e)" by (cases c)
  with rep snoc have rep': "list_rep l (bs @ (a, e) # [])" by simp
  then have at: "map_of (nodes l) a = Some \<lparr>node_next = NULL, node_data = e\<rparr>"
    and a: "a \<noteq> NULL" "list_tail l = a"
    using list_rep_snoc_at list_rep_at [OF rep'] by auto
  have na: "node \<noteq> a" using at node(3) by (metis map_of_in_live)
  show ?thesis
    using at a na d node(2) list_rep_splice [OF rep' d node(2,3) at refl] snoc c
    by (auto simp: list_append_def set_node_next_def Let_def node(1) [symmetric])
qed

text \<open>Removal.\<close>

fun cells_remove :: "ptr \<Rightarrow> (ptr \<times> ptr) list \<Rightarrow> (ptr \<times> ptr) list" where
  "cells_remove data [] = []"
| "cells_remove data ((a, d) # cs) = (if d = data then cs else (a, d) # cells_remove data cs)"

lemma map_snd_cells_remove [simp]: "map snd (cells_remove data cs) = remove1 data (map snd cs)"
  by (induction cs) auto

lemma run_free_cb_cong: "free_cb l = free_cb l' \<Longrightarrow> run_free_cb l d s = run_free_cb l' d s"
  by (simp add: run_free_cb_def)

lemma list_free_node_at:
  "map_of (nodes l) a = Some \<lparr>node_next = nx, node_data = d\<rparr> \<Longrightarrow> a \<noteq> NULL \<Longrightarrow>
     list_free_node l a s =
       rbind (run_free_cb l d s) (\<lambda>s'.
         Inr (nx, l\<lparr>nodes := release a (nodes l), list_len := list_len l - 1\<rparr>, s'))"
  by (simp add: list_free_node_def)

lemma list_rep_unlink:
  assumes rep: "list_rep l (bs @ (p, e) # (a, d) # ds)"
    and at: "map_of (nodes l) a = Some \<lparr>node_next = nx, node_data = d\<rparr>"
    and l': "l' = l\<lparr>list_len := list_len l - 1,
                    nodes := store_at p \<lparr>node_next = nx, node_data = e\<rparr> (release a (nodes l)),
                    list_tail := (if ds = [] then p else list_tail l)\<rparr>"
  shows "list_rep l' (bs @ (p, e) # ds)"
proof -
  from rep have seg: "seg (map_of (nodes l)) (list_head l) bs p" "seg (map_of (nodes l)) nx ds NULL"
    and e: "p \<noteq> NULL" "e \<noteq> NULL" "p \<noteq> a"
    and dist: "distinct (map fst bs)" "distinct (map fst ds)" "p \<notin> fst ` set bs" "p \<notin> fst ` set ds"
      "a \<notin> fst ` set bs" "a \<notin> fst ` set ds" "fst ` set bs \<inter> fst ` set ds = {}"
    and dom: "fst ` set (nodes l) = insert p (insert a (fst ` set bs \<union> fst ` set ds))"
    using at by (auto simp: list_rep_def seg_append)
  have "seg (map_of (nodes l')) (list_head l') (bs @ (p, e) # ds) NULL"
    using seg e dist by (simp add: l' seg_append)
  moreover have "distinct (map fst (bs @ (p, e) # ds))"
    using dist by auto
  moreover have "set (map fst (bs @ (p, e) # ds)) = fst ` set (nodes l')"
    using dom e dist by (auto simp: l')
  ultimately show ?thesis
    using rep unfolding list_rep_def by (simp add: l')
qed

lemma list_remove_loop_rep:
  assumes "list_rep l (bs @ (p, e) # ds)"
    and "map_of (nodes l) p = Some \<lparr>node_next = nx, node_data = e\<rparr>" and "length ds \<le> k"
  shows "if data \<in> snd ` set ds
         then \<exists>l'. list_remove_loop k l p nx data s =
                     rbind (run_free_cb l data s) (\<lambda>s'. Inr (True, l', s')) \<and>
                   list_rep l' (bs @ (p, e) # cells_remove data ds) \<and>
                   free_cb l' = free_cb l \<and> list_allocator l' = list_allocator l
         else list_remove_loop k l p nx data s = Inr (False, l, s)"
  using assms
proof (induction ds arbitrary: bs p e nx k)
  case Nil
  then have "nx = NULL" using list_rep_snoc_at [of l bs p e] by simp
  then show ?case by (cases k) auto
next
  case (Cons c ds)
  obtain a d where c: "c = (a, d)" by (cases c)
  obtain k' where k: "k = Suc k'" using Cons.prems(3) by (cases k) auto
  have rep': "list_rep l ((bs @ [(p, e)]) @ (a, d) # ds)" using Cons.prems(1) c by simp
  obtain nx' where at: "map_of (nodes l) a = Some \<lparr>node_next = nx', node_data = d\<rparr>"
    "a \<noteq> NULL" "list_tail l = a \<longleftrightarrow> ds = []"
    using list_rep_at [OF rep'] by metis
  have nx: "nx = a" and pa: "p \<noteq> a" using Cons.prems(1,2) c by (auto simp: list_rep_def seg_append)
  show ?case
  proof (cases "d = data")
    case True
    have "list_rep l (bs @ (p, e) # (a, d) # ds)" using rep' by simp
    note unlink = list_rep_unlink [OF this at(1) refl]
    show ?thesis
      using True at pa nx k c unlink Cons.prems(2)
      by (cases "run_free_cb l data s") (auto simp: list_free_node_at set_node_next_def)
  next
    case False
    with Cons.IH [OF rep' at(1), of k'] Cons.prems(3) at nx k c show ?thesis
      by (cases "data \<in> snd ` set ds") simp_all
  qed
qed

lemma list_remove_rep:
  assumes rep: "list_rep l cs" and d: "data \<noteq> NULL"
  shows "if data \<in> snd ` set cs
         then \<exists>l'. list_remove l data s =
                     rbind (run_free_cb l data s) (\<lambda>s'. Inr (True, l', s')) \<and>
                   list_rep l' (cells_remove data cs) \<and>
                   free_cb l' = free_cb l \<and> list_allocator l' = list_allocator l
         else list_remove l data s = Inr (False, l, s)"
proof (cases cs)
  case Nil
  then show ?thesis using rep d list_rep_is_empty [OF rep] by (simp add: list_remove_def)
next
  case (Cons c ds)
  obtain a e where c: "c = (a, e)" by (cases c)
  have rep': "list_rep l ([] @ (a, e) # ds)" using rep Cons c by simp
  obtain nx where at: "map_of (nodes l) a = Some \<lparr>node_next = nx, node_data = e\<rparr>"
    "nx = NULL \<longleftrightarrow> ds = []" "a \<noteq> NULL" "list_tail l = a \<longleftrightarrow> ds = []"
    using list_rep_at [OF rep'] by metis
  have hd: "list_head l = a" and ne: "\<not> list_is_empty l"
    using rep' list_rep_is_empty [OF rep] Cons by (auto simp: list_rep_def)
  show ?thesis
  proof (cases "e = data")
    case True
    let ?l = "l\<lparr>nodes := release a (nodes l), list_len := list_len l - 1,
                list_tail := (if ds = [] then nx else list_tail l), list_head := nx\<rparr>"
    have "a \<notin> fst ` set ds" "fst ` set (nodes l) = insert a (fst ` set ds)"
      using rep' by (auto simp: list_rep_def)
    then have "list_rep ?l ds"
      using rep' at by (auto simp: list_rep_def)
    then show ?thesis
      using True at hd ne d Cons c
      by (cases "run_free_cb l data s") (auto simp: list_remove_def list_free_node_at Let_def)
  next
    case False
    have "length ds \<le> length (nodes l)" using list_rep_length [OF rep] Cons by simp
    from list_remove_loop_rep [OF rep' at(1) this, of data s] False at hd ne d Cons c
    show ?thesis
      by (cases "data \<in> snd ` set ds") (simp_all add: list_remove_def)
  qed
qed

text \<open>Clearing: the callback runs on every element, from the front.\<close>

fun run_free_cbs :: "'s list_t \<Rightarrow> ptr list \<Rightarrow> 's \<Rightarrow> 's res" where
  "run_free_cbs l [] s = Inr s"
| "run_free_cbs l (d # ds) s = rbind (run_free_cb l d s) (run_free_cbs l ds)"

lemma run_free_cbs_cong: "free_cb l = free_cb l' \<Longrightarrow> run_free_cbs l ds s = run_free_cbs l' ds s"
proof (induction ds arbitrary: s)
  case (Cons d ds)
  then show ?case
    by (cases "run_free_cb l' d s") (simp_all add: run_free_cb_cong [of l l'])
qed simp

lemma list_clear_loop_rep:
  assumes "seg (map_of (nodes l)) p cs NULL" and "distinct (map fst cs)"
    and "set (map fst cs) = fst ` set (nodes l)" and "length cs \<le> k"
  shows "\<exists>l'. list_clear_loop k l p s =
             rbind (run_free_cbs l (map snd cs) s) (\<lambda>s'. Inr (l', s')) \<and>
           nodes l' = [] \<and> free_cb l' = free_cb l \<and> list_allocator l' = list_allocator l"
  using assms
proof (induction cs arbitrary: l p k s)
  case Nil
  then show ?case by (cases k) auto
next
  case (Cons c cs)
  obtain a d where c: "c = (a, d)" by (cases c)
  obtain k' where k: "k = Suc k'" using Cons.prems(4) by (cases k) auto
  from Cons.prems(1) c obtain nx where p: "p = a" "a \<noteq> NULL"
    and at: "map_of (nodes l) a = Some \<lparr>node_next = nx, node_data = d\<rparr>"
    and seg: "seg (map_of (nodes l)) nx cs NULL"
    by auto
  let ?l = "l\<lparr>nodes := release a (nodes l), list_len := list_len l - 1\<rparr>"
  have sub: "seg (map_of (nodes ?l)) nx cs NULL" "distinct (map fst cs)"
    "set (map fst cs) = fst ` set (nodes ?l)" "length cs \<le> k'"
    using seg Cons.prems c k by auto
  have cbs: "run_free_cbs ?l ds s = run_free_cbs l ds s" for ds s
    by (rule run_free_cbs_cong) simp
  show ?case
  proof (cases "run_free_cb l d s")
    case (Inl e)
    then show ?thesis
      using p at k c by (intro exI [of _ "l\<lparr>nodes := []\<rparr>"]) (simp add: list_free_node_at)
  next
    case (Inr s1)
    then show ?thesis
      using p at k c Cons.IH [OF sub, of s1] by (auto simp: list_free_node_at cbs)
  qed
qed

lemma list_clear_rep:
  assumes rep: "list_rep l cs"
  shows "\<exists>l'. list_clear l s = rbind (run_free_cbs l (map snd cs) s) (\<lambda>s'. Inr (l', s')) \<and>
           list_rep l' [] \<and> free_cb l' = free_cb l \<and> list_allocator l' = list_allocator l"
proof -
  obtain l1 where loop: "list_clear_loop (length (nodes l)) l (list_head l) s =
             rbind (run_free_cbs l (map snd cs) s) (\<lambda>s'. Inr (l1, s'))"
    and l1: "nodes l1 = []" "free_cb l1 = free_cb l" "list_allocator l1 = list_allocator l"
    using list_clear_loop_rep [of l "list_head l" cs "length (nodes l)" s]
      rep list_rep_length [OF rep] by (auto simp: list_rep_def)
  show ?thesis
    by (rule exI [of _ "l1\<lparr>list_head := NULL, list_tail := NULL, list_len := 0\<rparr>"])
       (use l1 in \<open>simp add: list_clear_def loop rbind_assoc list_rep_def\<close>)
qed

text \<open>Iteration: the callback runs on the elements in order until it answers false.\<close>

fun cells_foreach ::
  "(ptr \<times> ptr) list \<Rightarrow> (ptr \<Rightarrow> 'c \<Rightarrow> (bool \<times> 'c) res) \<Rightarrow> 'c \<Rightarrow> (ptr \<times> 'c) res" where
  "cells_foreach [] callback c = Inr (NULL, c)"
| "cells_foreach ((a, d) # cs) callback c =
     rbind (callback d c) (\<lambda>(go_on, c1).
       if go_on then cells_foreach cs callback c1 else Inr (a, c1))"

lemma list_foreach_loop_seg:
  "seg (map_of (nodes l)) p cs NULL \<Longrightarrow> length cs \<le> k \<Longrightarrow>
     list_foreach_loop k l p callback c = cells_foreach cs callback c"
proof (induction cs arbitrary: p k c)
  case Nil
  then show ?case by (cases k) auto
next
  case (Cons x cs)
  then show ?case
    by (cases x; cases k) (auto simp: rbind_def split: sum.splits)
qed

lemma list_foreach_rep:
  "list_rep l cs \<Longrightarrow> list_foreach l callback c = cells_foreach cs callback c"
  by (simp add: list_foreach_def list_rep_length) (simp add: list_rep_def list_foreach_loop_seg)

section \<open>The operations on well-formed lists\<close>

text \<open>The allocator has memory for one more node; two lists agree on callback and allocator.\<close>

definition list_room :: "'s list_t \<Rightarrow> bool" where
  "list_room l \<longleftrightarrow> list_allocator l (live (nodes l)) \<noteq> NULL"

definition list_same_cfg :: "'s list_t \<Rightarrow> 's list_t \<Rightarrow> bool" where
  "list_same_cfg l l' \<longleftrightarrow> free_cb l' = free_cb l \<and> list_allocator l' = list_allocator l"

lemma list_same_cfgD:
  "list_same_cfg l l' \<Longrightarrow> free_cb l' = free_cb l"
  "list_same_cfg l l' \<Longrightarrow> list_allocator l' = list_allocator l"
  "list_same_cfg l l' \<Longrightarrow> run_free_cb l' = run_free_cb l"
  by (simp_all add: list_same_cfg_def run_free_cb_def fun_eq_iff)

lemma list_inv_room:
  "list_inv l \<Longrightarrow> list_room l \<Longrightarrow> list_allocator l (live (nodes l)) \<notin> fst ` set (nodes l)"
  using fresh_allocD [of "list_allocator l" "live (nodes l)"] by (simp add: list_inv_def list_room_def)

lemma list_inv_repE:
  assumes "list_inv l"
  obtains cs where "list_rep l cs" and "list_elems l = map snd cs" and "fresh_alloc (list_allocator l)"
  using assms by (auto simp: list_inv_iff list_rep_elems)

lemma list_inv_repI:
  "list_rep l' cs \<Longrightarrow> fresh_alloc (list_allocator l) \<Longrightarrow> free_cb l' = free_cb l \<Longrightarrow>
     list_allocator l' = list_allocator l \<Longrightarrow>
     list_inv l' \<and> list_elems l' = map snd cs \<and> list_same_cfg l l'"
  by (auto simp: list_inv_iff list_rep_elems list_same_cfg_def)

lemma list_new_ok:
  assumes "p \<noteq> NULL" and "fresh_alloc alloc"
  obtains l where "list_new_internal p cb alloc = Some l" and "list_inv l" and "list_elems l = []"
    and "free_cb l = cb" and "list_allocator l = alloc"
proof -
  obtain l where l: "list_new_internal p cb alloc = Some l"
    using assms(1) by (simp add: list_new_internal_def)
  with list_new_rep [OF l] assms(2) list_inv_iff list_rep_elems that show ?thesis
    by (metis list.map(1))
qed

lemma list_length_ok: "list_inv l \<Longrightarrow> unat (list_length l) = length (list_elems l)"
  by (auto simp: list_length_def list_rep_len elim!: list_inv_repE)

lemma list_is_empty_ok: "list_inv l \<Longrightarrow> list_is_empty l \<longleftrightarrow> list_elems l = []"
  by (auto simp: list_rep_is_empty elim!: list_inv_repE)

lemma list_contains_ok:
  "list_inv l \<Longrightarrow> data \<noteq> NULL \<Longrightarrow> list_contains l data = Inr (data \<in> set (list_elems l))"
  by (auto simp: list_contains_rep elim!: list_inv_repE)

lemma list_front_ok: "list_inv l \<Longrightarrow> list_elems l = x # xs \<Longrightarrow> list_front l = Inr x"
  by (auto simp: list_front_rep elim!: list_inv_repE)

lemma list_back_ok: "list_inv l \<Longrightarrow> list_elems l = xs @ [x] \<Longrightarrow> list_back l = Inr x"
  by (auto simp: list_back_rep map_eq_append_conv elim!: list_inv_repE)

lemma list_front_empty: "list_inv l \<Longrightarrow> list_elems l = [] \<Longrightarrow> list_front l = Inl AssertFailed"
  using list_is_empty_ok [of l] by (simp add: list_front_def)

lemma list_back_empty: "list_inv l \<Longrightarrow> list_elems l = [] \<Longrightarrow> list_back l = Inl AssertFailed"
  using list_is_empty_ok [of l] by (simp add: list_back_def)

lemma list_append_ok:
  assumes "list_inv l" and "data \<noteq> NULL" and "list_room l"
  shows "\<exists>l'. list_append l data = Inr (True, l') \<and> list_inv l' \<and>
           list_elems l' = list_elems l @ [data] \<and> list_same_cfg l l'"
proof -
  obtain cs where cs: "list_rep l cs" "list_elems l = map snd cs" "fresh_alloc (list_allocator l)"
    using assms(1) by (rule list_inv_repE)
  from list_append_rep [OF cs(1) assms(2) refl] assms(3) list_inv_room [OF assms(1,3)]
  show ?thesis using cs(2) list_inv_repI [OF _ cs(3)] by (fastforce simp: list_room_def)
qed

lemma list_append_full:
  "data \<noteq> NULL \<Longrightarrow> \<not> list_room l \<Longrightarrow> list_append l data = Inr (False, l)"
  by (simp add: list_append_def list_room_def)

lemma list_prepend_ok:
  assumes "list_inv l" and "data \<noteq> NULL" and "list_room l"
  shows "\<exists>l'. list_prepend l data = Inr (True, l') \<and> list_inv l' \<and>
           list_elems l' = data # list_elems l \<and> list_same_cfg l l'"
proof -
  obtain cs where cs: "list_rep l cs" "list_elems l = map snd cs" "fresh_alloc (list_allocator l)"
    using assms(1) by (rule list_inv_repE)
  from list_prepend_rep [OF cs(1) assms(2) refl] assms(3) list_inv_room [OF assms(1,3)]
  show ?thesis using cs(2) list_inv_repI [OF _ cs(3)] by (fastforce simp: list_room_def)
qed

lemma list_prepend_full:
  "data \<noteq> NULL \<Longrightarrow> \<not> list_room l \<Longrightarrow> list_prepend l data = Inr (False, l)"
  by (simp add: list_prepend_def list_room_def)

lemma list_insert_after_ok:
  assumes "list_inv l" and "data \<noteq> NULL" and "list_room l"
    and "list_cells l = bs @ (a, e) # ds"
  shows "\<exists>l'. list_insert_after l a data = Inr (True, l') \<and> list_inv l' \<and>
           list_elems l' = map snd bs @ e # data # map snd ds \<and> list_same_cfg l l'"
proof -
  have cs: "list_rep l (bs @ (a, e) # ds)" "fresh_alloc (list_allocator l)"
    using assms(1,4) by (simp_all add: list_inv_def)
  from list_insert_after_rep [OF cs(1) assms(2) refl] assms(3) list_inv_room [OF assms(1,3)]
  show ?thesis using list_inv_repI [OF _ cs(2)] by (fastforce simp: list_room_def)
qed

lemma list_insert_after_full:
  assumes "list_inv l" and "data \<noteq> NULL" and "list_cells l = bs @ (a, e) # ds" and "\<not> list_room l"
  shows "list_insert_after l a data = Inr (False, l)"
proof -
  have "a \<noteq> NULL" using assms(1,3) seg_addr_nonnull by (force simp: list_inv_def list_rep_def)
  with assms(2,4) show ?thesis by (simp add: list_insert_after_def list_room_def)
qed

lemma list_remove_ok:
  assumes "list_inv l" and "data \<in> set (list_elems l)"
  shows "\<exists>l'. list_remove l data s = rbind (run_free_cb l data s) (\<lambda>s'. Inr (True, l', s')) \<and>
           list_inv l' \<and> list_elems l' = remove1 data (list_elems l) \<and> list_same_cfg l l'"
proof -
  obtain cs where cs: "list_rep l cs" "list_elems l = map snd cs" "fresh_alloc (list_allocator l)"
    using assms(1) by (rule list_inv_repE)
  have d: "data \<noteq> NULL" using assms list_elems_nonnull by blast
  have "data \<in> snd ` set cs" using assms(2) cs(2) by simp
  with list_remove_rep [OF cs(1) d, of s] obtain l' where
    "list_remove l data s = rbind (run_free_cb l data s) (\<lambda>s'. Inr (True, l', s'))"
    "list_rep l' (cells_remove data cs)" "free_cb l' = free_cb l" "list_allocator l' = list_allocator l"
    by auto
  then show ?thesis using cs(2) list_inv_repI [OF _ cs(3)] by (metis map_snd_cells_remove)
qed

lemma list_remove_miss:
  assumes "list_inv l" and "data \<noteq> NULL" and "data \<notin> set (list_elems l)"
  shows "list_remove l data s = Inr (False, l, s)"
proof -
  obtain cs where cs: "list_rep l cs" "list_elems l = map snd cs" "fresh_alloc (list_allocator l)"
    using assms(1) by (rule list_inv_repE)
  then have "data \<notin> snd ` set cs" using assms(3) by simp
  with list_remove_rep [OF cs(1) assms(2), of s] show ?thesis by simp
qed

lemma list_clear_ok:
  assumes "list_inv l"
  shows "\<exists>l'. list_clear l s = rbind (run_free_cbs l (list_elems l) s) (\<lambda>s'. Inr (l', s')) \<and>
           list_inv l' \<and> list_elems l' = [] \<and> list_same_cfg l l'"
proof -
  obtain cs where cs: "list_rep l cs" "list_elems l = map snd cs" "fresh_alloc (list_allocator l)"
    using assms(1) by (rule list_inv_repE)
  from list_clear_rep [OF cs(1), of s] show ?thesis
    using cs(2) list_inv_repI [OF _ cs(3)] by fastforce
qed

lemma list_free_ok:
  "list_inv l \<Longrightarrow> list_free (Some l) s = run_free_cbs l (list_elems l) s"
  using list_clear_ok [of l s]
  by (cases "run_free_cbs l (list_elems l) s") (auto simp: list_free_def)

section \<open>The interface\<close>

text \<open>
  What the clients of the list (hash map, queue, configuration, alarm, reactor) rely on: the
  operations act on the element sequence, and a removed element is handed to the free
  callback exactly once.
\<close>

locale ptr_seq =
  fixes inv :: "'l \<Rightarrow> bool"
    and elems :: "'l \<Rightarrow> ptr list"
    and room :: "'l \<Rightarrow> bool"
    and same_cfg :: "'l \<Rightarrow> 'l \<Rightarrow> bool"
    and on_free :: "'l \<Rightarrow> ptr \<Rightarrow> 's \<Rightarrow> 's res"
    and contains :: "'l \<Rightarrow> ptr \<Rightarrow> bool res"
    and front :: "'l \<Rightarrow> ptr res"
    and last_of :: "'l \<Rightarrow> ptr res"
    and append :: "'l \<Rightarrow> ptr \<Rightarrow> (bool \<times> 'l) res"
    and remove :: "'l \<Rightarrow> ptr \<Rightarrow> 's \<Rightarrow> (bool \<times> 'l \<times> 's) res"
  assumes elems_nonnull: "inv l \<Longrightarrow> NULL \<notin> set (elems l)"
    and contains_iff: "inv l \<Longrightarrow> x \<noteq> NULL \<Longrightarrow> contains l x = Inr (x \<in> set (elems l))"
    and front_Cons: "inv l \<Longrightarrow> elems l = x # xs \<Longrightarrow> front l = Inr x"
    and back_snoc: "inv l \<Longrightarrow> elems l = xs @ [x] \<Longrightarrow> last_of l = Inr x"
    and append_room: "inv l \<Longrightarrow> x \<noteq> NULL \<Longrightarrow> room l \<Longrightarrow>
      \<exists>l'. append l x = Inr (True, l') \<and> inv l' \<and> elems l' = elems l @ [x] \<and> same_cfg l l'"
    and append_no_room: "x \<noteq> NULL \<Longrightarrow> \<not> room l \<Longrightarrow> append l x = Inr (False, l)"
    and remove_hit: "inv l \<Longrightarrow> x \<in> set (elems l) \<Longrightarrow>
      \<exists>l'. remove l x s = rbind (on_free l x s) (\<lambda>s'. Inr (True, l', s')) \<and>
        inv l' \<and> elems l' = remove1 x (elems l) \<and> same_cfg l l'"
    and remove_miss: "inv l \<Longrightarrow> x \<noteq> NULL \<Longrightarrow> x \<notin> set (elems l) \<Longrightarrow> remove l x s = Inr (False, l, s)"
begin

text \<open>Taking the first element off, as a queue does.\<close>

lemma front_remove:
  assumes "inv l" and "elems l = x # xs"
  shows "\<exists>l'. front l = Inr x \<and> remove l x s = rbind (on_free l x s) (\<lambda>s'. Inr (True, l', s')) \<and>
           inv l' \<and> elems l' = xs \<and> same_cfg l l'"
  using front_Cons [OF assms] remove_hit [OF assms(1), of x s] assms(2) by auto

text \<open>Appending in every case keeps the invariant and the order of what was there.\<close>

lemma append_total:
  assumes "inv l" and "x \<noteq> NULL"
  shows "\<exists>ok l'. append l x = Inr (ok, l') \<and> inv l' \<and> (ok \<longleftrightarrow> room l) \<and>
           elems l' = elems l @ (if ok then [x] else [])"
  using append_room [OF assms] append_no_room [OF assms(2)] assms(1) by (cases "room l") auto

text \<open>A round trip: an element appended last is found at the back, and removing it restores the sequence.\<close>

lemma append_remove:
  assumes "inv l" and "x \<noteq> NULL" and "room l" and "x \<notin> set (elems l)"
  shows "\<exists>l1 l2. append l x = Inr (True, l1) \<and> last_of l1 = Inr x \<and>
           remove l1 x s = rbind (on_free l1 x s) (\<lambda>s'. Inr (True, l2, s')) \<and>
           inv l2 \<and> elems l2 = elems l"
proof -
  obtain l1 where l1: "append l x = Inr (True, l1)" "inv l1" "elems l1 = elems l @ [x]"
    using append_room [OF assms(1-3)] by blast
  moreover obtain l2 where "remove l1 x s = rbind (on_free l1 x s) (\<lambda>s'. Inr (True, l2, s'))"
    "inv l2" "elems l2 = remove1 x (elems l1)"
    using remove_hit [OF l1(2), of x s] l1(3) by auto
  ultimately show ?thesis using back_snoc [OF l1(2,3)] assms(4) by (auto simp: remove1_append)
qed

end

interpretation ls: ptr_seq list_inv list_elems list_room list_same_cfg run_free_cb
  list_contains list_front list_back list_append list_remove
  by unfold_locales
    (simp_all add: list_elems_nonnull list_contains_ok list_front_ok list_back_ok list_append_ok
      list_append_full list_remove_ok list_remove_miss)

section \<open>Properties\<close>

text \<open>A list of two elements whose free callback records what it is given, for the witnesses.\<close>

definition demo_list :: "ptr list list_t" where
  "demo_list =
     \<lparr>list_head = 16, list_tail = 32, list_len = 2, free_cb = Some (\<lambda>d s. Inr (s @ [d])),
      list_allocator = arena_alloc [16, 32, 48],
      nodes = [(16, \<lparr>node_next = 32, node_data = 7\<rparr>), (32, \<lparr>node_next = NULL, node_data = 9\<rparr>)]\<rparr>"

lemma demo_list_facts:
  "list_inv demo_list" "list_elems demo_list = [7, 9]" "list_room demo_list"
  "list_cells demo_list = [(16, 7), (32, 9)]"
  by (simp_all add: list_inv_def list_rep_def list_cells_def list_elems_def list_room_def demo_list_def
      arena_alloc_def)

definition demo_empty :: "ptr list list_t" where
  "demo_empty =
     \<lparr>list_head = NULL, list_tail = NULL, list_len = 0, free_cb = None,
      list_allocator = arena_alloc [16, 32, 48], nodes = []\<rparr>"

lemma demo_empty_facts:
  "list_inv demo_empty" "list_elems demo_empty = []" "list_room demo_empty"
  by (simp_all add: list_inv_def list_rep_def list_cells_def list_elems_def list_room_def demo_empty_def
      arena_alloc_def)

text \<open>
  C26. Insertion into any well-formed list, empty or not. With memory for a node, \<open>list_append\<close>
  puts the element last, \<open>list_prepend\<close> first and \<open>list_insert_after\<close> right behind the element of
  any given node of the list; each answers true and leaves a well-formed list with the same
  callback and allocator. Without memory each answers false and the list is unchanged.
\<close>

theorem list_insertion_correct:
  assumes "list_inv l" and "data \<noteq> NULL"
  shows "if list_room l then
           (\<exists>l'. list_append l data = Inr (True, l') \<and> list_inv l' \<and> list_same_cfg l l' \<and>
              list_elems l' = list_elems l @ [data]) \<and>
           (\<exists>l'. list_prepend l data = Inr (True, l') \<and> list_inv l' \<and> list_same_cfg l l' \<and>
              list_elems l' = data # list_elems l) \<and>
           (\<forall>bs a e ds. list_cells l = bs @ (a, e) # ds \<longrightarrow>
              (\<exists>l'. list_insert_after l a data = Inr (True, l') \<and> list_inv l' \<and> list_same_cfg l l' \<and>
                 list_elems l' = map snd bs @ e # data # map snd ds))
         else list_append l data = Inr (False, l) \<and> list_prepend l data = Inr (False, l) \<and>
           (\<forall>bs a e ds. list_cells l = bs @ (a, e) # ds \<longrightarrow>
              list_insert_after l a data = Inr (False, l))"
proof (cases "list_room l")
  case True
  with list_append_ok [OF assms] list_prepend_ok [OF assms] list_insert_after_ok [OF assms]
  show ?thesis by (simp only: if_True) blast
next
  case False
  with list_append_full [OF assms(2) False] list_prepend_full [OF assms(2) False]
    list_insert_after_full [OF assms _ False]
  show ?thesis by simp
qed

theorem list_insertion_correct_witness:
  "list_inv demo_list \<and> (\<exists>l'. list_insert_after demo_list 16 8 = Inr (True, l') \<and>
     list_inv l' \<and> list_elems l' = [7, 8, 9]) \<and>
   list_inv demo_empty \<and> (\<exists>l'. list_append demo_empty 8 = Inr (True, l') \<and> list_elems l' = [8]) \<and>
   (\<exists>l'. list_prepend demo_empty 8 = Inr (True, l') \<and> list_elems l' = [8])"
proof -
  have "list_cells demo_list = [] @ (16, 7) # [(32, 9)]" by (simp add: demo_list_facts)
  with list_insertion_correct [OF demo_list_facts(1), of 8] demo_list_facts(3)
  have "\<exists>l'. list_insert_after demo_list 16 8 = Inr (True, l') \<and> list_inv l' \<and> list_elems l' = [7, 8, 9]"
    by fastforce
  moreover have "(\<exists>l'. list_append demo_empty 8 = Inr (True, l') \<and> list_elems l' = [8]) \<and>
      (\<exists>l'. list_prepend demo_empty 8 = Inr (True, l') \<and> list_elems l' = [8])"
    using list_insertion_correct [OF demo_empty_facts(1), of 8] demo_empty_facts(2,3)
    by (simp split: if_splits) blast
  ultimately show ?thesis by (simp add: demo_list_facts(1) demo_empty_facts(1))
qed

text \<open>
  C27. Removal: \<open>list_remove\<close> answers whether the element occurs; if it does, its first
  occurrence disappears, the free callback has run exactly once, on that element, and the
  list has one node less; if not, nothing changes and the callback does not run.
\<close>

theorem list_remove_correct:
  assumes "list_inv l" and "data \<noteq> NULL"
  shows "if data \<in> set (list_elems l)
         then \<exists>l'. list_remove l data s = rbind (run_free_cb l data s) (\<lambda>s'. Inr (True, l', s')) \<and>
                list_inv l' \<and> list_elems l' = remove1 data (list_elems l) \<and>
                length (nodes l') + 1 = length (nodes l)
         else list_remove l data s = Inr (False, l, s)"
proof (cases "data \<in> set (list_elems l)")
  case True
  obtain l' where l': "list_remove l data s = rbind (run_free_cb l data s) (\<lambda>s'. Inr (True, l', s'))"
    "list_inv l'" "list_elems l' = remove1 data (list_elems l)"
    using list_remove_ok [OF assms(1) True, of s] by blast
  have len: "length (nodes m) = length (list_elems m)" if "list_inv m" for m :: "'a list_t"
    using that by (auto simp: list_rep_length elim!: list_inv_repE)
  show ?thesis
    using True l' len [OF l'(2)] len [OF assms(1)]
    by (auto simp: length_remove1 intro!: Suc_pred length_pos_if_in_set)
next
  case False
  with list_remove_miss [OF assms] show ?thesis by simp
qed

theorem list_remove_correct_witness:
  "list_inv demo_list \<and> (\<exists>l'. list_remove demo_list 7 [] = Inr (True, l', [7]) \<and> list_elems l' = [9])"
  using list_remove_correct [OF demo_list_facts(1), of 7 "[]"] demo_list_facts(1,2)
  by (auto simp: run_free_cb_def demo_list_def)

text \<open>
  Clearing: \<open>list_clear\<close> runs the free callback on every element, front to back, frees
  every node and leaves the state of a new list.
\<close>

theorem list_clear_correct:
  assumes "list_inv l"
  shows "\<exists>l'. list_clear l s = rbind (run_free_cbs l (list_elems l) s) (\<lambda>s'. Inr (l', s')) \<and>
           Some l' = list_new_internal 1 (free_cb l) (list_allocator l)"
proof -
  obtain cs where cs: "list_rep l cs" "list_elems l = map snd cs" using assms by (rule list_inv_repE)
  from list_clear_rep [OF cs(1), of s] cs(2) obtain l' where
    "list_clear l s = rbind (run_free_cbs l (list_elems l) s) (\<lambda>s'. Inr (l', s'))"
    "list_rep l' []" "free_cb l' = free_cb l" "list_allocator l' = list_allocator l"
    by auto
  then show ?thesis
    by (intro exI [of _ l']) (auto simp: list_new_internal_def list_rep_def intro: list_t.equality)
qed

theorem list_clear_correct_witness:
  "list_inv demo_list \<and> (\<exists>l'. list_clear demo_list [] = Inr (l', [7, 9]) \<and> nodes l' = [])"
  using list_clear_correct [OF demo_list_facts(1), of "[]"] demo_list_facts(1,2)
  by (auto simp: run_free_cb_def demo_list_def list_new_internal_def)

text \<open>
  The length field is exact: it never wraps around, since there are fewer than \<open>2^64\<close>
  non-null addresses, so \<open>list_length\<close> is the number of elements and \<open>list_is_empty\<close> tells
  whether there are any.
\<close>

theorem list_length_exact:
  assumes "list_inv l"
  shows "unat (list_length l) = length (list_elems l) \<and> (list_is_empty l \<longleftrightarrow> list_elems l = [])"
  using assms by (simp add: list_length_ok list_is_empty_ok)

theorem list_length_exact_witness:
  "list_inv demo_list \<and> unat (list_length demo_list) = 2"
  using list_length_exact [OF demo_list_facts(1)] demo_list_facts by simp

end
