(* ===== verification/HashFunctions.thy ===== *)
theory HashFunctions
  imports Prelude
begin

text \<open>
  The hash functions of \<open>src/hash_functions.c\<close>. A \<open>hash_index_t\<close> is a \<open>size_t\<close>; all arithmetic
  wraps around. Whether plain \<open>char\<close> is signed depends on the target, so the string hash takes
  that as a parameter: with a signed \<open>char\<close>, adding \<open>name[i]\<close> sign-extends the byte.
\<close>

type_synonym hash_index_t = size_t

definition hash_function_naive :: "ptr \<Rightarrow> hash_index_t" where
  "hash_function_naive key = key"

definition hash_function_integer :: "ptr \<Rightarrow> hash_index_t" where
  "hash_function_integer key = key * 2654435761"

definition hash_function_pointer :: "ptr \<Rightarrow> hash_index_t" where
  "hash_function_pointer key = key * 2654435761"

definition char_to_size :: "bool \<Rightarrow> char \<Rightarrow> size_t" where
  "char_to_size char_is_signed c =
     (let b = (of_char c :: 8 word) in if char_is_signed then scast b else ucast b)"

fun hash_string_loop :: "bool \<Rightarrow> string \<Rightarrow> hash_index_t \<Rightarrow> hash_index_t" where
  "hash_string_loop sg [] hash = hash"
| "hash_string_loop sg (c # cs) hash =
     hash_string_loop sg cs ((push_bit 5 hash + hash) + char_to_size sg c)"

definition hash_function_string :: "bool \<Rightarrow> string \<Rightarrow> hash_index_t" where
  "hash_function_string sg name = hash_string_loop sg (c_string name) 5381"

section \<open>Properties\<close>

lemma push_bit_5_add: "push_bit 5 h + h = 33 * (h :: 64 word)"
  by (simp add: push_bit_eq_mult)

lemma hash_string_loop_foldl:
  "hash_string_loop sg cs h = foldl (\<lambda>h c. 33 * h + char_to_size sg c) h cs"
  by (induction cs arbitrary: h) (simp_all add: push_bit_5_add)

lemma hash_string_loop_poly:
  "hash_string_loop sg cs h =
     33 ^ length cs * h + (\<Sum>i<length cs. 33 ^ (length cs - Suc i) * char_to_size sg (cs ! i))"
proof (induction cs arbitrary: h)
  case (Cons c cs)
  have "(\<Sum>i<length (c # cs). 33 ^ (length (c # cs) - Suc i) * char_to_size sg ((c # cs) ! i)) =
          33 ^ length cs * char_to_size sg c +
          (\<Sum>i<length cs. 33 ^ (length cs - Suc i) * char_to_size sg (cs ! i))"
    by (simp add: sum.lessThan_Suc_shift del: sum.lessThan_Suc)
  then show ?case using Cons.IH by (simp add: push_bit_eq_mult algebra_simps)
qed simp

text \<open>
  The pointer hash loses nothing: multiplication by 2654435761 is invertible modulo
  \<open>2^64\<close>, so two pointers with the same hash are the same pointer, and keys collide only
  through the reduction to a bucket number.
\<close>

theorem hash_function_pointer_inj: "inj hash_function_pointer \<and> inj hash_function_integer"
proof -
  have one: "2654435761 * 14962265741255716689 = (1 :: 64 word)" by code_simp
  have inv: "(x * 2654435761) * 14962265741255716689 = (x :: 64 word)" for x
    unfolding mult.assoc one by (rule mult_1_right)
  have "inj (\<lambda>x :: 64 word. x * 2654435761)"
    by (rule inj_on_inverseI [where g = "\<lambda>y. y * 14962265741255716689"]) (rule inv)
  then show ?thesis
    by (simp add: hash_function_pointer_def [abs_def] hash_function_integer_def [abs_def])
qed

text \<open>
  The string hash is the polynomial in 33 of the bytes of the string, started at 5381,
  modulo \<open>2^64\<close>; bytes behind the terminating NUL do not matter.
\<close>

theorem hash_function_string_poly:
  "hash_function_string sg name =
     (let cs = c_string name; n = length cs in
      33 ^ n * 5381 + (\<Sum>i<n. 33 ^ (n - Suc i) * char_to_size sg (cs ! i)))"
  by (simp add: hash_function_string_def hash_string_loop_poly Let_def)

end
