(* ===== verification/HashMap.thy ===== *)
theory HashMap
  imports OsiList HashFunctions
begin

text \<open>
  The chained hash map of \<open>src/hash_map.c\<close>, on top of the list of \<open>OsiList\<close>.

  Keys are values of a type \<open>'k\<close> (a pointer, or the contents of the string a key points to)
  and data of a type \<open>'d\<close>, with \<open>None\<close> for the null pointer. Entries are objects in a store of
  their own; a bucket is a null pointer or a list of entry addresses. The back pointer
  \<open>hash_map_entry->hash_map\<close> always leads to the owning map and is left implicit. \<open>key_fn\<close> and
  \<open>data_fn\<close> act on a state \<open>'w\<close> of the client (null is \<open>None\<close>). The answer of the allocator to
  the request for a new bucket list is an argument of \<open>hash_map_set\<close>.
\<close>

section \<open>The data\<close>

record ('k, 'd) hash_map_entry_t =
  entry_key :: 'k
  entry_data :: 'd

type_synonym ('k, 'd) entry_store = "(ptr \<times> ('k, 'd) hash_map_entry_t) list"

type_synonym ('k, 'd, 'w) hash_map_bucket_t = "(('k, 'd) entry_store \<times> 'w) list_t option"

record ('k, 'd, 'w) hash_map_t =
  bucket :: "('k, 'd, 'w) hash_map_bucket_t list"
  num_bucket :: size_t
  hash_size :: size_t
  hash_fn :: "'k \<Rightarrow> hash_index_t"
  key_fn :: "('k \<Rightarrow> 'w \<Rightarrow> 'w) option"
  data_fn :: "('d \<Rightarrow> 'w \<Rightarrow> 'w) option"
  hm_allocator :: alloc_fn
  keys_are_equal :: "'k \<Rightarrow> 'k \<Rightarrow> bool"
  entries :: "('k, 'd) entry_store"

section \<open>The operations\<close>

definition default_key_equality :: "'k \<Rightarrow> 'k \<Rightarrow> bool" where
  "default_key_equality x y \<longleftrightarrow> x = y"

text \<open>
  \<open>bucket_free\<close> (\<open>bucket_free_\<close> in the source): the key and data callbacks run, then the entry
  is freed.
\<close>

definition bucket_free ::
  "('k \<Rightarrow> 'w \<Rightarrow> 'w) option \<Rightarrow> ('d \<Rightarrow> 'w \<Rightarrow> 'w) option \<Rightarrow>
   (('k, 'd) entry_store \<times> 'w) list_free_cb" where
  "bucket_free kf df data = (\<lambda>(ents, w).
     rbind (c_assert (data \<noteq> NULL)) (\<lambda>_.
     rbind (deref ents data) (\<lambda>e.
     let w1 = (case kf of None \<Rightarrow> w | Some f \<Rightarrow> f (entry_key e) w);
         w2 = (case df of None \<Rightarrow> w1 | Some f \<Rightarrow> f (entry_data e) w1)
     in Inr (release data ents, w2))))"

text \<open>
  \<open>hash_map_new_internal\<close>: \<open>map_p\<close> and \<open>bucket_p\<close> are the allocator's answers for the map and
  for the bucket array. The array has room for as many buckets as fit into the requested
  \<open>sizeof(hash_map_bucket_t) * num_bucket\<close> bytes, a product that wraps around.
\<close>

definition hash_map_new_internal ::
  "ptr \<Rightarrow> ptr \<Rightarrow> size_t \<Rightarrow> ('k \<Rightarrow> hash_index_t) \<Rightarrow> ('k \<Rightarrow> 'w \<Rightarrow> 'w) option \<Rightarrow>
   ('d \<Rightarrow> 'w \<Rightarrow> 'w) option \<Rightarrow> ('k \<Rightarrow> 'k \<Rightarrow> bool) option \<Rightarrow> alloc_fn \<Rightarrow>
   ('k, 'd, 'w) hash_map_t option res" where
  "hash_map_new_internal map_p bucket_p nb hf kf df equality_fn zeroed_allocator =
     rbind (c_assert (nb > 0)) (\<lambda>_.
     if map_p = NULL then Inr None
     else if bucket_p = NULL then Inr None
     else Inr (Some
       \<lparr>bucket = replicate (unat (8 * nb) div 8) None, num_bucket = nb, hash_size = 0,
        hash_fn = hf, key_fn = kf, data_fn = df, hm_allocator = zeroed_allocator,
        keys_are_equal = (case equality_fn of None \<Rightarrow> default_key_equality | Some f \<Rightarrow> f),
        entries = []\<rparr>))"

definition hash_map_is_empty :: "('k, 'd, 'w) hash_map_t \<Rightarrow> bool" where
  "hash_map_is_empty m \<longleftrightarrow> hash_size m = 0"

definition hash_map_size :: "('k, 'd, 'w) hash_map_t \<Rightarrow> size_t" where
  "hash_map_size m = hash_size m"

definition hash_map_num_buckets :: "('k, 'd, 'w) hash_map_t \<Rightarrow> size_t" where
  "hash_map_num_buckets m = num_bucket m"

text \<open>\<open>hash_map->hash_fn(key) % hash_map->num_bucket\<close>, and reading \<open>hash_map->bucket[i].list\<close>.\<close>

definition bucket_index :: "('k, 'd, 'w) hash_map_t \<Rightarrow> 'k \<Rightarrow> hash_index_t res" where
  "bucket_index m key =
     (if num_bucket m = 0 then Inl DivByZero else Inr (hash_fn m key mod num_bucket m))"

definition bucket_at :: "('k, 'd, 'w) hash_map_t \<Rightarrow> hash_index_t \<Rightarrow> ('k, 'd, 'w) hash_map_bucket_t res" where
  "bucket_at m i = (if unat i < length (bucket m) then Inr (bucket m ! unat i) else Inl OutOfBounds)"

definition set_bucket ::
  "('k, 'd, 'w) hash_map_t \<Rightarrow> hash_index_t \<Rightarrow> ('k, 'd, 'w) hash_map_bucket_t \<Rightarrow> ('k, 'd, 'w) hash_map_t" where
  "set_bucket m i b = m\<lparr>bucket := (bucket m)[unat i := b]\<rparr>"

fun find_bucket_entry_loop ::
  "nat \<Rightarrow> ('k, 'd, 'w) hash_map_t \<Rightarrow> (('k, 'd) entry_store \<times> 'w) list_t \<Rightarrow> ptr \<Rightarrow> 'k \<Rightarrow> ptr res" where
  "find_bucket_entry_loop 0 m l iter key = (if iter = list_end l then Inr NULL else Inl Diverges)"
| "find_bucket_entry_loop (Suc n) m l iter key =
     (if iter = list_end l then Inr NULL
      else rbind (list_node l iter) (\<lambda>entry.
        rbind (deref (entries m) entry) (\<lambda>e.
        if keys_are_equal m (entry_key e) key then Inr entry
        else rbind (list_next l iter) (\<lambda>next. find_bucket_entry_loop n m l next key))))"

definition find_bucket_entry ::
  "('k, 'd, 'w) hash_map_t \<Rightarrow> ('k, 'd, 'w) hash_map_bucket_t \<Rightarrow> 'k \<Rightarrow> ptr res" where
  "find_bucket_entry m hash_bucket_list key =
     (case hash_bucket_list of None \<Rightarrow> Inr NULL
      | Some l \<Rightarrow> find_bucket_entry_loop (length (nodes l)) m l (list_begin l) key)"

definition hash_map_has_key :: "('k, 'd, 'w) hash_map_t \<Rightarrow> 'k \<Rightarrow> bool res" where
  "hash_map_has_key m key =
     rbind (bucket_index m key) (\<lambda>hash_key.
     rbind (bucket_at m hash_key) (\<lambda>hash_bucket_list.
     rbind (find_bucket_entry m hash_bucket_list key) (\<lambda>entry. Inr (entry \<noteq> NULL))))"

definition hash_map_get :: "('k, 'd, 'w) hash_map_t \<Rightarrow> 'k \<Rightarrow> 'd option res" where
  "hash_map_get m key =
     rbind (bucket_index m key) (\<lambda>hash_key.
     rbind (bucket_at m hash_key) (\<lambda>hash_bucket_list.
     rbind (find_bucket_entry m hash_bucket_list key) (\<lambda>entry.
     if entry \<noteq> NULL then rbind (deref (entries m) entry) (\<lambda>e. Inr (Some (entry_data e)))
     else Inr None)))"

text \<open>
  \<open>hash_map_set\<close>, in the order of the code: create the bucket list if there is none, look for
  an entry with an equal key and remove it (or count a new one, \<open>hash_map_drop_old\<close>),
  allocate the new entry, append it.
\<close>

definition hash_map_drop_old ::
  "('k, 'd, 'w) hash_map_t \<Rightarrow> hash_index_t \<Rightarrow> (('k, 'd) entry_store \<times> 'w) list_t \<Rightarrow> ptr \<Rightarrow> 'w \<Rightarrow>
   (('k, 'd, 'w) hash_map_t \<times> (('k, 'd) entry_store \<times> 'w) list_t \<times> 'w) res" where
  "hash_map_drop_old m hash_key l old w =
     (if old \<noteq> NULL
      then rbind (list_remove l old (entries m, w)) (\<lambda>(rc, l1, ents, w1).
           rbind (c_assert rc) (\<lambda>_.
             Inr ((set_bucket m hash_key (Some l1))\<lparr>entries := ents\<rparr>, l1, w1)))
      else Inr (m\<lparr>hash_size := hash_size m + 1\<rparr>, l, w))"

definition hash_map_set ::
  "ptr \<Rightarrow> ('k, 'd, 'w) hash_map_t \<Rightarrow> 'k \<Rightarrow> 'd option \<Rightarrow> 'w \<Rightarrow>
   (bool \<times> ('k, 'd, 'w) hash_map_t \<times> 'w) res" where
  "hash_map_set list_p m key data w =
     rbind (case data of None \<Rightarrow> Inl AssertFailed | Some d \<Rightarrow> Inr d) (\<lambda>d.
     rbind (bucket_index m key) (\<lambda>hash_key.
     rbind (bucket_at m hash_key) (\<lambda>b.
     case (case b of None \<Rightarrow> list_new_internal list_p (Some (bucket_free (key_fn m) (data_fn m)))
                               (hm_allocator m)
           | Some l \<Rightarrow> Some l) of
       None \<Rightarrow> Inr (False, m, w)
     | Some l \<Rightarrow>
         let m1 = set_bucket m hash_key (Some l) in
         rbind (find_bucket_entry m1 (Some l) key) (\<lambda>old.
         rbind (hash_map_drop_old m1 hash_key l old w) (\<lambda>(m2, l2, w2).
         let entry = hm_allocator m2 (live (entries m2)) in
         if entry = NULL then Inr (False, m2, w2)
         else
           let m3 = m2\<lparr>entries := store_at entry \<lparr>entry_key = key, entry_data = d\<rparr> (entries m2)\<rparr> in
           rbind (list_append l2 entry) (\<lambda>(ok, l3).
             Inr (ok, set_bucket m3 hash_key (Some l3), w2)))))))"

definition hash_map_erase ::
  "('k, 'd, 'w) hash_map_t \<Rightarrow> 'k \<Rightarrow> 'w \<Rightarrow> (bool \<times> ('k, 'd, 'w) hash_map_t \<times> 'w) res" where
  "hash_map_erase m key w =
     rbind (bucket_index m key) (\<lambda>hash_key.
     rbind (bucket_at m hash_key) (\<lambda>b.
     rbind (find_bucket_entry m b key) (\<lambda>entry.
     if entry = NULL then Inr (False, m, w)
     else
       let m1 = m\<lparr>hash_size := hash_size m - 1\<rparr> in
       case b of None \<Rightarrow> Inl BadPointer
       | Some l \<Rightarrow>
           rbind (list_remove l entry (entries m1, w)) (\<lambda>(rc, l1, ents, w1).
             Inr (rc, (set_bucket m1 hash_key (Some l1))\<lparr>entries := ents\<rparr>, w1)))))"

text \<open>The loop over all bucket numbers; \<open>hash_size\<close> is left as it is.\<close>

fun hash_map_clear_loop ::
  "hash_index_t list \<Rightarrow> ('k, 'd, 'w) hash_map_t \<Rightarrow> 'w \<Rightarrow> (('k, 'd, 'w) hash_map_t \<times> 'w) res" where
  "hash_map_clear_loop [] m w = Inr (m, w)"
| "hash_map_clear_loop (i # is) m w =
     rbind (bucket_at m i) (\<lambda>b.
     case b of None \<Rightarrow> hash_map_clear_loop is m w
     | Some l \<Rightarrow>
         rbind (list_free (Some l) (entries m, w)) (\<lambda>(ents, w1).
           hash_map_clear_loop is ((set_bucket m i None)\<lparr>entries := ents\<rparr>) w1))"

definition bucket_numbers :: "('k, 'd, 'w) hash_map_t \<Rightarrow> hash_index_t list" where
  "bucket_numbers m = map word_of_nat [0..<unat (num_bucket m)]"

definition hash_map_clear ::
  "('k, 'd, 'w) hash_map_t \<Rightarrow> 'w \<Rightarrow> (('k, 'd, 'w) hash_map_t \<times> 'w) res" where
  "hash_map_clear m w = hash_map_clear_loop (bucket_numbers m) m w"

definition hash_map_free :: "('k, 'd, 'w) hash_map_t option \<Rightarrow> 'w \<Rightarrow> 'w res" where
  "hash_map_free mp w =
     (case mp of None \<Rightarrow> Inr w | Some m \<Rightarrow> rbind (hash_map_clear m w) (\<lambda>(_, w1). Inr w1))"

text \<open>
  \<open>hash_map_foreach\<close>: the callback answers whether to go on; the inner loop reports whether
  the whole iteration is over.
\<close>

fun foreach_bucket_loop ::
  "nat \<Rightarrow> ('k, 'd, 'w) hash_map_t \<Rightarrow> (('k, 'd) entry_store \<times> 'w) list_t \<Rightarrow> ptr \<Rightarrow>
   (('k, 'd) hash_map_entry_t \<Rightarrow> 'c \<Rightarrow> (bool \<times> 'c) res) \<Rightarrow> 'c \<Rightarrow> (bool \<times> 'c) res" where
  "foreach_bucket_loop 0 m l iter callback c =
     (if iter = list_end l then Inr (True, c) else Inl Diverges)"
| "foreach_bucket_loop (Suc n) m l iter callback c =
     (if iter = list_end l then Inr (True, c)
      else rbind (list_node l iter) (\<lambda>entry.
        rbind (deref (entries m) entry) (\<lambda>e.
        rbind (callback e c) (\<lambda>(go_on, c1).
        if \<not> go_on then Inr (False, c1)
        else rbind (list_next l iter) (\<lambda>next. foreach_bucket_loop n m l next callback c1)))))"

fun hash_map_foreach_loop ::
  "hash_index_t list \<Rightarrow> ('k, 'd, 'w) hash_map_t \<Rightarrow>
   (('k, 'd) hash_map_entry_t \<Rightarrow> 'c \<Rightarrow> (bool \<times> 'c) res) \<Rightarrow> 'c \<Rightarrow> 'c res" where
  "hash_map_foreach_loop [] m callback c = Inr c"
| "hash_map_foreach_loop (i # is) m callback c =
     rbind (bucket_at m i) (\<lambda>b.
     case b of None \<Rightarrow> hash_map_foreach_loop is m callback c
     | Some l \<Rightarrow>
         rbind (foreach_bucket_loop (length (nodes l)) m l (list_begin l) callback c) (\<lambda>(go_on, c1).
         if go_on then hash_map_foreach_loop is m callback c1 else Inr c1))"

definition hash_map_foreach ::
  "('k, 'd, 'w) hash_map_t \<Rightarrow> (('k, 'd) hash_map_entry_t \<Rightarrow> 'c \<Rightarrow> (bool \<times> 'c) res) \<Rightarrow> 'c \<Rightarrow> 'c res" where
  "hash_map_foreach m callback c = hash_map_foreach_loop (bucket_numbers m) m callback c"

section \<open>The invariant and the abstract map\<close>

text \<open>
  The entry store is the abstract content. The invariant ties the buckets to it: every live
  entry sits in the bucket its key hashes to, once, and no two entries have equal keys. The
  key functions must be an equivalence that respects the hash.
\<close>

definition idx :: "('k, 'd, 'w) hash_map_t \<Rightarrow> 'k \<Rightarrow> nat" where
  "idx m k = unat (hash_fn m k mod num_bucket m)"

fun bucket_ptrs :: "('k, 'd, 'w) hash_map_bucket_t \<Rightarrow> ptr list" where
  "bucket_ptrs None = []"
| "bucket_ptrs (Some l) = list_elems l"

definition bucket_list_ok :: "('k, 'd, 'w) hash_map_t \<Rightarrow> (('k, 'd) entry_store \<times> 'w) list_t \<Rightarrow> bool" where
  "bucket_list_ok m l \<longleftrightarrow>
     list_inv l \<and> free_cb l = Some (bucket_free (key_fn m) (data_fn m)) \<and>
     list_allocator l = hm_allocator m \<and> distinct (list_elems l)"

definition bucket_ok :: "('k, 'd, 'w) hash_map_t \<Rightarrow> nat \<Rightarrow> bool" where
  "bucket_ok m i \<longleftrightarrow>
     (case bucket m ! i of None \<Rightarrow> True | Some l \<Rightarrow> bucket_list_ok m l) \<and>
     (\<forall>p \<in> set (bucket_ptrs (bucket m ! i)).
        \<exists>e. map_of (entries m) p = Some e \<and> idx m (entry_key e) = i)"

definition key_laws :: "('k \<Rightarrow> hash_index_t) \<Rightarrow> ('k \<Rightarrow> 'k \<Rightarrow> bool) \<Rightarrow> bool" where
  "key_laws hf eq \<longleftrightarrow> equivp eq \<and> (\<forall>x y. eq x y \<longrightarrow> hf x = hf y)"

definition hm_inv :: "('k, 'd, 'w) hash_map_t \<Rightarrow> bool" where
  "hm_inv m \<longleftrightarrow>
     num_bucket m \<noteq> 0 \<and> length (bucket m) = unat (num_bucket m) \<and>
     fresh_alloc (hm_allocator m) \<and> key_laws (hash_fn m) (keys_are_equal m) \<and>
     distinct (live (entries m)) \<and>
     (\<forall>i < length (bucket m). bucket_ok m i) \<and>
     (\<forall>p e. map_of (entries m) p = Some e \<longrightarrow> p \<in> set (bucket_ptrs (bucket m ! idx m (entry_key e)))) \<and>
     (\<forall>p q e f. map_of (entries m) p = Some e \<longrightarrow> map_of (entries m) q = Some f \<longrightarrow>
        keys_are_equal m (entry_key e) (entry_key f) \<longrightarrow> p = q)"

text \<open>\<open>hash_size\<close> counts the entries.\<close>

definition hm_size_ok :: "('k, 'd, 'w) hash_map_t \<Rightarrow> bool" where
  "hm_size_ok m \<longleftrightarrow> hash_size m = word_of_nat (length (entries m))"

definition hm_lookup :: "('k, 'd, 'w) hash_map_t \<Rightarrow> 'k \<Rightarrow> 'd option" where
  "hm_lookup m k =
     map_option (\<lambda>(p, e). entry_data e)
       (List.find (\<lambda>(p, e). keys_are_equal m (entry_key e) k) (entries m))"

lemma key_lawsD:
  assumes "key_laws hf eq"
  shows "eq x x" and "eq x y \<Longrightarrow> eq y x" and "eq x y \<Longrightarrow> eq y z \<Longrightarrow> eq x z" and "eq x y \<Longrightarrow> hf x = hf y"
  using assms unfolding key_laws_def
  by (auto dest: equivp_reflp equivp_symp equivp_transp)

lemma key_laws_default: "key_laws hf default_key_equality"
  by (auto simp: key_laws_def default_key_equality_def intro!: equivpI reflpI sympI transpI)

lemma idx_bound: "hm_inv m \<Longrightarrow> idx m k < length (bucket m)"
  by (simp add: hm_inv_def idx_def unat_mod_distrib unat_gt_0)

lemma bucket_index_ok: "hm_inv m \<Longrightarrow> bucket_index m k = Inr (hash_fn m k mod num_bucket m)"
  by (simp add: bucket_index_def hm_inv_def)

lemma bucket_at_ok: "hm_inv m \<Longrightarrow> bucket_at m (hash_fn m k mod num_bucket m) = Inr (bucket m ! idx m k)"
  using idx_bound [of m k] by (simp add: bucket_at_def idx_def)

lemma hm_inv_bucket:
  "hm_inv m \<Longrightarrow> i < length (bucket m) \<Longrightarrow> bucket m ! i = Some l \<Longrightarrow> bucket_list_ok m l"
  by (auto simp: hm_inv_def bucket_ok_def split: option.splits)

lemma hm_inv_bucket_entry:
  assumes "hm_inv m" and "i < length (bucket m)" and "p \<in> set (bucket_ptrs (bucket m ! i))"
  obtains e where "map_of (entries m) p = Some e" and "idx m (entry_key e) = i"
proof -
  have "bucket_ok m i" using assms(1,2) by (simp add: hm_inv_def)
  then show ?thesis using assms(3) that unfolding bucket_ok_def by blast
qed

lemma hm_inv_entry_placed:
  "hm_inv m \<Longrightarrow> map_of (entries m) p = Some e \<Longrightarrow> p \<in> set (bucket_ptrs (bucket m ! idx m (entry_key e)))"
  by (simp add: hm_inv_def)

lemma hm_inv_unique:
  "hm_inv m \<Longrightarrow> map_of (entries m) p = Some e \<Longrightarrow> map_of (entries m) q = Some f \<Longrightarrow>
     keys_are_equal m (entry_key e) (entry_key f) \<Longrightarrow> p = q"
  unfolding hm_inv_def by blast

lemma hm_inv_laws: "hm_inv m \<Longrightarrow> key_laws (hash_fn m) (keys_are_equal m)"
  by (simp add: hm_inv_def)

lemma idx_cong: "hm_inv m \<Longrightarrow> keys_are_equal m k k' \<Longrightarrow> idx m k = idx m k'"
  using key_lawsD(4) [OF hm_inv_laws] by (metis idx_def)

lemma hm_inv_ptr_nonnull:
  assumes "hm_inv m" and "map_of (entries m) p = Some e"
  shows "p \<noteq> NULL"
proof
  assume "p = NULL"
  with hm_inv_entry_placed [OF assms] have "NULL \<in> set (bucket_ptrs (bucket m ! idx m (entry_key e)))"
    by simp
  then obtain l where "bucket m ! idx m (entry_key e) = Some l" "NULL \<in> set (list_elems l)"
    by (cases "bucket m ! idx m (entry_key e)") auto
  then show False
    using hm_inv_bucket [OF assms(1) idx_bound [OF assms(1)]] list_elems_nonnull
    by (auto simp: bucket_list_ok_def)
qed

text \<open>Lookup in the store: at most one entry has a key equal to \<open>k\<close>.\<close>

lemma hm_lookup_Some_iff:
  assumes "hm_inv m"
  shows "hm_lookup m k = Some d \<longleftrightarrow>
    (\<exists>p e. map_of (entries m) p = Some e \<and> keys_are_equal m (entry_key e) k \<and> entry_data e = d)"
proof -
  have dist: "distinct (live (entries m))" using assms by (simp add: hm_inv_def)
  have mem: "(p, e) \<in> set (entries m) \<longleftrightarrow> map_of (entries m) p = Some e" for p e
    using map_of_eq_Some_iff [OF dist] by simp
  have uniq: "x = y" if "x \<in> set (entries m)" "y \<in> set (entries m)"
    "(\<lambda>(p, e). keys_are_equal m (entry_key e) k) x" "(\<lambda>(p, e). keys_are_equal m (entry_key e) k) y" for x y
  proof -
    obtain p e q f where xy: "x = (p, e)" "y = (q, f)" by (cases x; cases y) auto
    have pq: "map_of (entries m) p = Some e" "map_of (entries m) q = Some f" using that(1,2) xy mem by auto
    have "keys_are_equal m (entry_key e) (entry_key f)"
      using that(3,4) xy key_lawsD(2,3) [OF hm_inv_laws [OF assms]] by (metis case_prod_conv)
    then show ?thesis using hm_inv_unique [OF assms pq] pq xy by simp
  qed
  have find: "List.find (\<lambda>(p, e). keys_are_equal m (entry_key e) k) (entries m) = Some z \<longleftrightarrow>
      z \<in> set (entries m) \<and> (\<lambda>(p, e). keys_are_equal m (entry_key e) k) z" for z
    by (rule find_unique) (rule uniq)
  show ?thesis by (auto simp: hm_lookup_def find mem)
qed

lemma hm_lookup_None_iff:
  assumes "hm_inv m"
  shows "hm_lookup m k = None \<longleftrightarrow>
    (\<forall>p e. map_of (entries m) p = Some e \<longrightarrow> \<not> keys_are_equal m (entry_key e) k)"
  using hm_lookup_Some_iff [OF assms, of k] by (metis not_None_eq)

lemma hm_lookup_eqI:
  assumes "hm_inv m" and "map_of (entries m) p = Some e" and "keys_are_equal m (entry_key e) k"
  shows "hm_lookup m k = Some (entry_data e)"
  using assms by (auto simp: hm_lookup_Some_iff)

lemma hm_lookup_frame:
  assumes "hm_inv m" and "hm_inv m'" and "keys_are_equal m' = keys_are_equal m"
    and "\<And>p e. keys_are_equal m (entry_key e) k \<Longrightarrow>
      map_of (entries m') p = Some e \<longleftrightarrow> map_of (entries m) p = Some e"
  shows "hm_lookup m' k = hm_lookup m k"
proof -
  have "hm_lookup m' k = Some d \<longleftrightarrow> hm_lookup m k = Some d" for d
    using assms(4) unfolding hm_lookup_Some_iff [OF assms(1)] hm_lookup_Some_iff [OF assms(2)] assms(3)
    by blast
  then show ?thesis by (metis not_None_eq)
qed

section \<open>Finding an entry\<close>

lemma find_bucket_entry_loop_seg:
  assumes "seg (map_of (nodes l)) p cs NULL" and "length cs \<le> k"
    and "\<And>q. q \<in> snd ` set cs \<Longrightarrow> q \<in> fst ` set (entries m)"
  shows "find_bucket_entry_loop k m l p key =
     Inr (case List.find (\<lambda>q. keys_are_equal m (entry_key (the (map_of (entries m) q))) key) (map snd cs)
          of None \<Rightarrow> NULL | Some q \<Rightarrow> q)"
  using assms
proof (induction cs arbitrary: p k)
  case Nil
  then show ?case by (cases k) (auto simp: list_end_def)
next
  case (Cons c cs)
  obtain a d where c: "c = (a, d)" by (cases c)
  obtain e where "map_of (entries m) d = Some e"
    using Cons.prems(3) [of d] c by (cases "map_of (entries m) d") auto
  then show ?case
    using Cons c by (cases k) (auto simp: list_end_def list_node_def list_next_def)
qed

lemma find_bucket_entry_ok:
  assumes inv: "hm_inv m"
  shows "if \<exists>p e. map_of (entries m) p = Some e \<and> keys_are_equal m (entry_key e) k
         then \<exists>p e. find_bucket_entry m (bucket m ! idx m k) k = Inr p \<and> p \<noteq> NULL \<and>
                map_of (entries m) p = Some e \<and> keys_are_equal m (entry_key e) k \<and>
                p \<in> set (bucket_ptrs (bucket m ! idx m k))
         else find_bucket_entry m (bucket m ! idx m k) k = Inr NULL"
proof -
  let ?b = "bucket m ! idx m k"
  let ?P = "\<lambda>q. keys_are_equal m (entry_key (the (map_of (entries m) q))) k"
  have mem: "q \<in> fst ` set (entries m)" if "q \<in> set (bucket_ptrs ?b)" for q
    using hm_inv_bucket_entry [OF inv idx_bound [OF inv] that] map_of_in_live by metis
  have find: "find_bucket_entry m ?b k =
      Inr (case List.find ?P (bucket_ptrs ?b) of None \<Rightarrow> NULL | Some q \<Rightarrow> q)"
  proof (cases ?b)
    case (Some l)
    obtain cs where cs: "list_rep l cs" "list_elems l = map snd cs"
      using hm_inv_bucket [OF inv idx_bound [OF inv] Some] by (auto simp: bucket_list_ok_def elim: list_inv_repE)
    from cs(1) have "seg (map_of (nodes l)) (list_head l) cs NULL" "length cs \<le> length (nodes l)"
      by (simp_all add: list_rep_def list_rep_length [OF cs(1)])
    from find_bucket_entry_loop_seg [OF this, of m k] mem Some cs(2) show ?thesis
      by (simp add: find_bucket_entry_def list_begin_def)
  qed (simp add: find_bucket_entry_def)
  show ?thesis
  proof (cases "List.find ?P (bucket_ptrs ?b)")
    case None
    have "\<not> keys_are_equal m (entry_key e) k" if e: "map_of (entries m) p = Some e" for p e
    proof
      assume eq: "keys_are_equal m (entry_key e) k"
      then have "p \<in> set (bucket_ptrs ?b)"
        using hm_inv_entry_placed [OF inv e] idx_cong [OF inv eq] by simp
      with None e eq show False by (auto simp: find_None_iff)
    qed
    with None find show ?thesis by auto
  next
    case (Some p)
    then have p: "p \<in> set (bucket_ptrs ?b)" "?P p" by (auto simp: find_Some_iff)
    then obtain e where e: "map_of (entries m) p = Some e"
      using hm_inv_bucket_entry [OF inv idx_bound [OF inv]] by metis
    with p Some find hm_inv_ptr_nonnull [OF inv e] show ?thesis by auto
  qed
qed

section \<open>Removing and adding one entry\<close>

definition hm_same_cfg :: "('k, 'd, 'w) hash_map_t \<Rightarrow> ('k, 'd, 'w) hash_map_t \<Rightarrow> bool" where
  "hm_same_cfg m m' \<longleftrightarrow>
     num_bucket m' = num_bucket m \<and> hash_fn m' = hash_fn m \<and> key_fn m' = key_fn m \<and>
     data_fn m' = data_fn m \<and> hm_allocator m' = hm_allocator m \<and>
     keys_are_equal m' = keys_are_equal m"

lemma hm_same_cfgD:
  assumes "hm_same_cfg m m'"
  shows "num_bucket m' = num_bucket m" "hash_fn m' = hash_fn m" "key_fn m' = key_fn m"
    "data_fn m' = data_fn m" "hm_allocator m' = hm_allocator m"
    "keys_are_equal m' = keys_are_equal m" "idx m' = idx m" "bucket_list_ok m' = bucket_list_ok m"
  using assms by (auto simp: hm_same_cfg_def idx_def bucket_list_ok_def fun_eq_iff)

lemma bucket_list_ok_same_cfg:
  "bucket_list_ok m l \<Longrightarrow> list_same_cfg l l' \<Longrightarrow> list_inv l' \<Longrightarrow> distinct (list_elems l') \<Longrightarrow>
     bucket_list_ok m l'"
  by (simp add: bucket_list_ok_def list_same_cfg_def)

text \<open>Replacing one bucket and the store: what has to be shown for the invariant.\<close>

lemma hm_inv_replace_bucketI:
  assumes inv: "hm_inv m" and cfg: "hm_same_cfg m m'"
    and b: "bucket m' = (bucket m)[i := b']" and i: "i < length (bucket m)"
    and l': "\<And>l. b' = Some l \<Longrightarrow> bucket_list_ok m l" and dist: "distinct (live (entries m'))"
    and at: "\<And>p. p \<in> set (bucket_ptrs b') \<Longrightarrow>
        \<exists>e. map_of (entries m') p = Some e \<and> idx m (entry_key e) = i"
    and others: "\<And>j p e. j \<noteq> i \<Longrightarrow> idx m (entry_key e) = j \<Longrightarrow>
        map_of (entries m') p = Some e \<longleftrightarrow> map_of (entries m) p = Some e"
    and placed: "\<And>p e. map_of (entries m') p = Some e \<Longrightarrow> idx m (entry_key e) = i \<Longrightarrow>
        p \<in> set (bucket_ptrs b')"
    and uniq: "\<And>p q e f. map_of (entries m') p = Some e \<Longrightarrow> map_of (entries m') q = Some f \<Longrightarrow>
        keys_are_equal m (entry_key e) (entry_key f) \<Longrightarrow> p = q"
  shows "hm_inv m'"
proof -
  note c = hm_same_cfgD [OF cfg]
  have ok: "bucket_ok m' j" if j: "j < length (bucket m')" for j
  proof (cases "j = i")
    case True
    with l' at i show ?thesis by (auto simp: bucket_ok_def b c split: option.splits)
  next
    case False
    then have "bucket m' ! j = bucket m ! j" by (simp add: b)
    moreover have "bucket_ok m j" using inv j b by (simp add: hm_inv_def)
    ultimately show ?thesis
      using others [OF False] unfolding bucket_ok_def c by (metis (no_types, lifting))
  qed
  have pl: "p \<in> set (bucket_ptrs (bucket m' ! idx m (entry_key e)))" if e: "map_of (entries m') p = Some e" for p e
  proof (cases "idx m (entry_key e) = i")
    case True
    with placed [OF e] i show ?thesis by (simp add: b)
  next
    case False
    with e others have "map_of (entries m) p = Some e" by blast
    from hm_inv_entry_placed [OF inv this] False show ?thesis by (simp add: b)
  qed
  show ?thesis
    using inv ok pl uniq dist unfolding hm_inv_def c by (auto simp: b)
qed

lemma hm_inv_replaceI:
  assumes "hm_inv m" and "hm_same_cfg m m'"
    and "bucket m' = (bucket m)[i := Some l']" and "i < length (bucket m)"
    and "bucket_list_ok m l'" and "distinct (live (entries m'))"
    and "\<And>p. p \<in> set (list_elems l') \<Longrightarrow>
        \<exists>e. map_of (entries m') p = Some e \<and> idx m (entry_key e) = i"
    and "\<And>j p e. j \<noteq> i \<Longrightarrow> idx m (entry_key e) = j \<Longrightarrow>
        map_of (entries m') p = Some e \<longleftrightarrow> map_of (entries m) p = Some e"
    and "\<And>p e. map_of (entries m') p = Some e \<Longrightarrow> idx m (entry_key e) = i \<Longrightarrow>
        p \<in> set (list_elems l')"
    and "\<And>p q e f. map_of (entries m') p = Some e \<Longrightarrow> map_of (entries m') q = Some f \<Longrightarrow>
        keys_are_equal m (entry_key e) (entry_key f) \<Longrightarrow> p = q"
  shows "hm_inv m'"
  by (rule hm_inv_replace_bucketI [OF assms(1-4)]) (use assms(5-) in simp_all)

lemma hm_inv_drop:
  assumes inv: "hm_inv m" and cfg: "hm_same_cfg m m'" and q: "map_of (entries m) q = Some e"
    and i: "i = idx m (entry_key e)" and l: "bucket m ! i = Some l"
    and l': "list_inv l'" "list_elems l' = remove1 q (list_elems l)" "list_same_cfg l l'"
    and m': "bucket m' = (bucket m)[i := Some l']" "entries m' = release q (entries m)"
  shows "hm_inv m'"
proof (rule hm_inv_replaceI [OF inv cfg m'(1)])
  have ilt: "i < length (bucket m)" using idx_bound [OF inv] i by simp
  then show "i < length (bucket m)" .
  have lok: "bucket_list_ok m l" using hm_inv_bucket [OF inv ilt l] .
  then have dist: "distinct (list_elems l)" by (simp add: bucket_list_ok_def)
  show "bucket_list_ok m l'"
    using bucket_list_ok_same_cfg [OF lok l'(3,1)] l'(2) dist by simp
  show "distinct (live (entries m'))" using inv by (simp add: hm_inv_def m'(2))
  show "\<exists>f. map_of (entries m') p = Some f \<and> idx m (entry_key f) = i"
    if "p \<in> set (list_elems l')" for p
  proof -
    have "p \<in> set (list_elems l)" "p \<noteq> q" using that l'(2) dist by (auto simp: set_remove1_eq)
    then show ?thesis using hm_inv_bucket_entry [OF inv ilt, of p] l by (auto simp: m'(2))
  qed
  show "map_of (entries m') p = Some f \<longleftrightarrow> map_of (entries m) p = Some f"
    if "j \<noteq> i" "idx m (entry_key f) = j" for j p f
    using that q i by (auto simp: m'(2))
  show "p \<in> set (list_elems l')" if "map_of (entries m') p = Some f" "idx m (entry_key f) = i" for p f
    using that hm_inv_entry_placed [OF inv, of p f] l l'(2) dist
    by (auto simp: m'(2) set_remove1_eq split: if_splits)
  show "p = p'" if "map_of (entries m') p = Some f" "map_of (entries m') p' = Some f'"
    "keys_are_equal m (entry_key f) (entry_key f')" for p p' f f'
    using that hm_inv_unique [OF inv, of p f p' f'] by (auto simp: m'(2) split: if_splits)
qed

lemma hm_inv_add:
  assumes inv: "hm_inv m" and cfg: "hm_same_cfg m m'" and p: "p \<notin> fst ` set (entries m)"
    and new: "\<And>q f. map_of (entries m) q = Some f \<Longrightarrow> \<not> keys_are_equal m (entry_key f) k"
    and i: "i = idx m k" and l: "bucket m ! i = Some l"
    and l': "list_inv l'" "list_elems l' = list_elems l @ [p]" "list_same_cfg l l'"
    and m': "bucket m' = (bucket m)[i := Some l']"
      "entries m' = store_at p \<lparr>entry_key = k, entry_data = d\<rparr> (entries m)"
  shows "hm_inv m'"
proof (rule hm_inv_replaceI [OF inv cfg m'(1)])
  have ilt: "i < length (bucket m)" using idx_bound [OF inv] i by simp
  then show "i < length (bucket m)" .
  have lok: "bucket_list_ok m l" using hm_inv_bucket [OF inv ilt l] .
  have new': "\<And>q f. map_of (entries m) q = Some f \<Longrightarrow> \<not> keys_are_equal m k (entry_key f)"
    using new key_lawsD(2) [OF hm_inv_laws [OF inv]] by blast
  have old: "\<exists>f. map_of (entries m) q = Some f \<and> idx m (entry_key f) = i" if "q \<in> set (list_elems l)" for q
    using hm_inv_bucket_entry [OF inv ilt, of q] l that by auto
  then have "p \<notin> set (list_elems l)" using p map_of_in_live by metis
  then show "bucket_list_ok m l'"
    using bucket_list_ok_same_cfg [OF lok l'(3,1)] l'(2) lok by (simp add: bucket_list_ok_def)
  show "distinct (live (entries m'))" using inv by (simp add: hm_inv_def m'(2))
  show "\<exists>f. map_of (entries m') q = Some f \<and> idx m (entry_key f) = i"
    if "q \<in> set (list_elems l')" for q
    using that l'(2) old i by (auto simp: m'(2))
  show "map_of (entries m') q = Some f \<longleftrightarrow> map_of (entries m) q = Some f"
    if "j \<noteq> i" "idx m (entry_key f) = j" for j q f
    using that p i by (auto simp: m'(2) dest: map_of_in_live)
  show "q \<in> set (list_elems l')" if "map_of (entries m') q = Some f" "idx m (entry_key f) = i" for q f
    using that hm_inv_entry_placed [OF inv, of q f] l l'(2) by (auto simp: m'(2) split: if_splits)
  show "q = q'" if "map_of (entries m') q = Some f" "map_of (entries m') q' = Some f'"
    "keys_are_equal m (entry_key f) (entry_key f')" for q q' f f'
    using that hm_inv_unique [OF inv, of q f q' f'] new new'
    by (auto simp: m'(2) split: if_splits)
qed

section \<open>The operations on well-formed maps\<close>

lemma hash_map_get_ok:
  assumes inv: "hm_inv m"
  shows "hash_map_get m k = Inr (hm_lookup m k)"
proof (cases "\<exists>p e. map_of (entries m) p = Some e \<and> keys_are_equal m (entry_key e) k")
  case True
  with find_bucket_entry_ok [OF inv, of k] obtain p e where
    "find_bucket_entry m (bucket m ! idx m k) k = Inr p" "p \<noteq> NULL"
    "map_of (entries m) p = Some e" "keys_are_equal m (entry_key e) k"
    by auto
  then show ?thesis
    by (simp add: hash_map_get_def bucket_index_ok [OF inv] bucket_at_ok [OF inv] hm_lookup_eqI [OF inv])
next
  case False
  then have "hm_lookup m k = None" by (simp add: hm_lookup_None_iff [OF inv])
  with False find_bucket_entry_ok [OF inv, of k] show ?thesis
    by (simp add: hash_map_get_def bucket_index_ok [OF inv] bucket_at_ok [OF inv])
qed

lemma hash_map_has_key_ok:
  assumes inv: "hm_inv m"
  shows "hash_map_has_key m k = Inr (hm_lookup m k \<noteq> None)"
proof (cases "\<exists>p e. map_of (entries m) p = Some e \<and> keys_are_equal m (entry_key e) k")
  case True
  with find_bucket_entry_ok [OF inv, of k] obtain p e where
    "find_bucket_entry m (bucket m ! idx m k) k = Inr p" "p \<noteq> NULL"
    "map_of (entries m) p = Some e" "keys_are_equal m (entry_key e) k"
    by auto
  then show ?thesis
    by (simp add: hash_map_has_key_def bucket_index_ok [OF inv] bucket_at_ok [OF inv] hm_lookup_eqI [OF inv])
next
  case False
  then have "hm_lookup m k = None" by (simp add: hm_lookup_None_iff [OF inv])
  with False find_bucket_entry_ok [OF inv, of k] show ?thesis
    by (simp add: hash_map_has_key_def bucket_index_ok [OF inv] bucket_at_ok [OF inv])
qed

text \<open>The callbacks that run when an entry goes away.\<close>

definition run_entry_fns ::
  "('k, 'd, 'w) hash_map_t \<Rightarrow> ('k, 'd) hash_map_entry_t \<Rightarrow> 'w \<Rightarrow> 'w" where
  "run_entry_fns m e w =
     (let w1 = (case key_fn m of None \<Rightarrow> w | Some f \<Rightarrow> f (entry_key e) w)
      in case data_fn m of None \<Rightarrow> w1 | Some f \<Rightarrow> f (entry_data e) w1)"

lemma bucket_free_ok:
  "map_of ents p = Some e \<Longrightarrow> p \<noteq> NULL \<Longrightarrow>
     bucket_free (key_fn m) (data_fn m) p (ents, w) = Inr (release p ents, run_entry_fns m e w)"
  by (simp add: bucket_free_def run_entry_fns_def Let_def)

lemma length_release:
  "distinct (live st) \<Longrightarrow> map_of st p = Some e \<Longrightarrow> Suc (length (release p st)) = length st"
proof -
  assume d: "distinct (live st)" and p: "map_of st p = Some e"
  have "card (fst ` set (release p st)) = card (fst ` set st) - 1"
    using map_of_in_live [OF p] by simp
  moreover have "card (fst ` set st) = length st"
    using distinct_card [OF d] by simp
  moreover have "card (fst ` set (release p st)) = length (release p st)"
    using distinct_card [OF distinct_live_release [OF d, of p]] by simp
  moreover have "length st > 0" using map_of_in_live [OF p] by auto
  ultimately show ?thesis by linarith
qed

lemma length_store_at_new:
  "distinct (live st) \<Longrightarrow> p \<notin> fst ` set st \<Longrightarrow> length (store_at p x st) = Suc (length st)"
proof -
  assume d: "distinct (live st)" and p: "p \<notin> fst ` set st"
  have "card (fst ` set (store_at p x st)) = Suc (card (fst ` set st))" using p by simp
  moreover have "card (fst ` set st) = length st"
    using distinct_card [OF d] by simp
  moreover have "card (fst ` set (store_at p x st)) = length (store_at p x st)"
    using distinct_card [OF distinct_live_store_at [OF d, of p x]] by simp
  ultimately show ?thesis by simp
qed

text \<open>
  Taking the entry \<open>p\<close> out of its bucket: the list operation succeeds, the callbacks run,
  and the map without \<open>p\<close> is well-formed.
\<close>

lemma hm_remove_entry:
  assumes inv: "hm_inv m" and p: "map_of (entries m) p = Some e" and l: "bucket m ! idx m (entry_key e) = Some l"
  shows "\<exists>l'. list_remove l p (entries m, w) = Inr (True, l', release p (entries m), run_entry_fns m e w) \<and>
           list_inv l' \<and> list_elems l' = remove1 p (list_elems l) \<and> list_same_cfg l l'"
proof -
  have lok: "bucket_list_ok m l" using hm_inv_bucket [OF inv idx_bound [OF inv] l] .
  have mem: "p \<in> set (list_elems l)" using hm_inv_entry_placed [OF inv p] l by simp
  have cb: "run_free_cb l p (entries m, w) = Inr (release p (entries m), run_entry_fns m e w)"
    using lok bucket_free_ok [OF p hm_inv_ptr_nonnull [OF inv p]] by (simp add: run_free_cb_def bucket_list_ok_def)
  from ls.remove_hit [OF _ mem, of "(entries m, w)"] lok cb show ?thesis
    by (auto simp: bucket_list_ok_def)
qed

lemma hash_map_erase_ok:
  assumes inv: "hm_inv m" and size: "hm_size_ok m"
  shows "case hm_lookup m k of
      None \<Rightarrow> hash_map_erase m k w = Inr (False, m, w)
    | Some d \<Rightarrow> \<exists>e m'. hash_map_erase m k w = Inr (True, m', run_entry_fns m e w) \<and>
        keys_are_equal m (entry_key e) k \<and> entry_data e = d \<and> hm_inv m' \<and> hm_size_ok m' \<and>
        hm_same_cfg m m' \<and> Suc (length (entries m')) = length (entries m) \<and>
        (\<exists>p. map_of (entries m) p = Some e \<and> entries m' = release p (entries m)) \<and>
        (\<forall>k'. hm_lookup m' k' = (if keys_are_equal m k k' then None else hm_lookup m k'))"
proof (cases "hm_lookup m k")
  case None
  then have "\<not> (\<exists>p e. map_of (entries m) p = Some e \<and> keys_are_equal m (entry_key e) k)"
    by (simp add: hm_lookup_None_iff [OF inv])
  with find_bucket_entry_ok [OF inv, of k] None show ?thesis
    by (simp add: hash_map_erase_def bucket_index_ok [OF inv] bucket_at_ok [OF inv])
next
  case (Some d)
  then have "\<exists>p e. map_of (entries m) p = Some e \<and> keys_are_equal m (entry_key e) k"
    by (auto simp: hm_lookup_Some_iff [OF inv])
  with find_bucket_entry_ok [OF inv, of k] obtain p e where
    f: "find_bucket_entry m (bucket m ! idx m k) k = Inr p" "p \<noteq> NULL"
    and p: "map_of (entries m) p = Some e" and eq: "keys_are_equal m (entry_key e) k"
    and mem: "p \<in> set (bucket_ptrs (bucket m ! idx m k))"
    by auto
  note laws = key_lawsD [OF hm_inv_laws [OF inv]]
  have ix: "idx m (entry_key e) = idx m k" using idx_cong [OF inv eq] .
  obtain l where l: "bucket m ! idx m (entry_key e) = Some l"
    using mem ix by (cases "bucket m ! idx m k") auto
  obtain l' where l': "list_remove l p (entries m, w) = Inr (True, l', release p (entries m), run_entry_fns m e w)"
    "list_inv l'" "list_elems l' = remove1 p (list_elems l)" "list_same_cfg l l'"
    using hm_remove_entry [OF inv p l] by blast
  let ?m = "m\<lparr>hash_size := hash_size m - 1, bucket := (bucket m)[idx m k := Some l'],
             entries := release p (entries m)\<rparr>"
  have run: "hash_map_erase m k w = Inr (True, ?m, run_entry_fns m e w)"
    using f l l'(1) ix
    by (simp add: hash_map_erase_def bucket_index_ok [OF inv] bucket_at_ok [OF inv] set_bucket_def idx_def)
  have cfg: "hm_same_cfg m ?m" by (simp add: hm_same_cfg_def)
  have inv': "hm_inv ?m"
    by (rule hm_inv_drop [OF inv cfg p refl l l'(2-4)]) (simp_all add: ix)
  have size': "hm_size_ok ?m"
    using size length_release [OF _ p] inv
    by (simp add: hm_size_ok_def hm_inv_def flip: length_release [OF _ p])
  have look: "hm_lookup ?m k' = (if keys_are_equal m k k' then None else hm_lookup m k')" for k'
  proof (cases "keys_are_equal m k k'")
    case True
    then have "q = p" if "map_of (entries m) q = Some f" "keys_are_equal m (entry_key f) k'" for q f
      using hm_inv_unique [OF inv that(1) p] laws eq that(2) by metis
    with True show ?thesis by (auto simp: hm_lookup_None_iff [OF inv'])
  next
    case False
    then have np: "\<not> keys_are_equal m (entry_key e) k'" using laws eq by metis
    have "hm_lookup ?m k' = hm_lookup m k'"
      using np p by (intro hm_lookup_frame [OF inv inv']) auto
    then show ?thesis using False by simp
  qed
  have "entry_data e = d" using Some hm_lookup_eqI [OF inv p eq] by simp
  moreover have "Suc (length (entries ?m)) = length (entries m)"
    using length_release [OF _ p] inv by (simp add: hm_inv_def)
  moreover have "\<exists>p. map_of (entries m) p = Some e \<and> entries ?m = release p (entries m)"
    using p by (intro exI [of _ p]) simp
  ultimately show ?thesis
    unfolding Some option.case using run cfg inv' size' look eq by (intro exI [of _ e] exI [of _ ?m]) blast
qed

lemma hm_inv_hash_size [simp]: "hm_inv (m\<lparr>hash_size := n\<rparr>) = hm_inv m"
proof -
  have c: "hm_same_cfg m (m\<lparr>hash_size := n\<rparr>)" by (simp add: hm_same_cfg_def)
  show ?thesis unfolding hm_inv_def bucket_ok_def hm_same_cfgD(7,8) [OF c] by simp
qed

lemma set_bucket_idx: "set_bucket m (hash_fn m k mod num_bucket m) b = m\<lparr>bucket := (bucket m)[idx m k := b]\<rparr>"
  by (simp add: set_bucket_def idx_def)

text \<open>A new, empty bucket list changes nothing.\<close>

lemma hm_inv_new_bucket:
  assumes inv: "hm_inv m" and b: "bucket m ! i = None" and i: "i < length (bucket m)"
    and l: "list_new_internal list_p (Some (bucket_free (key_fn m) (data_fn m))) (hm_allocator m) = Some l"
  shows "hm_inv (m\<lparr>bucket := (bucket m)[i := Some l]\<rparr>)"
proof -
  have fresh: "fresh_alloc (hm_allocator m)" using inv by (simp add: hm_inv_def)
  have l': "list_rep l []" "free_cb l = Some (bucket_free (key_fn m) (data_fn m))"
    "list_allocator l = hm_allocator m" using list_new_rep [OF l] by auto
  then have elems: "list_elems l = []" using list_rep_elems by fastforce
  show ?thesis
  proof (rule hm_inv_replaceI [OF inv, where i = i and l' = l])
  show "hm_same_cfg m (m\<lparr>bucket := (bucket m)[i := Some l]\<rparr>)" by (simp add: hm_same_cfg_def)
  show "bucket_list_ok m l"
    using l' elems fresh by (auto simp: bucket_list_ok_def list_inv_iff)
  show "p \<in> set (list_elems l)" if "map_of (entries (m\<lparr>bucket := (bucket m)[i := Some l]\<rparr>)) p = Some e"
    "idx m (entry_key e) = i" for p e
    using hm_inv_entry_placed [OF inv, of p e] that b by simp
  show "distinct (live (entries (m\<lparr>bucket := (bucket m)[i := Some l]\<rparr>)))"
    using inv by (simp add: hm_inv_def)
  show "p = q" if "map_of (entries (m\<lparr>bucket := (bucket m)[i := Some l]\<rparr>)) p = Some e"
    "map_of (entries (m\<lparr>bucket := (bucket m)[i := Some l]\<rparr>)) q = Some f"
    "keys_are_equal m (entry_key e) (entry_key f)" for p q e f
    using hm_inv_unique [OF inv] that by simp
  qed (use i elems in \<open>auto simp: list_new_internal_def\<close>)
qed

text \<open>
  What \<open>hash_map_set\<close> does to the client's state: nothing for a new key; for a key that is
  present the callbacks run on the stored entry that is replaced.
\<close>

definition old_entry_freed :: "('k, 'd, 'w) hash_map_t \<Rightarrow> 'k \<Rightarrow> 'w \<Rightarrow> 'w \<Rightarrow> bool" where
  "old_entry_freed m k w w' \<longleftrightarrow>
     (case hm_lookup m k of None \<Rightarrow> w' = w
      | Some d \<Rightarrow> \<exists>e \<in> snd ` set (entries m).
          keys_are_equal m (entry_key e) k \<and> entry_data e = d \<and> w' = run_entry_fns m e w)"

text \<open>
  The first half of \<open>hash_map_set\<close>: afterwards no entry has an equal key, and \<open>hash_size\<close>
  already counts the entry to come.
\<close>

lemma hash_map_drop_old_ok:
  assumes inv: "hm_inv m" and size: "hm_size_ok m" and l: "bucket m ! idx m k = Some l"
  shows "\<exists>old m2 l2 w2.
      find_bucket_entry m (Some l) k = Inr old \<and>
      hash_map_drop_old m (hash_fn m k mod num_bucket m) l old w = Inr (m2, l2, w2) \<and>
      hm_inv m2 \<and> hm_same_cfg m m2 \<and> bucket m2 ! idx m k = Some l2 \<and>
      hash_size m2 = word_of_nat (Suc (length (entries m2))) \<and>
      length (entries m) = length (entries m2) + (if hm_lookup m k = None then 0 else 1) \<and>
      (\<forall>p e. map_of (entries m2) p = Some e \<longleftrightarrow>
         map_of (entries m) p = Some e \<and> \<not> keys_are_equal m (entry_key e) k) \<and>
      old_entry_freed m k w w2"
proof (cases "\<exists>p e. map_of (entries m) p = Some e \<and> keys_are_equal m (entry_key e) k")
  case True
  with find_bucket_entry_ok [OF inv, of k] obtain p e where
    f: "find_bucket_entry m (bucket m ! idx m k) k = Inr p" "p \<noteq> NULL"
    and p: "map_of (entries m) p = Some e" and eq: "keys_are_equal m (entry_key e) k"
    by auto
  have ix: "idx m (entry_key e) = idx m k" using idx_cong [OF inv eq] .
  obtain l' where l': "list_remove l p (entries m, w) = Inr (True, l', release p (entries m), run_entry_fns m e w)"
    "list_inv l'" "list_elems l' = remove1 p (list_elems l)" "list_same_cfg l l'"
    using hm_remove_entry [OF inv p] l ix by auto
  let ?m = "m\<lparr>bucket := (bucket m)[idx m k := Some l'], entries := release p (entries m)\<rparr>"
  have cfg: "hm_same_cfg m ?m" by (simp add: hm_same_cfg_def)
  have inv': "hm_inv ?m"
    by (rule hm_inv_drop [OF inv cfg p ix [symmetric] l l'(2-4)]) simp_all
  have len: "Suc (length (release p (entries m))) = length (entries m)"
    using length_release [OF _ p] inv by (simp add: hm_inv_def)
  have only: "q = p" if "map_of (entries m) q = Some f" "keys_are_equal m (entry_key f) k" for q f
    using hm_inv_unique [OF inv that(1) p] key_lawsD(2,3) [OF hm_inv_laws [OF inv]] eq that(2) by metis
  have run: "hash_map_drop_old m (hash_fn m k mod num_bucket m) l p w = Inr (?m, l', run_entry_fns m e w)"
    using f(2) l'(1) by (simp add: hash_map_drop_old_def set_bucket_idx)
  have ents: "map_of (release p (entries m)) q = Some f \<longleftrightarrow>
      map_of (entries m) q = Some f \<and> \<not> keys_are_equal m (entry_key f) k" for q f
    by (cases "q = p") (use only [of q f] p eq in auto)
  have "hash_size ?m = word_of_nat (Suc (length (entries ?m)))"
    using size len by (simp add: hm_size_ok_def del: of_nat_Suc)
  moreover have "length (entries m) = length (entries ?m) + (if hm_lookup m k = None then 0 else 1)"
    using len hm_lookup_eqI [OF inv p eq] by simp
  moreover have "bucket ?m ! idx m k = Some l'" using idx_bound [OF inv, of k] by simp
  moreover have "find_bucket_entry m (Some l) k = Inr p" using f(1) l by simp
  moreover have "old_entry_freed m k w (run_entry_fns m e w)"
    using hm_lookup_eqI [OF inv p eq] eq map_of_SomeD [OF p]
    by (auto simp: old_entry_freed_def intro!: bexI [of _ "(p, e)"])
  ultimately show ?thesis using run inv' cfg ents by fastforce
next
  case False
  then have none: "hm_lookup m k = None" by (simp add: hm_lookup_None_iff [OF inv])
  let ?m = "m\<lparr>hash_size := hash_size m + 1\<rparr>"
  have f: "find_bucket_entry m (Some l) k = Inr NULL"
    using False find_bucket_entry_ok [OF inv, of k] l by (simp only: if_False)
  have run: "hash_map_drop_old m (hash_fn m k mod num_bucket m) l NULL w = Inr (?m, l, w)"
    by (simp add: hash_map_drop_old_def)
  have inv': "hm_inv ?m" and cfg: "hm_same_cfg m ?m"
    using inv by (simp_all add: hm_same_cfg_def)
  have sz: "hash_size ?m = word_of_nat (Suc (length (entries ?m)))"
    using size by (simp add: hm_size_ok_def)
  have len: "length (entries m) = length (entries ?m) + (if hm_lookup m k = None then 0 else 1)"
    using none by simp
  have ents: "\<forall>p e. map_of (entries ?m) p = Some e \<longleftrightarrow>
      map_of (entries m) p = Some e \<and> \<not> keys_are_equal m (entry_key e) k"
    using False by auto
  have "old_entry_freed m k w w" using none by (simp add: old_entry_freed_def)
  moreover have "bucket ?m ! idx m k = Some l" using l by simp
  ultimately show ?thesis using f run inv' cfg sz len ents by blast
qed
text \<open>The nodes of a bucket are no more than the entries of the map.\<close>

lemma bucket_nodes_le:
  assumes inv: "hm_inv m" and i: "i < length (bucket m)" and l: "bucket m ! i = Some l"
  shows "length (nodes l) \<le> length (entries m)"
proof -
  have lok: "bucket_list_ok m l" using hm_inv_bucket [OF inv i l] .
  then obtain cs where cs: "list_rep l cs" "list_elems l = map snd cs"
    by (auto simp: bucket_list_ok_def elim: list_inv_repE)
  have "set (list_elems l) \<subseteq> fst ` set (entries m)"
    using hm_inv_bucket_entry [OF inv i] l map_of_in_live by (metis bucket_ptrs.simps(2) subsetI)
  then have "card (set (list_elems l)) \<le> card (fst ` set (entries m))"
    by (rule card_mono [rotated]) simp
  moreover have "card (set (list_elems l)) = length (nodes l)"
    using lok distinct_card [of "list_elems l"] cs list_rep_length [OF cs(1)]
    by (simp add: bucket_list_ok_def)
  moreover have "card (fst ` set (entries m)) \<le> length (entries m)"
    using card_length [of "live (entries m)"] by simp
  ultimately show ?thesis by linarith
qed

lemma hash_map_set_bucket_ok:
  assumes inv: "hm_inv m" and size: "hm_size_ok m" and l: "bucket m ! idx m k = Some l"
    and room: "alloc_room (hm_allocator m) (length (entries m))"
  shows "\<exists>m' w'. hash_map_set list_p m k (Some d) w = Inr (True, m', w') \<and>
           hm_inv m' \<and> hm_size_ok m' \<and> hm_same_cfg m m' \<and>
           length (entries m') = length (entries m) + (if hm_lookup m k = None then 1 else 0) \<and>
           old_entry_freed m k w w' \<and>
           (\<forall>k'. hm_lookup m' k' = (if keys_are_equal m k k' then Some d else hm_lookup m k'))"
proof -
  obtain old m2 l2 w2 where
    f: "find_bucket_entry m (Some l) k = Inr old"
    and run: "hash_map_drop_old m (hash_fn m k mod num_bucket m) l old w = Inr (m2, l2, w2)"
    and inv2: "hm_inv m2" and cfg2: "hm_same_cfg m m2" and l2: "bucket m2 ! idx m k = Some l2"
    and size2: "hash_size m2 = word_of_nat (Suc (length (entries m2)))"
    and len: "length (entries m) = length (entries m2) + (if hm_lookup m k = None then 0 else 1)"
    and ents2: "\<And>p e. map_of (entries m2) p = Some e \<longleftrightarrow>
         map_of (entries m) p = Some e \<and> \<not> keys_are_equal m (entry_key e) k"
    and old: "old_entry_freed m k w w2"
    using hash_map_drop_old_ok [OF inv size l, of w] by blast
  note c = hm_same_cfgD [OF cfg2]
  have len2: "length (entries m2) \<le> length (entries m)" using len by simp
  let ?p = "hm_allocator m2 (live (entries m2))"
  have p: "?p \<noteq> NULL" "?p \<notin> fst ` set (entries m2)"
    using room len2 fresh_allocD [of "hm_allocator m2" "live (entries m2)"] inv2
    by (simp_all add: alloc_room_def c hm_inv_def)
  have ix: "idx m k < length (bucket m2)" using idx_bound [OF inv2, of k] by (simp add: c)
  have lok: "bucket_list_ok m2 l2" using hm_inv_bucket [OF inv2 ix l2] .
  have "list_room l2"
    using room len2 bucket_nodes_le [OF inv2 ix l2] lok
    by (simp add: list_room_def alloc_room_def bucket_list_ok_def c)
  with ls.append_room [of l2 ?p] lok p(1) obtain l3 where
    l3: "list_append l2 ?p = Inr (True, l3)" "list_inv l3" "list_elems l3 = list_elems l2 @ [?p]"
      "list_same_cfg l2 l3"
    by (auto simp: bucket_list_ok_def)
  let ?m = "m2\<lparr>entries := store_at ?p \<lparr>entry_key = k, entry_data = d\<rparr> (entries m2),
              bucket := (bucket m2)[idx m k := Some l3]\<rparr>"
  have cfg': "hm_same_cfg m2 ?m" by (simp add: hm_same_cfg_def)
  have none: "\<And>q f. map_of (entries m2) q = Some f \<Longrightarrow> \<not> keys_are_equal m2 (entry_key f) k"
    using ents2 c by metis
  have inv': "hm_inv ?m"
    by (rule hm_inv_add [OF inv2 cfg' p(2) none _ l2 l3(2-4), where d = d]) (simp_all add: c)
  have "m\<lparr>bucket := (bucket m)[idx m k := Some l]\<rparr> = m"
    using l list_update_id [of "bucket m" "idx m k"] by simp
  moreover have ixm: "idx m2 k = idx m k" "hash_fn m2 = hash_fn m" "num_bucket m2 = num_bucket m"
    by (simp_all add: c)
  ultimately have set: "hash_map_set list_p m k (Some d) w = Inr (True, ?m, w2)"
    using f run p l3(1) l
    by (simp add: hash_map_set_def bucket_index_ok [OF inv] bucket_at_ok [OF inv] set_bucket_idx
        Let_def) (simp add: set_bucket_def idx_def)
  have size': "hm_size_ok ?m"
    using size2 length_store_at_new [OF _ p(2)] inv2 by (simp add: hm_size_ok_def hm_inv_def)
  have look: "hm_lookup ?m k' = (if keys_are_equal m k k' then Some d else hm_lookup m k')" for k'
  proof (cases "keys_are_equal m k k'")
    case True
    then show ?thesis
      using hm_lookup_eqI [OF inv', of ?p "\<lparr>entry_key = k, entry_data = d\<rparr>" k'] by (simp add: c)
  next
    case False
    note laws = key_lawsD [OF hm_inv_laws [OF inv]]
    have "hm_lookup ?m k' = hm_lookup m k'"
    proof (rule hm_lookup_frame [OF inv inv'])
      fix q and e :: "('a, 'b) hash_map_entry_t" assume "keys_are_equal m (entry_key e) k'"
      with False laws have "\<not> keys_are_equal m (entry_key e) k" "entry_key e \<noteq> k" by metis+
      with ents2 p(2) show "map_of (entries ?m) q = Some e \<longleftrightarrow> map_of (entries m) q = Some e"
        by (auto dest: map_of_in_live)
    qed (simp add: c)
    with False show ?thesis by simp
  qed
  have "hm_same_cfg m ?m" using cfg2 by (simp add: hm_same_cfg_def)
  moreover have "length (entries ?m) = length (entries m) + (if hm_lookup m k = None then 1 else 0)"
    using len length_store_at_new [OF _ p(2)] inv2 by (simp add: hm_inv_def)
  ultimately show ?thesis using set inv' size' look old by blast
qed

lemma hm_lookup_bucket [simp]: "hm_lookup (m\<lparr>bucket := b\<rparr>) = hm_lookup m"
  by (simp add: hm_lookup_def fun_eq_iff)

lemma run_entry_fns_bucket [simp]: "run_entry_fns (m\<lparr>bucket := b\<rparr>) = run_entry_fns m"
  by (simp add: run_entry_fns_def fun_eq_iff)

lemma old_entry_freed_bucket [simp]: "old_entry_freed (m\<lparr>bucket := b\<rparr>) = old_entry_freed m"
  by (intro ext) (simp add: old_entry_freed_def split: option.split)

lemma hash_map_set_ok:
  assumes inv: "hm_inv m" and size: "hm_size_ok m" and list_p: "list_p \<noteq> NULL"
    and room: "alloc_room (hm_allocator m) (length (entries m))"
  shows "\<exists>m' w'. hash_map_set list_p m k (Some d) w = Inr (True, m', w') \<and>
           hm_inv m' \<and> hm_size_ok m' \<and> hm_same_cfg m m' \<and>
           length (entries m') = length (entries m) + (if hm_lookup m k = None then 1 else 0) \<and>
           old_entry_freed m k w w' \<and>
           (\<forall>k'. hm_lookup m' k' = (if keys_are_equal m k k' then Some d else hm_lookup m k'))"
proof (cases "bucket m ! idx m k")
  case (Some l)
  then show ?thesis using hash_map_set_bucket_ok [OF inv size _ room] by blast
next
  case None
  have ix: "idx m k < length (bucket m)" using idx_bound [OF inv] .
  obtain l where l: "list_new_internal list_p (Some (bucket_free (key_fn m) (data_fn m))) (hm_allocator m) = Some l"
    using list_p by (simp add: list_new_internal_def)
  let ?m = "m\<lparr>bucket := (bucket m)[idx m k := Some l]\<rparr>"
  have inv1: "hm_inv ?m" using hm_inv_new_bucket [OF inv None ix l] .
  have size1: "hm_size_ok ?m" using size by (simp add: hm_size_ok_def)
  have ixm: "idx ?m k = idx m k" by (simp add: idx_def)
  have l1: "bucket ?m ! idx ?m k = Some l" using ix ixm by simp
  have at1: "bucket_index ?m k = Inr (hash_fn m k mod num_bucket m)"
    "bucket_at ?m (hash_fn m k mod num_bucket m) = Inr (Some l)"
    "set_bucket ?m (hash_fn m k mod num_bucket m) (Some l) = ?m"
    "set_bucket m (hash_fn m k mod num_bucket m) (Some l) = ?m"
    using bucket_index_ok [OF inv1, of k] bucket_at_ok [OF inv1, of k] l1
    by (simp_all add: set_bucket_def idx_def)
  have "hash_map_set list_p m k (Some d) w = hash_map_set list_p ?m k (Some d) w"
    unfolding hash_map_set_def at1 bucket_index_ok [OF inv] rbind_Inr bucket_at_ok [OF inv] None l
      option.case at1 Let_def by (rule refl)
  moreover obtain m' w' where "hash_map_set list_p ?m k (Some d) w = Inr (True, m', w')" "hm_inv m'"
    "hm_size_ok m'" "hm_same_cfg ?m m'"
    "length (entries m') = length (entries ?m) + (if hm_lookup ?m k = None then 1 else 0)"
    "old_entry_freed ?m k w w'"
    "\<forall>k'. hm_lookup m' k' = (if keys_are_equal ?m k k' then Some d else hm_lookup ?m k')"
    using hash_map_set_bucket_ok [OF inv1 size1 l1, of list_p d w] room by auto
  ultimately show ?thesis by (auto simp: hm_same_cfg_def)
qed

section \<open>Iteration and clearing\<close>

text \<open>The entries in the order in which the iteration meets them.\<close>

definition hm_ptrs :: "('k, 'd, 'w) hash_map_t \<Rightarrow> ptr list" where
  "hm_ptrs m = concat (map bucket_ptrs (bucket m))"

definition hm_content :: "('k, 'd, 'w) hash_map_t \<Rightarrow> ('k, 'd) hash_map_entry_t list" where
  "hm_content m = map (\<lambda>p. the (map_of (entries m) p)) (hm_ptrs m)"

fun foreach_entries ::
  "('e \<Rightarrow> 'c \<Rightarrow> (bool \<times> 'c) res) \<Rightarrow> 'e list \<Rightarrow> 'c \<Rightarrow> (bool \<times> 'c) res" where
  "foreach_entries callback [] c = Inr (True, c)"
| "foreach_entries callback (e # es) c =
     rbind (callback e c) (\<lambda>(go_on, c1).
       if go_on then foreach_entries callback es c1 else Inr (False, c1))"

lemma foreach_entries_append:
  "foreach_entries callback (es @ fs) c =
     rbind (foreach_entries callback es c) (\<lambda>(go_on, c1).
       if go_on then foreach_entries callback fs c1 else Inr (False, c1))"
  by (induction es arbitrary: c) (auto simp: rbind_def split: sum.splits)

lemma foreach_bucket_loop_seg:
  assumes "seg (map_of (nodes l)) p cs NULL" and "length cs \<le> k"
    and "\<And>q. q \<in> snd ` set cs \<Longrightarrow> q \<in> fst ` set (entries m)"
  shows "foreach_bucket_loop k m l p callback c =
     foreach_entries callback (map (\<lambda>q. the (map_of (entries m) q)) (map snd cs)) c"
  using assms
proof (induction cs arbitrary: p k c)
  case Nil
  then show ?case by (cases k) (auto simp: list_end_def)
next
  case (Cons x cs)
  obtain a d where x: "x = (a, d)" by (cases x)
  obtain e where "map_of (entries m) d = Some e"
    using Cons.prems(3) [of d] x by (cases "map_of (entries m) d") auto
  then show ?case
    using Cons x
    by (cases k) (auto simp: list_end_def list_node_def list_next_def rbind_def split: sum.splits)
qed

lemma hm_bucket_foreach:
  assumes inv: "hm_inv m" and i: "i < length (bucket m)" and l: "bucket m ! i = Some l"
  shows "foreach_bucket_loop (length (nodes l)) m l (list_begin l) callback c =
     foreach_entries callback (map (\<lambda>q. the (map_of (entries m) q)) (list_elems l)) c"
proof -
  obtain cs where cs: "list_rep l cs" "list_elems l = map snd cs"
    using hm_inv_bucket [OF inv i l] by (auto simp: bucket_list_ok_def elim: list_inv_repE)
  have "q \<in> fst ` set (entries m)" if "q \<in> snd ` set cs" for q
    using hm_inv_bucket_entry [OF inv i, of q] l that cs(2) map_of_in_live
    by (metis bucket_ptrs.simps(2) list.set_map)
  moreover have "seg (map_of (nodes l)) (list_head l) cs NULL" "length cs \<le> length (nodes l)"
    using cs(1) by (simp_all add: list_rep_def list_rep_length [OF cs(1)])
  ultimately show ?thesis
    using foreach_bucket_loop_seg [of l "list_head l" cs "length (nodes l)" m callback c] cs(2)
    by (simp add: list_begin_def)
qed

lemma hash_map_foreach_loop_ok:
  assumes inv: "hm_inv m" and "\<forall>i \<in> set is. i < length (bucket m)"
  shows "hash_map_foreach_loop (map word_of_nat is) m callback c =
     rbind (foreach_entries callback
             (map (\<lambda>p. the (map_of (entries m) p)) (concat (map (\<lambda>i. bucket_ptrs (bucket m ! i)) is))) c)
       (\<lambda>(_, c1). Inr c1)"
  using assms(2)
proof (induction "is" arbitrary: c)
  case (Cons i "is")
  have i: "i < length (bucket m)" using Cons.prems by simp
  then have at: "bucket_at m (word_of_nat i) = Inr (bucket m ! i)"
    using inv unat_word_of_nat_less [of i "num_bucket m"] by (simp add: bucket_at_def hm_inv_def)
  have IH: "hash_map_foreach_loop (map word_of_nat is) m callback c =
     rbind (foreach_entries callback
             (map (\<lambda>p. the (map_of (entries m) p)) (concat (map (\<lambda>i. bucket_ptrs (bucket m ! i)) is))) c)
       (\<lambda>(_, c1). Inr c1)" for c
    using Cons.IH Cons.prems by simp
  show ?case
  proof (cases "bucket m ! i")
    case None
    then show ?thesis by (simp add: at IH)
  next
    case (Some l)
    show ?thesis
      by (simp add: at Some IH hm_bucket_foreach [OF inv i Some] foreach_entries_append rbind_assoc)
         (auto intro!: rbind_cong simp: IH)
  qed
qed simp

lemma hm_ptrs_alt: "hm_ptrs m = concat (map (\<lambda>i. bucket_ptrs (bucket m ! i)) [0..<length (bucket m)])"
proof -
  have "map bucket_ptrs (bucket m) = map (\<lambda>i. bucket_ptrs (bucket m ! i)) [0..<length (bucket m)]"
    by (rule nth_equalityI) simp_all
  then show ?thesis by (simp add: hm_ptrs_def)
qed

lemma in_hm_ptrs: "p \<in> set (hm_ptrs m) \<longleftrightarrow> (\<exists>i < length (bucket m). p \<in> set (bucket_ptrs (bucket m ! i)))"
  by (auto simp: hm_ptrs_alt)

lemma hm_ptrs_distinct:
  assumes inv: "hm_inv m"
  shows "distinct (hm_ptrs m)" and "set (hm_ptrs m) = fst ` set (entries m)"
proof -
  show "distinct (hm_ptrs m)"
    unfolding hm_ptrs_alt
  proof (rule distinct_concat_upt)
    fix i assume "i < length (bucket m)"
    then show "distinct (bucket_ptrs (bucket m ! i))"
      using hm_inv_bucket [OF inv] by (cases "bucket m ! i") (auto simp: bucket_list_ok_def)
  next
    fix i j assume ij: "i < length (bucket m)" "j < length (bucket m)" "i \<noteq> j"
    show "set (bucket_ptrs (bucket m ! i)) \<inter> set (bucket_ptrs (bucket m ! j)) = {}"
    proof (rule equals0I)
      fix p assume p: "p \<in> set (bucket_ptrs (bucket m ! i)) \<inter> set (bucket_ptrs (bucket m ! j))"
      obtain e where "map_of (entries m) p = Some e" "idx m (entry_key e) = i"
        using hm_inv_bucket_entry [OF inv ij(1), of p] p by blast
      moreover obtain f where "map_of (entries m) p = Some f" "idx m (entry_key f) = j"
        using hm_inv_bucket_entry [OF inv ij(2), of p] p by blast
      ultimately show False using ij(3) by simp
    qed
  qed
  have "p \<in> fst ` set (entries m)" if "p \<in> set (hm_ptrs m)" for p
  proof -
    obtain i where "i < length (bucket m)" "p \<in> set (bucket_ptrs (bucket m ! i))"
      using \<open>p \<in> set (hm_ptrs m)\<close> unfolding in_hm_ptrs by blast
    then show ?thesis by (metis hm_inv_bucket_entry [OF inv] map_of_in_live)
  qed
  moreover have "p \<in> set (hm_ptrs m)" if p: "p \<in> fst ` set (entries m)" for p
  proof -
    obtain e where "map_of (entries m) p = Some e" using p by (metis map_of_None_iff not_None_eq)
    then show ?thesis
      using hm_inv_entry_placed [OF inv] idx_bound [OF inv] unfolding in_hm_ptrs by blast
  qed
  ultimately show "set (hm_ptrs m) = fst ` set (entries m)" by blast
qed

lemma mset_hm_content:
  assumes inv: "hm_inv m"
  shows "mset (hm_content m) = mset (map snd (entries m))"
proof -
  have dist: "distinct (live (entries m))" using inv by (simp add: hm_inv_def)
  have "mset (hm_ptrs m) = mset (live (entries m))"
    using hm_ptrs_distinct [OF inv] dist set_eq_iff_mset_eq_distinct [of "hm_ptrs m" "live (entries m)"]
    by simp
  then have "mset (hm_content m) = mset (map (\<lambda>p. the (map_of (entries m) p)) (live (entries m)))"
    unfolding hm_content_def by (metis mset_map)
  then show ?thesis unfolding map_the_map_of_live [OF dist] .
qed

lemma hash_map_foreach_ok:
  assumes inv: "hm_inv m"
  shows "hash_map_foreach m callback c =
     rbind (foreach_entries callback (hm_content m) c) (\<lambda>(_, c1). Inr c1)"
  using hash_map_foreach_loop_ok [OF inv, of "[0..<length (bucket m)]" callback c] inv
  by (simp add: hash_map_foreach_def bucket_numbers_def hm_content_def hm_ptrs_alt hm_inv_def)

text \<open>Freeing a bucket: the callbacks run on its entries in order and the entries are gone.\<close>

lemma map_of_fold_release:
  "map_of (fold release ps ents) q = (if q \<in> set ps then None else map_of ents q)"
  by (induction ps arbitrary: ents) auto

lemma distinct_fold_release: "distinct (live ents) \<Longrightarrow> distinct (live (fold release ps ents))"
  by (induction ps arbitrary: ents) auto

lemma run_free_cbs_bucket:
  assumes "free_cb l = Some (bucket_free (key_fn m) (data_fn m))"
    and "distinct ps" and "\<And>p. p \<in> set ps \<Longrightarrow> p \<noteq> NULL \<and> p \<in> fst ` set ents"
  shows "run_free_cbs l ps (ents, w) =
     Inr (fold release ps ents, fold (run_entry_fns m) (map (\<lambda>p. the (map_of ents p)) ps) w)"
  using assms(2,3)
proof (induction ps arbitrary: ents w)
  case (Cons p ps)
  obtain e where e: "map_of ents p = Some e"
    using Cons.prems(2) [of p] by (cases "map_of ents p") auto
  have cb: "run_free_cb l p (ents, w) = Inr (release p ents, run_entry_fns m e w)"
    using assms(1) bucket_free_ok [OF e] Cons.prems(2) [of p] by (simp add: run_free_cb_def)
  have same: "map (\<lambda>q. the (map_of (release p ents) q)) ps = map (\<lambda>q. the (map_of ents q)) ps"
    using Cons.prems(1) by auto
  have rest: "distinct ps" "\<And>q. q \<in> set ps \<Longrightarrow> q \<noteq> NULL \<and> q \<in> fst ` set (release p ents)"
    using Cons.prems by auto
  show ?case using Cons.IH [OF rest, of "run_entry_fns m e w", unfolded same] cb e by simp
qed simp

lemma hm_clear_bucket:
  assumes inv: "hm_inv m" and i: "i < length (bucket m)" and l: "bucket m ! i = Some l"
    and m': "m' = m\<lparr>bucket := (bucket m)[i := None], entries := fold release (list_elems l) (entries m)\<rparr>"
  shows "list_free (Some l) (entries m, w) =
      Inr (entries m', fold (run_entry_fns m) (map (\<lambda>p. the (map_of (entries m) p)) (list_elems l)) w)"
    and "hm_inv m'"
proof -
  have lok: "bucket_list_ok m l" using hm_inv_bucket [OF inv i l] .
  have mem: "\<exists>e. map_of (entries m) p = Some e \<and> idx m (entry_key e) = i" if "p \<in> set (list_elems l)" for p
    using hm_inv_bucket_entry [OF inv i, of p] l that by auto
  have ok: "p \<noteq> NULL \<and> p \<in> fst ` set (entries m)" if "p \<in> set (list_elems l)" for p
    using mem [OF that] hm_inv_ptr_nonnull [OF inv] map_of_in_live by metis
  show "list_free (Some l) (entries m, w) =
      Inr (entries m', fold (run_entry_fns m) (map (\<lambda>p. the (map_of (entries m) p)) (list_elems l)) w)"
    using lok run_free_cbs_bucket [of l m "list_elems l" "entries m" w] ok
    by (simp add: list_free_ok bucket_list_ok_def m')
  show "hm_inv m'"
  proof (rule hm_inv_replace_bucketI [OF inv, where b' = None, OF _ _ i])
    show "hm_same_cfg m m'" by (simp add: m' hm_same_cfg_def)
    show "distinct (live (entries m'))" using inv by (simp add: m' hm_inv_def distinct_fold_release)
    show "map_of (entries m') p = Some e \<longleftrightarrow> map_of (entries m) p = Some e"
      if "j \<noteq> i" "idx m (entry_key e) = j" for j p e
      using that mem [of p] by (auto simp: m' map_of_fold_release)
    show "p \<in> set (bucket_ptrs None)" if "map_of (entries m') p = Some e" "idx m (entry_key e) = i" for p e
      using that hm_inv_entry_placed [OF inv, of p e] l
      by (auto simp: m' map_of_fold_release split: if_splits)
    show "p = q" if "map_of (entries m') p = Some e" "map_of (entries m') q = Some f"
      "keys_are_equal m (entry_key e) (entry_key f)" for p q e f
      using that hm_inv_unique [OF inv, of p e q f] by (auto simp: m' map_of_fold_release split: if_splits)
  qed (simp_all add: m')
qed

lemma hash_map_clear_loop_ok:
  assumes "hm_inv m" and "distinct is" and "\<forall>i \<in> set is. i < length (bucket m)"
  shows "\<exists>m'. hash_map_clear_loop (map word_of_nat is) m w =
      Inr (m', fold (run_entry_fns m)
        (map (\<lambda>p. the (map_of (entries m) p)) (concat (map (\<lambda>i. bucket_ptrs (bucket m ! i)) is))) w) \<and>
      hm_inv m' \<and> hm_same_cfg m m' \<and> hash_size m' = hash_size m \<and>
      (\<forall>j < length (bucket m). bucket m' ! j = (if j \<in> set is then None else bucket m ! j))"
  using assms
proof (induction "is" arbitrary: m w)
  case Nil
  then show ?case by (simp add: hm_same_cfg_def)
next
  case (Cons i "is")
  have i: "i < length (bucket m)" using Cons.prems by simp
  then have at: "bucket_at m (word_of_nat i) = Inr (bucket m ! i)"
    and nat: "unat (word_of_nat i :: 64 word) = i"
    using Cons.prems(1) unat_word_of_nat_less [of i "num_bucket m"] by (simp_all add: bucket_at_def hm_inv_def)
  show ?case
  proof (cases "bucket m ! i")
    case None
    with Cons.IH [of m w] Cons.prems at show ?thesis by auto
  next
    case (Some l)
    define m1 where
      "m1 = m\<lparr>bucket := (bucket m)[i := None], entries := fold release (list_elems l) (entries m)\<rparr>"
    define w1 where "w1 = fold (run_entry_fns m) (map (\<lambda>p. the (map_of (entries m) p)) (list_elems l)) w"
    note cl = hm_clear_bucket(1) [OF Cons.prems(1) i Some m1_def, of w]
      hm_clear_bucket(2) [OF Cons.prems(1) i Some m1_def]
    have step: "hash_map_clear_loop (map word_of_nat (i # is)) m w = hash_map_clear_loop (map word_of_nat is) m1 w1"
      using at Some cl(1) by (simp add: set_bucket_def nat m1_def w1_def)
    have cfg: "run_entry_fns m1 = run_entry_fns m" by (simp add: m1_def run_entry_fns_def fun_eq_iff)
    have ptrs: "map (\<lambda>j. bucket_ptrs (bucket m1 ! j)) is = map (\<lambda>j. bucket_ptrs (bucket m ! j)) is"
      using Cons.prems(2) by (auto simp: m1_def) (metis nth_list_update_neq)
    have same: "the (map_of (entries m1) p) = the (map_of (entries m) p)"
      if "p \<in> set (bucket_ptrs (bucket m ! j))" "j \<in> set is" for p j
    proof -
      have "j < length (bucket m)" "j \<noteq> i" using that(2) Cons.prems by auto
      then have "p \<notin> set (list_elems l)"
        using hm_inv_bucket_entry [OF Cons.prems(1), of j p] hm_inv_bucket_entry [OF Cons.prems(1) i, of p]
          that(1) Some by (metis bucket_ptrs.simps(2) option.inject)
      then show ?thesis by (simp add: m1_def map_of_fold_release)
    qed
    have ents: "map (\<lambda>p. the (map_of (entries m1) p)) (concat (map (\<lambda>j. bucket_ptrs (bucket m ! j)) is)) =
      map (\<lambda>p. the (map_of (entries m) p)) (concat (map (\<lambda>j. bucket_ptrs (bucket m ! j)) is))"
      using same by auto
    have "length (bucket m1) = length (bucket m)" "hm_same_cfg m m1" "hash_size m1 = hash_size m"
      by (simp_all add: m1_def hm_same_cfg_def)
    moreover have "\<forall>j \<in> set is. j < length (bucket m1)" "distinct is" using Cons.prems m1_def by auto
    ultimately show ?thesis
      using Cons.IH [OF cl(2), of w1] Some i Cons.prems(2)
      unfolding step cfg ptrs ents
      by (auto simp: w1_def hm_same_cfg_def) (auto simp: m1_def nth_list_update)
  qed
qed

lemma hash_map_clear_ok:
  assumes inv: "hm_inv m"
  shows "\<exists>m'. hash_map_clear m w = Inr (m', fold (run_entry_fns m) (hm_content m) w) \<and>
      hm_inv m' \<and> hm_same_cfg m m' \<and> hash_size m' = hash_size m \<and> entries m' = []"
proof -
  have num: "unat (num_bucket m) = length (bucket m)" using inv by (simp add: hm_inv_def)
  obtain m' where run: "hash_map_clear m w = Inr (m', fold (run_entry_fns m) (hm_content m) w)"
    and m': "hm_inv m'" "hm_same_cfg m m'" "hash_size m' = hash_size m"
    and none: "\<And>j. j < length (bucket m) \<Longrightarrow> bucket m' ! j = None"
    using hash_map_clear_loop_ok [OF inv, of "[0..<length (bucket m)]" w]
    by (auto simp: hash_map_clear_def bucket_numbers_def hm_content_def hm_ptrs_alt num)
  have len: "length (bucket m') = length (bucket m)"
    using m'(1,2) num by (simp add: hm_inv_def hm_same_cfg_def)
  have "hm_ptrs m' = []" by (simp add: hm_ptrs_alt len none)
  then have "entries m' = []" using hm_ptrs_distinct(2) [OF m'(1)] by simp
  with run m' show ?thesis by blast
qed

lemma hash_map_free_ok:
  "hm_inv m \<Longrightarrow> hash_map_free (Some m) w = Inr (fold (run_entry_fns m) (hm_content m) w)"
  using hash_map_clear_ok [of m w] by (auto simp: hash_map_free_def)

lemma hash_map_new_ok:
  assumes "map_p \<noteq> NULL" and "bucket_p \<noteq> NULL" and "0 < nb" and "nb < 2 ^ 61"
    and "fresh_alloc alloc" and "key_laws hf (case eq of None \<Rightarrow> default_key_equality | Some f \<Rightarrow> f)"
  shows "\<exists>m. hash_map_new_internal map_p bucket_p nb hf kf df eq alloc = Inr (Some m) \<and>
           hm_inv m \<and> hm_size_ok m \<and> entries m = [] \<and> hm_lookup m = (\<lambda>_. None) \<and>
           hm_allocator m = alloc \<and> num_bucket m = nb \<and> hash_fn m = hf \<and>
           keys_are_equal m = (case eq of None \<Rightarrow> default_key_equality | Some f \<Rightarrow> f)"
proof -
  have "unat nb < 2 ^ 61" using assms(4) by (simp add: word_less_nat_alt)
  then have nb: "unat (8 * nb) div 8 = unat nb"
    by (simp add: unat_word_ariths)
  have "nb \<noteq> 0" using assms(3) by auto
  then show ?thesis
    using assms nb
    by (auto simp: hash_map_new_internal_def hm_inv_def bucket_ok_def hm_size_ok_def hm_lookup_def)
qed

section \<open>The interface\<close>

text \<open>
  What the clients of the hash map (data dispatcher, allocation tracker, parameter maps) rely
  on: a partial map from keys, up to key equality, to data.
\<close>

locale key_store =
  fixes inv :: "'m \<Rightarrow> bool"
    and room :: "'m \<Rightarrow> bool"
    and same_key :: "'m \<Rightarrow> 'k \<Rightarrow> 'k \<Rightarrow> bool"
    and lookup :: "'m \<Rightarrow> 'k \<Rightarrow> 'd option"
    and get :: "'m \<Rightarrow> 'k \<Rightarrow> 'd option res"
    and put :: "'m \<Rightarrow> 'k \<Rightarrow> 'd option \<Rightarrow> 'w \<Rightarrow> (bool \<times> 'm \<times> 'w) res"
    and erase :: "'m \<Rightarrow> 'k \<Rightarrow> 'w \<Rightarrow> (bool \<times> 'm \<times> 'w) res"
  assumes same_key_refl: "inv m \<Longrightarrow> same_key m k k"
    and get_lookup: "inv m \<Longrightarrow> get m k = Inr (lookup m k)"
    and put_null: "put m k None w = Inl AssertFailed"
    and put_lookup: "inv m \<Longrightarrow> room m \<Longrightarrow>
      \<exists>m' w'. put m k (Some d) w = Inr (True, m', w') \<and> inv m' \<and> same_key m' = same_key m \<and>
        (\<forall>k'. lookup m' k' = (if same_key m k k' then Some d else lookup m k'))"
    and erase_lookup: "inv m \<Longrightarrow>
      \<exists>m' w'. erase m k w = Inr (lookup m k \<noteq> None, m', w') \<and> inv m' \<and> same_key m' = same_key m \<and>
        (room m \<longrightarrow> room m') \<and>
        (\<forall>k'. lookup m' k' = (if same_key m k k' then None else lookup m k'))"
begin

lemma put_get:
  assumes "inv m" and "room m"
  shows "\<exists>m' w'. put m k (Some d) w = Inr (True, m', w') \<and> get m' k = Inr (Some d)"
  using put_lookup [OF assms, of k d w] get_lookup same_key_refl [OF assms(1)] by metis

lemma erase_get:
  assumes "inv m"
  shows "\<exists>ok m' w'. erase m k w = Inr (ok, m', w') \<and> get m' k = Inr None"
  using erase_lookup [OF assms, of k w] get_lookup same_key_refl [OF assms] by metis

text \<open>Replacing an entry by erasing it first.\<close>

lemma erase_put:
  assumes "inv m" and "room m"
  shows "\<exists>m1 w1 m2 w2. erase m k w = Inr (lookup m k \<noteq> None, m1, w1) \<and>
      put m1 k (Some d) w1 = Inr (True, m2, w2) \<and> inv m2 \<and> same_key m2 = same_key m \<and>
      (\<forall>k'. lookup m2 k' = (if same_key m k k' then Some d else lookup m k'))"
proof -
  obtain m1 w1 where 1: "erase m k w = Inr (lookup m k \<noteq> None, m1, w1)" "inv m1"
    "same_key m1 = same_key m" "room m1"
    "\<forall>k'. lookup m1 k' = (if same_key m k k' then None else lookup m k')"
    using erase_lookup [OF assms(1), of k w] assms(2) by blast
  obtain m2 w2 where 2: "put m1 k (Some d) w1 = Inr (True, m2, w2)" "inv m2" "same_key m2 = same_key m1"
    "\<forall>k'. lookup m2 k' = (if same_key m1 k k' then Some d else lookup m1 k')"
    using put_lookup [OF 1(2,4), of k d w1] by blast
  show ?thesis using 1 2 by auto
qed

end

definition hm_good :: "('k, 'd, 'w) hash_map_t \<Rightarrow> bool" where
  "hm_good m \<longleftrightarrow> hm_inv m \<and> hm_size_ok m"

definition hm_room :: "ptr \<Rightarrow> ('k, 'd, 'w) hash_map_t \<Rightarrow> bool" where
  "hm_room list_p m \<longleftrightarrow> list_p \<noteq> NULL \<and> alloc_room (hm_allocator m) (length (entries m))"

lemma hash_map_erase_total:
  assumes "hm_good m"
  shows "\<exists>m' w'. hash_map_erase m k w = Inr (hm_lookup m k \<noteq> None, m', w') \<and> hm_good m' \<and>
    keys_are_equal m' = keys_are_equal m \<and> (hm_room list_p m \<longrightarrow> hm_room list_p m') \<and>
    (\<forall>k'. hm_lookup m' k' = (if keys_are_equal m k k' then None else hm_lookup m k'))"
proof (cases "hm_lookup m k")
  case None
  have "hm_lookup m k' = None" if "keys_are_equal m k k'" for k'
    using that None key_lawsD(3) [OF hm_inv_laws] assms key_lawsD(2) [OF hm_inv_laws]
    by (metis hm_good_def hm_lookup_None_iff)
  with None hash_map_erase_ok [of m k w] assms show ?thesis by (auto simp: hm_good_def)
next
  case (Some d)
  with hash_map_erase_ok [of m k w] assms obtain e m' where
    "hash_map_erase m k w = Inr (True, m', run_entry_fns m e w)" "hm_inv m'" "hm_size_ok m'"
    "hm_same_cfg m m'" "Suc (length (entries m')) = length (entries m)"
    "\<forall>k'. hm_lookup m' k' = (if keys_are_equal m k k' then None else hm_lookup m k')"
    by (auto simp: hm_good_def)
  with Some show ?thesis by (auto simp: hm_good_def hm_room_def alloc_room_def hm_same_cfg_def)
qed

interpretation hm: key_store hm_good "hm_room list_p" keys_are_equal hm_lookup hash_map_get
  "hash_map_set list_p" hash_map_erase for list_p
proof unfold_locales
  fix m :: "('a, 'b, 'c) hash_map_t" and k d w
  show "hm_good m \<Longrightarrow> keys_are_equal m k k"
    by (simp add: hm_good_def key_lawsD(1) [OF hm_inv_laws])
  show "hm_good m \<Longrightarrow> hash_map_get m k = Inr (hm_lookup m k)"
    by (simp add: hm_good_def hash_map_get_ok)
  show "hash_map_set list_p m k None w = Inl AssertFailed"
    by (simp add: hash_map_set_def)
  show "hm_good m \<Longrightarrow> hm_room list_p m \<Longrightarrow>
      \<exists>m' w'. hash_map_set list_p m k (Some d) w = Inr (True, m', w') \<and> hm_good m' \<and>
        keys_are_equal m' = keys_are_equal m \<and>
        (\<forall>k'. hm_lookup m' k' = (if keys_are_equal m k k' then Some d else hm_lookup m k'))"
    using hash_map_set_ok [of m list_p k d w] by (auto simp: hm_good_def hm_room_def hm_same_cfg_def)
  show "hm_good m \<Longrightarrow>
      \<exists>m' w'. hash_map_erase m k w = Inr (hm_lookup m k \<noteq> None, m', w') \<and> hm_good m' \<and>
        keys_are_equal m' = keys_are_equal m \<and> (hm_room list_p m \<longrightarrow> hm_room list_p m') \<and>
        (\<forall>k'. hm_lookup m' k' = (if keys_are_equal m k k' then None else hm_lookup m k'))"
    by (rule hash_map_erase_total)
qed

section \<open>Properties\<close>

lemma hash_map_size_ok:
  assumes "hm_good m"
  shows "unat (hash_map_size m) = length (entries m)"
proof -
  have inv: "hm_inv m" using assms by (simp add: hm_good_def)
  have "NULL \<notin> set (live (entries m))"
  proof
    assume "NULL \<in> set (live (entries m))"
    then obtain e where "map_of (entries m) NULL = Some e" by (metis list.set_map map_of_None_iff not_None_eq)
    then show False using hm_inv_ptr_nonnull [OF inv] by blast
  qed
  then have "length (entries m) < 2 ^ 64"
    using length_distinct_ptrs [of "live (entries m)"] inv by (simp add: hm_inv_def)
  then show ?thesis using assms
    by (simp add: hash_map_size_def hm_good_def hm_size_ok_def unat_of_nat take_bit_nat_eq_self)
qed

text \<open>
  A map from addresses to characters with two buckets and one entry, key 7, whose key callback
  records the keys it frees.
\<close>

definition demo_bucket :: "((ptr, char) entry_store \<times> ptr list) list_t" where
  "demo_bucket =
     \<lparr>list_head = 16, list_tail = 16, list_len = 1,
      free_cb = Some (bucket_free (Some (\<lambda>k w. w @ [k])) None),
      list_allocator = arena_alloc [16, 32, 48],
      nodes = [(16, \<lparr>node_next = NULL, node_data = 32\<rparr>)]\<rparr>"

definition demo_map :: "(ptr, char, ptr list) hash_map_t" where
  "demo_map =
     \<lparr>bucket = [None, Some demo_bucket], num_bucket = 2, hash_size = 1,
      hash_fn = hash_function_naive, key_fn = Some (\<lambda>k w. w @ [k]), data_fn = None,
      hm_allocator = arena_alloc [16, 32, 48], keys_are_equal = default_key_equality,
      entries = [(32, \<lparr>entry_key = 7, entry_data = CHR ''a''\<rparr>)]\<rparr>"

lemma demo_bucket_facts: "list_inv demo_bucket" "list_elems demo_bucket = [32]"
  by (simp_all add: list_inv_def list_rep_def list_cells_def list_elems_def demo_bucket_def)

lemma demo_map_good: "hm_good demo_map"
proof -
  have "bucket_ok demo_map i" if "i < 2" for i
    using that demo_bucket_facts
    by (auto simp: less_2_cases_iff bucket_ok_def bucket_list_ok_def demo_map_def idx_def hash_function_naive_def)
       (simp_all add: demo_bucket_def)
  then show ?thesis
    using demo_bucket_facts key_laws_default
    by (auto simp: hm_good_def hm_size_ok_def hm_inv_def demo_map_def idx_def hash_function_naive_def
        split: if_splits)
qed

lemma demo_map_room: "hm_room 64 demo_map"
  using alloc_room_arena [of "[16, 32, 48]" 1] by (simp add: hm_room_def demo_map_def)

lemma demo_map_lookup: "hm_lookup demo_map k = (if k = 7 then Some (CHR ''a'') else None)"
  by (auto simp: hm_lookup_def demo_map_def default_key_equality_def)

text \<open>
  C2. \<open>hash_map_set\<close> refines map update: on a well-formed map with memory to spare it succeeds,
  keeps the invariant, makes the key (and every key equal to it) lead to the new data, leaves
  all other keys alone, and the size grows exactly when the key was new. The callbacks run on
  the entry that is replaced, if there is one, and on nothing else.
\<close>

theorem hash_map_set_correct:
  assumes "hm_good m" and "hm_room list_p m"
  shows "\<exists>m' w'. hash_map_set list_p m k (Some d) w = Inr (True, m', w') \<and> hm_good m' \<and>
    (\<forall>k'. hash_map_get m' k' = Inr (if keys_are_equal m k k' then Some d else hm_lookup m k')) \<and>
    unat (hash_map_size m') = unat (hash_map_size m) + (if hm_lookup m k = None then 1 else 0) \<and>
    old_entry_freed m k w w'"
proof -
  obtain m' w' where set: "hash_map_set list_p m k (Some d) w = Inr (True, m', w')" "hm_good m'"
    and len: "length (entries m') = length (entries m) + (if hm_lookup m k = None then 1 else 0)"
    and look: "\<forall>k'. hm_lookup m' k' = (if keys_are_equal m k k' then Some d else hm_lookup m k')"
    and old: "old_entry_freed m k w w'"
    using hash_map_set_ok [of m list_p k d w] assms by (auto simp: hm_good_def hm_room_def)
  have "unat (hash_map_size m') = unat (hash_map_size m) + (if hm_lookup m k = None then 1 else 0)"
    using hash_map_size_ok [OF set(2)] hash_map_size_ok [OF assms(1)] len by simp
  moreover have "\<forall>k'. hash_map_get m' k' = Inr (if keys_are_equal m k k' then Some d else hm_lookup m k')"
    using hm.get_lookup [OF set(2)] look by simp
  ultimately show ?thesis using set old by blast
qed

theorem hash_map_set_correct_witness:
  "hm_good demo_map \<and> (\<exists>m' w'. hash_map_set 64 demo_map 9 (Some (CHR ''b'')) [] = Inr (True, m', w') \<and>
     hash_map_get m' 9 = Inr (Some (CHR ''b'')) \<and> hash_map_get m' 7 = Inr (Some (CHR ''a'')) \<and>
     unat (hash_map_size m') = 2)"
  using hash_map_set_correct [OF demo_map_good demo_map_room, of 9 "CHR ''b''" "[]"] demo_map_good
  by (auto simp: demo_map_lookup) (auto simp: demo_map_def default_key_equality_def hash_map_size_def)

text \<open>
  C25. \<open>hash_map_erase\<close> refines deletion: it answers whether the key was present; if so, there is
  a stored entry with an equal key, the key and data callbacks run once each, on the key and the
  data of that stored entry (not on the key looked up), exactly that entry leaves the store, the
  key is gone, the others stay and the size shrinks by one; if not, nothing changes.
\<close>

theorem hash_map_erase_correct:
  assumes "hm_good m"
  shows "case hm_lookup m k of
      None \<Rightarrow> hash_map_erase m k w = Inr (False, m, w)
    | Some d \<Rightarrow> \<exists>p e m'. map_of (entries m) p = Some e \<and>
        keys_are_equal m (entry_key e) k \<and> entry_data e = d \<and>
        hash_map_erase m k w = Inr (True, m', run_entry_fns m e w) \<and> hm_good m' \<and>
        entries m' = release p (entries m) \<and>
        unat (hash_map_size m') + 1 = unat (hash_map_size m) \<and>
        (\<forall>k'. hash_map_get m' k' = Inr (if keys_are_equal m k k' then None else hm_lookup m k'))"
proof (cases "hm_lookup m k")
  case None
  with hash_map_erase_ok [of m k w] assms show ?thesis by (simp add: hm_good_def)
next
  case (Some d)
  with hash_map_erase_ok [of m k w] assms obtain p e m' where
    run: "hash_map_erase m k w = Inr (True, m', run_entry_fns m e w)" "keys_are_equal m (entry_key e) k"
    "entry_data e = d" "hm_good m'" "Suc (length (entries m')) = length (entries m)"
    "\<forall>k'. hm_lookup m' k' = (if keys_are_equal m k k' then None else hm_lookup m k')"
    and p: "map_of (entries m) p = Some e" "entries m' = release p (entries m)"
    by (auto simp: hm_good_def)
  from run(5) have "unat (hash_map_size m') + 1 = unat (hash_map_size m)"
    using hash_map_size_ok [OF run(4)] hash_map_size_ok [OF assms] by simp
  moreover have "\<forall>k'. hash_map_get m' k' = Inr (if keys_are_equal m k k' then None else hm_lookup m k')"
    using hm.get_lookup [OF run(4)] run(6) by simp
  ultimately show ?thesis using Some run(1-4) p by (simp only: option.case) blast
qed

theorem hash_map_erase_correct_witness:
  "hm_good demo_map \<and> (\<exists>m'. hash_map_erase demo_map 7 [] = Inr (True, m', [7]) \<and>
     hash_map_get m' 7 = Inr None)"
  using hash_map_erase_correct [OF demo_map_good, of 7 "[]"] demo_map_good
  by (auto simp: demo_map_lookup)
     (auto simp: demo_map_def default_key_equality_def run_entry_fns_def)

text \<open>
  Iteration: \<open>hash_map_foreach\<close> hands every entry to the callback exactly once (the sequence
  it visits is a permutation of the entries), stopping early only when the callback says so.
\<close>

theorem hash_map_foreach_correct:
  assumes "hm_good m"
  shows "\<exists>es. mset es = mset (map snd (entries m)) \<and>
    (\<forall>callback c. hash_map_foreach m callback c =
       rbind (foreach_entries callback es c) (\<lambda>(_, c1). Inr c1))"
proof (intro exI conjI allI)
  have inv: "hm_inv m" using assms by (simp add: hm_good_def)
  show "mset (hm_content m) = mset (map snd (entries m))" using mset_hm_content [OF inv] .
  show "hash_map_foreach m callback c =
      rbind (foreach_entries callback (hm_content m) c) (\<lambda>(_, c1). Inr c1)" for callback c
    using hash_map_foreach_ok [OF inv] .
qed

theorem hash_map_foreach_correct_witness:
  "hm_good demo_map \<and> hash_map_foreach demo_map (\<lambda>e c. Inr (True, entry_key e # c)) [] = Inr [7]"
proof -
  from hash_map_foreach_correct [OF demo_map_good] obtain es where
    es: "mset es = mset (map snd (entries demo_map))"
    and all: "\<forall>callback (c :: 64 word list). hash_map_foreach demo_map callback c =
       rbind (foreach_entries callback es c) (\<lambda>(_, c1). Inr c1)"
    by (elim exE conjE)
  note run = all [rule_format, of "\<lambda>e c. Inr (True, entry_key e # c)" "[]"]
  from es have "es = [\<lparr>entry_key = 7, entry_data = CHR ''a''\<rparr>]"
    by (simp add: demo_map_def)
  then show ?thesis using run demo_map_good by simp
qed

text \<open>
  \<open>hash_map_clear\<close> hands every entry to the key and data callbacks exactly once, releases all of
  them and makes every lookup answer null. It does not touch the size: after clearing,
  \<open>hash_map_size\<close> still answers the old number of entries.
\<close>

theorem hash_map_clear_correct:
  assumes "hm_good m"
  shows "\<exists>es m'. mset es = mset (map snd (entries m)) \<and>
    hash_map_clear m w = Inr (m', fold (run_entry_fns m) es w) \<and> entries m' = [] \<and>
    (\<forall>k. hash_map_get m' k = Inr None) \<and>
    unat (hash_map_size m') = length (entries m)"
proof -
  have inv: "hm_inv m" using assms by (simp add: hm_good_def)
  obtain m' where run: "hash_map_clear m w = Inr (m', fold (run_entry_fns m) (hm_content m) w)"
    and m': "hm_inv m'" "hash_size m' = hash_size m" "entries m' = []"
    using hash_map_clear_ok [OF inv, of w] by blast
  have "hash_map_get m' k = Inr None" for k
    using hash_map_get_ok [OF m'(1)] hm_lookup_None_iff [OF m'(1)] m'(3) by simp
  moreover have "unat (hash_map_size m') = length (entries m)"
    using hash_map_size_ok [OF assms] m'(2) by (simp add: hash_map_size_def)
  ultimately show ?thesis using mset_hm_content [OF inv] run m'(3) by blast
qed

theorem hash_map_clear_correct_witness:
  "hm_good demo_map \<and> (\<exists>m'. hash_map_clear demo_map [] = Inr (m', [7]) \<and>
     hash_map_get m' 7 = Inr None \<and> unat (hash_map_size m') = 1)"
proof -
  obtain es m' where es: "mset es = mset (map snd (entries demo_map))"
    and run: "hash_map_clear demo_map [] = Inr (m', fold (run_entry_fns demo_map) es [])"
    and m': "\<forall>k. hash_map_get m' k = Inr None" "unat (hash_map_size m') = length (entries demo_map)"
    using hash_map_clear_correct [OF demo_map_good, of "[]"] by (elim exE conjE)
  have "es = [\<lparr>entry_key = 7, entry_data = CHR ''a''\<rparr>]"
    using es by (simp add: demo_map_def)
  then have "hash_map_clear demo_map [] = Inr (m', [7])"
    using run by (simp add: demo_map_def run_entry_fns_def)
  then show ?thesis using m' demo_map_good by (simp add: demo_map_def)
qed

end
