(* ===== verification/RingBuffer.thy ===== *)
theory RingBuffer
  imports Prelude
begin

text \<open>
  The byte ring buffer of \<open>src/ringbuffer.c\<close>: a fixed array, a read pointer, a write pointer and
  the number of free bytes. A pointer into the array is its offset from \<open>base\<close>. The theory has
  the operations of the file, the invariant, the sequence of bytes the buffer holds, and the
  refinement of a bounded first-in first-out byte stream.
\<close>

section \<open>The structure and its operations\<close>

record ringbuffer_t =
  total :: size_t
  available :: size_t
  base :: "uint8_t list"
  head :: nat
  tail :: nat

text \<open>\<open>osi_calloc\<close> asserts that it got memory; \<open>got\<close> and \<open>got_base\<close> say whether the two calls did.\<close>

definition ringbuffer_init :: "bool \<Rightarrow> bool \<Rightarrow> size_t \<Rightarrow> ringbuffer_t res" where
  "ringbuffer_init got got_base sz =
     rbind (c_assert got) (\<lambda>_. rbind (c_assert got_base) (\<lambda>_.
     Inr \<lparr>total = sz, available = sz, base = replicate (unat sz) 0, head = 0, tail = 0\<rparr>))"

text \<open>The blocks \<open>ringbuffer_free\<close> gives back, in order; \<open>osi_free\<close> of null does nothing.\<close>

datatype rb_block = RbBase | RbStruct

definition ringbuffer_free :: "ringbuffer_t option \<Rightarrow> rb_block list" where
  "ringbuffer_free rb = (case rb of None \<Rightarrow> [] | Some _ \<Rightarrow> [RbBase, RbStruct])"

definition ringbuffer_available :: "ringbuffer_t \<Rightarrow> size_t" where
  "ringbuffer_available rb = available rb"

definition ringbuffer_size :: "ringbuffer_t \<Rightarrow> size_t" where
  "ringbuffer_size rb = total rb - available rb"

text \<open>A pointer just advanced goes back to \<open>base\<close> when it has reached the end.\<close>

definition rb_wrap :: "ringbuffer_t \<Rightarrow> nat \<Rightarrow> nat" where
  "rb_wrap rb p = (if p \<ge> unat (total rb) then 0 else p)"

text \<open>The copying loop of \<open>ringbuffer_insert\<close>, \<open>n\<close> rounds from the end.\<close>

fun ringbuffer_insert_loop :: "nat \<Rightarrow> ringbuffer_t \<Rightarrow> uint8_t list \<Rightarrow> ringbuffer_t res" where
  "ringbuffer_insert_loop 0 rb p = Inr rb"
| "ringbuffer_insert_loop (Suc n) rb [] = Inl OutOfBounds"
| "ringbuffer_insert_loop (Suc n) rb (b # p) =
     (if tail rb < length (base rb)
      then ringbuffer_insert_loop n
             (rb\<lparr>base := (base rb)[tail rb := b], tail := rb_wrap rb (tail rb + 1)\<rparr>) p
      else Inl OutOfBounds)"

definition ringbuffer_insert ::
  "ringbuffer_t \<Rightarrow> uint8_t list \<Rightarrow> size_t \<Rightarrow> (size_t \<times> ringbuffer_t) res" where
  "ringbuffer_insert rb p len =
     (let len1 = (if len > ringbuffer_available rb then ringbuffer_available rb else len) in
      rbind (ringbuffer_insert_loop (unat len1) rb p) (\<lambda>rb1.
      Inr (len1, rb1\<lparr>available := available rb1 - len1\<rparr>)))"

text \<open>The read pointer moves on by \<open>len\<close> and wraps by subtraction.\<close>

definition rb_advance_head :: "ringbuffer_t \<Rightarrow> size_t \<Rightarrow> ringbuffer_t" where
  "rb_advance_head rb len =
     (let h = head rb + unat len;
          h1 = (if h \<ge> unat (total rb) then h - unat (total rb) else h) in
      rb\<lparr>available := available rb + len, head := h1\<rparr>)"

definition ringbuffer_delete :: "ringbuffer_t \<Rightarrow> size_t \<Rightarrow> size_t \<times> ringbuffer_t" where
  "ringbuffer_delete rb len =
     (let len1 = (if len > ringbuffer_size rb then ringbuffer_size rb else len) in
      (len1, rb_advance_head rb len1))"

text \<open>
  The copying loop of \<open>ringbuffer_peek\<close>: \<open>n\<close> is the number of bytes still allowed by both
  conditions of the loop, \<open>b\<close> the read position, \<open>i\<close> the write position in the destination.
\<close>

fun ringbuffer_peek_loop ::
  "nat \<Rightarrow> ringbuffer_t \<Rightarrow> nat \<Rightarrow> nat \<Rightarrow> uint8_t list \<Rightarrow> uint8_t list res" where
  "ringbuffer_peek_loop 0 rb b i p = Inr p"
| "ringbuffer_peek_loop (Suc n) rb b i p =
     (if i < length p \<and> b < length (base rb)
      then ringbuffer_peek_loop n rb (rb_wrap rb (b + 1)) (i + 1) (p[i := base rb ! b])
      else Inl OutOfBounds)"

definition ringbuffer_peek ::
  "ringbuffer_t \<Rightarrow> uint8_t list \<Rightarrow> size_t \<Rightarrow> (size_t \<times> uint8_t list) res" where
  "ringbuffer_peek rb p len =
     (let copied = min len (ringbuffer_size rb) in
      rbind (ringbuffer_peek_loop (unat copied) rb (head rb) 0 p) (\<lambda>p1. Inr (copied, p1)))"

definition ringbuffer_pop ::
  "ringbuffer_t \<Rightarrow> uint8_t list \<Rightarrow> size_t \<Rightarrow> (size_t \<times> uint8_t list \<times> ringbuffer_t) res" where
  "ringbuffer_pop rb p len =
     rbind (ringbuffer_peek rb p len) (\<lambda>(copied, p1).
     Inr (copied, p1, rb_advance_head rb copied))"

section \<open>The bytes held and the invariant\<close>

definition rb_count :: "ringbuffer_t \<Rightarrow> nat" where
  "rb_count rb = unat (total rb) - unat (available rb)"

definition rb_bytes :: "ringbuffer_t \<Rightarrow> uint8_t list" where
  "rb_bytes rb = map (\<lambda>i. base rb ! ((head rb + i) mod unat (total rb))) [0..<rb_count rb]"

definition rb_inv :: "ringbuffer_t \<Rightarrow> bool" where
  "rb_inv rb \<longleftrightarrow>
     length (base rb) = unat (total rb) \<and> available rb \<le> total rb \<and>
     (head rb < unat (total rb) \<or> total rb = 0 \<and> head rb = 0) \<and>
     tail rb = (head rb + rb_count rb) mod unat (total rb)"

lemma length_rb_bytes [simp]: "length (rb_bytes rb) = rb_count rb"
  by (simp add: rb_bytes_def)

lemma rb_available_le: "rb_inv rb \<Longrightarrow> unat (available rb) \<le> unat (total rb)"
  by (simp add: rb_inv_def word_le_nat_alt)

lemma rb_size_ok: "rb_inv rb \<Longrightarrow> unat (ringbuffer_size rb) = rb_count rb"
  by (simp add: rb_inv_def ringbuffer_size_def rb_count_def unat_sub)

lemma rb_count_available: "rb_inv rb \<Longrightarrow> rb_count rb + unat (available rb) = unat (total rb)"
  using rb_available_le [of rb] by (simp add: rb_count_def)

lemma unat_if_min: "unat (if a > b then b else (a :: size_t)) = min (unat a) (unat b)"
  by (auto simp: word_less_nat_alt)

lemma unat_min: "unat (min a (b :: size_t)) = min (unat a) (unat b)"
  by (auto simp: min_def word_le_nat_alt)

lemma ringbuffer_init_ok:
  "\<exists>rb. ringbuffer_init True True sz = Inr rb \<and> rb_inv rb \<and> rb_bytes rb = [] \<and> total rb = sz"
  by (cases "sz = 0") (simp_all add: ringbuffer_init_def rb_inv_def rb_count_def rb_bytes_def unat_gt_0)

section \<open>Insertion\<close>

lemma rb_wrap_mod: "rb_inv rb \<Longrightarrow> p < unat (total rb) \<Longrightarrow> rb_wrap rb (p + 1) = (p + 1) mod unat (total rb)"
  by (cases "p + 1 = unat (total rb)") (auto simp: rb_wrap_def)

text \<open>One round of the copying loop, the free count brought up to date.\<close>

definition rb_put :: "ringbuffer_t \<Rightarrow> uint8_t \<Rightarrow> ringbuffer_t" where
  "rb_put rb b = rb\<lparr>available := available rb - 1, base := (base rb)[tail rb := b],
                   tail := rb_wrap rb (tail rb + 1)\<rparr>"

lemma ring_positions_distinct:
  "i < n \<Longrightarrow> n < (m :: nat) \<Longrightarrow> h < m \<Longrightarrow> (h + i) mod m \<noteq> (h + n) mod m"
  by (auto simp: mod_if split: if_splits)

lemma rb_put_ok:
  assumes inv: "rb_inv rb" and room: "available rb \<noteq> 0"
  shows "tail rb < length (base rb)" "rb_inv (rb_put rb b)"
    "rb_bytes (rb_put rb b) = rb_bytes rb @ [b]"
proof -
  let ?n = "unat (total rb)"
  have av: "0 < unat (available rb)" using room by (simp add: unat_gt_0)
  have cnt: "rb_count rb + unat (available rb) = ?n" using rb_count_available [OF inv] .
  have pos: "0 < ?n" using av cnt by linarith
  have h: "head rb < ?n" using inv pos by (auto simp: rb_inv_def)
  have tl: "tail rb = (head rb + rb_count rb) mod ?n" using inv by (simp add: rb_inv_def)
  then have tb: "tail rb < ?n" using pos by simp
  then show "tail rb < length (base rb)" using inv by (simp add: rb_inv_def)
  have av1: "unat (available rb - 1) = unat (available rb) - 1" using room by (rule unat_minus_one)
  have cnt1: "rb_count (rb_put rb b) = Suc (rb_count rb)"
    using av cnt by (simp add: rb_put_def rb_count_def av1)
  have "rb_wrap rb (tail rb + 1) = (head rb + Suc (rb_count rb)) mod ?n"
    using rb_wrap_mod [OF inv tb] tl by (simp add: mod_Suc_eq)
  moreover have "available rb - 1 \<le> total rb"
    using av cnt by (simp add: word_le_nat_alt av1)
  ultimately show "rb_inv (rb_put rb b)"
    using inv cnt1 h by (simp add: rb_inv_def rb_put_def rb_count_def)
  have "(base rb)[tail rb := b] ! ((head rb + i) mod ?n) = base rb ! ((head rb + i) mod ?n)"
    if "i < rb_count rb" for i
    using ring_positions_distinct [OF that _ h] tl cnt av by auto
  moreover have "(base rb)[tail rb := b] ! ((head rb + rb_count rb) mod ?n) = b"
    using tl tb inv by (simp add: rb_inv_def)
  moreover have "head (rb_put rb b) = head rb" "total (rb_put rb b) = total rb"
    "base (rb_put rb b) = (base rb)[tail rb := b]" by (simp_all add: rb_put_def)
  ultimately show "rb_bytes (rb_put rb b) = rb_bytes rb @ [b]"
    by (simp add: rb_bytes_def cnt1)
qed

lemma rb_put_total [simp]: "total (rb_put rb b) = total rb"
  by (simp add: rb_put_def)

text \<open>The loop followed by the subtraction of the count is a sequence of such rounds.\<close>

lemma ringbuffer_insert_loop_available:
  "ringbuffer_insert_loop n (rb\<lparr>available := a\<rparr>) p =
     rbind (ringbuffer_insert_loop n rb p) (\<lambda>rb1. Inr (rb1\<lparr>available := a\<rparr>))"
proof (induction n rb p rule: ringbuffer_insert_loop.induct)
  case (3 n rb b p)
  then show ?case by (cases rb) (simp add: rb_wrap_def)
qed simp_all

lemma ringbuffer_insert_loop_keeps:
  "ringbuffer_insert_loop n rb p = Inr rb1 \<Longrightarrow> available rb1 = available rb"
  by (induction n rb p rule: ringbuffer_insert_loop.induct) (auto split: if_splits)

lemma ringbuffer_insert_loop_ok:
  assumes "rb_inv rb" and "n \<le> unat (available rb)" and "n \<le> length p"
  shows "\<exists>rb1. ringbuffer_insert_loop n rb p = Inr rb1 \<and>
    (let rb' = rb1\<lparr>available := available rb1 - word_of_nat n\<rparr> in
     rb_inv rb' \<and> rb_bytes rb' = rb_bytes rb @ take n p \<and> total rb' = total rb \<and>
     available rb' = available rb - word_of_nat n)"
  using assms
proof (induction n arbitrary: rb p)
  case (Suc n)
  obtain b q where p: "p = b # q" using Suc.prems(3) by (cases p) auto
  have room: "available rb \<noteq> 0" using Suc.prems(2) by auto
  note put = rb_put_ok(1) [OF Suc.prems(1) room] rb_put_ok(2,3) [OF Suc.prems(1) room, of b]
  have "n \<le> unat (available (rb_put rb b))"
    using Suc.prems(2) room by (simp add: rb_put_def unat_minus_one)
  then obtain rb1 where run: "ringbuffer_insert_loop n (rb_put rb b) q = Inr rb1"
    and rb1: "rb_inv (rb1\<lparr>available := available rb1 - word_of_nat n\<rparr>)"
      "rb_bytes (rb1\<lparr>available := available rb1 - word_of_nat n\<rparr>) = rb_bytes rb @ take (Suc n) p"
      "total rb1 = total rb"
      "available rb1 - word_of_nat n = available rb - 1 - word_of_nat n"
    using Suc.IH [OF put(2), of q] Suc.prems(3) put(3) p by (auto simp: Let_def rb_put_def)
  let ?rb = "rb\<lparr>base := (base rb)[tail rb := b], tail := rb_wrap rb (tail rb + 1)\<rparr>"
  have put_eq: "rb_put rb b = ?rb\<lparr>available := available rb - 1\<rparr>" by (simp add: rb_put_def)
  obtain rb2 where run2: "ringbuffer_insert_loop n ?rb q = Inr rb2"
      and rb2: "rb1 = rb2\<lparr>available := available rb - 1\<rparr>"
    using run unfolding put_eq ringbuffer_insert_loop_available by auto
  have av2: "available rb2 = available rb"
    using ringbuffer_insert_loop_keeps [OF run2] by simp
  then have eq2: "rb2\<lparr>available := available rb2 - word_of_nat (Suc n)\<rparr> =
      rb1\<lparr>available := available rb1 - word_of_nat n\<rparr>"
    by (simp add: rb2 algebra_simps)
  then show ?case using rb1 run2 put(1) p av2 by (simp add: Let_def rb2 algebra_simps)
qed (auto simp: Let_def)

lemma ringbuffer_insert_ok:
  assumes inv: "rb_inv rb" and len: "min (unat len) (unat (available rb)) \<le> length p"
  shows "\<exists>n rb'. ringbuffer_insert rb p len = Inr (n, rb') \<and>
    unat n = min (unat len) (unat (available rb)) \<and> rb_inv rb' \<and>
    rb_bytes rb' = rb_bytes rb @ take (unat n) p \<and> total rb' = total rb"
proof -
  define n where "n = (if len > ringbuffer_available rb then ringbuffer_available rb else len)"
  have n: "unat n = min (unat len) (unat (available rb))"
    unfolding n_def ringbuffer_available_def by (rule unat_if_min)
  have le: "unat n \<le> unat (available rb)" "unat n \<le> length p" using n len by linarith+
  obtain rb1 where run: "ringbuffer_insert_loop (unat n) rb p = Inr rb1"
    and rb1: "rb_inv (rb1\<lparr>available := available rb1 - n\<rparr>)"
       "rb_bytes (rb1\<lparr>available := available rb1 - n\<rparr>) = rb_bytes rb @ take (unat n) p"
       "total rb1 = total rb"
    using ringbuffer_insert_loop_ok [OF inv, of "unat n" p] le by (auto simp: Let_def)
  then have "ringbuffer_insert rb p len = Inr (n, rb1\<lparr>available := available rb1 - n\<rparr>)"
    unfolding ringbuffer_insert_def Let_def n_def [symmetric] by simp
  then show ?thesis using rb1 n by simp
qed

section \<open>Deletion, peeking and popping\<close>

lemma ring_wrap:
  "h < (n :: nat) \<Longrightarrow> l \<le> n \<Longrightarrow> (h + l) mod n = (if h + l \<ge> n then h + l - n else h + l)"
  by (simp add: le_mod_geq)

lemma rb_advance_head_ok:
  assumes inv: "rb_inv rb" and len: "unat len \<le> rb_count rb"
  shows "rb_inv (rb_advance_head rb len)" "rb_bytes (rb_advance_head rb len) = drop (unat len) (rb_bytes rb)"
    "total (rb_advance_head rb len) = total rb"
proof -
  let ?n = "unat (total rb)" and ?rb = "rb_advance_head rb len"
  have cnt: "rb_count rb + unat (available rb) = ?n" using rb_count_available [OF inv] .
  have av: "unat (available rb + len) = unat (available rb) + unat len"
    using cnt len unat64_less [of "total rb"] by (subst unat_add_lem [THEN iffD1]) simp_all
  have cnt1: "rb_count ?rb = rb_count rb - unat len"
    using cnt len av by (simp add: rb_advance_head_def rb_count_def Let_def)
  have hd: "head ?rb = (head rb + unat len) mod ?n"
    using inv len cnt ring_wrap [of "head rb" ?n "unat len"]
    by (auto simp: rb_advance_head_def rb_inv_def Let_def)
  have tl: "tail ?rb = (head ?rb + rb_count ?rb) mod ?n"
    using inv len unfolding cnt1 hd mod_add_left_eq by (simp add: rb_advance_head_def rb_inv_def Let_def)
  show tot: "total ?rb = total rb" by (simp add: rb_advance_head_def Let_def)
  have base: "base ?rb = base rb" by (simp add: rb_advance_head_def Let_def)
  have "available ?rb \<le> total rb"
    using cnt len av by (simp add: rb_advance_head_def Let_def word_le_nat_alt)
  moreover have "head ?rb < ?n \<or> total rb = 0 \<and> head ?rb = 0"
    using inv len cnt hd by (cases "?n = 0") (auto simp: rb_inv_def)
  ultimately show "rb_inv ?rb" using inv tl tot base by (simp add: rb_inv_def)
  show "rb_bytes ?rb = drop (unat len) (rb_bytes rb)"
  proof (rule nth_equalityI)
    fix i
    assume i: "i < length (rb_bytes ?rb)"
    then have "i < rb_count rb - unat len" by (simp add: cnt1)
    then have "[0..<rb_count rb] ! (unat len + i) = unat len + i" by simp
    with i show "rb_bytes ?rb ! i = drop (unat len) (rb_bytes rb) ! i"
      by (simp add: rb_bytes_def cnt1 hd tot base mod_add_left_eq add.assoc)
  qed (simp add: cnt1)
qed

lemma ringbuffer_delete_ok:
  assumes inv: "rb_inv rb"
  shows "\<exists>n rb'. ringbuffer_delete rb len = (n, rb') \<and> unat n = min (unat len) (rb_count rb) \<and>
    rb_inv rb' \<and> rb_bytes rb' = drop (unat n) (rb_bytes rb) \<and> total rb' = total rb"
proof -
  let ?n = "if len > ringbuffer_size rb then ringbuffer_size rb else len"
  have n: "unat ?n = min (unat len) (rb_count rb)"
    unfolding unat_if_min rb_size_ok [OF inv] by (rule refl)
  have "unat ?n \<le> rb_count rb" unfolding n by simp
  note adv = rb_advance_head_ok [OF inv this]
  show ?thesis using n adv unfolding ringbuffer_delete_def Let_def by blast
qed

lemma ringbuffer_peek_loop_ok:
  assumes "rb_inv rb" and "n \<le> length p - i" and "k + n \<le> rb_count rb"
  shows "ringbuffer_peek_loop n rb ((head rb + k) mod unat (total rb)) i p =
    Inr (take i p @ take n (drop k (rb_bytes rb)) @ drop (i + n) p)"
  using assms
proof (induction n arbitrary: i k p)
  case (Suc n)
  let ?m = "unat (total rb)"
  let ?b = "(head rb + k) mod ?m"
  have i: "i < length p" using Suc.prems(2) by linarith
  have pos: "0 < ?m" using Suc.prems(3) rb_count_available [OF Suc.prems(1)] by linarith
  then have b: "?b < length (base rb)" using Suc.prems(1) by (simp add: rb_inv_def)
  have "rb_wrap rb (?b + 1) = (head rb + Suc k) mod ?m"
    using rb_wrap_mod [OF Suc.prems(1), of ?b] pos by (simp add: mod_Suc_eq)
  then have "ringbuffer_peek_loop (Suc n) rb ?b i p =
      ringbuffer_peek_loop n rb ((head rb + Suc k) mod ?m) (Suc i) (p[i := base rb ! ?b])"
    using b i by simp
  also have "\<dots> = Inr (take (Suc i) (p[i := base rb ! ?b]) @
      take n (drop (Suc k) (rb_bytes rb)) @ drop (Suc i + n) (p[i := base rb ! ?b]))"
    using Suc.prems by (intro Suc.IH) simp_all
  also have "take (Suc i) (p[i := base rb ! ?b]) = take i p @ [base rb ! ?b]"
    using Suc.prems(2) by (simp add: take_Suc_conv_app_nth)
  also have "base rb ! ?b = rb_bytes rb ! k"
    using Suc.prems(3) by (simp add: rb_bytes_def)
  also have "drop (Suc i + n) (p[i := rb_bytes rb ! k]) = drop (i + Suc n) p" by simp
  finally show ?case
    using Suc.prems(3) by (simp add: Cons_nth_drop_Suc [symmetric])
qed simp

lemma ringbuffer_peek_ok:
  assumes inv: "rb_inv rb" and len: "min (unat len) (rb_count rb) \<le> length p"
  shows "\<exists>n. ringbuffer_peek rb p len = Inr (n, take (unat n) (rb_bytes rb) @ drop (unat n) p) \<and>
    unat n = min (unat len) (rb_count rb)"
proof -
  let ?n = "min len (ringbuffer_size rb)"
  have n: "unat ?n = min (unat len) (rb_count rb)"
    by (simp add: unat_min rb_size_ok [OF inv])
  have "head rb = (head rb + 0) mod unat (total rb)"
    using inv by (auto simp: rb_inv_def)
  then have "ringbuffer_peek_loop (unat ?n) rb (head rb) 0 p =
      Inr (take (unat ?n) (rb_bytes rb) @ drop (unat ?n) p)"
    using ringbuffer_peek_loop_ok [OF inv, of "unat ?n" p 0 0] len n by simp
  then have "ringbuffer_peek rb p len = Inr (?n, take (unat ?n) (rb_bytes rb) @ drop (unat ?n) p)"
    by (simp add: ringbuffer_peek_def Let_def)
  with n show ?thesis by blast
qed

lemma ringbuffer_pop_ok:
  assumes inv: "rb_inv rb" and len: "min (unat len) (rb_count rb) \<le> length p"
  shows "\<exists>n rb'. ringbuffer_pop rb p len =
      Inr (n, take (unat n) (rb_bytes rb) @ drop (unat n) p, rb') \<and>
    unat n = min (unat len) (rb_count rb) \<and> rb_inv rb' \<and>
    rb_bytes rb' = drop (unat n) (rb_bytes rb) \<and> total rb' = total rb"
proof -
  obtain n where run: "ringbuffer_peek rb p len = Inr (n, take (unat n) (rb_bytes rb) @ drop (unat n) p)"
    and n: "unat n = min (unat len) (rb_count rb)"
    using ringbuffer_peek_ok [OF inv len] by blast
  then have "unat n \<le> rb_count rb" by simp
  from rb_advance_head_ok [OF inv this] run n show ?thesis
    by (simp add: ringbuffer_pop_def)
qed

section \<open>The ring buffer as a first-in first-out stream\<close>

text \<open>
  Client operations: offer all bytes of a block, read up to a number of bytes into a block of
  that size, or drop up to a number of bytes. The bytes dropped are those the buffer held.
\<close>

datatype rb_op = RbInsert "uint8_t list" | RbPop size_t | RbDelete size_t

fun rb_exec :: "rb_op \<Rightarrow> ringbuffer_t \<Rightarrow> (uint8_t list \<times> uint8_t list \<times> ringbuffer_t) res" where
  "rb_exec (RbInsert p) rb =
     rbind (ringbuffer_insert rb p (word_of_nat (length p))) (\<lambda>(n, rb1). Inr (take (unat n) p, [], rb1))"
| "rb_exec (RbPop len) rb =
     rbind (ringbuffer_pop rb (replicate (unat len) 0) len) (\<lambda>(n, p, rb1). Inr ([], take (unat n) p, rb1))"
| "rb_exec (RbDelete len) rb =
     (let (n, rb1) = ringbuffer_delete rb len in Inr ([], take (unat n) (rb_bytes rb), rb1))"

fun rb_op_ok :: "rb_op \<Rightarrow> ringbuffer_t \<Rightarrow> bool" where
  "rb_op_ok (RbInsert p) rb \<longleftrightarrow> length p < 2 ^ 64"
| "rb_op_ok (RbPop len) rb \<longleftrightarrow> True"
| "rb_op_ok (RbDelete len) rb \<longleftrightarrow> True"

lemma rb_exec_ok:
  assumes inv: "rb_inv rb" and ok: "rb_op_ok x rb"
  shows "\<exists>ins outs rb'. rb_exec x rb = Inr (ins, outs, rb') \<and> rb_inv rb' \<and>
    rb_bytes rb @ ins = outs @ rb_bytes rb'"
proof (cases x)
  case (RbInsert p)
  then have "unat (word_of_nat (length p) :: size_t) = length p" using ok by (simp add: unat_word_of_nat_id)
  with ringbuffer_insert_ok [OF inv, of "word_of_nat (length p)" p] show ?thesis
    unfolding RbInsert by fastforce
next
  case (RbPop len)
  from ringbuffer_pop_ok [OF inv, of len "replicate (unat len) 0"] obtain n rb' where
    "ringbuffer_pop rb (replicate (unat len) 0) len =
       Inr (n, take (unat n) (rb_bytes rb) @ drop (unat n) (replicate (unat len) 0), rb')"
    "unat n = min (unat len) (rb_count rb)" "rb_inv rb'" "rb_bytes rb' = drop (unat n) (rb_bytes rb)"
    by auto
  then show ?thesis unfolding RbPop by simp
next
  case (RbDelete len)
  from ringbuffer_delete_ok [OF inv, of len] obtain n rb' where
    "ringbuffer_delete rb len = (n, rb')" "rb_inv rb'" "rb_bytes rb' = drop (unat n) (rb_bytes rb)"
    by blast
  then show ?thesis unfolding RbDelete by simp
qed

lemma rb_op_ok_any: "rb_op_ok x rb \<Longrightarrow> rb_op_ok x rb'"
  by (cases x) simp_all

interpretation rbq: fifo rb_inv rb_bytes rb_op_ok rb_exec
  by unfold_locales (use rb_exec_ok rb_op_ok_any in blast)+

section \<open>Properties\<close>

text \<open>A buffer of three bytes whose data wraps around the end of the array.\<close>

definition demo_ring :: ringbuffer_t where
  "demo_ring = \<lparr>total = 3, available = 1, base = [2, 0, 1], head = 2, tail = 1\<rparr>"

lemma demo_ring_facts [simp]: "rb_inv demo_ring" "rb_bytes demo_ring = [1, 2]" "rb_count demo_ring = 2"
  by (simp_all add: demo_ring_def rb_inv_def rb_bytes_def rb_count_def upt_rec)

text \<open>
  C20. The writing and reading operations refine a bounded byte queue: \<open>ringbuffer_insert\<close> appends
  as many of the offered bytes as fit and answers that number, \<open>ringbuffer_peek\<close> copies the oldest
  bytes out and leaves the rest of the destination alone, \<open>ringbuffer_pop\<close> does the same and
  removes them, \<open>ringbuffer_delete\<close> removes them; all keep the invariant and the capacity.
\<close>

theorem ringbuffer_refines_queue:
  assumes "rb_inv rb" and "unat len \<le> length p"
  shows "(\<exists>n rb'. ringbuffer_insert rb p len = Inr (n, rb') \<and>
      unat n = min (unat len) (unat (ringbuffer_available rb)) \<and> rb_inv rb' \<and> total rb' = total rb \<and>
      rb_bytes rb' = rb_bytes rb @ take (unat n) p) \<and>
    (\<exists>n rb'. ringbuffer_peek rb p len = Inr (n, take (unat n) (rb_bytes rb) @ drop (unat n) p) \<and>
      ringbuffer_pop rb p len = Inr (n, take (unat n) (rb_bytes rb) @ drop (unat n) p, rb') \<and>
      ringbuffer_delete rb len = (n, rb') \<and>
      unat n = min (unat len) (unat (ringbuffer_size rb)) \<and> rb_inv rb' \<and> total rb' = total rb \<and>
      rb_bytes rb' = drop (unat n) (rb_bytes rb))"
proof -
  have "min (unat len) (rb_count rb) \<le> length p" using assms(2) by linarith
  note len = this
  from ringbuffer_peek_ok [OF assms(1) len] ringbuffer_delete_ok [OF assms(1), of len]
  obtain n n' rb' where peek: "ringbuffer_peek rb p len = Inr (n, take (unat n) (rb_bytes rb) @ drop (unat n) p)"
    and n: "unat n = min (unat len) (rb_count rb)" "unat n' = min (unat len) (rb_count rb)"
    and del: "ringbuffer_delete rb len = (n', rb')"
      "rb_inv rb'" "rb_bytes rb' = drop (unat n') (rb_bytes rb)" "total rb' = total rb"
    by blast
  have eq: "n' = n" using n word_unat_eq_iff by metis
  have "rb' = rb_advance_head rb n"
    using del(1) eq by (auto simp: ringbuffer_delete_def Let_def split: if_splits)
  then have "ringbuffer_pop rb p len = Inr (n, take (unat n) (rb_bytes rb) @ drop (unat n) p, rb')"
    using peek by (simp add: ringbuffer_pop_def)
  moreover have "min (unat len) (unat (available rb)) \<le> length p" using assms(2) by linarith
  ultimately show ?thesis
    using peek del n eq ringbuffer_insert_ok [OF assms(1), of len p]
    unfolding rb_size_ok [OF assms(1)] ringbuffer_available_def by blast
qed

theorem ringbuffer_refines_queue_witness:
  "rb_inv demo_ring \<and> (\<exists>rb'. ringbuffer_insert demo_ring [7, 8] 2 = Inr (1, rb') \<and> rb_bytes rb' = [1, 2, 7])"
proof -
  obtain n rb' where run: "ringbuffer_insert demo_ring [7, 8] 2 = Inr (n, rb')"
      "unat n = min (unat (2 :: size_t)) (unat (ringbuffer_available demo_ring))"
      "rb_bytes rb' = rb_bytes demo_ring @ take (unat n) [7, 8]"
    using ringbuffer_refines_queue [of demo_ring 2 "[7, 8]"] by auto
  have avail: "ringbuffer_available demo_ring = 1" by (simp add: ringbuffer_available_def demo_ring_def)
  with run(2) have "unat n = 1" by simp
  moreover have "n = 1" using \<open>unat n = 1\<close> word_unat_eq_iff [of n 1] by simp
  ultimately show ?thesis using run by (simp add: avail)
qed

text \<open>
  No byte is lost, invented or reordered: whatever sequence of inserts, pops and deletes
  runs on a well-formed ring buffer, the bytes it held followed by the bytes accepted are the
  bytes given out followed by the bytes it still holds.
\<close>

theorem ringbuffer_stream_order:
  assumes "rb_inv rb" and "\<forall>x \<in> set xs. rb_op_ok x rb"
  shows "\<exists>ins outs rb'. run_ops rb_exec xs rb = Inr (ins, outs, rb') \<and> rb_inv rb' \<and>
    rb_bytes rb @ ins = outs @ rb_bytes rb'"
  using rbq.stream_order [OF assms] .

theorem ringbuffer_stream_order_witness:
  "rb_inv demo_ring \<and> (\<exists>ins outs rb'. run_ops rb_exec [RbPop 1, RbInsert [7, 8], RbDelete 1] demo_ring =
     Inr (ins, outs, rb') \<and> rb_bytes demo_ring @ ins = outs @ rb_bytes rb')"
  using ringbuffer_stream_order [of demo_ring "[RbPop 1, RbInsert [7, 8], RbDelete 1]"]
  by (auto simp del: run_ops.simps)

end
