(* ===== verification/OsiArray.thy ===== *)
theory OsiArray
  imports Prelude
begin

text \<open>
  The growable array of \<open>src/array.c\<close>: elements of a fixed size in bytes, first in the storage
  inside the structure, later in a heap block. The theory has the operations of the file at
  the level of bytes, the invariant, the sequence of elements an array holds, and what
  appending and indexing do, including when growing fails and when a value is too narrow.
\<close>

section \<open>The structure and its operations\<close>

text \<open>\<open>heap_data\<close> is the block \<open>data\<close> points to; \<open>None\<close> when \<open>data\<close> is \<open>internal_storage\<close>.\<close>

record array_t =
  element_size :: size_t
  arr_length :: size_t
  capacity :: size_t
  heap_data :: "uint8_t list option"
  internal_storage :: "uint8_t list"

definition INTERNAL_ELEMENTS :: size_t where
  "INTERNAL_ELEMENTS = 16"

text \<open>The bytes \<open>data\<close> points to.\<close>

definition arr_data :: "array_t \<Rightarrow> uint8_t list" where
  "arr_data a = (case heap_data a of None \<Rightarrow> internal_storage a | Some d \<Rightarrow> d)"

definition set_arr_data :: "uint8_t list \<Rightarrow> array_t \<Rightarrow> array_t" where
  "set_arr_data bs a =
     (case heap_data a of None \<Rightarrow> a\<lparr>internal_storage := bs\<rparr> | Some _ \<Rightarrow> a\<lparr>heap_data := Some bs\<rparr>)"

text \<open>
  The block after the header of \<open>sizeof(array_t)\<close> (32) bytes; the size given to \<open>osi_calloc\<close> is
  computed in \<open>size_t\<close>, and the storage is what is left of it.
\<close>

definition array_new :: "bool \<Rightarrow> size_t \<Rightarrow> array_t res" where
  "array_new got esize =
     rbind (c_assert (esize > 0)) (\<lambda>_.
     rbind (c_assert got) (\<lambda>_.
     Inr \<lparr>element_size = esize, arr_length = 0, capacity = INTERNAL_ELEMENTS, heap_data = None,
          internal_storage = replicate (unat (32 + esize * INTERNAL_ELEMENTS) - 32) 0\<rparr>))"

text \<open>The blocks \<open>array_free\<close> gives back.\<close>

datatype arr_block = ArrHeapData | ArrStruct

definition array_free :: "array_t option \<Rightarrow> arr_block list" where
  "array_free a = (case a of None \<Rightarrow> []
     | Some b \<Rightarrow> (if heap_data b \<noteq> None then [ArrHeapData] else []) @ [ArrStruct])"

text \<open>A pointer to an element is its offset in the bytes of \<open>data\<close>.\<close>

definition array_at :: "array_t \<Rightarrow> size_t \<Rightarrow> nat res" where
  "array_at a index =
     rbind (c_assert (index < arr_length a)) (\<lambda>_. Inr (unat (index * element_size a)))"

definition array_ptr :: "array_t \<Rightarrow> nat res" where
  "array_ptr a = array_at a 0"

definition array_length :: "array_t \<Rightarrow> size_t" where
  "array_length a = arr_length a"

text \<open>\<open>memcpy\<close> of \<open>n\<close> bytes from the start of \<open>from\<close> to offset \<open>at\<close> of \<open>to\<close>.\<close>

definition copy_bytes :: "uint8_t list \<Rightarrow> nat \<Rightarrow> uint8_t list \<Rightarrow> nat \<Rightarrow> uint8_t list res" where
  "copy_bytes to at from n =
     (if n \<le> length from \<and> at + n \<le> length to
      then Inr (take at to @ take n from @ drop (at + n) to) else Inl OutOfBounds)"

text \<open>
  \<open>realloc\<close>: the new block starts with the bytes of the old one as far as they fit; the bytes
  after them are indeterminate (\<open>junk\<close>).
\<close>

definition realloc_bytes :: "(nat \<Rightarrow> uint8_t) \<Rightarrow> uint8_t list \<Rightarrow> size_t \<Rightarrow> uint8_t list" where
  "realloc_bytes junk old n = take (unat n) old @ map junk [length old..<unat n]"

text \<open>\<open>got\<close> says whether \<open>realloc\<close> found memory.\<close>

definition grow :: "bool \<Rightarrow> (nat \<Rightarrow> uint8_t) \<Rightarrow> array_t \<Rightarrow> (bool \<times> array_t) res" where
  "grow got junk a =
     (let new_capacity = capacity a + capacity a div 2;
          bytes = new_capacity * element_size a in
      if \<not> got then Inr (False, a)
      else rbind
        (case heap_data a of
           None \<Rightarrow> copy_bytes (realloc_bytes junk [] bytes) 0 (internal_storage a)
                     (unat (arr_length a * element_size a))
         | Some d \<Rightarrow> Inr (realloc_bytes junk d bytes)) (\<lambda>new_data.
      Inr (True, a\<lparr>capacity := new_capacity, heap_data := Some new_data\<rparr>)))"

definition array_append_ptr ::
  "bool \<Rightarrow> (nat \<Rightarrow> uint8_t) \<Rightarrow> array_t \<Rightarrow> uint8_t list \<Rightarrow> (bool \<times> array_t) res" where
  "array_append_ptr got junk a d =
     rbind (if arr_length a = capacity a then grow got junk a else Inr (True, a)) (\<lambda>(room, a1).
     if \<not> room then Inr (False, a1)
     else (let a2 = a1\<lparr>arr_length := arr_length a1 + 1\<rparr> in
       rbind (array_at a2 (arr_length a2 - 1)) (\<lambda>at.
       rbind (copy_bytes (arr_data a2) at d (unat (element_size a2))) (\<lambda>bs.
       Inr (True, set_arr_data bs a2)))))"

text \<open>The four bytes of the argument in memory, least significant first.\<close>

definition uint32_bytes :: "uint32_t \<Rightarrow> uint8_t list" where
  "uint32_bytes v = map (\<lambda>i. ucast (drop_bit (8 * i) v)) [0..<4]"

definition array_append_value ::
  "bool \<Rightarrow> (nat \<Rightarrow> uint8_t) \<Rightarrow> array_t \<Rightarrow> uint32_t \<Rightarrow> (bool \<times> array_t) res" where
  "array_append_value got junk a v = array_append_ptr got junk a (uint32_bytes v)"

section \<open>Invariant and elements\<close>

definition arr_inv :: "array_t \<Rightarrow> bool" where
  "arr_inv a \<longleftrightarrow> element_size a > 0 \<and> arr_length a \<le> capacity a \<and> capacity a \<ge> INTERNAL_ELEMENTS \<and>
     length (arr_data a) = unat (capacity a) * unat (element_size a) \<and>
     unat (capacity a) * unat (element_size a) < 2 ^ 64"

definition chunk :: "nat \<Rightarrow> uint8_t list \<Rightarrow> nat \<Rightarrow> uint8_t list" where
  "chunk es bs i = take es (drop (i * es) bs)"

definition arr_elems :: "array_t \<Rightarrow> uint8_t list list" where
  "arr_elems a = map (chunk (unat (element_size a)) (arr_data a)) [0..<unat (arr_length a)]"

text \<open>The size of the block after growing does not wrap around.\<close>

definition grow_fits :: "array_t \<Rightarrow> bool" where
  "grow_fits a \<longleftrightarrow>
     (unat (capacity a) + unat (capacity a) div 2) * unat (element_size a) < 2 ^ 64"

lemma length_arr_elems [simp]: "length (arr_elems a) = unat (arr_length a)"
  by (simp add: arr_elems_def)

lemma arr_data_set [simp]: "arr_data (set_arr_data bs a) = bs"
  by (simp add: arr_data_def set_arr_data_def split: option.splits)

lemma set_arr_data_fields [simp]:
  "element_size (set_arr_data bs a) = element_size a" "arr_length (set_arr_data bs a) = arr_length a"
  "capacity (set_arr_data bs a) = capacity a"
  by (simp_all add: set_arr_data_def split: option.splits)

lemma arr_data_length_upd [simp]: "arr_data (a\<lparr>arr_length := n\<rparr>) = arr_data a"
  by (simp add: arr_data_def split: option.splits)

lemma unat_mult_fits: "unat a * unat b < 18446744073709551616 \<Longrightarrow> unat (a * b :: size_t) = unat a * unat b"
  using unat_mult_lem [of a b] by simp

lemma unat_plus_fits: "unat a + unat b < 18446744073709551616 \<Longrightarrow> unat (a + b :: size_t) = unat a + unat b"
  using unat_add_lem [of a b] by simp

lemma chunk_within:
  assumes "take m bs = take m cs" and "(i + 1) * es \<le> m"
  shows "chunk es bs i = chunk es cs i"
proof -
  have "take es (drop (i * es) ds) = drop (i * es) (take ((i + 1) * es) ds)" for ds :: "uint8_t list"
    by (simp add: drop_take)
  moreover have "take ((i + 1) * es) bs = take ((i + 1) * es) cs"
    using assms by (metis min.absorb1 take_take)
  ultimately show ?thesis by (simp add: chunk_def)
qed

lemma copy_bytes_chunk:
  assumes "copy_bytes bs (i * es) d es = Inr cs"
  shows "length cs = length bs" "chunk es cs i = take es d" "take (i * es) cs = take (i * es) bs"
  using assms by (auto simp: copy_bytes_def chunk_def split: if_splits)

lemma array_new_ok:
  assumes "esize > 0" and "32 + unat esize * 16 < 2 ^ 64"
  shows "\<exists>a. array_new True esize = Inr a \<and> arr_inv a \<and> arr_elems a = [] \<and> element_size a = esize"
proof -
  have "unat (esize * 16) = unat esize * 16"
    using unat_mult_fits [of esize 16] assms(2) by simp
  then have "unat (32 + esize * 16) = 32 + unat esize * 16"
    using unat_plus_fits [of 32 "esize * 16"] assms(2) by simp
  then show ?thesis
    using assms by (simp add: array_new_def arr_inv_def arr_elems_def arr_data_def INTERNAL_ELEMENTS_def)
qed

section \<open>Growing\<close>

lemma grow_capacity:
  assumes "grow_fits a" and "element_size a > 0"
  shows "unat (capacity a + capacity a div 2) = unat (capacity a) + unat (capacity a) div 2"
    "unat ((capacity a + capacity a div 2) * element_size a) =
       (unat (capacity a) + unat (capacity a) div 2) * unat (element_size a)"
proof -
  let ?c = "unat (capacity a) + unat (capacity a) div 2"
  have es: "0 < unat (element_size a)" using assms(2) by (simp add: word_less_nat_alt)
  then have "?c \<le> ?c * unat (element_size a)" by simp
  moreover have "?c * unat (element_size a) < 18446744073709551616" using assms(1) by (simp add: grow_fits_def)
  ultimately have "?c < 18446744073709551616" by linarith
  then show c: "unat (capacity a + capacity a div 2) = ?c"
    by (subst unat_plus_fits) (simp_all add: unat_div)
  show "unat ((capacity a + capacity a div 2) * element_size a) = ?c * unat (element_size a)"
    using assms(1) by (subst unat_mult_fits) (simp_all add: c grow_fits_def)
qed

lemma arr_used_bytes:
  assumes "arr_inv a"
  shows "unat (arr_length a) * unat (element_size a) \<le> length (arr_data a)"
    "unat (arr_length a * element_size a) = unat (arr_length a) * unat (element_size a)"
proof -
  have "unat (arr_length a) \<le> unat (capacity a)" using assms by (simp add: arr_inv_def word_le_nat_alt)
  then have "unat (arr_length a) * unat (element_size a) \<le> unat (capacity a) * unat (element_size a)"
    by (rule mult_le_mono1)
  moreover have "length (arr_data a) = unat (capacity a) * unat (element_size a)"
    "unat (capacity a) * unat (element_size a) < 18446744073709551616"
    using assms by (simp_all add: arr_inv_def)
  ultimately show le: "unat (arr_length a) * unat (element_size a) \<le> length (arr_data a)"
    and "unat (arr_length a * element_size a) = unat (arr_length a) * unat (element_size a)"
    using unat_mult_fits [of "arr_length a" "element_size a"] by linarith+
qed

lemma grow_ok:
  assumes inv: "arr_inv a" and fits: "grow_fits a"
  shows "grow False junk a = Inr (False, a)"
    "\<exists>a'. grow True junk a = Inr (True, a') \<and> arr_inv a' \<and> arr_length a' = arr_length a \<and>
       element_size a' = element_size a \<and> capacity a < capacity a' \<and> arr_elems a' = arr_elems a"
proof -
  show "grow False junk a = Inr (False, a)" by (simp add: grow_def Let_def)
  let ?n = "unat (arr_length a)" and ?es = "unat (element_size a)"
  let ?c = "unat (capacity a) + unat (capacity a) div 2"
  have es: "element_size a > 0" using inv by (simp add: arr_inv_def)
  note cap = grow_capacity [OF fits es]
  note used = arr_used_bytes [OF inv]
  have sixteen: "16 \<le> unat (capacity a)" using inv by (simp add: arr_inv_def INTERNAL_ELEMENTS_def word_le_nat_alt)
  have more: "length (arr_data a) \<le> ?c * ?es" using inv by (simp add: arr_inv_def)
  obtain d where run: "grow True junk a = Inr (True, a\<lparr>capacity := capacity a + capacity a div 2, heap_data := Some d\<rparr>)"
    and d: "length d = ?c * ?es" "take (?n * ?es) d = take (?n * ?es) (arr_data a)"
  proof (cases "heap_data a")
    case None
    let ?d = "take (?n * ?es) (arr_data a) @ drop (?n * ?es) (realloc_bytes junk [] ((capacity a + capacity a div 2) * element_size a))"
    have data: "arr_data a = internal_storage a" using None by (simp add: arr_data_def)
    have len: "length (realloc_bytes junk [] ((capacity a + capacity a div 2) * element_size a)) = ?c * ?es"
      by (simp add: realloc_bytes_def cap(2))
    have le: "?n * ?es \<le> ?c * ?es" using used(1) more by (rule order_trans)
    have "copy_bytes (realloc_bytes junk [] ((capacity a + capacity a div 2) * element_size a)) 0
        (internal_storage a) (unat (arr_length a * element_size a)) = Inr ?d"
      unfolding copy_bytes_def used(2) len using used(1) le data by (simp del: mult_le_cancel2)
    then have "grow True junk a = Inr (True, a\<lparr>capacity := capacity a + capacity a div 2, heap_data := Some ?d\<rparr>)"
      using None by (simp add: grow_def Let_def)
    moreover have "length ?d = ?c * ?es" "take (?n * ?es) ?d = take (?n * ?es) (arr_data a)"
      using used(1) le len by (simp_all del: mult_le_cancel2)
    ultimately show thesis by (rule that)
  next
    case (Some b)
    let ?d = "realloc_bytes junk b ((capacity a + capacity a div 2) * element_size a)"
    have data: "arr_data a = b" using Some by (simp add: arr_data_def)
    have "grow True junk a = Inr (True, a\<lparr>capacity := capacity a + capacity a div 2, heap_data := Some ?d\<rparr>)"
      using Some by (simp add: grow_def Let_def)
    moreover have "length ?d = ?c * ?es" "take (?n * ?es) ?d = take (?n * ?es) (arr_data a)"
      using used(1) more data by (simp_all add: realloc_bytes_def cap(2))
    ultimately show thesis by (rule that)
  qed
  let ?a = "a\<lparr>capacity := capacity a + capacity a div 2, heap_data := Some d\<rparr>"
  have data: "arr_data ?a = d" by (simp add: arr_data_def)
  have less: "capacity a < capacity ?a" using sixteen by (simp add: word_less_nat_alt cap)
  have "arr_inv ?a"
    using inv less d(1) fits unfolding arr_inv_def data
    by (simp add: cap grow_fits_def word_le_nat_alt INTERNAL_ELEMENTS_def)
  moreover have "chunk ?es d i = chunk ?es (arr_data a) i" if "i < ?n" for i
    using chunk_within [OF d(2)] that by (metis Suc_eq_plus1 Suc_leI mult_le_mono1)
  then have "arr_elems ?a = arr_elems a" by (simp add: arr_elems_def data)
  ultimately show "\<exists>a'. grow True junk a = Inr (True, a') \<and> arr_inv a' \<and> arr_length a' = arr_length a \<and>
       element_size a' = element_size a \<and> capacity a < capacity a' \<and> arr_elems a' = arr_elems a"
    using run less by (intro exI [of _ ?a]) simp
qed

section \<open>Appending and indexing\<close>

lemma array_at_ok:
  assumes inv: "arr_inv a" and i: "i < arr_length a"
  shows "array_at a i = Inr (unat i * unat (element_size a))"
    "unat i * unat (element_size a) + unat (element_size a) \<le> length (arr_data a)"
proof -
  have "(unat i + 1) * unat (element_size a) \<le> unat (capacity a) * unat (element_size a)"
    using inv i by (intro mult_le_mono1) (simp add: arr_inv_def word_le_nat_alt word_less_nat_alt)
  then have le: "unat i * unat (element_size a) + unat (element_size a) \<le> length (arr_data a)"
    using inv by (simp add: arr_inv_def)
  then show "unat i * unat (element_size a) + unat (element_size a) \<le> length (arr_data a)" .
  have "unat (i * element_size a) = unat i * unat (element_size a)"
    using le inv by (intro unat_mult_fits) (simp add: arr_inv_def)
  then show "array_at a i = Inr (unat i * unat (element_size a))"
    using i by (simp add: array_at_def)
qed

lemma arr_length_inc: "arr_length a < capacity a \<Longrightarrow> unat (arr_length a + 1) = Suc (unat (arr_length a))"
  using unat64_less [of "capacity a"] by (subst unat_plus_fits) (simp_all add: word_less_nat_alt)

text \<open>The store of one element into an array that has room.\<close>

lemma array_store_ok:
  assumes inv: "arr_inv a" and room: "arr_length a < capacity a" and d: "unat (element_size a) \<le> length d"
  defines "a2 \<equiv> a\<lparr>arr_length := arr_length a + 1\<rparr>"
  shows "\<exists>bs. rbind (array_at a2 (arr_length a2 - 1)) (\<lambda>at.
       rbind (copy_bytes (arr_data a2) at d (unat (element_size a2))) (\<lambda>bs.
       Inr (True, set_arr_data bs a2))) = Inr (True, set_arr_data bs a2) \<and>
     arr_inv (set_arr_data bs a2) \<and>
     arr_elems (set_arr_data bs a2) = arr_elems a @ [take (unat (element_size a)) d]"
proof -
  let ?n = "unat (arr_length a)" and ?es = "unat (element_size a)"
  note n1 = arr_length_inc [OF room]
  have inv2: "arr_inv a2"
    using inv room unfolding arr_inv_def a2_def by (simp add: n1 word_le_nat_alt word_less_nat_alt)
  have "arr_length a < arr_length a2" by (simp add: a2_def word_less_nat_alt n1)
  note at = array_at_ok [OF inv2 this]
  have es2: "element_size a2 = element_size a" by (simp add: a2_def)
  obtain bs where run: "copy_bytes (arr_data a2) (?n * ?es) d ?es = Inr bs"
    using at(2) d es2 by (simp add: copy_bytes_def)
  note bs = copy_bytes_chunk [OF run]
  have inv3: "arr_inv (set_arr_data bs a2)" using inv2 bs(1) by (simp add: arr_inv_def)
  have "chunk ?es bs i = chunk ?es (arr_data a) i" if "i < ?n" for i
    using chunk_within [OF bs(3)] that by (simp add: a2_def) (metis Suc_leI mult_Suc mult_le_mono1)
  then have "arr_elems (set_arr_data bs a2) = arr_elems a @ [take ?es d]"
    using bs(2) by (simp add: arr_elems_def a2_def n1)
  moreover have "rbind (array_at a2 (arr_length a2 - 1)) (\<lambda>at.
       rbind (copy_bytes (arr_data a2) at d (unat (element_size a2))) (\<lambda>bs.
       Inr (True, set_arr_data bs a2))) = Inr (True, set_arr_data bs a2)"
    using at(1) run es2 by (simp add: a2_def)
  ultimately show ?thesis using inv3 by blast
qed

lemma array_append_ok:
  assumes inv: "arr_inv a" and fits: "grow_fits a" and d: "unat (element_size a) \<le> length d"
  shows "if arr_length a = capacity a \<and> \<not> got then array_append_ptr got junk a d = Inr (False, a)
    else \<exists>a'. array_append_ptr got junk a d = Inr (True, a') \<and> arr_inv a' \<and>
      element_size a' = element_size a \<and>
      arr_elems a' = arr_elems a @ [take (unat (element_size a)) d]"
proof -
  have "\<exists>a1. (if arr_length a = capacity a then grow got junk a else Inr (True, a)) = Inr (True, a1) \<and>
      arr_inv a1 \<and> arr_length a1 < capacity a1 \<and> element_size a1 = element_size a \<and> arr_elems a1 = arr_elems a"
    if "\<not> (arr_length a = capacity a \<and> \<not> got)"
  proof (cases "arr_length a = capacity a")
    case True
    with that grow_ok(2) [OF inv fits, of junk] show ?thesis by auto
  next
    case False
    then have "arr_length a < capacity a" using inv by (simp add: arr_inv_def order_less_le)
    with False inv show ?thesis by simp
  qed
  moreover have "\<exists>a'. array_append_ptr got junk a d = Inr (True, a') \<and> arr_inv a' \<and>
      element_size a' = element_size a \<and> arr_elems a' = arr_elems a @ [take (unat (element_size a)) d]"
    if g: "(if arr_length a = capacity a then grow got junk a else Inr (True, a)) = Inr (True, a1)"
      "arr_inv a1" "arr_length a1 < capacity a1" "element_size a1 = element_size a" "arr_elems a1 = arr_elems a"
    for a1
  proof -
    have "unat (element_size a1) \<le> length d" using d g(4) by simp
    from array_store_ok [OF g(2,3) this] obtain bs where
      "array_append_ptr got junk a d = Inr (True, set_arr_data bs (a1\<lparr>arr_length := arr_length a1 + 1\<rparr>))"
      "arr_inv (set_arr_data bs (a1\<lparr>arr_length := arr_length a1 + 1\<rparr>))"
      "arr_elems (set_arr_data bs (a1\<lparr>arr_length := arr_length a1 + 1\<rparr>)) = arr_elems a1 @ [take (unat (element_size a1)) d]"
      unfolding array_append_ptr_def g(1) by (auto simp: Let_def simp del: rbind_eq_Inr)
    with g(4,5) show ?thesis by simp
  qed
  ultimately have "\<exists>a'. array_append_ptr got junk a d = Inr (True, a') \<and> arr_inv a' \<and>
      element_size a' = element_size a \<and> arr_elems a' = arr_elems a @ [take (unat (element_size a)) d]"
    if "\<not> (arr_length a = capacity a \<and> \<not> got)" using that by blast
  moreover have "array_append_ptr got junk a d = Inr (False, a)" if "arr_length a = capacity a" "\<not> got"
    using grow_ok(1) [OF inv fits, of junk] that by (simp add: array_append_ptr_def)
  ultimately show ?thesis by presburger
qed

section \<open>Properties\<close>

text \<open>A full array of sixteen two-byte elements, still in its internal storage.\<close>

definition demo_array :: array_t where
  "demo_array = \<lparr>element_size = 2, arr_length = 16, capacity = 16, heap_data = None,
     internal_storage = replicate 32 1\<rparr>"

lemma demo_array_facts [simp]: "arr_inv demo_array" "grow_fits demo_array"
  by (simp_all add: arr_inv_def grow_fits_def demo_array_def arr_data_def INTERNAL_ELEMENTS_def)

text \<open>
  C36. Appending: \<open>array_append_ptr\<close> puts the element at the end and leaves all others as they
  are, moving the bytes out of the internal storage or reallocating when the array is full; it
  answers false and changes nothing exactly when it is full and there is no memory. It never
  writes outside the storage, as long as the grown size does not wrap around.
\<close>

theorem array_append_ptr_correct:
  assumes "arr_inv a" and "grow_fits a" and "unat (element_size a) \<le> length d"
  shows "if array_length a = capacity a \<and> \<not> got then array_append_ptr got junk a d = Inr (False, a)
    else \<exists>a'. array_append_ptr got junk a d = Inr (True, a') \<and> arr_inv a' \<and>
      element_size a' = element_size a \<and>
      arr_elems a' = arr_elems a @ [take (unat (element_size a)) d]"
  using array_append_ok [OF assms] by (simp add: array_length_def)

theorem array_append_ptr_correct_witness:
  "arr_inv demo_array \<and> grow_fits demo_array \<and>
   (\<exists>a'. array_append_ptr True (\<lambda>_. 9) demo_array [5, 6] = Inr (True, a') \<and>
      arr_elems a' = arr_elems demo_array @ [[5, 6]])"
  using array_append_ptr_correct [of demo_array "[5, 6]" True "\<lambda>_. 9"]
  by (auto simp: demo_array_def [THEN arg_cong [where f = element_size]])

text \<open>
  Indexing: \<open>array_at\<close> answers the place of the element and the element is within the
  storage; an index at or past the length stops at the assertion.
\<close>

theorem array_at_correct:
  assumes "arr_inv a"
  shows "if i < array_length a
    then \<exists>at. array_at a i = Inr at \<and> at + unat (element_size a) \<le> length (arr_data a) \<and>
      take (unat (element_size a)) (drop at (arr_data a)) = arr_elems a ! unat i
    else array_at a i = Inl AssertFailed"
  using array_at_ok [OF assms, of i]
  by (simp add: array_length_def arr_elems_def chunk_def word_less_nat_alt array_at_def [of a i])

theorem array_at_correct_witness:
  "arr_inv demo_array \<and> array_at demo_array 16 = Inl AssertFailed"
  using array_at_correct [of demo_array 16] by (simp add: array_length_def demo_array_def [THEN arg_cong [where f = arr_length]])

text \<open>
  \<open>array_append_value\<close> passes the address of a four-byte argument: with elements of at most four
  bytes the low bytes of the value are appended, with wider elements the copy reads past the
  argument.
\<close>

theorem array_append_value_width:
  assumes "arr_inv a" and "arr_length a < capacity a"
  shows "if unat (element_size a) \<le> 4
    then \<exists>a'. array_append_value got junk a v = Inr (True, a') \<and> arr_inv a' \<and>
      arr_elems a' = arr_elems a @ [take (unat (element_size a)) (uint32_bytes v)]
    else array_append_value got junk a v = Inl OutOfBounds"
proof (cases "unat (element_size a) \<le> 4")
  case True
  then have "unat (element_size a) \<le> length (uint32_bytes v)" by (simp add: uint32_bytes_def)
  from array_store_ok [OF assms this] assms(2) True show ?thesis
    by (auto simp: array_append_value_def array_append_ptr_def Let_def simp del: rbind_eq_Inr)
next
  case False
  let ?a = "a\<lparr>arr_length := arr_length a + 1\<rparr>"
  have "arr_length a < arr_length a + 1"
    using arr_length_inc [OF assms(2)] by (simp add: word_less_nat_alt)
  then have "\<exists>at. array_at ?a (arr_length a) = Inr at" by (simp add: array_at_def)
  then show ?thesis using False assms(2)
    by (auto simp: array_append_value_def array_append_ptr_def Let_def copy_bytes_def uint32_bytes_def)
qed

theorem array_append_value_width_witness:
  "arr_inv (demo_array\<lparr>arr_length := 3\<rparr>) \<and>
   (\<exists>a'. array_append_value False (\<lambda>_. 0) (demo_array\<lparr>arr_length := 3\<rparr>) 258 = Inr (True, a') \<and>
      arr_elems a' = arr_elems (demo_array\<lparr>arr_length := 3\<rparr>) @ [[2, 1]])"
proof -
  have inv: "arr_inv (demo_array\<lparr>arr_length := 3\<rparr>)"
    by (simp add: arr_inv_def demo_array_def arr_data_def INTERNAL_ELEMENTS_def)
  have es: "element_size demo_array = 2" "capacity demo_array = 16" by (simp_all add: demo_array_def)
  have "take 2 (uint32_bytes 258) = [2, 1]" by (simp add: uint32_bytes_def upt_rec)
  then show ?thesis
    using array_append_value_width [OF inv, of False "\<lambda>_. 0" 258] inv es by auto
qed

end
