(* ===== verification/Compat.thy ===== *)
theory Compat
  imports Prelude
begin

text \<open>
  The bounded string functions of \<open>src/compat.c\<close>. A destination is the array of characters
  \<open>dst\<close> points to; a pointer that walks over the source is the part of the source still in front
  of it; reading or writing outside an array is the outcome \<open>OutOfBounds\<close>. The theory shows what
  the two loops compute: the C string left in the destination, the bytes that are not touched,
  the value returned, and that no access leaves the arrays.
\<close>

section \<open>The functions\<close>

definition put_char :: "char list \<Rightarrow> nat \<Rightarrow> char \<Rightarrow> char list res" where
  "put_char dst d c = (if d < length dst then Inr (dst[d := c]) else Inl OutOfBounds)"

text \<open>\<open>while (*s++) ;\<close>: the source behind its terminating NUL.\<close>

fun skip_nul :: "char list \<Rightarrow> char list res" where
  "skip_nul [] = Inl OutOfBounds"
| "skip_nul (c # s) = (if c = NUL then Inr s else skip_nul s)"

text \<open>
  The copying loop of \<open>strlcpy\<close>; the first argument is \<open>n\<close> before the decrement in the condition.
  The result is \<open>n\<close>, the array, the write position and the rest of the source at the end.
\<close>

fun strlcpy_loop :: "nat \<Rightarrow> char list \<Rightarrow> nat \<Rightarrow> char list \<Rightarrow> (nat \<times> char list \<times> nat \<times> char list) res" where
  "strlcpy_loop 0 dst d s = Inl Diverges"
| "strlcpy_loop (Suc n) dst d s =
     (if n = 0 then Inr (0, dst, d, s)
      else (case s of [] \<Rightarrow> Inl OutOfBounds
        | c # s1 \<Rightarrow> rbind (put_char dst d c) (\<lambda>dst1.
            if c = NUL then Inr (n, dst1, d + 1, s1) else strlcpy_loop n dst1 (d + 1) s1)))"

definition strlcpy :: "char list \<Rightarrow> char list \<Rightarrow> size_t \<Rightarrow> (size_t \<times> char list) res" where
  "strlcpy dst src siz =
     rbind (if siz \<noteq> 0 then strlcpy_loop (unat siz) dst 0 src else Inr (0, dst, 0, src)) (\<lambda>(n, dst1, d, s).
     rbind (if n = 0
            then rbind (if siz \<noteq> 0 then put_char dst1 d NUL else Inr dst1) (\<lambda>dst2.
                 rbind (skip_nul s) (\<lambda>s1. Inr (dst2, s1)))
            else Inr (dst1, s)) (\<lambda>(dst2, s2).
     Inr (word_of_nat (length src - length s2 - 1), dst2)))"

definition strlen :: "char list \<Rightarrow> size_t res" where
  "strlen s = rbind (skip_nul s) (\<lambda>s1. Inr (word_of_nat (length s - length s1 - 1)))"

text \<open>\<open>while (n-- != 0 && *d != '\0') d++;\<close>\<close>

fun strlcat_end :: "nat \<Rightarrow> char list \<Rightarrow> nat \<Rightarrow> nat res" where
  "strlcat_end 0 dst d = Inr d"
| "strlcat_end (Suc n) dst d =
     (if d < length dst then (if dst ! d \<noteq> NUL then strlcat_end n dst (d + 1) else Inr d)
      else Inl OutOfBounds)"

fun strlcat_loop :: "nat \<Rightarrow> char list \<Rightarrow> nat \<Rightarrow> char list \<Rightarrow> (char list \<times> nat \<times> char list) res" where
  "strlcat_loop n dst d [] = Inl OutOfBounds"
| "strlcat_loop n dst d (c # s) =
     (if c = NUL then Inr (dst, d, c # s)
      else if n \<noteq> 1 then rbind (put_char dst d c) (\<lambda>dst1. strlcat_loop (n - 1) dst1 (d + 1) s)
      else strlcat_loop n dst d s)"

definition strlcat :: "char list \<Rightarrow> char list \<Rightarrow> size_t \<Rightarrow> (size_t \<times> char list) res" where
  "strlcat dst src siz =
     rbind (strlcat_end (unat siz) dst 0) (\<lambda>dlen.
     let n = unat siz - dlen in
     if n = 0 then rbind (strlen src) (\<lambda>l. Inr (word_of_nat dlen + l, dst))
     else rbind (strlcat_loop n dst dlen src) (\<lambda>(dst1, d, s).
          rbind (put_char dst1 d NUL) (\<lambda>dst2.
          Inr (word_of_nat (dlen + (length src - length s)), dst2))))"

section \<open>What the loops compute\<close>

text \<open>A block of characters written over an array.\<close>

definition overwrite :: "char list \<Rightarrow> nat \<Rightarrow> char list \<Rightarrow> char list" where
  "overwrite dst d ys = take d dst @ ys @ drop (d + length ys) dst"

lemma overwrite_Nil [simp]: "overwrite dst d [] = dst"
  by (simp add: overwrite_def)

lemma overwrite_update:
  "d + length ys < length dst \<Longrightarrow> overwrite (dst[d := c]) (Suc d) ys = overwrite dst d (c # ys)"
  by (simp add: overwrite_def take_Suc_conv_app_nth)

lemma overwrite_snoc:
  "d + length ys < length dst \<Longrightarrow> (overwrite dst d ys)[d + length ys := c] = overwrite dst d (ys @ [c])"
  by (simp add: overwrite_def list_update_append Cons_nth_drop_Suc [symmetric])

lemma length_overwrite [simp]: "d + length ys \<le> length dst \<Longrightarrow> length (overwrite dst d ys) = length dst"
  by (simp add: overwrite_def)

lemma drop_overwrite:
  "d + length ys \<le> k \<Longrightarrow> k \<le> length dst \<Longrightarrow> drop k (overwrite dst d ys) = drop k dst"
proof (cases "ys = []")
  case False
  assume le: "d + length ys \<le> k" "k \<le> length dst"
  moreover have "d < length dst" using le False by (metis add_less_cancel_left length_greater_0_conv less_le_trans nat_arith.rule0)
  ultimately show ?thesis by (simp add: overwrite_def min_def)
qed simp

lemma c_string_overwrite_0: "NUL \<notin> set ys \<Longrightarrow> c_string (overwrite dst 0 (ys @ [NUL])) = ys"
  by (simp add: overwrite_def c_string_terminated)

lemma skip_nul_terminated: "NUL \<notin> set xs \<Longrightarrow> skip_nul (xs @ NUL # rest) = Inr rest"
  by (induction xs) auto

lemma strlen_terminated: "NUL \<notin> set xs \<Longrightarrow> strlen (xs @ NUL # rest) = Inr (word_of_nat (length xs))"
  by (simp add: strlen_def skip_nul_terminated)

lemma strlcpy_loop_ok:
  assumes "NUL \<notin> set xs" and "d + n \<le> length dst"
  shows "strlcpy_loop (Suc n) dst d (xs @ NUL # rest) =
    (if length xs < n then Inr (n - length xs, overwrite dst d (xs @ [NUL]), d + length xs + 1, rest)
     else Inr (0, overwrite dst d (take n xs), d + n, drop n xs @ NUL # rest))"
  using assms
proof (induction n arbitrary: xs dst d)
  case (Suc n)
  show ?case
  proof (cases xs)
    case Nil
    then show ?thesis
      using Suc.prems overwrite_update [of d "[]" dst NUL] by (simp add: put_char_def)
  next
    case (Cons c ys)
    have "overwrite (dst[d := c]) (Suc d) zs = overwrite dst d (c # zs)" if "length zs \<le> n" for zs
      using overwrite_update that Suc.prems(2) by simp
    then show ?thesis
      using Suc.IH [of ys "Suc d" "dst[d := c]"] Suc.prems Cons by (auto simp: put_char_def)
  qed
qed simp

lemma strlcpy_ok:
  assumes src: "NUL \<notin> set xs" and fit: "unat siz \<le> length dst"
  shows "strlcpy dst (xs @ NUL # rest) siz =
    Inr (word_of_nat (length xs),
         if siz = 0 then dst else overwrite dst 0 (take (unat siz - 1) xs @ [NUL]))"
proof (cases "siz = 0")
  case True
  then show ?thesis using skip_nul_terminated [OF src] by (simp add: strlcpy_def)
next
  case False
  then obtain n where n: "unat siz = Suc n" by (metis not0_implies_Suc unat_eq_zero)
  have fin: "put_char (overwrite dst 0 (take n xs)) n NUL = Inr (overwrite dst 0 (take n xs @ [NUL]))"
    if "\<not> length xs < n"
    using that fit n overwrite_snoc [of 0 "take n xs" dst NUL] by (simp add: put_char_def)
  have skip: "skip_nul (drop n xs @ NUL # rest) = Inr rest"
    using src by (intro skip_nul_terminated) (meson in_set_dropD)
  show ?thesis
    using False fit n fin skip strlcpy_loop_ok [OF src, of 0 n dst rest] by (simp add: strlcpy_def)
qed

lemma strlcat_end_ok:
  "d \<le> length a \<Longrightarrow> NUL \<notin> set a \<Longrightarrow> d + n \<le> length (a @ NUL # b) \<Longrightarrow>
     strlcat_end n (a @ NUL # b) d = Inr (min (d + n) (length a))"
proof (induction n arbitrary: d)
  case (Suc n)
  show ?case
  proof (cases "d < length a")
    case True
    then have "(a @ NUL # b) ! d \<noteq> NUL" using Suc.prems(2) by (metis nth_append nth_mem)
    with True Suc show ?thesis by simp
  next
    case False
    with Suc.prems(1) have "d = length a" by simp
    then show ?thesis by simp
  qed
qed simp

lemma strlcat_loop_ok:
  assumes "NUL \<notin> set xs" and "d + n < length dst"
  shows "strlcat_loop (Suc n) dst d (xs @ NUL # rest) =
    Inr (overwrite dst d (take n xs), d + length (take n xs), NUL # rest)"
  using assms
proof (induction xs arbitrary: n dst d)
  case (Cons c xs)
  show ?case
  proof (cases n)
    case 0
    then show ?thesis using Cons.IH [of d 0 dst] Cons.prems by auto
  next
    case (Suc m)
    have "overwrite (dst[d := c]) (Suc d) (take m xs) = overwrite dst d (c # take m xs)"
      using overwrite_update [of d "take m xs" dst c] Cons.prems(2) Suc by simp
    then show ?thesis
      using Cons.IH [of "Suc d" m "dst[d := c]"] Cons.prems Suc by (auto simp: put_char_def)
  qed
qed simp

lemma strlcat_ok:
  assumes src: "NUL \<notin> set xs" and dst: "NUL \<notin> set a" and fit: "unat siz \<le> length (a @ NUL # b)"
  shows "strlcat (a @ NUL # b) (xs @ NUL # rest) siz =
    Inr (word_of_nat (min (unat siz) (length a) + length xs),
         if unat siz \<le> length a then a @ NUL # b
         else overwrite (a @ NUL # b) (length a) (take (unat siz - length a - 1) xs @ [NUL]))"
proof (cases "unat siz \<le> length a")
  case True
  then show ?thesis
    using strlcat_end_ok [OF _ dst fit [THEN order_trans [rotated]], of 0] strlcat_end_ok [of 0 a "unat siz" b] dst fit
      strlen_terminated [OF src, of rest] by (simp add: strlcat_def)
next
  case False
  then obtain n where n: "unat siz - length a = Suc n" by (metis Suc_diff_Suc not_le)
  let ?dst = "a @ NUL # b"
  have endp: "strlcat_end (unat siz) ?dst 0 = Inr (length a)"
    using strlcat_end_ok [of 0 a "unat siz" b] dst fit False by simp
  have bound: "length a + n < length ?dst" using n fit by simp
  have "put_char (overwrite ?dst (length a) (take n xs)) (length a + length (take n xs)) NUL =
      Inr (overwrite ?dst (length a) (take n xs @ [NUL]))"
    using bound overwrite_snoc [of "length a" "take n xs" ?dst NUL] by (simp add: put_char_def)
  then show ?thesis
    using False endp n strlcat_loop_ok [OF src bound, of rest]
    by (simp add: strlcat_def)
qed

section \<open>Properties\<close>

text \<open>
  \<open>strlcpy\<close> on a terminated source and a destination of at least \<open>siz\<close> bytes: it never
  leaves the arrays, answers the length of the source, leaves the longest prefix that fits
  with its NUL as the C string of the destination when \<open>siz\<close> is not 0, and keeps the
  destination's size and all bytes from \<open>siz\<close> on.
\<close>

theorem strlcpy_correct:
  assumes "NUL \<in> set src" and "unat siz \<le> length dst"
  shows "\<exists>dst'. strlcpy dst src siz = Inr (word_of_nat (length (c_string src)), dst') \<and>
    (if siz = 0 then dst' = dst else c_string dst' = take (unat siz - 1) (c_string src)) \<and>
    length dst' = length dst \<and> drop (unat siz) dst' = drop (unat siz) dst"
proof -
  obtain rest where src: "src = c_string src @ NUL # rest" "NUL \<notin> set (c_string src)"
    using assms(1) by (rule c_string_split)
  let ?ys = "take (unat siz - 1) (c_string src)"
  have run: "strlcpy dst src siz = Inr (word_of_nat (length (c_string src)),
      if siz = 0 then dst else overwrite dst 0 (?ys @ [NUL]))"
    using strlcpy_ok [OF src(2) assms(2), of rest] src(1) by simp
  have "length ?ys + 1 \<le> unat siz" if "siz \<noteq> 0"
    using that unat_eq_zero [of siz] by (cases "unat siz") auto
  then have "length (overwrite dst 0 (?ys @ [NUL])) = length dst"
    "drop (unat siz) (overwrite dst 0 (?ys @ [NUL])) = drop (unat siz) dst" if "siz \<noteq> 0"
    using that assms(2) drop_overwrite [of 0 "?ys @ [NUL]" "unat siz" dst]
      length_overwrite [of 0 "?ys @ [NUL]" dst] by simp_all
  moreover have "c_string (overwrite dst 0 (?ys @ [NUL])) = ?ys"
    by (rule c_string_overwrite_0) (meson c_string_no_NUL in_set_takeD)
  ultimately show ?thesis using run by auto
qed

theorem strlcpy_correct_witness:
  "NUL \<in> set (''osi'' @ [NUL]) \<and>
   (\<exists>dst'. strlcpy (replicate 4 (CHR ''x'')) (''osi'' @ [NUL]) 3 = Inr (3, dst') \<and> c_string dst' = ''os'')"
  using strlcpy_correct [of "''osi'' @ [NUL]" 3 "replicate 4 (CHR ''x'')"]
  by (auto simp: c_string_def)

text \<open>
  \<open>strlcat\<close> on a terminated source and a terminated destination of at least \<open>siz\<close> bytes:
  it answers the length it tried to create, appends the longest prefix of the source that
  fits, leaves the destination alone when there is no room, and never writes at or behind
  \<open>siz\<close>.
\<close>

theorem strlcat_correct:
  assumes "NUL \<in> set src" and "NUL \<in> set dst" and "unat siz \<le> length dst"
  shows "\<exists>dst'. strlcat dst src siz =
      Inr (word_of_nat (min (unat siz) (length (c_string dst)) + length (c_string src)), dst') \<and>
    (if unat siz \<le> length (c_string dst) then dst' = dst
     else c_string dst' = c_string dst @ take (unat siz - length (c_string dst) - 1) (c_string src)) \<and>
    length dst' = length dst \<and> drop (unat siz) dst' = drop (unat siz) dst"
proof -
  obtain rest where src: "src = c_string src @ NUL # rest" "NUL \<notin> set (c_string src)"
    using assms(1) by (rule c_string_split)
  obtain b where dst: "dst = c_string dst @ NUL # b" "NUL \<notin> set (c_string dst)"
    using assms(2) by (rule c_string_split)
  let ?a = "c_string dst" and ?ys = "take (unat siz - length (c_string dst) - 1) (c_string src)"
  let ?dst = "overwrite dst (length ?a) (?ys @ [NUL])"
  have run: "strlcat dst src siz = Inr (word_of_nat (min (unat siz) (length ?a) + length (c_string src)),
      if unat siz \<le> length ?a then dst else ?dst)"
    using strlcat_ok [OF src(2) dst(2), of siz b rest] assms(3) src(1) dst(1) by simp
  have "length ?a + (length ?ys + 1) \<le> unat siz" if "\<not> unat siz \<le> length ?a"
    using that by (simp add: min_def) linarith
  then have "length ?dst = length dst" "drop (unat siz) ?dst = drop (unat siz) dst"
    if "\<not> unat siz \<le> length ?a"
    using that assms(3) drop_overwrite [of "length ?a" "?ys @ [NUL]" "unat siz" dst]
      length_overwrite [of "length ?a" "?ys @ [NUL]" dst] by simp_all
  moreover have "NUL \<notin> set (?a @ ?ys)"
    using src(2) dst(2) by (auto dest: in_set_takeD)
  then have "c_string ?dst = ?a @ ?ys"
    using c_string_terminated [of "?a @ ?ys" "drop (length ?a + Suc (length ?ys)) dst"] dst(1)
    by (simp add: overwrite_def) (metis append_eq_conv_conj)
  ultimately show ?thesis using run by auto
qed

theorem strlcat_correct_witness:
  "NUL \<in> set (''bc'' @ [NUL]) \<and>
   (\<exists>dst'. strlcat ([CHR ''a'', NUL, CHR ''x'', CHR ''y'']) (''bc'' @ [NUL]) 3 = Inr (3, dst') \<and> c_string dst' = ''ab'')"
  using strlcat_correct [of "''bc'' @ [NUL]" "[CHR ''a'', NUL, CHR ''x'', CHR ''y'']" 3]
  by (auto simp: c_string_def)

end
