(* ===== verification/Semaphore.thy ===== *)
theory Semaphore
  imports Prelude
begin

text \<open>
  The counting semaphore of \<open>src/semaphore.c\<close>: a wrapper around an \<open>eventfd\<close> in semaphore mode.
  The state behind the descriptor is a 64-bit counter and the \<open>O_NONBLOCK\<close> flag of the open
  file, which \<open>semaphore_try_wait\<close> sets for the duration of one read. System calls that may fail
  are told by a parameter whether they do.
\<close>

section \<open>The semaphore\<close>

record semaphore_t =
  sem_count :: uint64_t
  sem_nonblock :: bool

text \<open>\<open>eventfd(value, EFD_SEMAPHORE)\<close>; the argument of \<open>semaphore_new\<close> is an \<open>unsigned int\<close>.\<close>

definition semaphore_new :: "bool \<Rightarrow> uint32_t \<Rightarrow> semaphore_t option" where
  "semaphore_new got_fd val =
     (if got_fd then Some \<lparr>sem_count = ucast val, sem_nonblock = False\<rparr> else None)"

text \<open>
  \<open>eventfd_read\<close> in semaphore mode takes one from a positive counter; on a zero counter it
  fails when the descriptor is non-blocking and waits otherwise.
\<close>

datatype fd_result = FdDone semaphore_t | FdAgain | FdBlocks

definition eventfd_read :: "semaphore_t \<Rightarrow> fd_result" where
  "eventfd_read s =
     (if sem_count s \<noteq> 0 then FdDone (s\<lparr>sem_count := sem_count s - 1\<rparr>)
      else if sem_nonblock s then FdAgain else FdBlocks)"

text \<open>\<open>eventfd_write\<close> of 1: the counter may go up to the largest value minus one.\<close>

definition eventfd_write_1 :: "semaphore_t \<Rightarrow> fd_result" where
  "eventfd_write_1 s =
     (if sem_count s < 0xFFFFFFFFFFFFFFFE then FdDone (s\<lparr>sem_count := sem_count s + 1\<rparr>)
      else if sem_nonblock s then FdAgain else FdBlocks)"

text \<open>
  A failed read or write is only logged; the caller goes on. The argument in front says whether a
  signal interrupts a read that would wait (\<open>EINTR\<close>): the call then returns although it has taken
  nothing. The components that wait on semaphores are modelled on \<open>semaphore_wait\<close>, the function
  without such signals.
\<close>

definition semaphore_wait_intr :: "bool \<Rightarrow> semaphore_t \<Rightarrow> semaphore_t res" where
  "semaphore_wait_intr interrupted s =
     (case eventfd_read s of FdDone s1 \<Rightarrow> Inr s1 | FdAgain \<Rightarrow> Inr s
      | FdBlocks \<Rightarrow> if interrupted then Inr s else Inl Blocks)"

definition semaphore_wait :: "semaphore_t \<Rightarrow> semaphore_t res" where
  "semaphore_wait s = semaphore_wait_intr False s"

text \<open>
  The three arguments in front say whether reading the flags, setting \<open>O_NONBLOCK\<close> and
  restoring the flags succeed.
\<close>

definition semaphore_try_wait :: "bool \<Rightarrow> bool \<Rightarrow> bool \<Rightarrow> semaphore_t \<Rightarrow> (bool \<times> semaphore_t) res" where
  "semaphore_try_wait getfl_ok setfl_ok restore_ok s =
     (if \<not> getfl_ok then Inr (False, s)
      else let flags = sem_nonblock s in
        if \<not> setfl_ok then Inr (False, s)
        else rbind (case eventfd_read (s\<lparr>sem_nonblock := True\<rparr>) of
                      FdDone s1 \<Rightarrow> Inr (True, s1)
                    | FdAgain \<Rightarrow> Inr (False, s\<lparr>sem_nonblock := True\<rparr>)
                    | FdBlocks \<Rightarrow> Inl Blocks) (\<lambda>(rc, s1).
          Inr (rc, if restore_ok then s1\<lparr>sem_nonblock := flags\<rparr> else s1)))"

definition semaphore_post :: "semaphore_t \<Rightarrow> semaphore_t res" where
  "semaphore_post s =
     (case eventfd_write_1 s of FdDone s1 \<Rightarrow> Inr s1 | FdAgain \<Rightarrow> Inr s | FdBlocks \<Rightarrow> Inl Blocks)"

section \<open>Behaviour of one thread\<close>

lemma semaphore_wait_pos [simp]:
  "sem_count s \<noteq> 0 \<Longrightarrow> semaphore_wait s = Inr (s\<lparr>sem_count := sem_count s - 1\<rparr>)"
  by (simp add: semaphore_wait_def semaphore_wait_intr_def eventfd_read_def)

lemma semaphore_wait_zero [simp]:
  "sem_count s = 0 \<Longrightarrow> semaphore_wait s = (if sem_nonblock s then Inr s else Inl Blocks)"
  by (simp add: semaphore_wait_def semaphore_wait_intr_def eventfd_read_def)

text \<open>
  A signal matters exactly when the call would have waited: then it returns with the counter
  still at zero, so that the caller goes on as if it had been let in.
\<close>

lemma semaphore_wait_interrupted:
  "semaphore_wait_intr True s = (if semaphore_wait s = Inl Blocks then Inr s else semaphore_wait s)"
  by (simp add: semaphore_wait_def semaphore_wait_intr_def eventfd_read_def)

lemma semaphore_post_room [simp]:
  "sem_count s < 0xFFFFFFFFFFFFFFFE \<Longrightarrow> semaphore_post s = Inr (s\<lparr>sem_count := sem_count s + 1\<rparr>)"
  by (simp add: semaphore_post_def eventfd_write_1_def)

lemma semaphore_try_wait_ok [simp]:
  "semaphore_try_wait True True True s =
     Inr (if sem_count s \<noteq> 0 then (True, s\<lparr>sem_count := sem_count s - 1\<rparr>) else (False, s))"
  by (auto simp: semaphore_try_wait_def eventfd_read_def Let_def)

text \<open>When the flags cannot be restored the semaphore stays non-blocking.\<close>

lemma semaphore_try_wait_stuck:
  "\<exists>rc s'. semaphore_try_wait True True False s = Inr (rc, s') \<and> sem_nonblock s'"
  by (auto simp: semaphore_try_wait_def eventfd_read_def Let_def)

lemma count_less_room:
  assumes "unat (c :: uint64_t) < 18446744073709551614"
  shows "c < 0xFFFFFFFFFFFFFFFE"
  using assms by (simp add: word_less_nat_alt)

end
