(* ===== verification/FixedQueue.thy ===== *)
theory FixedQueue
  imports OsiList Semaphore
begin

text \<open>
  The bounded queue of \<open>src/fixed_queue.c\<close>, as one thread sees it: a list and two semaphores, one
  counting free places and one counting elements. A call that would wait for another thread is
  the outcome \<open>Blocks\<close>. What happens when several threads interleave is the subject of the
  theory \<open>QueueThreads\<close>. The queue is shown to refine a bounded sequence on every operation, and to
  satisfy the first-in first-out contract of the prelude.
\<close>

section \<open>The structure and its operations\<close>

text \<open>The list of a queue has no free callback, so its callbacks act on nothing.\<close>

record fixed_queue_t =
  fq_list :: "unit list_t"
  enqueue_sem :: semaphore_t
  dequeue_sem :: semaphore_t
  fq_capacity :: size_t
  dequeue_object :: ptr
  dequeue_ready :: ptr
  dequeue_context :: ptr

text \<open>
  \<open>fixed_queue_new\<close>: \<open>list_p\<close> is the answer of the allocator to \<open>list_new\<close>, \<open>alloc\<close> the allocator of
  the list's nodes, the two booleans say whether the two semaphores get a descriptor. The
  capacity is converted to \<open>unsigned int\<close> by the call of \<open>semaphore_new\<close>.
\<close>

definition fixed_queue_new :: "ptr \<Rightarrow> alloc_fn \<Rightarrow> bool \<Rightarrow> bool \<Rightarrow> size_t \<Rightarrow> fixed_queue_t option" where
  "fixed_queue_new list_p alloc got_enq got_deq cap =
     (case list_new_internal list_p None alloc of None \<Rightarrow> None
      | Some l \<Rightarrow> (case semaphore_new got_enq (ucast cap) of None \<Rightarrow> None
        | Some enq \<Rightarrow> (case semaphore_new got_deq 0 of None \<Rightarrow> None
          | Some deq \<Rightarrow> Some \<lparr>fq_list = l, enqueue_sem = enq, dequeue_sem = deq, fq_capacity = cap,
              dequeue_object = NULL, dequeue_ready = NULL, dequeue_context = NULL\<rparr>)))"

text \<open>Calls of the reactor that the queue makes.\<close>

datatype reactor_call = CallRegister ptr | CallUnregister ptr

definition fixed_queue_unregister_dequeue :: "fixed_queue_t \<Rightarrow> reactor_call list \<times> fixed_queue_t" where
  "fixed_queue_unregister_dequeue q =
     (if dequeue_object q \<noteq> NULL
      then ([CallUnregister (dequeue_object q)], q\<lparr>dequeue_object := NULL\<rparr>) else ([], q))"

text \<open>\<open>obj\<close> is what \<open>reactor_register\<close> answers.\<close>

definition fixed_queue_register_dequeue ::
  "ptr \<Rightarrow> fixed_queue_t \<Rightarrow> ptr \<Rightarrow> ptr \<Rightarrow> (reactor_call list \<times> fixed_queue_t) res" where
  "fixed_queue_register_dequeue obj q ready_cb context =
     rbind (c_assert (ready_cb \<noteq> NULL)) (\<lambda>_.
     (let (calls, q1) = fixed_queue_unregister_dequeue q in
      Inr (calls @ [CallRegister obj],
           q1\<lparr>dequeue_object := obj, dequeue_ready := ready_cb, dequeue_context := context\<rparr>)))"

text \<open>The loop of \<open>fixed_queue_free\<close> that hands the elements to the callback.\<close>

fun fixed_queue_free_loop :: "nat \<Rightarrow> unit list_t \<Rightarrow> ptr \<Rightarrow> (ptr \<Rightarrow> 'w \<Rightarrow> 'w) \<Rightarrow> 'w \<Rightarrow> 'w res" where
  "fixed_queue_free_loop 0 l node cb w = (if node = list_end l then Inr w else Inl Diverges)"
| "fixed_queue_free_loop (Suc k) l node cb w =
     (if node = list_end l then Inr w
      else rbind (list_node l node) (\<lambda>d.
           rbind (list_next l node) (\<lambda>n. fixed_queue_free_loop k l n cb (cb d w))))"

definition fixed_queue_free ::
  "fixed_queue_t option \<Rightarrow> (ptr \<Rightarrow> 'w \<Rightarrow> 'w) option \<Rightarrow> 'w \<Rightarrow> (reactor_call list \<times> 'w) res" where
  "fixed_queue_free qp cb_p w =
     (case qp of None \<Rightarrow> Inr ([], w)
      | Some q0 \<Rightarrow>
        (let (calls, q) = fixed_queue_unregister_dequeue q0 in
         rbind (case cb_p of None \<Rightarrow> Inr w
                | Some cb \<Rightarrow> fixed_queue_free_loop (length (nodes (fq_list q))) (fq_list q)
                              (list_begin (fq_list q)) cb w) (\<lambda>w1.
         rbind (list_free (Some (fq_list q)) ()) (\<lambda>_. Inr (calls, w1)))))"

definition fixed_queue_is_empty :: "fixed_queue_t option \<Rightarrow> bool" where
  "fixed_queue_is_empty qp = (case qp of None \<Rightarrow> True | Some q \<Rightarrow> list_is_empty (fq_list q))"

definition fixed_queue_length :: "fixed_queue_t option \<Rightarrow> size_t" where
  "fixed_queue_length qp = (case qp of None \<Rightarrow> 0 | Some q \<Rightarrow> list_length (fq_list q))"

definition fixed_queue_capacity :: "fixed_queue_t \<Rightarrow> size_t" where
  "fixed_queue_capacity q = fq_capacity q"

text \<open>The part of an enqueue after the semaphore; the answer of \<open>list_append\<close> is ignored.\<close>

definition enqueue_rest :: "fixed_queue_t \<Rightarrow> ptr \<Rightarrow> fixed_queue_t res" where
  "enqueue_rest q data =
     rbind (list_append (fq_list q) data) (\<lambda>(_, l).
     rbind (semaphore_post (dequeue_sem q)) (\<lambda>s.
     Inr (q\<lparr>fq_list := l, dequeue_sem := s\<rparr>)))"

definition fixed_queue_enqueue :: "fixed_queue_t \<Rightarrow> ptr \<Rightarrow> fixed_queue_t res" where
  "fixed_queue_enqueue q data =
     rbind (c_assert (data \<noteq> NULL)) (\<lambda>_.
     rbind (semaphore_wait (enqueue_sem q)) (\<lambda>s.
     enqueue_rest (q\<lparr>enqueue_sem := s\<rparr>) data))"

definition dequeue_rest :: "fixed_queue_t \<Rightarrow> (ptr \<times> fixed_queue_t) res" where
  "dequeue_rest q =
     rbind (list_front (fq_list q)) (\<lambda>ret.
     rbind (list_remove (fq_list q) ret ()) (\<lambda>(_, l, _).
     rbind (semaphore_post (enqueue_sem q)) (\<lambda>s.
     Inr (ret, q\<lparr>fq_list := l, enqueue_sem := s\<rparr>))))"

definition fixed_queue_dequeue :: "fixed_queue_t \<Rightarrow> (ptr \<times> fixed_queue_t) res" where
  "fixed_queue_dequeue q =
     rbind (semaphore_wait (dequeue_sem q)) (\<lambda>s. dequeue_rest (q\<lparr>dequeue_sem := s\<rparr>))"

text \<open>The flag calls of \<open>semaphore_try_wait\<close> succeed: the descriptor is open.\<close>

definition fixed_queue_try_enqueue :: "fixed_queue_t \<Rightarrow> ptr \<Rightarrow> (bool \<times> fixed_queue_t) res" where
  "fixed_queue_try_enqueue q data =
     rbind (c_assert (data \<noteq> NULL)) (\<lambda>_.
     rbind (semaphore_try_wait True True True (enqueue_sem q)) (\<lambda>(got, s).
     if \<not> got then Inr (False, q\<lparr>enqueue_sem := s\<rparr>)
     else rbind (enqueue_rest (q\<lparr>enqueue_sem := s\<rparr>) data) (\<lambda>q1. Inr (True, q1))))"

definition fixed_queue_try_dequeue :: "fixed_queue_t \<Rightarrow> (ptr \<times> fixed_queue_t) res" where
  "fixed_queue_try_dequeue q =
     rbind (semaphore_try_wait True True True (dequeue_sem q)) (\<lambda>(got, s).
     if \<not> got then Inr (NULL, q\<lparr>dequeue_sem := s\<rparr>)
     else dequeue_rest (q\<lparr>dequeue_sem := s\<rparr>))"

definition fixed_queue_try_peek_first :: "fixed_queue_t \<Rightarrow> ptr res" where
  "fixed_queue_try_peek_first q = (if list_is_empty (fq_list q) then Inr NULL else list_front (fq_list q))"

definition fixed_queue_try_peek_last :: "fixed_queue_t \<Rightarrow> ptr res" where
  "fixed_queue_try_peek_last q = (if list_is_empty (fq_list q) then Inr NULL else list_back (fq_list q))"

definition fixed_queue_try_remove_from_queue :: "fixed_queue_t \<Rightarrow> ptr \<Rightarrow> (ptr \<times> fixed_queue_t) res" where
  "fixed_queue_try_remove_from_queue q data =
     rbind (list_contains (fq_list q) data) (\<lambda>found.
     if \<not> found then Inr (NULL, q)
     else rbind (semaphore_try_wait True True True (dequeue_sem q)) (\<lambda>(got, s).
       let q1 = q\<lparr>dequeue_sem := s\<rparr> in
       if \<not> got then Inr (NULL, q1)
       else rbind (list_remove (fq_list q1) data ()) (\<lambda>(removed, l, _).
            rbind (c_assert removed) (\<lambda>_.
            rbind (semaphore_post (enqueue_sem q1)) (\<lambda>e.
            Inr (data, q1\<lparr>fq_list := l, enqueue_sem := e\<rparr>))))))"

definition fixed_queue_get_list :: "fixed_queue_t \<Rightarrow> unit list_t" where
  "fixed_queue_get_list q = fq_list q"

section \<open>Content, places and the invariant\<close>

definition fq_content :: "fixed_queue_t \<Rightarrow> ptr list" where
  "fq_content q = list_elems (fq_list q)"

text \<open>The number of places: the capacity as the semaphore was given it.\<close>

definition fq_places :: "fixed_queue_t \<Rightarrow> nat" where
  "fq_places q = unat (ucast (fq_capacity q) :: uint32_t)"

definition fq_inv :: "fixed_queue_t \<Rightarrow> bool" where
  "fq_inv q \<longleftrightarrow> list_inv (fq_list q) \<and> free_cb (fq_list q) = None \<and>
     \<not> sem_nonblock (enqueue_sem q) \<and> \<not> sem_nonblock (dequeue_sem q) \<and>
     unat (sem_count (dequeue_sem q)) = length (fq_content q) \<and>
     unat (sem_count (enqueue_sem q)) + length (fq_content q) = fq_places q \<and>
     alloc_room (list_allocator (fq_list q)) (fq_places q)"

definition fq_full :: "fixed_queue_t \<Rightarrow> bool" where
  "fq_full q \<longleftrightarrow> length (fq_content q) = fq_places q"

lemma fq_places_less: "fq_places q < 4294967296"
  using unsigned_less [of "ucast (fq_capacity q) :: uint32_t"] by (simp add: fq_places_def)

lemma fq_inv_zero_iff:
  assumes "fq_inv q"
  shows "sem_count (enqueue_sem q) = 0 \<longleftrightarrow> fq_full q" "sem_count (dequeue_sem q) = 0 \<longleftrightarrow> fq_content q = []"
proof -
  have "sem_count (enqueue_sem q) = 0 \<longleftrightarrow> unat (sem_count (enqueue_sem q)) = 0"
    "sem_count (dequeue_sem q) = 0 \<longleftrightarrow> unat (sem_count (dequeue_sem q)) = 0"
    by (simp_all add: unat_eq_zero)
  then show "sem_count (enqueue_sem q) = 0 \<longleftrightarrow> fq_full q" "sem_count (dequeue_sem q) = 0 \<longleftrightarrow> fq_content q = []"
    using assms by (auto simp: fq_inv_def fq_full_def)
qed

lemma fq_list_nodes:
  assumes "list_inv l"
  shows "length (nodes l) = length (list_elems l)"
  using assms by (auto simp: list_rep_length elim!: list_inv_repE)

lemma fixed_queue_new_ok:
  assumes "list_p \<noteq> NULL" and "fresh_alloc alloc" and "alloc_room alloc (unat (ucast cap :: uint32_t))"
  shows "\<exists>q. fixed_queue_new list_p alloc True True cap = Some q \<and> fq_inv q \<and> fq_content q = [] \<and>
    fixed_queue_capacity q = cap"
proof -
  obtain l where l: "list_new_internal list_p (None :: unit list_free_cb option) alloc = Some l" "list_inv l"
    "list_elems l = []" "free_cb l = None" "list_allocator l = alloc"
    using list_new_ok [OF assms(1,2)] by blast
  have "unat (ucast (ucast cap :: uint32_t) :: uint64_t) = unat (ucast cap :: uint32_t)"
    by (rule unat_ucast_32_64)
  then show ?thesis
    using l assms(3)
    by (simp add: fixed_queue_new_def semaphore_new_def fq_inv_def fq_content_def fq_places_def fixed_queue_capacity_def)
qed

section \<open>The operations on well-formed queues\<close>

text \<open>Semaphores at their new counts.\<close>

lemma sem_count_dec: "c \<noteq> 0 \<Longrightarrow> unat (c - 1 :: uint64_t) = unat c - 1"
  by (rule unat_minus_one)

lemma sem_count_inc: "unat c < 4294967296 \<Longrightarrow> unat (c + 1 :: uint64_t) = Suc (unat c)"
  by (simp add: unat_word_ariths)

lemma enqueue_rest_ok:
  assumes inv: "fq_inv q" and free: "\<not> fq_full q" and data: "data \<noteq> NULL"
  shows "\<exists>q'. enqueue_rest (q\<lparr>enqueue_sem := enqueue_sem q\<lparr>sem_count := sem_count (enqueue_sem q) - 1\<rparr>\<rparr>) data = Inr q' \<and>
    fq_inv q' \<and> fq_content q' = fq_content q @ [data] \<and> fq_capacity q' = fq_capacity q"
proof -
  have li: "list_inv (fq_list q)" using inv by (simp add: fq_inv_def)
  have "length (live (nodes (fq_list q))) \<le> fq_places q"
    using inv fq_list_nodes [OF li] by (simp add: fq_inv_def fq_content_def)
  then have "list_room (fq_list q)" using inv by (simp add: list_room_def fq_inv_def alloc_room_def)
  from list_append_ok [OF li data this] obtain l where l: "list_append (fq_list q) data = Inr (True, l)"
    "list_inv l" "list_elems l = list_elems (fq_list q) @ [data]" "list_same_cfg (fq_list q) l" by blast
  have nz: "sem_count (enqueue_sem q) \<noteq> 0" using fq_inv_zero_iff [OF inv] free by simp
  have small: "unat (sem_count (dequeue_sem q)) < 4294967296"
    using inv fq_places_less [of q] by (simp add: fq_inv_def)
  then have post: "semaphore_post (dequeue_sem q) = Inr ((dequeue_sem q)\<lparr>sem_count := sem_count (dequeue_sem q) + 1\<rparr>)"
    by (intro semaphore_post_room count_less_room) simp
  let ?q = "q\<lparr>fq_list := l, enqueue_sem := enqueue_sem q\<lparr>sem_count := sem_count (enqueue_sem q) - 1\<rparr>,
      dequeue_sem := (dequeue_sem q)\<lparr>sem_count := sem_count (dequeue_sem q) + 1\<rparr>\<rparr>"
  have run: "enqueue_rest (q\<lparr>enqueue_sem := enqueue_sem q\<lparr>sem_count := sem_count (enqueue_sem q) - 1\<rparr>\<rparr>) data = Inr ?q"
    using l(1) post by (simp add: enqueue_rest_def)
  have "unat (sem_count (enqueue_sem q)) \<noteq> 0" using nz by (simp add: unat_eq_zero)
  then have "fq_inv ?q"
    using inv l(2-4) sem_count_dec [OF nz] sem_count_inc [OF small]
    by (simp add: fq_inv_def fq_content_def fq_places_def list_same_cfg_def)
  then show ?thesis using run l(3) by (simp add: fq_content_def)
qed

lemma run_free_cb_none: "free_cb l = None \<Longrightarrow> run_free_cb l data s = Inr s"
  by (simp add: run_free_cb_def)

text \<open>Taking one element out: the shared end of dequeuing and of removing.\<close>

lemma remove_elem_ok:
  assumes inv: "fq_inv q" and data: "data \<in> set (fq_content q)"
  shows "\<exists>l. list_remove (fq_list q) data () = Inr (True, l, ()) \<and>
    semaphore_post (enqueue_sem q) = Inr ((enqueue_sem q)\<lparr>sem_count := sem_count (enqueue_sem q) + 1\<rparr>) \<and>
    (let q' = q\<lparr>dequeue_sem := (dequeue_sem q)\<lparr>sem_count := sem_count (dequeue_sem q) - 1\<rparr>,
       fq_list := l, enqueue_sem := (enqueue_sem q)\<lparr>sem_count := sem_count (enqueue_sem q) + 1\<rparr>\<rparr> in
     fq_inv q' \<and> fq_content q' = remove1 data (fq_content q) \<and> fq_capacity q' = fq_capacity q)"
proof -
  have li: "list_inv (fq_list q)" and cb: "free_cb (fq_list q) = None" using inv by (simp_all add: fq_inv_def)
  have "data \<in> set (list_elems (fq_list q))" using data by (simp add: fq_content_def)
  from list_remove_ok [OF li this, of "()"] obtain l where l: "list_remove (fq_list q) data () = Inr (True, l, ())"
    "list_inv l" "list_elems l = remove1 data (list_elems (fq_list q))" "list_same_cfg (fq_list q) l"
    by (auto simp: run_free_cb_none [OF cb])
  have nz: "sem_count (dequeue_sem q) \<noteq> 0" using fq_inv_zero_iff [OF inv] data by auto
  have small: "unat (sem_count (enqueue_sem q)) < 4294967296"
    using inv fq_places_less [of q] by (simp add: fq_inv_def)
  then have post: "semaphore_post (enqueue_sem q) = Inr ((enqueue_sem q)\<lparr>sem_count := sem_count (enqueue_sem q) + 1\<rparr>)"
    by (intro semaphore_post_room count_less_room) simp
  have len: "length (remove1 data (fq_content q)) = length (fq_content q) - 1" "0 < length (fq_content q)"
    using data by (auto simp: length_remove1)
  have "Suc (unat (sem_count (enqueue_sem q)) + (length (fq_content q) - 1)) = fq_places q"
    using inv len(2) unfolding fq_inv_def by linarith
  then show ?thesis
    using inv l post sem_count_dec [OF nz] sem_count_inc [OF small] len
    by (auto simp: fq_inv_def fq_content_def fq_places_def list_same_cfg_def Let_def)
qed

lemma dequeue_rest_ok:
  assumes inv: "fq_inv q" and content: "fq_content q = x # xs"
  shows "\<exists>q'. dequeue_rest (q\<lparr>dequeue_sem := dequeue_sem q\<lparr>sem_count := sem_count (dequeue_sem q) - 1\<rparr>\<rparr>) = Inr (x, q') \<and>
    fq_inv q' \<and> fq_content q' = xs \<and> fq_capacity q' = fq_capacity q"
proof -
  have li: "list_inv (fq_list q)" using inv by (simp add: fq_inv_def)
  have front: "list_front (fq_list q) = Inr x" using list_front_ok [OF li] content by (simp add: fq_content_def)
  have "x \<in> set (fq_content q)" using content by simp
  from remove_elem_ok [OF inv this] front content show ?thesis
    by (auto simp: dequeue_rest_def Let_def)
qed

lemma fixed_queue_enqueue_ok:
  assumes inv: "fq_inv q" and data: "data \<noteq> NULL"
  shows "if fq_full q then fixed_queue_enqueue q data = Inl Blocks
    else \<exists>q'. fixed_queue_enqueue q data = Inr q' \<and> fq_inv q' \<and>
      fq_content q' = fq_content q @ [data] \<and> fq_capacity q' = fq_capacity q"
proof (cases "fq_full q")
  case True
  then have "semaphore_wait (enqueue_sem q) = Inl Blocks"
    using fq_inv_zero_iff(1) [OF inv] inv by (simp add: fq_inv_def)
  then show ?thesis using True data by (simp add: fixed_queue_enqueue_def)
next
  case False
  then have "sem_count (enqueue_sem q) \<noteq> 0" using fq_inv_zero_iff(1) [OF inv] by simp
  then show ?thesis using False enqueue_rest_ok [OF inv False data] data by (simp add: fixed_queue_enqueue_def)
qed

lemma fixed_queue_try_enqueue_ok:
  assumes inv: "fq_inv q" and data: "data \<noteq> NULL"
  shows "if fq_full q then fixed_queue_try_enqueue q data = Inr (False, q)
    else \<exists>q'. fixed_queue_try_enqueue q data = Inr (True, q') \<and> fixed_queue_enqueue q data = Inr q' \<and>
      fq_inv q' \<and> fq_content q' = fq_content q @ [data] \<and> fq_capacity q' = fq_capacity q"
proof (cases "fq_full q")
  case True
  then show ?thesis using fq_inv_zero_iff(1) [OF inv] data by (simp add: fixed_queue_try_enqueue_def)
next
  case False
  then have "sem_count (enqueue_sem q) \<noteq> 0" using fq_inv_zero_iff(1) [OF inv] by simp
  then show ?thesis using False enqueue_rest_ok [OF inv False data] data
    by (auto simp: fixed_queue_try_enqueue_def fixed_queue_enqueue_def)
qed

lemma fixed_queue_dequeue_ok:
  assumes inv: "fq_inv q"
  shows "case fq_content q of
      [] \<Rightarrow> fixed_queue_dequeue q = Inl Blocks \<and> fixed_queue_try_dequeue q = Inr (NULL, q)
    | x # xs \<Rightarrow> \<exists>q'. fixed_queue_dequeue q = Inr (x, q') \<and> fixed_queue_try_dequeue q = Inr (x, q') \<and>
        fq_inv q' \<and> fq_content q' = xs \<and> fq_capacity q' = fq_capacity q"
proof (cases "fq_content q")
  case Nil
  then show ?thesis using fq_inv_zero_iff(2) [OF inv] inv
    by (simp add: fixed_queue_dequeue_def fixed_queue_try_dequeue_def fq_inv_def)
next
  case (Cons x xs)
  then have "sem_count (dequeue_sem q) \<noteq> 0" using fq_inv_zero_iff(2) [OF inv] by simp
  with Cons dequeue_rest_ok [OF inv Cons] show ?thesis
    by (simp add: fixed_queue_dequeue_def fixed_queue_try_dequeue_def)
qed

lemma fixed_queue_try_remove_ok:
  assumes inv: "fq_inv q" and data: "data \<noteq> NULL"
  shows "if data \<in> set (fq_content q)
    then \<exists>q'. fixed_queue_try_remove_from_queue q data = Inr (data, q') \<and> fq_inv q' \<and>
      fq_content q' = remove1 data (fq_content q) \<and> fq_capacity q' = fq_capacity q
    else fixed_queue_try_remove_from_queue q data = Inr (NULL, q)"
proof -
  have li: "list_inv (fq_list q)" using inv by (simp add: fq_inv_def)
  have found: "list_contains (fq_list q) data = Inr (data \<in> set (fq_content q))"
    using list_contains_ok [OF li data] by (simp add: fq_content_def)
  show ?thesis
  proof (cases "data \<in> set (fq_content q)")
    case True
    then have nz: "sem_count (dequeue_sem q) \<noteq> 0" using fq_inv_zero_iff(2) [OF inv] by auto
    from remove_elem_ok [OF inv True] True found nz show ?thesis
      by (auto simp: fixed_queue_try_remove_from_queue_def Let_def)
  qed (simp add: fixed_queue_try_remove_from_queue_def found)
qed

lemma fixed_queue_peek_ok:
  assumes inv: "fq_inv q"
  shows "fixed_queue_try_peek_first q = Inr (if fq_content q = [] then NULL else hd (fq_content q))"
    "fixed_queue_try_peek_last q = Inr (if fq_content q = [] then NULL else last (fq_content q))"
proof -
  have li: "list_inv (fq_list q)" using inv by (simp add: fq_inv_def)
  show "fixed_queue_try_peek_first q = Inr (if fq_content q = [] then NULL else hd (fq_content q))"
    using list_is_empty_ok [OF li] list_front_ok [OF li]
    by (cases "list_elems (fq_list q)") (simp_all add: fixed_queue_try_peek_first_def fq_content_def)
  show "fixed_queue_try_peek_last q = Inr (if fq_content q = [] then NULL else last (fq_content q))"
    using list_is_empty_ok [OF li] list_back_ok [OF li]
    by (cases "list_elems (fq_list q)" rule: rev_cases) (simp_all add: fixed_queue_try_peek_last_def fq_content_def)
qed

section \<open>Freeing\<close>

lemma fixed_queue_free_loop_seg:
  "seg (map_of (nodes l)) p cs NULL \<Longrightarrow> length cs \<le> k \<Longrightarrow>
     fixed_queue_free_loop k l p cb w = Inr (fold cb (map snd cs) w)"
proof (induction cs arbitrary: k p w)
  case Nil
  then show ?case by (cases k) (simp_all add: list_end_def)
next
  case (Cons c cs)
  then obtain k' where "k = Suc k'" by (cases k) auto
  with Cons show ?case by (cases c) (auto simp: list_end_def list_node_def list_next_def)
qed

lemma fixed_queue_free_ok:
  assumes "fq_inv q"
  shows "fixed_queue_free (Some q) (Some cb) w =
    Inr (fst (fixed_queue_unregister_dequeue q), fold cb (fq_content q) w)"
proof -
  have li: "list_inv (fq_list q)" and cb: "free_cb (fq_list q) = None" using assms by (simp_all add: fq_inv_def)
  obtain cs where cs: "list_rep (fq_list q) cs" "list_elems (fq_list q) = map snd cs"
    using li by (rule list_inv_repE)
  have loop: "fixed_queue_free_loop (length (nodes (fq_list q))) (fq_list q) (list_begin (fq_list q)) cb w =
      Inr (fold cb (fq_content q) w)"
    using fixed_queue_free_loop_seg [of "fq_list q" "list_head (fq_list q)" cs "length (nodes (fq_list q))" cb w]
      cs list_rep_length [OF cs(1)] by (simp add: list_rep_def list_begin_def fq_content_def)
  have nocb: "run_free_cbs (fq_list q) xs s = Inr s" for xs s
    by (induction xs) (simp_all add: run_free_cb_none [OF cb])
  have "fq_list (snd (fixed_queue_unregister_dequeue q)) = fq_list q"
    by (simp add: fixed_queue_unregister_dequeue_def)
  then show ?thesis
    using loop list_free_ok [OF li, of "()"] nocb by (simp add: fixed_queue_free_def case_prod_beta)
qed

section \<open>The interface for clients\<close>

text \<open>
  What the users of a queue rely on (the work queue of a thread, the buffers of an eager reader,
  the queues behind a data dispatcher): a bounded sequence whose operations wait when they cannot
  go on.
\<close>

locale bounded_queue =
  fixes inv :: "'q \<Rightarrow> bool" and content :: "'q \<Rightarrow> ptr list" and full :: "'q \<Rightarrow> bool"
    and enqueue :: "'q \<Rightarrow> ptr \<Rightarrow> 'q res" and dequeue :: "'q \<Rightarrow> (ptr \<times> 'q) res"
    and try_dequeue :: "'q \<Rightarrow> (ptr \<times> 'q) res"
  assumes enqueue_full: "inv q \<Longrightarrow> d \<noteq> NULL \<Longrightarrow> full q \<Longrightarrow> enqueue q d = Inl Blocks"
    and enqueue_room: "inv q \<Longrightarrow> d \<noteq> NULL \<Longrightarrow> \<not> full q \<Longrightarrow>
      \<exists>q'. enqueue q d = Inr q' \<and> inv q' \<and> content q' = content q @ [d]"
    and dequeue_empty: "inv q \<Longrightarrow> content q = [] \<Longrightarrow> dequeue q = Inl Blocks \<and> try_dequeue q = Inr (NULL, q)"
    and dequeue_first: "inv q \<Longrightarrow> content q = x # xs \<Longrightarrow>
      \<exists>q'. dequeue q = Inr (x, q') \<and> try_dequeue q = Inr (x, q') \<and> inv q' \<and> content q' = xs"
    and content_nonnull: "inv q \<Longrightarrow> NULL \<notin> set (content q)"
begin

text \<open>A non-null answer of the non-blocking form tells that something was there.\<close>

lemma try_dequeue_cases:
  assumes "inv q"
  obtains (empty) "content q = []" "try_dequeue q = Inr (NULL, q)"
  | (item) x xs q' where "content q = x # xs" "x \<noteq> NULL" "try_dequeue q = Inr (x, q')" "inv q'" "content q' = xs"
proof (cases "content q")
  case Nil
  then show ?thesis using dequeue_empty [OF assms Nil] empty by blast
next
  case (Cons x xs)
  then show ?thesis using dequeue_first [OF assms Cons] content_nonnull [OF assms] item by (metis list.set_intros(1))
qed

lemma enqueue_cases:
  assumes "inv q" and "d \<noteq> NULL"
  obtains (blocked) "full q" "enqueue q d = Inl Blocks"
  | (appended) q' where "\<not> full q" "enqueue q d = Inr q'" "inv q'" "content q' = content q @ [d]"
  using enqueue_full [OF assms] enqueue_room [OF assms] that by metis

end

interpretation bq: bounded_queue fq_inv fq_content fq_full fixed_queue_enqueue fixed_queue_dequeue fixed_queue_try_dequeue
proof
  fix q d x xs
  assume inv: "fq_inv q"
  show "d \<noteq> NULL \<Longrightarrow> fq_full q \<Longrightarrow> fixed_queue_enqueue q d = Inl Blocks"
    using fixed_queue_enqueue_ok [OF inv, of d] by simp
  show "d \<noteq> NULL \<Longrightarrow> \<not> fq_full q \<Longrightarrow> \<exists>q'. fixed_queue_enqueue q d = Inr q' \<and> fq_inv q' \<and> fq_content q' = fq_content q @ [d]"
    using fixed_queue_enqueue_ok [OF inv, of d] by auto
  show "fq_content q = [] \<Longrightarrow> fixed_queue_dequeue q = Inl Blocks \<and> fixed_queue_try_dequeue q = Inr (NULL, q)"
    using fixed_queue_dequeue_ok [OF inv] by simp
  show "fq_content q = x # xs \<Longrightarrow> \<exists>q'. fixed_queue_dequeue q = Inr (x, q') \<and> fixed_queue_try_dequeue q = Inr (x, q') \<and>
      fq_inv q' \<and> fq_content q' = xs"
    using fixed_queue_dequeue_ok [OF inv] by auto
  show "NULL \<notin> set (fq_content q)" using list_elems_nonnull [of "fq_list q"] inv by (auto simp: fq_inv_def fq_content_def)
qed

section \<open>The queue as a first-in first-out stream\<close>

datatype fq_op = FqTryEnqueue ptr | FqTryDequeue

fun fq_exec :: "fq_op \<Rightarrow> fixed_queue_t \<Rightarrow> (ptr list \<times> ptr list \<times> fixed_queue_t) res" where
  "fq_exec (FqTryEnqueue data) q =
     rbind (fixed_queue_try_enqueue q data) (\<lambda>(ok, q1). Inr (if ok then [data] else [], [], q1))"
| "fq_exec FqTryDequeue q =
     rbind (fixed_queue_try_dequeue q) (\<lambda>(d, q1). Inr ([], if d = NULL then [] else [d], q1))"

fun fq_op_ok :: "fq_op \<Rightarrow> fixed_queue_t \<Rightarrow> bool" where
  "fq_op_ok (FqTryEnqueue data) q \<longleftrightarrow> data \<noteq> NULL"
| "fq_op_ok FqTryDequeue q \<longleftrightarrow> True"

lemma fq_content_nonnull: "fq_inv q \<Longrightarrow> NULL \<notin> set (fq_content q)"
  using list_elems_nonnull [of "fq_list q"] by (auto simp: fq_inv_def fq_content_def)

lemma fq_exec_ok:
  assumes inv: "fq_inv q" and ok: "fq_op_ok x q"
  shows "\<exists>ins outs q'. fq_exec x q = Inr (ins, outs, q') \<and> fq_inv q' \<and> fq_content q @ ins = outs @ fq_content q'"
proof (cases x)
  case (FqTryEnqueue data)
  with ok have "data \<noteq> NULL" by simp
  from fixed_queue_try_enqueue_ok [OF inv this] inv show ?thesis
    by (cases "fq_full q") (auto simp: FqTryEnqueue simp del: rbind_eq_Inr)
next
  case FqTryDequeue
  show ?thesis
    using fixed_queue_dequeue_ok [OF inv] fq_content_nonnull [OF inv] inv
    by (cases "fq_content q") (auto simp: FqTryDequeue simp del: rbind_eq_Inr)
qed

lemma fq_op_ok_any: "fq_op_ok x q \<Longrightarrow> fq_op_ok x q'"
  by (cases x) simp_all

interpretation fq: fifo fq_inv fq_content fq_op_ok fq_exec
  by unfold_locales (use fq_exec_ok fq_op_ok_any in blast)+

section \<open>Properties\<close>

text \<open>An empty queue of two places.\<close>

definition demo_queue :: fixed_queue_t where
  "demo_queue = the (fixed_queue_new 8 (arena_alloc [16, 32, 48]) True True 2)"

lemma demo_queue_facts: "fq_inv demo_queue" "fq_content demo_queue = []" "fq_places demo_queue = 2"
proof -
  have two: "unat (ucast (2 :: size_t) :: uint32_t) = 2" by simp
  have "alloc_room (arena_alloc [16, 32, 48]) (unat (ucast (2 :: size_t) :: uint32_t))"
    unfolding two by (rule alloc_room_arena) simp_all
  from fixed_queue_new_ok [of 8 "arena_alloc [16, 32, 48]" 2, OF _ _ this]
  show "fq_inv demo_queue" "fq_content demo_queue = []" "fq_places demo_queue = 2"
    by (auto simp: demo_queue_def fq_places_def fixed_queue_capacity_def)
qed

text \<open>
  C10. The blocking and the non-blocking operations refine a bounded sequence: enqueuing
  appends, dequeuing takes the oldest element, both keep the invariant that ties the two
  semaphores to the list; a full queue blocks \<open>fixed_queue_enqueue\<close> and makes
  \<open>fixed_queue_try_enqueue\<close> answer false without a change, an empty queue does the same to
  dequeuing.
\<close>

theorem fixed_queue_refines_bounded_queue:
  assumes "fq_inv q" and "data \<noteq> NULL"
  shows "(if length (fq_content q) = fq_places q
     then fixed_queue_enqueue q data = Inl Blocks \<and> fixed_queue_try_enqueue q data = Inr (False, q)
     else \<exists>q'. fixed_queue_enqueue q data = Inr q' \<and> fixed_queue_try_enqueue q data = Inr (True, q') \<and>
       fq_inv q' \<and> fq_content q' = fq_content q @ [data] \<and> fixed_queue_capacity q' = fixed_queue_capacity q) \<and>
    (case fq_content q of
       [] \<Rightarrow> fixed_queue_dequeue q = Inl Blocks \<and> fixed_queue_try_dequeue q = Inr (NULL, q)
     | x # xs \<Rightarrow> \<exists>q'. fixed_queue_dequeue q = Inr (x, q') \<and> fixed_queue_try_dequeue q = Inr (x, q') \<and>
         fq_inv q' \<and> fq_content q' = xs \<and> fixed_queue_capacity q' = fixed_queue_capacity q)"
  using fixed_queue_enqueue_ok [OF assms] fixed_queue_try_enqueue_ok [OF assms] fixed_queue_dequeue_ok [OF assms(1)]
  unfolding fixed_queue_capacity_def fq_full_def by (intro conjI) auto

theorem fixed_queue_refines_bounded_queue_witness:
  "fq_inv demo_queue \<and> fixed_queue_dequeue demo_queue = Inl Blocks \<and>
   (\<exists>q'. fixed_queue_enqueue demo_queue 7 = Inr q' \<and> fq_content q' = [7])"
  using fixed_queue_refines_bounded_queue [OF demo_queue_facts(1), of 7] demo_queue_facts by auto

text \<open>
  The operations that look at the queue or remove from its middle: peeking answers the
  first or last element, or null; \<open>fixed_queue_try_remove_from_queue\<close> takes out the first
  occurrence of an element that is there, freeing one place, and otherwise answers null and
  changes nothing; its assertion never fails.
\<close>

theorem fixed_queue_peek_remove:
  assumes "fq_inv q" and "data \<noteq> NULL"
  shows "fixed_queue_try_peek_first q = Inr (if fq_content q = [] then NULL else hd (fq_content q)) \<and>
    fixed_queue_try_peek_last q = Inr (if fq_content q = [] then NULL else last (fq_content q)) \<and>
    unat (fixed_queue_length (Some q)) = length (fq_content q) \<and>
    (if data \<in> set (fq_content q)
     then \<exists>q'. fixed_queue_try_remove_from_queue q data = Inr (data, q') \<and> fq_inv q' \<and>
       fq_content q' = remove1 data (fq_content q)
     else fixed_queue_try_remove_from_queue q data = Inr (NULL, q))"
  using fixed_queue_peek_ok [OF assms(1)] fixed_queue_try_remove_ok [OF assms] assms(1)
    list_length_ok [of "fq_list q"]
  by (auto simp: fixed_queue_length_def fq_inv_def fq_content_def)

theorem fixed_queue_peek_remove_witness:
  "fq_inv demo_queue \<and> fixed_queue_try_peek_first demo_queue = Inr NULL \<and>
   fixed_queue_try_remove_from_queue demo_queue 7 = Inr (NULL, demo_queue)"
  using fixed_queue_peek_remove [OF demo_queue_facts(1), of 7] demo_queue_facts by auto

text \<open>
  Every sequence of \<open>fixed_queue_try_enqueue\<close> and \<open>fixed_queue_try_dequeue\<close> calls hands the
  elements on in the order in which they were accepted.
\<close>

theorem fixed_queue_stream_order:
  assumes "fq_inv q" and "\<forall>x \<in> set xs. fq_op_ok x q"
  shows "\<exists>ins outs q'. run_ops fq_exec xs q = Inr (ins, outs, q') \<and> fq_inv q' \<and>
    fq_content q @ ins = outs @ fq_content q'"
  using fq.stream_order [OF assms] .

theorem fixed_queue_stream_order_witness:
  "fq_inv demo_queue \<and> (\<exists>ins outs q'. run_ops fq_exec [FqTryEnqueue 7, FqTryDequeue] demo_queue =
     Inr (ins, outs, q') \<and> ins = outs @ fq_content q')"
  using fixed_queue_stream_order [OF demo_queue_facts(1), of "[FqTryEnqueue 7, FqTryDequeue]"] demo_queue_facts
  by (auto simp del: run_ops.simps)

text \<open>
  \<open>fixed_queue_new\<close> passes its capacity through an \<open>unsigned int\<close>: the queue it makes reports the
  capacity asked for, but the number of places is the capacity modulo \<open>2^32\<close>. With a capacity of
  \<open>2^32\<close> the first enqueue into the empty queue waits forever.
\<close>

theorem fixed_queue_new_places:
  assumes "list_p \<noteq> NULL" and "fresh_alloc alloc" and "alloc_room alloc (unat cap mod 2 ^ 32)"
  shows "\<exists>q. fixed_queue_new list_p alloc True True cap = Some q \<and> fq_inv q \<and> fq_content q = [] \<and>
    fixed_queue_capacity q = cap \<and> fq_places q = unat cap mod 2 ^ 32 \<and>
    (unat cap mod 2 ^ 32 = 0 \<longrightarrow> fixed_queue_enqueue q 1 = Inl Blocks)"
proof -
  have places: "unat (ucast cap :: uint32_t) = unat cap mod 2 ^ 32"
    by (simp add: unsigned_ucast_eq take_bit_eq_mod)
  obtain q where q: "fixed_queue_new list_p alloc True True cap = Some q" "fq_inv q" "fq_content q = []"
    "fixed_queue_capacity q = cap"
    using fixed_queue_new_ok [OF assms(1,2), of cap] assms(3) unfolding places by blast
  have pl: "fq_places q = unat cap mod 2 ^ 32"
    using q(4) places by (simp add: fq_places_def fixed_queue_capacity_def)
  then have blocks: "unat cap mod 2 ^ 32 = 0 \<longrightarrow> fixed_queue_enqueue q 1 = Inl Blocks"
    using fixed_queue_enqueue_ok [OF q(2), of 1] q(3) by (simp add: fq_full_def)
  show ?thesis by (rule exI [of _ q]) (intro conjI q pl blocks)
qed

theorem fixed_queue_new_places_witness:
  "\<exists>q. fixed_queue_new 8 (arena_alloc [16]) True True 4294967296 = Some q \<and>
     fixed_queue_capacity q = 4294967296 \<and> fq_places q = 0 \<and> fixed_queue_enqueue q 1 = Inl Blocks"
proof -
  have zero: "unat (4294967296 :: size_t) mod 2 ^ 32 = 0" by simp
  have "alloc_room (arena_alloc [16]) (unat (4294967296 :: size_t) mod 2 ^ 32)"
    unfolding zero by (rule alloc_room_arena) simp_all
  note new = fixed_queue_new_places [of 8, OF _ fresh_arena_alloc this]
  have "(8 :: ptr) \<noteq> NULL" by simp
  from new [OF this] show ?thesis unfolding zero by (elim exE conjE) (intro exI conjI, assumption+, erule mp, rule refl)
qed

end
