(* ===== verification/Steps.thy ===== *)
theory Steps
  imports Main
begin

text \<open>
  Systems of threads as step relations. An invariant that every step keeps holds in every state a
  run reaches; when the invariant also counts the steps, a bound of the count bounds the
  length of every run.
\<close>

locale step_system =
  fixes step :: "'s \<Rightarrow> 's \<Rightarrow> bool" and inv :: "'s \<Rightarrow> bool"
  assumes inv_step: "inv x \<Longrightarrow> step x y \<Longrightarrow> inv y"
begin

lemma steps_inv: "step\<^sup>*\<^sup>* x y \<Longrightarrow> inv x \<Longrightarrow> inv y"
  by (induction rule: rtranclp_induct) (auto intro: inv_step)

text \<open>What an invariant state never does it never does later.\<close>

lemma steps_safe:
  assumes "step\<^sup>*\<^sup>* x y" and "inv x" and "\<And>z. inv z \<Longrightarrow> P z"
  shows "P y"
  using steps_inv assms by blast

end

locale counted_system =
  fixes step :: "'s \<Rightarrow> 's \<Rightarrow> bool" and inv :: "nat \<Rightarrow> 's \<Rightarrow> bool" and limit :: nat
  assumes count_step: "inv n x \<Longrightarrow> step x y \<Longrightarrow> inv (Suc n) y"
    and count_limit: "inv n x \<Longrightarrow> n \<le> limit"
    and count_moves: "inv n x \<Longrightarrow> n < limit \<Longrightarrow> \<exists>y. step x y"
begin

lemma run_count: "(step ^^ n) x y \<Longrightarrow> inv 0 x \<Longrightarrow> inv n y"
proof (induction n arbitrary: y)
  case (Suc n)
  then show ?case by (blast elim: relpowp_Suc_E intro: count_step)
qed simp

text \<open>Every run can be continued up to the limit and not beyond it.\<close>

lemma run_bounded: "(step ^^ n) x y \<Longrightarrow> inv 0 x \<Longrightarrow> n \<le> limit"
  using run_count count_limit by blast

lemma run_exists: "inv 0 x \<Longrightarrow> n \<le> limit \<Longrightarrow> \<exists>y. (step ^^ n) x y"
proof (induction n)
  case (Suc n)
  then obtain y where y: "(step ^^ n) x y" by auto
  moreover obtain z where "step y z" using count_moves [OF run_count [OF y Suc.prems(1)]] Suc.prems(2) by (auto simp: Suc_le_eq)
  ultimately show ?case by (blast intro: relpowp_Suc_I)
qed simp

end

sublocale counted_system \<subseteq> step_system step "\<lambda>x. \<exists>n. inv n x"
  by unfold_locales (blast intro: count_step)

end
