(* ===== verification/QueueThreads.thy ===== *)
theory QueueThreads
  imports FixedQueue Steps
begin

text \<open>
  The fixed queue used by several threads. Every thread has a program counter inside
  \<open>fixed_queue_enqueue\<close>, \<open>fixed_queue_dequeue\<close>, \<open>fixed_queue_try_enqueue\<close> or \<open>fixed_queue_try_dequeue\<close>;
  one step of the relation is one semaphore operation, one mutex operation, the list
  operations of one critical section, or one of the \<open>fcntl\<close> and \<open>read\<close> calls of
  \<open>semaphore_try_wait\<close>. With the blocking operations only, an invariant by rule induction shows
  mutual exclusion, that the list never overflows the capacity, that the assertion in
  \<open>list_front\<close> never fails and that elements leave in the order they entered. With the
  non-blocking operations the assertion can fail, because \<open>semaphore_try_wait\<close> changes the
  blocking mode of the descriptor for all threads.
\<close>

section \<open>Threads\<close>

datatype thread_pc =
    Idle
  | EnqWait ptr | EnqLock ptr | EnqAppend ptr | EnqUnlock | EnqPost
  | DeqWait | DeqLock | DeqTake | DeqUnlock | DeqPost
  | TryEnqGet ptr | TryEnqSet bool ptr | TryEnqRead bool ptr | TryEnqRestore bool bool ptr
  | TryDeqGet | TryDeqSet bool | TryDeqRead bool | TryDeqRestore bool bool
  | Crashed

text \<open>
  The shared queue, the mutex with its owner, the threads, and two records of history: what was
  appended to the list and what was taken from it.
\<close>

record queue_sys =
  queue :: fixed_queue_t
  lock :: "nat option"
  pcs :: "thread_pc list"
  put_log :: "ptr list"
  got_log :: "ptr list"

definition pc_of :: "queue_sys \<Rightarrow> nat \<Rightarrow> thread_pc \<Rightarrow> bool" where
  "pc_of s i p \<longleftrightarrow> i < length (pcs s) \<and> pcs s ! i = p"

definition goto :: "nat \<Rightarrow> thread_pc \<Rightarrow> queue_sys \<Rightarrow> queue_sys" where
  "goto i p s = s\<lparr>pcs := (pcs s)[i := p]\<rparr>"

text \<open>The steps of the blocking operations.\<close>

inductive block_step :: "queue_sys \<Rightarrow> queue_sys \<Rightarrow> bool" where
  start_enq: "pc_of s i Idle \<Longrightarrow> d \<noteq> NULL \<Longrightarrow> block_step s (goto i (EnqWait d) s)"
| enq_wait: "pc_of s i (EnqWait d) \<Longrightarrow> semaphore_wait (enqueue_sem (queue s)) = Inr e \<Longrightarrow>
    block_step s (goto i (EnqLock d) (s\<lparr>queue := (queue s)\<lparr>enqueue_sem := e\<rparr>\<rparr>))"
| enq_lock: "pc_of s i (EnqLock d) \<Longrightarrow> lock s = None \<Longrightarrow>
    block_step s (goto i (EnqAppend d) (s\<lparr>lock := Some i\<rparr>))"
| enq_append: "pc_of s i (EnqAppend d) \<Longrightarrow> list_append (fq_list (queue s)) d = Inr (ok, l) \<Longrightarrow>
    block_step s (goto i EnqUnlock (s\<lparr>queue := (queue s)\<lparr>fq_list := l\<rparr>, put_log := put_log s @ [d]\<rparr>))"
| enq_unlock: "pc_of s i EnqUnlock \<Longrightarrow> block_step s (goto i EnqPost (s\<lparr>lock := None\<rparr>))"
| enq_post: "pc_of s i EnqPost \<Longrightarrow> semaphore_post (dequeue_sem (queue s)) = Inr e \<Longrightarrow>
    block_step s (goto i Idle (s\<lparr>queue := (queue s)\<lparr>dequeue_sem := e\<rparr>\<rparr>))"
| enq_crash: "pc_of s i (EnqAppend d) \<Longrightarrow> list_append (fq_list (queue s)) d = Inl err \<Longrightarrow>
    block_step s (goto i Crashed s)"
| start_deq: "pc_of s i Idle \<Longrightarrow> block_step s (goto i DeqWait s)"
| deq_wait: "pc_of s i DeqWait \<Longrightarrow> semaphore_wait (dequeue_sem (queue s)) = Inr e \<Longrightarrow>
    block_step s (goto i DeqLock (s\<lparr>queue := (queue s)\<lparr>dequeue_sem := e\<rparr>\<rparr>))"
| deq_lock: "pc_of s i DeqLock \<Longrightarrow> lock s = None \<Longrightarrow>
    block_step s (goto i DeqTake (s\<lparr>lock := Some i\<rparr>))"
| deq_take: "pc_of s i DeqTake \<Longrightarrow> list_front (fq_list (queue s)) = Inr r \<Longrightarrow>
    list_remove (fq_list (queue s)) r () = Inr (ok, l, u) \<Longrightarrow>
    block_step s (goto i DeqUnlock (s\<lparr>queue := (queue s)\<lparr>fq_list := l\<rparr>, got_log := got_log s @ [r]\<rparr>))"
| deq_crash: "pc_of s i DeqTake \<Longrightarrow> list_front (fq_list (queue s)) = Inl err \<Longrightarrow>
    block_step s (goto i Crashed s)"
| deq_unlock: "pc_of s i DeqUnlock \<Longrightarrow> block_step s (goto i DeqPost (s\<lparr>lock := None\<rparr>))"
| deq_post: "pc_of s i DeqPost \<Longrightarrow> semaphore_post (enqueue_sem (queue s)) = Inr e \<Longrightarrow>
    block_step s (goto i Idle (s\<lparr>queue := (queue s)\<lparr>enqueue_sem := e\<rparr>\<rparr>))"

text \<open>
  The steps of \<open>semaphore_try_wait\<close> inside the two non-blocking operations: read the flags,
  set \<open>O_NONBLOCK\<close>, read, restore the flags that were read. A read that has to wait is no step.
\<close>

inductive try_step :: "queue_sys \<Rightarrow> queue_sys \<Rightarrow> bool" where
  start_try_enq: "pc_of s i Idle \<Longrightarrow> d \<noteq> NULL \<Longrightarrow> try_step s (goto i (TryEnqGet d) s)"
| try_enq_get: "pc_of s i (TryEnqGet d) \<Longrightarrow>
    try_step s (goto i (TryEnqSet (sem_nonblock (enqueue_sem (queue s))) d) s)"
| try_enq_set: "pc_of s i (TryEnqSet fl d) \<Longrightarrow>
    try_step s (goto i (TryEnqRead fl d)
      (s\<lparr>queue := (queue s)\<lparr>enqueue_sem := (enqueue_sem (queue s))\<lparr>sem_nonblock := True\<rparr>\<rparr>\<rparr>))"
| try_enq_read: "pc_of s i (TryEnqRead fl d) \<Longrightarrow> eventfd_read (enqueue_sem (queue s)) = FdDone e \<Longrightarrow>
    try_step s (goto i (TryEnqRestore fl True d) (s\<lparr>queue := (queue s)\<lparr>enqueue_sem := e\<rparr>\<rparr>))"
| try_enq_again: "pc_of s i (TryEnqRead fl d) \<Longrightarrow> eventfd_read (enqueue_sem (queue s)) = FdAgain \<Longrightarrow>
    try_step s (goto i (TryEnqRestore fl False d) s)"
| try_enq_restore: "pc_of s i (TryEnqRestore fl rc d) \<Longrightarrow>
    try_step s (goto i (if rc then EnqLock d else Idle)
      (s\<lparr>queue := (queue s)\<lparr>enqueue_sem := (enqueue_sem (queue s))\<lparr>sem_nonblock := fl\<rparr>\<rparr>\<rparr>))"
| start_try_deq: "pc_of s i Idle \<Longrightarrow> try_step s (goto i TryDeqGet s)"
| try_deq_get: "pc_of s i TryDeqGet \<Longrightarrow>
    try_step s (goto i (TryDeqSet (sem_nonblock (dequeue_sem (queue s)))) s)"
| try_deq_set: "pc_of s i (TryDeqSet fl) \<Longrightarrow>
    try_step s (goto i (TryDeqRead fl)
      (s\<lparr>queue := (queue s)\<lparr>dequeue_sem := (dequeue_sem (queue s))\<lparr>sem_nonblock := True\<rparr>\<rparr>\<rparr>))"
| try_deq_read: "pc_of s i (TryDeqRead fl) \<Longrightarrow> eventfd_read (dequeue_sem (queue s)) = FdDone e \<Longrightarrow>
    try_step s (goto i (TryDeqRestore fl True) (s\<lparr>queue := (queue s)\<lparr>dequeue_sem := e\<rparr>\<rparr>))"
| try_deq_again: "pc_of s i (TryDeqRead fl) \<Longrightarrow> eventfd_read (dequeue_sem (queue s)) = FdAgain \<Longrightarrow>
    try_step s (goto i (TryDeqRestore fl False) s)"
| try_deq_restore: "pc_of s i (TryDeqRestore fl rc) \<Longrightarrow>
    try_step s (goto i (if rc then DeqLock else Idle)
      (s\<lparr>queue := (queue s)\<lparr>dequeue_sem := (dequeue_sem (queue s))\<lparr>sem_nonblock := fl\<rparr>\<rparr>\<rparr>))"

text \<open>\<open>n\<close> idle threads share a queue.\<close>

definition start_sys :: "fixed_queue_t \<Rightarrow> nat \<Rightarrow> queue_sys" where
  "start_sys q n = \<lparr>queue = q, lock = None, pcs = replicate n Idle, put_log = [], got_log = []\<rparr>"

section \<open>The invariant of the blocking operations\<close>

text \<open>Threads that hold a place which neither the semaphore nor the list counts.\<close>

fun holds_place :: "thread_pc \<Rightarrow> bool" where
  "holds_place (EnqLock _) \<longleftrightarrow> True"
| "holds_place (EnqAppend _) \<longleftrightarrow> True"
| "holds_place DeqUnlock \<longleftrightarrow> True"
| "holds_place DeqPost \<longleftrightarrow> True"
| "holds_place _ \<longleftrightarrow> False"

text \<open>Threads that account for an element of the list which the semaphore does not count.\<close>

fun holds_item :: "thread_pc \<Rightarrow> bool" where
  "holds_item EnqUnlock \<longleftrightarrow> True"
| "holds_item EnqPost \<longleftrightarrow> True"
| "holds_item DeqLock \<longleftrightarrow> True"
| "holds_item DeqTake \<longleftrightarrow> True"
| "holds_item _ \<longleftrightarrow> False"

fun in_section :: "thread_pc \<Rightarrow> bool" where
  "in_section (EnqAppend _) \<longleftrightarrow> True"
| "in_section EnqUnlock \<longleftrightarrow> True"
| "in_section DeqTake \<longleftrightarrow> True"
| "in_section DeqUnlock \<longleftrightarrow> True"
| "in_section _ \<longleftrightarrow> False"

text \<open>Program counters of the blocking operations, with proper arguments.\<close>

fun pc_good :: "thread_pc \<Rightarrow> bool" where
  "pc_good (EnqWait d) \<longleftrightarrow> d \<noteq> NULL"
| "pc_good (EnqLock d) \<longleftrightarrow> d \<noteq> NULL"
| "pc_good (EnqAppend d) \<longleftrightarrow> d \<noteq> NULL"
| "pc_good p \<longleftrightarrow> p \<in> {Idle, EnqUnlock, EnqPost, DeqWait, DeqLock, DeqTake, DeqUnlock, DeqPost}"

abbreviation count_pc :: "(thread_pc \<Rightarrow> bool) \<Rightarrow> queue_sys \<Rightarrow> nat" where
  "count_pc P s \<equiv> length (filter P (pcs s))"

definition queue_part_inv :: "nat \<Rightarrow> nat \<Rightarrow> fixed_queue_t \<Rightarrow> bool" where
  "queue_part_inv places_held items_held q \<longleftrightarrow>
     list_inv (fq_list q) \<and> free_cb (fq_list q) = None \<and>
     alloc_room (list_allocator (fq_list q)) (fq_places q) \<and>
     \<not> sem_nonblock (enqueue_sem q) \<and> \<not> sem_nonblock (dequeue_sem q) \<and>
     unat (sem_count (enqueue_sem q)) + length (fq_content q) + places_held = fq_places q \<and>
     unat (sem_count (dequeue_sem q)) + items_held = length (fq_content q)"

definition sys_inv :: "queue_sys \<Rightarrow> bool" where
  "sys_inv s \<longleftrightarrow>
     queue_part_inv (count_pc holds_place s) (count_pc holds_item s) (queue s) \<and>
     (\<forall>i < length (pcs s). in_section (pcs s ! i) \<longleftrightarrow> lock s = Some i) \<and>
     (\<forall>i. lock s = Some i \<longrightarrow> i < length (pcs s)) \<and>
     (\<forall>p \<in> set (pcs s). pc_good p) \<and>
     put_log s = got_log s @ fq_content (queue s)"

lemma count_update:
  assumes "i < length xs"
  shows "length (filter P (xs[i := y])) + (if P (xs ! i) then 1 else 0) =
    length (filter P xs) + (if P y then 1 else 0)"
  using assms
proof (induction xs arbitrary: i)
  case (Cons x xs)
  then show ?case using Cons.IH [of "i - 1"] by (cases i) simp_all
qed simp

text \<open>
  Moving one thread keeps the invariant when the queue keeps its part for the new counts, the
  lock agrees with the thread's new place, and the histories agree with the list.
\<close>

lemma sys_inv_goto:
  assumes inv: "sys_inv s" and at: "pc_of s i p"
    and same: "pcs s' = pcs s"
    and queue: "\<And>a b. a + (if holds_place p then 1 else 0) = count_pc holds_place s + (if holds_place p' then 1 else 0) \<Longrightarrow>
      b + (if holds_item p then 1 else 0) = count_pc holds_item s + (if holds_item p' then 1 else 0) \<Longrightarrow>
      queue_part_inv a b (queue s')"
    and lock: "lock s' = (if in_section p' then Some i else if in_section p then None else lock s)"
    and enter: "in_section p' \<Longrightarrow> \<not> in_section p \<Longrightarrow> lock s = None"
    and good: "pc_good p'"
    and log: "put_log s' = got_log s' @ fq_content (queue s')"
  shows "sys_inv (goto i p' s')"
proof -
  have i: "i < length (pcs s)" and p: "pcs s ! i = p" using at by (simp_all add: pc_of_def)
  have "queue_part_inv (count_pc holds_place (goto i p' s')) (count_pc holds_item (goto i p' s')) (queue s')"
    using queue count_update [OF i, of holds_place p'] count_update [OF i, of holds_item p'] p same
    by (simp add: goto_def)
  moreover have "in_section ((pcs s)[i := p'] ! j) \<longleftrightarrow> lock s' = Some j" if j: "j < length (pcs s)" for j
  proof (cases "j = i")
    case True
    then show ?thesis using i lock p inv by (auto simp: sys_inv_def)
  next
    case False
    have old: "in_section (pcs s ! j) \<longleftrightarrow> lock s = Some j" "in_section p \<longleftrightarrow> lock s = Some i"
      using inv j i p by (auto simp: sys_inv_def)
    show ?thesis using False lock enter old by auto
  qed
  moreover have "lock s' = Some j \<Longrightarrow> j < length (pcs s)" for j
    using inv lock i by (auto simp: sys_inv_def split: if_splits)
  moreover have "\<forall>q \<in> set ((pcs s)[i := p']). pc_good q"
    using inv good set_update_subset_insert [of "pcs s" i p'] by (auto simp: sys_inv_def)
  ultimately show ?thesis using log same by (simp add: sys_inv_def goto_def)
qed

lemma start_sys_inv: "fq_inv q \<Longrightarrow> fq_content q = [] \<Longrightarrow> sys_inv (start_sys q n)"
  by (auto simp: sys_inv_def start_sys_def fq_inv_def queue_part_inv_def)

text \<open>The semaphore and list operations on the queue's part of the invariant.\<close>

lemma queue_part_wait_enq:
  assumes "queue_part_inv a b q" and "semaphore_wait (enqueue_sem q) = Inr e"
  shows "queue_part_inv (Suc a) b (q\<lparr>enqueue_sem := e\<rparr>)"
proof -
  have nz: "sem_count (enqueue_sem q) \<noteq> 0" using assms by (auto simp: queue_part_inv_def)
  then have "unat (sem_count (enqueue_sem q) - 1) + 1 = unat (sem_count (enqueue_sem q))"
    by (simp add: sem_count_dec unat_gt_0)
  with assms nz show ?thesis by (auto simp: queue_part_inv_def fq_content_def fq_places_def)
qed

lemma queue_part_wait_deq:
  assumes "queue_part_inv a b q" and "semaphore_wait (dequeue_sem q) = Inr e"
  shows "queue_part_inv a (Suc b) (q\<lparr>dequeue_sem := e\<rparr>)"
proof -
  have nz: "sem_count (dequeue_sem q) \<noteq> 0" using assms by (auto simp: queue_part_inv_def)
  then have "unat (sem_count (dequeue_sem q) - 1) + 1 = unat (sem_count (dequeue_sem q))"
    by (simp add: sem_count_dec unat_gt_0)
  with assms nz show ?thesis by (auto simp: queue_part_inv_def fq_content_def fq_places_def)
qed

lemma queue_part_counts:
  assumes "queue_part_inv a b q"
  shows "unat (sem_count (enqueue_sem q)) < 4294967296" "unat (sem_count (dequeue_sem q)) < 4294967296"
  using assms fq_places_less [of q] by (auto simp: queue_part_inv_def)

lemma queue_part_post_enq:
  assumes "queue_part_inv (Suc a) b q" and "semaphore_post (enqueue_sem q) = Inr e"
  shows "queue_part_inv a b (q\<lparr>enqueue_sem := e\<rparr>)"
proof -
  note small = queue_part_counts(1) [OF assms(1)]
  then have "semaphore_post (enqueue_sem q) = Inr ((enqueue_sem q)\<lparr>sem_count := sem_count (enqueue_sem q) + 1\<rparr>)"
    by (intro semaphore_post_room count_less_room) simp
  with assms sem_count_inc [OF small] show ?thesis
    by (auto simp: queue_part_inv_def fq_content_def fq_places_def)
qed

lemma queue_part_post_deq:
  assumes "queue_part_inv a (Suc b) q" and "semaphore_post (dequeue_sem q) = Inr e"
  shows "queue_part_inv a b (q\<lparr>dequeue_sem := e\<rparr>)"
proof -
  note small = queue_part_counts(2) [OF assms(1)]
  then have "semaphore_post (dequeue_sem q) = Inr ((dequeue_sem q)\<lparr>sem_count := sem_count (dequeue_sem q) + 1\<rparr>)"
    by (intro semaphore_post_room count_less_room) simp
  with assms sem_count_inc [OF small] show ?thesis
    by (auto simp: queue_part_inv_def fq_content_def fq_places_def)
qed

lemma queue_part_append:
  assumes inv: "queue_part_inv (Suc a) b q" and d: "d \<noteq> NULL"
  shows "\<exists>l. list_append (fq_list q) d = Inr (True, l) \<and> queue_part_inv a (Suc b) (q\<lparr>fq_list := l\<rparr>) \<and>
    fq_content (q\<lparr>fq_list := l\<rparr>) = fq_content q @ [d]"
proof -
  have li: "list_inv (fq_list q)" using inv by (simp add: queue_part_inv_def)
  have "length (live (nodes (fq_list q))) \<le> fq_places q"
    using inv fq_list_nodes [OF li] by (simp add: queue_part_inv_def fq_content_def)
  then have "list_room (fq_list q)" using inv by (simp add: list_room_def queue_part_inv_def alloc_room_def)
  from list_append_ok [OF li d this] inv show ?thesis
    by (auto simp: queue_part_inv_def fq_content_def fq_places_def list_same_cfg_def)
qed

lemma queue_part_take:
  assumes inv: "queue_part_inv a (Suc b) q"
  shows "\<exists>r l. list_front (fq_list q) = Inr r \<and> list_remove (fq_list q) r () = Inr (True, l, ()) \<and>
    queue_part_inv (Suc a) b (q\<lparr>fq_list := l\<rparr>) \<and> fq_content q = r # fq_content (q\<lparr>fq_list := l\<rparr>)"
proof -
  have li: "list_inv (fq_list q)" and cb: "free_cb (fq_list q) = None" using inv by (simp_all add: queue_part_inv_def)
  obtain r xs where c: "list_elems (fq_list q) = r # xs"
    using inv by (cases "list_elems (fq_list q)") (auto simp: queue_part_inv_def fq_content_def)
  then obtain l where l: "list_remove (fq_list q) r () = Inr (True, l, ())" "list_inv l" "list_elems l = xs"
      "list_same_cfg (fq_list q) l"
    using list_remove_ok [OF li, of r "()"] by (auto simp: run_free_cb_none [OF cb])
  then have "queue_part_inv (Suc a) b (q\<lparr>fq_list := l\<rparr>)"
    using inv c by (simp add: queue_part_inv_def fq_content_def fq_places_def list_same_cfg_def)
  then show ?thesis using list_front_ok [OF li c] l c by (auto simp: fq_content_def)
qed

section \<open>Every blocking step keeps the invariant\<close>

lemma sys_inv_queue: "sys_inv s \<Longrightarrow> queue_part_inv (count_pc holds_place s) (count_pc holds_item s) (queue s)"
  by (simp add: sys_inv_def)

lemma sys_inv_log: "sys_inv s \<Longrightarrow> put_log s = got_log s @ fq_content (queue s)"
  by (simp add: sys_inv_def)

lemma sys_inv_pc: "sys_inv s \<Longrightarrow> pc_of s i p \<Longrightarrow> pc_good p"
  by (auto simp: sys_inv_def pc_of_def)

lemma sys_inv_lock: "sys_inv s \<Longrightarrow> pc_of s i p \<Longrightarrow> in_section p \<longleftrightarrow> lock s = Some i"
  by (auto simp: sys_inv_def pc_of_def)

lemma count_pc_pos: "pc_of s i p \<Longrightarrow> P p \<Longrightarrow> \<exists>n. count_pc P s = Suc n"
  by (metis (no_types, lifting) Suc_pred filter_empty_conv length_greater_0_conv nth_mem pc_of_def)

lemma part_take_pc:
  "sys_inv s \<Longrightarrow> pc_of s i DeqTake \<Longrightarrow> \<exists>b. count_pc holds_item s = Suc b \<and>
     queue_part_inv (count_pc holds_place s) (Suc b) (queue s)"
  using sys_inv_queue count_pc_pos [of s i DeqTake holds_item] by fastforce

lemma part_append_pc:
  "sys_inv s \<Longrightarrow> pc_of s i (EnqAppend d) \<Longrightarrow> \<exists>a. count_pc holds_place s = Suc a \<and>
     queue_part_inv (Suc a) (count_pc holds_item s) (queue s)"
  using sys_inv_queue count_pc_pos [of s i "EnqAppend d" holds_place] by fastforce

text \<open>The two critical sections, with the crash steps ruled out.\<close>

lemma step_append_inv:
  assumes inv: "sys_inv s" and at: "pc_of s i (EnqAppend d)" and app: "list_append (fq_list (queue s)) d = r"
  shows "\<exists>l. r = Inr (True, l) \<and>
    sys_inv (goto i EnqUnlock (s\<lparr>queue := (queue s)\<lparr>fq_list := l\<rparr>, put_log := put_log s @ [d]\<rparr>))"
proof -
  have d: "d \<noteq> NULL" using sys_inv_pc [OF inv at] by simp
  obtain a where a: "count_pc holds_place s = Suc a" "queue_part_inv (Suc a) (count_pc holds_item s) (queue s)"
    using part_append_pc [OF inv at] by blast
  from queue_part_append [OF a(2) d] app obtain l where l: "r = Inr (True, l)"
    "queue_part_inv a (Suc (count_pc holds_item s)) ((queue s)\<lparr>fq_list := l\<rparr>)"
    "fq_content ((queue s)\<lparr>fq_list := l\<rparr>) = fq_content (queue s) @ [d]" by auto
  have "sys_inv (goto i EnqUnlock (s\<lparr>queue := (queue s)\<lparr>fq_list := l\<rparr>, put_log := put_log s @ [d]\<rparr>))"
    by (rule sys_inv_goto [OF inv at]) (use l a(1) sys_inv_lock [OF inv at] sys_inv_log [OF inv] in simp_all)
  with l show ?thesis by blast
qed

lemma step_take_inv:
  assumes inv: "sys_inv s" and at: "pc_of s i DeqTake"
  shows "\<exists>r l. list_front (fq_list (queue s)) = Inr r \<and> list_remove (fq_list (queue s)) r () = Inr (True, l, ()) \<and>
    sys_inv (goto i DeqUnlock (s\<lparr>queue := (queue s)\<lparr>fq_list := l\<rparr>, got_log := got_log s @ [r]\<rparr>))"
proof -
  obtain b where b: "count_pc holds_item s = Suc b" "queue_part_inv (count_pc holds_place s) (Suc b) (queue s)"
    using part_take_pc [OF inv at] by blast
  from queue_part_take [OF b(2)] obtain r l where l: "list_front (fq_list (queue s)) = Inr r"
    "list_remove (fq_list (queue s)) r () = Inr (True, l, ())"
    "queue_part_inv (Suc (count_pc holds_place s)) b ((queue s)\<lparr>fq_list := l\<rparr>)"
    "fq_content (queue s) = r # fq_content ((queue s)\<lparr>fq_list := l\<rparr>)" by blast
  have "sys_inv (goto i DeqUnlock (s\<lparr>queue := (queue s)\<lparr>fq_list := l\<rparr>, got_log := got_log s @ [r]\<rparr>))"
    by (rule sys_inv_goto [OF inv at]) (use l b(1) sys_inv_lock [OF inv at] sys_inv_log [OF inv] in simp_all)
  with l show ?thesis by blast
qed

lemma block_step_inv:
  assumes "block_step s s'" and "sys_inv s"
  shows "sys_inv s'"
  using assms
proof (induction rule: block_step.induct)
  case (start_enq s i d)
  show ?case
    by (rule sys_inv_goto [OF start_enq(3,1)])
       (use start_enq sys_inv_queue sys_inv_log in simp_all)
next
  case (enq_wait s i d e)
  show ?case
    by (rule sys_inv_goto [OF enq_wait(3,1)])
       (use enq_wait queue_part_wait_enq [OF sys_inv_queue] sys_inv_log sys_inv_pc [OF enq_wait(3,1)] in \<open>simp_all add: fq_content_def\<close>)
next
  case (enq_lock s i d)
  show ?case
    by (rule sys_inv_goto [OF enq_lock(3,1)])
       (use enq_lock sys_inv_queue sys_inv_log sys_inv_pc [OF enq_lock(3,1)] in simp_all)
next
  case (enq_append s i d ok l)
  then show ?case using step_append_inv [OF enq_append(3,1,2)] by auto
next
  case (enq_unlock s i)
  show ?case
    by (rule sys_inv_goto [OF enq_unlock(2,1)]) (use enq_unlock sys_inv_queue sys_inv_log in simp_all)
next
  case (enq_post s i e)
  obtain b where b: "count_pc holds_item s = Suc b" using count_pc_pos [OF enq_post(1), of holds_item] by auto
  show ?case
    by (rule sys_inv_goto [OF enq_post(3,1)])
       (use enq_post queue_part_post_deq [OF sys_inv_queue [OF enq_post(3), unfolded b]] sys_inv_log b in \<open>simp_all add: fq_content_def\<close>)
next
  case (enq_crash s i d err)
  then show ?case using step_append_inv [OF enq_crash(3,1,2)] by simp
next
  case (start_deq s i)
  show ?case
    by (rule sys_inv_goto [OF start_deq(2,1)]) (use start_deq sys_inv_queue sys_inv_log in simp_all)
next
  case (deq_wait s i e)
  show ?case
    by (rule sys_inv_goto [OF deq_wait(3,1)])
       (use deq_wait queue_part_wait_deq [OF sys_inv_queue] sys_inv_log in \<open>simp_all add: fq_content_def\<close>)
next
  case (deq_lock s i)
  show ?case
    by (rule sys_inv_goto [OF deq_lock(3,1)]) (use deq_lock sys_inv_queue sys_inv_log in simp_all)
next
  case (deq_take s i r ok l u)
  then show ?case using step_take_inv [OF deq_take(4,1)] by auto
next
  case (deq_crash s i err)
  then show ?case using step_take_inv [OF deq_crash(3,1)] by simp
next
  case (deq_unlock s i)
  show ?case
    by (rule sys_inv_goto [OF deq_unlock(2,1)]) (use deq_unlock sys_inv_queue sys_inv_log in simp_all)
next
  case (deq_post s i e)
  obtain a where a: "count_pc holds_place s = Suc a" using count_pc_pos [OF deq_post(1), of holds_place] by auto
  show ?case
    by (rule sys_inv_goto [OF deq_post(3,1)])
       (use deq_post queue_part_post_enq [OF sys_inv_queue [OF deq_post(3), unfolded a]] sys_inv_log a in \<open>simp_all add: fq_content_def\<close>)
qed

interpretation bs: step_system block_step sys_inv
  by unfold_locales (rule block_step_inv)

lemma block_step_threads: "block_step s s' \<Longrightarrow> length (pcs s') = length (pcs s) \<and> fq_capacity (queue s') = fq_capacity (queue s)"
  by (induction rule: block_step.induct) (simp_all add: goto_def)

lemma block_steps_threads:
  "block_step\<^sup>*\<^sup>* s s' \<Longrightarrow> length (pcs s') = length (pcs s) \<and> fq_capacity (queue s') = fq_capacity (queue s)"
  by (induction rule: rtranclp_induct) (auto dest: block_step_threads)

section \<open>Progress\<close>

text \<open>A thread can take a step of its own.\<close>

definition can_move :: "queue_sys \<Rightarrow> nat \<Rightarrow> bool" where
  "can_move s i \<longleftrightarrow> i < length (pcs s) \<and> (\<exists>s' p. block_step s s' \<and> p \<noteq> pcs s ! i \<and> pcs s' = (pcs s)[i := p])"

lemma can_moveI: "block_step s (goto i p s') \<Longrightarrow> pcs s' = pcs s \<Longrightarrow> pc_of s i p0 \<Longrightarrow> p \<noteq> p0 \<Longrightarrow> can_move s i"
  unfolding can_move_def pc_of_def by (auto intro!: exI [of _ "goto i p s'"] exI [of _ p] simp: goto_def)

lemma section_can_move:
  assumes inv: "sys_inv s" and at: "pc_of s i p" and sec: "in_section p"
  shows "can_move s i"
  using sec
proof (cases p rule: in_section.cases)
  case (1 d)
  with step_append_inv [OF inv at [unfolded 1] refl] obtain l where
    "list_append (fq_list (queue s)) d = Inr (True, l)" by blast
  from block_step.enq_append [OF at [unfolded 1] this] at 1 show ?thesis by (auto intro: can_moveI)
next
  case 2
  from block_step.enq_unlock [OF at [unfolded 2]] at 2 show ?thesis by (auto intro: can_moveI)
next
  case 3
  with step_take_inv [OF inv at [unfolded 3]] obtain r l where
    "list_front (fq_list (queue s)) = Inr r" "list_remove (fq_list (queue s)) r () = Inr (True, l, ())" by blast
  from block_step.deq_take [OF at [unfolded 3] this] at 3 show ?thesis by (auto intro: can_moveI)
next
  case 4
  from block_step.deq_unlock [OF at [unfolded 4]] at 4 show ?thesis by (auto intro: can_moveI)
qed simp_all

lemma lock_can_move:
  assumes at: "pc_of s i p" and p: "p = DeqLock \<or> (\<exists>d. p = EnqLock d)" and free: "lock s = None"
  shows "can_move s i"
  using p
proof (elim disjE exE)
  assume "p = DeqLock"
  with block_step.deq_lock [of s i] at free show ?thesis by (auto intro: can_moveI)
next
  fix d assume "p = EnqLock d"
  with block_step.enq_lock [of s i d] at free show ?thesis by (auto intro: can_moveI)
qed

lemma post_can_move:
  assumes inv: "sys_inv s" and at: "pc_of s i p" and p: "p = EnqPost \<or> p = DeqPost"
  shows "can_move s i"
proof -
  note small = queue_part_counts [OF sys_inv_queue [OF inv]]
  have post: "\<exists>e. semaphore_post (enqueue_sem (queue s)) = Inr e" "\<exists>e. semaphore_post (dequeue_sem (queue s)) = Inr e"
    using small semaphore_post_room [OF count_less_room, of "enqueue_sem (queue s)"]
      semaphore_post_room [OF count_less_room, of "dequeue_sem (queue s)"] by auto
  from p show ?thesis
  proof
    assume "p = EnqPost"
    with block_step.enq_post [of s i] at post(2) show ?thesis by (auto intro: can_moveI)
  next
    assume "p = DeqPost"
    with block_step.deq_post [of s i] at post(1) show ?thesis by (auto intro: can_moveI)
  qed
qed

lemma wait_can_move:
  assumes at: "pc_of s i p"
    and p: "(\<exists>d. p = EnqWait d) \<and> sem_count (enqueue_sem (queue s)) \<noteq> 0 \<or>
      p = DeqWait \<and> sem_count (dequeue_sem (queue s)) \<noteq> 0"
  shows "can_move s i"
  using p
proof (elim disjE conjE exE)
  fix d assume "p = EnqWait d" "sem_count (enqueue_sem (queue s)) \<noteq> 0"
  with block_step.enq_wait [of s i d] at show ?thesis by (auto intro: can_moveI)
next
  assume "p = DeqWait" "sem_count (dequeue_sem (queue s)) \<noteq> 0"
  with block_step.deq_wait [of s i] at show ?thesis by (auto intro: can_moveI)
qed

definition waiting :: "thread_pc \<Rightarrow> bool" where
  "waiting p \<longleftrightarrow> p = Idle \<or> (\<exists>d. p = EnqWait d) \<or> p = DeqWait"

lemma not_waiting_moves:
  assumes inv: "sys_inv s" and at: "pc_of s i p" and p: "\<not> waiting p"
  shows "\<exists>j. can_move s j"
proof (cases "lock s")
  case (Some j)
  then have "pc_of s j (pcs s ! j)" "in_section (pcs s ! j)" using inv by (auto simp: sys_inv_def pc_of_def)
  then show ?thesis using section_can_move [OF inv] by blast
next
  case None
  then have "\<not> in_section p" using sys_inv_lock [OF inv at] by simp
  with p sys_inv_pc [OF inv at] have "p = DeqLock \<or> (\<exists>d. p = EnqLock d) \<or> p = EnqPost \<or> p = DeqPost"
    by (cases p) (auto simp: waiting_def)
  then show ?thesis using lock_can_move [OF at _ None] post_can_move [OF inv at] by blast
qed

text \<open>With every thread waiting or idle, the semaphores show the length of the list exactly.\<close>

lemma all_waiting_counts:
  assumes inv: "sys_inv s" and w: "\<forall>p \<in> set (pcs s). waiting p"
  shows "sem_count (enqueue_sem (queue s)) = 0 \<longleftrightarrow> length (fq_content (queue s)) = fq_places (queue s)"
    "sem_count (dequeue_sem (queue s)) = 0 \<longleftrightarrow> fq_content (queue s) = []"
proof -
  have "count_pc holds_place s = 0" "count_pc holds_item s = 0"
    using w by (force simp: filter_empty_conv waiting_def)+
  then have "unat (sem_count (enqueue_sem (queue s))) + length (fq_content (queue s)) = fq_places (queue s)"
    "unat (sem_count (dequeue_sem (queue s))) = length (fq_content (queue s))"
    using sys_inv_queue [OF inv] by (simp_all add: queue_part_inv_def)
  moreover have "c = 0 \<longleftrightarrow> unat c = 0" for c :: uint64_t by (simp add: unat_eq_zero)
  ultimately show "sem_count (enqueue_sem (queue s)) = 0 \<longleftrightarrow> length (fq_content (queue s)) = fq_places (queue s)"
    "sem_count (dequeue_sem (queue s)) = 0 \<longleftrightarrow> fq_content (queue s) = []"
    by (metis add_cancel_right_left length_0_conv)+
qed

lemma stuck_cases:
  assumes inv: "sys_inv s" and stuck: "\<And>j. \<not> can_move s j"
  shows "\<forall>p \<in> set (pcs s). waiting p"
    "\<exists>d. EnqWait d \<in> set (pcs s) \<Longrightarrow> length (fq_content (queue s)) = fq_places (queue s)"
    "DeqWait \<in> set (pcs s) \<Longrightarrow> fq_content (queue s) = []"
proof -
  have at: "\<exists>i. pc_of s i p" if "p \<in> set (pcs s)" for p
    using that by (auto simp: in_set_conv_nth pc_of_def)
  show w: "\<forall>p \<in> set (pcs s). waiting p" using at not_waiting_moves [OF inv] stuck by blast
  show "length (fq_content (queue s)) = fq_places (queue s)" if "\<exists>d. EnqWait d \<in> set (pcs s)"
    using that at wait_can_move stuck all_waiting_counts(1) [OF inv w] by blast
  show "fq_content (queue s) = []" if "DeqWait \<in> set (pcs s)"
    using that at wait_can_move stuck all_waiting_counts(2) [OF inv w] by blast
qed

section \<open>Properties\<close>

text \<open>
  C1. Safety of the blocking queue under every interleaving: any number of threads calling
  \<open>fixed_queue_enqueue\<close> and \<open>fixed_queue_dequeue\<close> on a queue that starts empty never put more
  elements into the list than the queue has places, never fail the assertion in \<open>list_front\<close>,
  are never two at a time inside the mutex, and take elements out in the order in which they
  were put in.
\<close>

theorem queue_threads_safe:
  assumes "fq_inv q" and "fq_content q = []" and "block_step\<^sup>*\<^sup>* (start_sys q n) s"
  shows "length (fq_content (queue s)) \<le> fq_places q \<and> Crashed \<notin> set (pcs s) \<and>
    (\<forall>i < length (pcs s). \<forall>j < length (pcs s). in_section (pcs s ! i) \<and> in_section (pcs s ! j) \<longrightarrow> i = j) \<and>
    put_log s = got_log s @ fq_content (queue s)"
proof -
  have inv: "sys_inv s" using bs.steps_inv [OF assms(3) start_sys_inv [OF assms(1,2)]] .
  have "fq_capacity (queue s) = fq_capacity q"
    using block_steps_threads [OF assms(3)] by (simp add: start_sys_def)
  then have "fq_places (queue s) = fq_places q" by (simp add: fq_places_def)
  then have "length (fq_content (queue s)) \<le> fq_places q"
    using sys_inv_queue [OF inv] by (simp add: queue_part_inv_def)
  moreover have "\<not> pc_good Crashed" by simp
  then have "Crashed \<notin> set (pcs s)" using inv unfolding sys_inv_def by blast
  moreover have "\<forall>i < length (pcs s). \<forall>j < length (pcs s). in_section (pcs s ! i) \<and> in_section (pcs s ! j) \<longrightarrow> i = j"
    using inv by (auto simp: sys_inv_def)
  ultimately show ?thesis using sys_inv_log [OF inv] by blast
qed

theorem queue_threads_safe_witness:
  "fq_inv demo_queue \<and> (\<exists>s. block_step\<^sup>*\<^sup>* (start_sys demo_queue 2) s \<and> pcs s ! 0 = DeqWait \<and>
     Crashed \<notin> set (pcs s) \<and> put_log s = got_log s @ fq_content (queue s))"
proof -
  have "pc_of (start_sys demo_queue 2) 0 Idle" by (simp add: pc_of_def start_sys_def)
  then have "block_step\<^sup>*\<^sup>* (start_sys demo_queue 2) (goto 0 DeqWait (start_sys demo_queue 2))"
    by (intro r_into_rtranclp block_step.start_deq)
  from queue_threads_safe [OF demo_queue_facts(1,2) this] this show ?thesis
    using demo_queue_facts(1) by (auto simp: goto_def start_sys_def)
qed

text \<open>
  C24. No lost wake-up: in every state the blocking threads reach, if no thread can take a step
  of its own, then every thread is idle or waiting at a semaphore, a thread waits to enqueue
  only when the queue is full, and a thread waits to dequeue only when it is empty; so a
  producer and a consumer are never stuck together on a queue with places.
\<close>

theorem queue_threads_progress:
  assumes "fq_inv q" and "fq_content q = []" and "block_step\<^sup>*\<^sup>* (start_sys q n) s"
    and "\<forall>i. \<not> can_move s i"
  shows "(\<forall>p \<in> set (pcs s). waiting p) \<and>
    ((\<exists>d. EnqWait d \<in> set (pcs s)) \<longrightarrow> length (fq_content (queue s)) = fq_places q) \<and>
    (DeqWait \<in> set (pcs s) \<longrightarrow> fq_content (queue s) = []) \<and>
    (0 < fq_places q \<longrightarrow> \<not> ((\<exists>d. EnqWait d \<in> set (pcs s)) \<and> DeqWait \<in> set (pcs s)))"
proof -
  have inv: "sys_inv s" using bs.steps_inv [OF assms(3) start_sys_inv [OF assms(1,2)]] .
  have "fq_places (queue s) = fq_places q"
    using block_steps_threads [OF assms(3)] by (simp add: start_sys_def fq_places_def)
  with stuck_cases [OF inv] assms(4) show ?thesis by fastforce
qed

text \<open>A single consumer on the empty queue waits, rightly.\<close>

lemma demo_consumer_waits: "\<not> can_move (goto 0 DeqWait (start_sys demo_queue 1)) i"
proof -
  let ?s = "goto 0 DeqWait (start_sys demo_queue 1)"
  have blocked: "semaphore_wait (dequeue_sem demo_queue) = Inl Blocks"
    using fq_inv_zero_iff(2) [OF demo_queue_facts(1)] demo_queue_facts by (simp add: fq_inv_def)
  have "pc_of ?s j p \<longleftrightarrow> j = 0 \<and> p = DeqWait" for j p
    by (auto simp: pc_of_def goto_def start_sys_def)
  moreover have "queue ?s = demo_queue" by (simp add: goto_def start_sys_def)
  ultimately have "\<not> block_step ?s s'" for s'
    using blocked by (auto elim!: block_step.cases)
  then show ?thesis by (simp add: can_move_def)
qed

theorem queue_threads_progress_witness:
  "(\<forall>i. \<not> can_move (goto 0 DeqWait (start_sys demo_queue 1)) i) \<and>
   fq_content (queue (goto 0 DeqWait (start_sys demo_queue 1))) = []"
proof -
  have "pc_of (start_sys demo_queue 1) 0 Idle" by (simp add: pc_of_def start_sys_def)
  then have "block_step\<^sup>*\<^sup>* (start_sys demo_queue 1) (goto 0 DeqWait (start_sys demo_queue 1))"
    by (intro r_into_rtranclp block_step.start_deq)
  from queue_threads_progress [OF demo_queue_facts(1,2) this] demo_consumer_waits show ?thesis
    by (simp add: goto_def start_sys_def)
qed

text \<open>
  C37. The non-blocking operations break this: \<open>semaphore_try_wait\<close> sets \<open>O_NONBLOCK\<close> on the descriptor
  that all threads share, so a thread that reaches \<open>semaphore_wait\<close> in between does not wait, goes on
  without having taken anything, and fails the assertion in \<open>list_front\<close>. From an empty queue,
  one thread in \<open>fixed_queue_try_dequeue\<close> and one in \<open>fixed_queue_dequeue\<close> are enough.
\<close>

theorem queue_try_wait_race:
  assumes "fq_inv q" and "fq_content q = []" and "2 \<le> n"
  shows "\<exists>s. (sup block_step try_step)\<^sup>*\<^sup>* (start_sys q n) s \<and> Crashed \<in> set (pcs s)"
proof -
  define rest where "rest = replicate (n - 2) Idle"
  have two: "replicate n Idle = Idle # Idle # rest"
    using assms(3) by (metis rest_def replicate_Suc Suc_diff_le add_2_eq_Suc' diff_Suc_Suc diff_add_inverse2 le_add_diff_inverse2)
  define nb where "nb = q\<lparr>dequeue_sem := (dequeue_sem q)\<lparr>sem_nonblock := True\<rparr>\<rparr>"
  let ?sys = "\<lambda>q l a b. \<lparr>queue = q, lock = l, pcs = a # b # rest, put_log = [], got_log = []\<rparr> :: queue_sys"
  have flag: "sem_nonblock (dequeue_sem q) = False" "sem_count (dequeue_sem q) = 0"
    using assms fq_inv_zero_iff(2) [OF assms(1)] by (simp_all add: fq_inv_def)
  have front: "list_front (fq_list nb) = Inl AssertFailed"
    using assms list_front_empty [of "fq_list q"] by (simp add: nb_def fq_inv_def fq_content_def)
  have wait: "semaphore_wait (dequeue_sem nb) = Inr (dequeue_sem nb)"
    using flag by (simp add: nb_def)
  have "try_step (?sys q None Idle Idle) (?sys q None TryDeqGet Idle)"
    using try_step.start_try_deq [of "?sys q None Idle Idle" 0] by (simp add: pc_of_def goto_def)
  moreover have "try_step (?sys q None TryDeqGet Idle) (?sys q None (TryDeqSet False) Idle)"
    using try_step.try_deq_get [of "?sys q None TryDeqGet Idle" 0] flag by (simp add: pc_of_def goto_def)
  moreover have "try_step (?sys q None (TryDeqSet False) Idle) (?sys nb None (TryDeqRead False) Idle)"
    using try_step.try_deq_set [of "?sys q None (TryDeqSet False) Idle" 0 False] by (simp add: pc_of_def goto_def nb_def)
  moreover have "block_step (?sys nb None (TryDeqRead False) Idle) (?sys nb None (TryDeqRead False) DeqWait)"
    using block_step.start_deq [of "?sys nb None (TryDeqRead False) Idle" 1] by (simp add: pc_of_def goto_def)
  moreover have "block_step (?sys nb None (TryDeqRead False) DeqWait) (?sys nb None (TryDeqRead False) DeqLock)"
    using block_step.deq_wait [of "?sys nb None (TryDeqRead False) DeqWait" 1 "dequeue_sem nb"] wait
    by (simp add: pc_of_def goto_def)
  moreover have "block_step (?sys nb None (TryDeqRead False) DeqLock) (?sys nb (Some 1) (TryDeqRead False) DeqTake)"
    using block_step.deq_lock [of "?sys nb None (TryDeqRead False) DeqLock" 1] by (simp add: pc_of_def goto_def)
  moreover have "block_step (?sys nb (Some 1) (TryDeqRead False) DeqTake) (?sys nb (Some 1) (TryDeqRead False) Crashed)"
    using block_step.deq_crash [of "?sys nb (Some 1) (TryDeqRead False) DeqTake" 1] front by (simp add: pc_of_def goto_def)
  ultimately have "(sup block_step try_step)\<^sup>*\<^sup>* (?sys q None Idle Idle) (?sys nb (Some 1) (TryDeqRead False) Crashed)"
    by (meson converse_rtranclp_into_rtranclp r_into_rtranclp sup2I1 sup2I2)
  then show ?thesis unfolding start_sys_def two
    by (intro exI [of _ "?sys nb (Some 1) (TryDeqRead False) Crashed"]) simp
qed

theorem queue_try_wait_race_witness:
  "fq_inv demo_queue \<and> (\<exists>s. (sup block_step try_step)\<^sup>*\<^sup>* (start_sys demo_queue 2) s \<and> Crashed \<in> set (pcs s))"
  using queue_try_wait_race [OF demo_queue_facts(1,2), of 2] demo_queue_facts(1) by simp

end
