(* ===== verification/Config.thy ===== *)
theory Config
  imports Prelude
begin

text \<open>
  The configuration store of \<open>src/config.c\<close>, its access functions; files are the subject of
  the theory \<open>ConfigFile\<close>. A configuration is a list of sections, a section a list of entries.
  The \<open>list_t\<close> of the source is represented by its sequence of elements (the theory \<open>OsiList\<close> shows
  that its operations act on that sequence), and a C string by the characters in front of its
  NUL, so that \<open>strcmp\<close> is equality. The number format is that of \<open>sprintf\<close> with \<open>%d\<close> and of
  \<open>strtol\<close> with base 0.
\<close>

section \<open>The structures and the access functions\<close>

record entry_t =
  cfg_key :: string
  cfg_value :: string

record section_t =
  sec_name :: string
  sec_entries :: "entry_t list"

record config_t =
  sections :: "section_t list"

definition section_new :: "string \<Rightarrow> section_t" where
  "section_new name = \<lparr>sec_name = name, sec_entries = []\<rparr>"

definition entry_new :: "string \<Rightarrow> string \<Rightarrow> entry_t" where
  "entry_new k v = \<lparr>cfg_key = k, cfg_value = v\<rparr>"

definition config_new_empty :: config_t where
  "config_new_empty = \<lparr>sections = []\<rparr>"

fun section_find_loop :: "section_t list \<Rightarrow> string \<Rightarrow> section_t option" where
  "section_find_loop [] name = None"
| "section_find_loop (sec # secs) name =
     (if sec_name sec = name then Some sec else section_find_loop secs name)"

definition section_find :: "config_t \<Rightarrow> string \<Rightarrow> section_t option" where
  "section_find config name = section_find_loop (sections config) name"

fun entry_find_loop :: "entry_t list \<Rightarrow> string \<Rightarrow> entry_t option" where
  "entry_find_loop [] k = None"
| "entry_find_loop (e # es) k = (if cfg_key e = k then Some e else entry_find_loop es k)"

definition entry_find :: "config_t \<Rightarrow> string \<Rightarrow> string \<Rightarrow> entry_t option" where
  "entry_find config name k =
     (case section_find config name of None \<Rightarrow> None
      | Some sec \<Rightarrow> entry_find_loop (sec_entries sec) k)"

definition config_has_section :: "config_t \<Rightarrow> string \<Rightarrow> bool" where
  "config_has_section config name \<longleftrightarrow> section_find config name \<noteq> None"

definition config_has_key :: "config_t \<Rightarrow> string \<Rightarrow> string \<Rightarrow> bool" where
  "config_has_key config name k \<longleftrightarrow> entry_find config name k \<noteq> None"

definition config_get_string :: "config_t \<Rightarrow> string \<Rightarrow> string \<Rightarrow> string option \<Rightarrow> string option" where
  "config_get_string config name k def_value =
     (case entry_find config name k of None \<Rightarrow> def_value | Some e \<Rightarrow> Some (cfg_value e))"

definition config_get_bool :: "config_t \<Rightarrow> string \<Rightarrow> string \<Rightarrow> bool \<Rightarrow> bool" where
  "config_get_bool config name k def_value =
     (case entry_find config name k of None \<Rightarrow> def_value
      | Some e \<Rightarrow> if cfg_value e = ''true'' then True
                  else if cfg_value e = ''false'' then False else def_value)"

text \<open>The loop of \<open>config_set_string\<close> over the entries of the section, and the append after it.\<close>

fun set_entry :: "entry_t list \<Rightarrow> string \<Rightarrow> string \<Rightarrow> entry_t list" where
  "set_entry [] k v = [entry_new k v]"
| "set_entry (e # es) k v = (if cfg_key e = k then e\<lparr>cfg_value := v\<rparr> # es else e # set_entry es k v)"

text \<open>A change to the section that \<open>section_find\<close> answers: the first one of that name.\<close>

fun change_section :: "section_t list \<Rightarrow> string \<Rightarrow> (section_t \<Rightarrow> section_t) \<Rightarrow> section_t list" where
  "change_section [] name f = []"
| "change_section (sec # secs) name f =
     (if sec_name sec = name then f sec # secs else sec # change_section secs name f)"

definition config_set_string :: "config_t \<Rightarrow> string \<Rightarrow> string \<Rightarrow> string \<Rightarrow> config_t" where
  "config_set_string config name k v =
     (let secs = (case section_find config name of
                    None \<Rightarrow> sections config @ [section_new name]
                  | Some _ \<Rightarrow> sections config) in
      config\<lparr>sections := change_section secs name
        (\<lambda>sec. sec\<lparr>sec_entries := set_entry (sec_entries sec) k v\<rparr>)\<rparr>)"

definition config_set_bool :: "config_t \<Rightarrow> string \<Rightarrow> string \<Rightarrow> bool \<Rightarrow> config_t" where
  "config_set_bool config name k v = config_set_string config name k (if v then ''true'' else ''false'')"

text \<open>\<open>list_remove\<close> of the section or entry that was found.\<close>

fun remove_section :: "section_t list \<Rightarrow> string \<Rightarrow> section_t list" where
  "remove_section [] name = []"
| "remove_section (sec # secs) name = (if sec_name sec = name then secs else sec # remove_section secs name)"

fun remove_entry :: "entry_t list \<Rightarrow> string \<Rightarrow> entry_t list" where
  "remove_entry [] k = []"
| "remove_entry (e # es) k = (if cfg_key e = k then es else e # remove_entry es k)"

definition config_remove_section :: "config_t \<Rightarrow> string \<Rightarrow> bool \<times> config_t" where
  "config_remove_section config name =
     (case section_find config name of None \<Rightarrow> (False, config)
      | Some _ \<Rightarrow> (True, config\<lparr>sections := remove_section (sections config) name\<rparr>))"

definition config_remove_key :: "config_t \<Rightarrow> string \<Rightarrow> string \<Rightarrow> bool \<times> config_t" where
  "config_remove_key config name k =
     (if section_find config name = None \<or> entry_find config name k = None then (False, config)
      else (True, config\<lparr>sections := change_section (sections config) name
             (\<lambda>sec. sec\<lparr>sec_entries := remove_entry (sec_entries sec) k\<rparr>)\<rparr>))"

text \<open>The section iterator: a node is the rest of the list from it on, the end is the empty rest.\<close>

definition config_section_begin :: "config_t \<Rightarrow> section_t list" where
  "config_section_begin config = sections config"

definition config_section_end :: "config_t \<Rightarrow> section_t list" where
  "config_section_end config = []"

definition config_section_next :: "section_t list \<Rightarrow> section_t list res" where
  "config_section_next node = (case node of [] \<Rightarrow> Inl AssertFailed | _ # rest \<Rightarrow> Inr rest)"

definition config_section_name :: "section_t list \<Rightarrow> string res" where
  "config_section_name node = (case node of [] \<Rightarrow> Inl AssertFailed | sec # _ \<Rightarrow> Inr (sec_name sec))"

section \<open>Numbers as text\<close>

text \<open>The characters \<open>isspace\<close> accepts in the C locale.\<close>

definition isspace :: "char \<Rightarrow> bool" where
  "isspace c \<longleftrightarrow> c \<in> {CHR '' '', CHR 0x09, CHR 0x0A, CHR 0x0B, CHR 0x0C, CHR 0x0D}"

definition digit_char :: "nat \<Rightarrow> char" where
  "digit_char d = char_of (48 + d)"

definition digit_val :: "char \<Rightarrow> nat option" where
  "digit_val c = (let n = of_char c in
     if 48 \<le> n \<and> n \<le> 57 then Some (n - 48)
     else if 97 \<le> n \<and> n \<le> 122 then Some (n - 87)
     else if 65 \<le> n \<and> n \<le> 90 then Some (n - 55) else None)"

text \<open>The longest prefix of digits of the base: its value and the rest.\<close>

fun scan_digits :: "nat \<Rightarrow> nat \<Rightarrow> string \<Rightarrow> nat \<times> string" where
  "scan_digits b acc [] = (acc, [])"
| "scan_digits b acc (c # cs) =
     (case digit_val c of
        Some d \<Rightarrow> if d < b then scan_digits b (acc * b + d) cs else (acc, c # cs)
      | None \<Rightarrow> (acc, c # cs))"

definition scan_sign :: "string \<Rightarrow> bool \<times> string" where
  "scan_sign s =
     (if s \<noteq> [] \<and> hd s = CHR ''-'' then (True, tl s)
      else if s \<noteq> [] \<and> hd s = CHR ''+'' then (False, tl s) else (False, s))"

text \<open>Base 0: a leading \<open>0x\<close> with a hexadecimal digit behind it, a leading 0, or decimal.\<close>

definition is_digit_of :: "nat \<Rightarrow> string \<Rightarrow> bool" where
  "is_digit_of b s = (case s of [] \<Rightarrow> False
     | c # _ \<Rightarrow> (case digit_val c of None \<Rightarrow> False | Some d \<Rightarrow> d < b))"

definition scan_base :: "string \<Rightarrow> nat \<times> string" where
  "scan_base s =
     (if length s \<ge> 2 \<and> s ! 0 = CHR ''0'' \<and> s ! 1 \<in> {CHR ''x'', CHR ''X''} \<and> is_digit_of 16 (drop 2 s)
      then (16, drop 2 s)
      else if s \<noteq> [] \<and> s ! 0 = CHR ''0'' then (8, s) else (10, s))"

abbreviation LONG_MAX :: int where
  "LONG_MAX \<equiv> 2 ^ 63 - 1"

abbreviation LONG_MIN :: int where
  "LONG_MIN \<equiv> - (2 ^ 63)"

text \<open>\<open>strtol(str, &endptr, 0)\<close>: the value, clamped to a \<open>long\<close>, and the text at \<open>endptr\<close>.\<close>

definition strtol0 :: "string \<Rightarrow> int \<times> string" where
  "strtol0 str =
     (let (neg, s1) = scan_sign (dropWhile isspace str);
          (b, s2) = scan_base s1 in
      if \<not> is_digit_of b s2 then (0, str)
      else let (n, rest) = scan_digits b 0 s2;
               v = (if neg then - int n else int n) in
           (max LONG_MIN (min LONG_MAX v), rest))"

text \<open>Conversion of a \<open>long\<close> to a 32-bit \<open>int\<close> keeps the low bits.\<close>

definition long_to_int :: "int \<Rightarrow> int" where
  "long_to_int v = (v + 2 ^ 31) mod 2 ^ 32 - 2 ^ 31"

definition config_get_int :: "config_t \<Rightarrow> string \<Rightarrow> string \<Rightarrow> int \<Rightarrow> int" where
  "config_get_int config name k def_value =
     (case entry_find config name k of None \<Rightarrow> def_value
      | Some e \<Rightarrow> (let (v, rest) = strtol0 (cfg_value e) in
                   if rest = [] then long_to_int v else def_value))"

fun show_nat :: "nat \<Rightarrow> string" where
  "show_nat n = (if n < 10 then [digit_char n] else show_nat (n div 10) @ [digit_char (n mod 10)])"

declare show_nat.simps [simp del]

definition show_int :: "int \<Rightarrow> string" where
  "show_int v = (if v < 0 then CHR ''-'' # show_nat (nat (- v)) else show_nat (nat v))"

definition config_set_int :: "config_t \<Rightarrow> string \<Rightarrow> string \<Rightarrow> int \<Rightarrow> config_t" where
  "config_set_int config name k v = config_set_string config name k (show_int v)"

section \<open>Lookup\<close>

text \<open>The abstract value: a partial function from section and key to the text stored.\<close>

definition config_lookup :: "config_t \<Rightarrow> string \<Rightarrow> string \<rightharpoonup> string" where
  "config_lookup config name k = map_option cfg_value (entry_find config name k)"

text \<open>No section twice, no key twice in a section.\<close>

definition config_wf :: "config_t \<Rightarrow> bool" where
  "config_wf config \<longleftrightarrow> distinct (map sec_name (sections config)) \<and>
     (\<forall>sec \<in> set (sections config). distinct (map cfg_key (sec_entries sec)))"

lemma config_get_string_lookup:
  "config_get_string config name k def_value =
     (case config_lookup config name k of None \<Rightarrow> def_value | Some v \<Rightarrow> Some v)"
  by (simp add: config_get_string_def config_lookup_def split: option.splits)

lemma section_find_append [simp]:
  "section_find_loop (xs @ ys) name =
     (case section_find_loop xs name of None \<Rightarrow> section_find_loop ys name | Some s \<Rightarrow> Some s)"
  by (induction xs) auto

lemma section_find_name: "section_find_loop secs name = Some sec \<Longrightarrow> sec_name sec = name \<and> sec \<in> set secs"
  by (induction secs) (auto split: if_splits)

lemma section_find_None: "section_find_loop secs name = None \<longleftrightarrow> name \<notin> sec_name ` set secs"
  by (induction secs) auto

lemma entry_find_None: "entry_find_loop es k = None \<longleftrightarrow> k \<notin> cfg_key ` set es"
  by (induction es) auto

lemma find_change_section:
  assumes "\<And>sec. sec_name (f sec) = sec_name sec"
  shows "section_find_loop (change_section secs name f) name' =
    (if name' = name then map_option f (section_find_loop secs name) else section_find_loop secs name')"
  using assms by (induction secs) auto

text \<open>Lookup in one section.\<close>

definition sec_lookup :: "section_t \<Rightarrow> string \<rightharpoonup> string" where
  "sec_lookup sec k = map_option cfg_value (entry_find_loop (sec_entries sec) k)"

lemma config_lookup_sec:
  "config_lookup config name k =
     (case section_find config name of None \<Rightarrow> None | Some sec \<Rightarrow> sec_lookup sec k)"
  by (simp add: config_lookup_def entry_find_def sec_lookup_def split: option.splits)

lemma sec_lookup_set_entry:
  "sec_lookup (sec\<lparr>sec_entries := set_entry es k v\<rparr>) k' =
     (if k' = k then Some v else sec_lookup (sec\<lparr>sec_entries := es\<rparr>) k')"
  by (induction es) (auto simp: entry_new_def sec_lookup_def)

lemma sec_lookup_remove_entry:
  "distinct (map cfg_key es) \<Longrightarrow>
     sec_lookup (sec\<lparr>sec_entries := remove_entry es k\<rparr>) k' =
     (if k' = k then None else sec_lookup (sec\<lparr>sec_entries := es\<rparr>) k')"
  by (induction es) (auto simp: sec_lookup_def entry_find_None)

lemma section_same [simp]: "sec\<lparr>sec_entries := sec_entries sec\<rparr> = (sec :: section_t)"
  by (cases sec) simp

text \<open>What \<open>config_set_string\<close> does to lookups.\<close>

lemma config_set_string_lookup:
  "config_lookup (config_set_string config name k v) name' k' =
     (if name' = name \<and> k' = k then Some v else config_lookup config name' k')"
proof (cases "section_find config name")
  case None
  then have "section_find (config_set_string config name k v) name' =
      (if name' = name then Some \<lparr>sec_name = name, sec_entries = [entry_new k v]\<rparr> else section_find config name')"
    by (auto simp: section_find_def config_set_string_def find_change_section section_new_def split: option.splits)
  then show ?thesis
    using None by (auto simp: config_lookup_sec sec_lookup_def entry_new_def)
next
  case (Some sec)
  then have "section_find (config_set_string config name k v) name' =
      (if name' = name then Some (sec\<lparr>sec_entries := set_entry (sec_entries sec) k v\<rparr>) else section_find config name')"
    by (simp add: section_find_def config_set_string_def find_change_section)
  then show ?thesis
    using Some by (auto simp: config_lookup_sec sec_lookup_set_entry)
qed

lemma find_remove_section:
  "distinct (map sec_name secs) \<Longrightarrow>
     section_find_loop (remove_section secs name) name' =
     (if name' = name then None else section_find_loop secs name')"
  by (induction secs) (auto simp: section_find_None)

lemma config_remove_section_lookup:
  assumes "config_wf config" and "config_remove_section config name = (ok, config')"
  shows "ok = config_has_section config name" "\<not> config_has_section config' name"
    "config_lookup config' name' k = (if name' = name then None else config_lookup config name' k)"
proof -
  have dist: "distinct (map sec_name (sections config))" using assms(1) by (simp add: config_wf_def)
  show "ok = config_has_section config name"
    using assms(2) by (auto simp: config_remove_section_def config_has_section_def split: option.splits)
  have find: "section_find config' n = (if n = name then None else section_find config n)" for n
    using assms(2) find_remove_section [OF dist]
    by (auto simp: config_remove_section_def section_find_def split: option.splits)
  then show "\<not> config_has_section config' name" by (simp add: config_has_section_def)
  show "config_lookup config' name' k = (if name' = name then None else config_lookup config name' k)"
    by (simp add: config_lookup_sec find)
qed

lemma config_remove_key_lookup:
  assumes "config_wf config" and "config_remove_key config name k = (ok, config')"
  shows "ok = config_has_key config name k"
    "config_lookup config' name' k' = (if name' = name \<and> k' = k then None else config_lookup config name' k')"
    "config_has_section config' name' = config_has_section config name'"
proof -
  show ok: "ok = config_has_key config name k"
    using assms(2) by (auto simp: config_remove_key_def config_has_key_def entry_find_def split: if_splits)
  have find: "section_find config' n =
      (if n = name \<and> ok then map_option (\<lambda>sec. sec\<lparr>sec_entries := remove_entry (sec_entries sec) k\<rparr>) (section_find config name)
       else section_find config n)" for n
    using assms(2) by (auto simp: config_remove_key_def section_find_def find_change_section split: if_splits)
  then show "config_has_section config' name' = config_has_section config name'"
    by (auto simp: config_has_section_def)
  have dist: "distinct (map cfg_key (sec_entries sec))" if "section_find config name = Some sec" for sec
    using assms(1) section_find_name that by (auto simp: config_wf_def section_find_def)
  have none: "config_lookup config name k = None" if "\<not> ok"
    using that ok by (simp add: config_has_key_def config_lookup_def)
  show "config_lookup config' name' k' = (if name' = name \<and> k' = k then None else config_lookup config name' k')"
    using find dist none
    by (auto simp: config_lookup_sec sec_lookup_remove_entry split: option.splits)
qed

section \<open>The invariant is kept\<close>

lemma keys_set_entry:
  "map cfg_key (set_entry es k v) =
     (if k \<in> cfg_key ` set es then map cfg_key es else map cfg_key es @ [k])"
  by (induction es) (auto simp: entry_new_def)

lemma keys_remove_entry: "map cfg_key (remove_entry es k) = remove1 k (map cfg_key es)"
  by (induction es) auto

lemma names_change_section:
  "(\<And>sec. sec_name (f sec) = sec_name sec) \<Longrightarrow> map sec_name (change_section secs name f) = map sec_name secs"
  by (induction secs) auto

lemma set_change_section:
  "sec \<in> set (change_section secs name f) \<Longrightarrow> sec \<in> set secs \<or> (\<exists>sec' \<in> set secs. sec = f sec')"
  by (induction secs) (auto split: if_splits)

lemma names_remove_section: "map sec_name (remove_section secs name) = remove1 name (map sec_name secs)"
  by (induction secs) auto

lemma set_remove_section: "set (remove_section secs name) \<subseteq> set secs"
  by (induction secs) auto

lemma config_set_string_wf:
  assumes "config_wf config"
  shows "config_wf (config_set_string config name k v)"
proof -
  let ?secs = "case section_find config name of None \<Rightarrow> sections config @ [section_new name] | Some _ \<Rightarrow> sections config"
  have "distinct (map sec_name ?secs)"
    using assms section_find_None [of "sections config" name]
    by (auto simp: config_wf_def section_find_def section_new_def split: option.splits)
  moreover have "distinct (map cfg_key (sec_entries sec))" if "sec \<in> set ?secs" for sec
    using that assms by (auto simp: config_wf_def section_new_def split: option.splits)
  moreover from this have "distinct (map cfg_key (set_entry (sec_entries sec) k v))" if "sec \<in> set ?secs" for sec
    using that by (simp add: keys_set_entry)
  ultimately show ?thesis
    by (auto simp: config_wf_def config_set_string_def names_change_section dest!: set_change_section)
qed

lemma config_remove_wf:
  assumes "config_wf config"
  shows "config_wf (snd (config_remove_section config name))" "config_wf (snd (config_remove_key config name k))"
proof -
  show "config_wf (snd (config_remove_section config name))"
    using assms set_remove_section [of "sections config" name]
    by (auto simp: config_wf_def config_remove_section_def names_remove_section distinct_remove1 split: option.splits)
  show "config_wf (snd (config_remove_key config name k))"
    using assms
    by (auto simp: config_wf_def config_remove_key_def names_change_section keys_remove_entry distinct_remove1
        dest!: set_change_section)
qed

section \<open>Numbers: printing and reading back\<close>

lemma digit_val_char [simp]: "d < 10 \<Longrightarrow> digit_val (digit_char d) = Some d"
  by (simp add: digit_val_def digit_char_def Let_def)

lemma of_digit_char: "d < 10 \<Longrightarrow> of_char (digit_char d) = 48 + d"
  by (simp add: digit_char_def)

lemma digit_char_eqD: "d < 10 \<Longrightarrow> digit_char d = c \<Longrightarrow> of_char c = 48 + d"
  using of_digit_char by blast

lemma digit_char_0: "digit_char 0 = CHR ''0''"
  by code_simp

lemma isspace_digit [simp]: "d < 10 \<Longrightarrow> \<not> isspace (digit_char d)"
  by (auto simp: isspace_def dest: digit_char_eqD)

lemma scan_digits_show_nat:
  "scan_digits 10 acc (show_nat n @ rest) = scan_digits 10 (acc * 10 ^ length (show_nat n) + n) rest"
proof (induction n arbitrary: rest rule: show_nat.induct)
  case (1 n)
  show ?case
  proof (cases "n < 10")
    case True
    then show ?thesis by (simp add: show_nat.simps [of n])
  next
    case False
    have "scan_digits 10 acc (show_nat n @ rest) =
        scan_digits 10 (acc * 10 ^ length (show_nat (n div 10)) + n div 10) (digit_char (n mod 10) # rest)"
      using 1 [OF False, of "digit_char (n mod 10) # rest"] False by (simp add: show_nat.simps [of n])
    also have "\<dots> = scan_digits 10 ((acc * 10 ^ length (show_nat (n div 10)) + n div 10) * 10 + n mod 10) rest"
      by simp
    also have "(acc * 10 ^ length (show_nat (n div 10)) + n div 10) * 10 + n mod 10 =
        acc * 10 ^ length (show_nat n) + n"
      using False div_mult_mod_eq [of n 10] by (simp add: show_nat.simps [of n] add_mult_distrib)
    finally show ?thesis .
  qed
qed

lemma show_nat_Cons:
  "\<exists>d cs. show_nat n = digit_char d # cs \<and> d < 10 \<and> (0 < n \<longrightarrow> 0 < d) \<and> (n = 0 \<longrightarrow> cs = [])"
proof (induction n rule: show_nat.induct)
  case (1 n)
  show ?case
  proof (cases "n < 10")
    case False
    from 1 [OF this] obtain d cs where "show_nat (n div 10) = digit_char d # cs" "d < 10" "0 < n div 10 \<longrightarrow> 0 < d"
      by auto
    then show ?thesis using False
      by (intro exI [of _ d] exI [of _ "cs @ [digit_char (n mod 10)]"])
         (simp add: show_nat.simps [of n] div_greater_zero_iff)
  qed (auto simp: show_nat.simps [of n])
qed

lemma digit_char_neq:
  "d < 10 \<Longrightarrow> digit_char d \<noteq> CHR ''-''" "d < 10 \<Longrightarrow> digit_char d \<noteq> CHR ''+''"
  "0 < d \<Longrightarrow> d < 10 \<Longrightarrow> digit_char d \<noteq> CHR ''0''"
  by (auto dest: digit_char_eqD)

lemma scan_base_show_nat:
  "\<exists>b. scan_base (show_nat n) = (b, show_nat n) \<and> is_digit_of b (show_nat n) \<and>
     scan_digits b 0 (show_nat n) = (n, [])"
proof -
  obtain d cs where s: "show_nat n = digit_char d # cs" "d < 10" "0 < n \<longrightarrow> 0 < d" "n = 0 \<longrightarrow> cs = []"
    using show_nat_Cons [of n] by (elim exE conjE)
  show ?thesis
  proof (cases "n = 0")
    case True
    then have "show_nat n = [digit_char 0]" by (simp add: show_nat.simps)
    moreover have "digit_val (CHR ''0'') = Some 0" by code_simp
    ultimately show ?thesis using True
      by (intro exI [of _ 8]) (simp add: scan_base_def is_digit_of_def digit_char_0)
  next
    case False
    then have "digit_char d \<noteq> CHR ''0''" using s digit_char_neq(3) by blast
    then have "scan_base (show_nat n) = (10, show_nat n)" using s(1) by (simp add: scan_base_def)
    moreover have "is_digit_of 10 (show_nat n)" using s by (simp add: is_digit_of_def)
    moreover have "scan_digits 10 0 (show_nat n) = (n, [])"
      using scan_digits_show_nat [of 0 n "[]"] by simp
    ultimately show ?thesis by blast
  qed
qed

lemma strtol0_show_int:
  assumes "LONG_MIN \<le> v" and "v \<le> LONG_MAX"
  shows "strtol0 (show_int v) = (v, [])"
proof -
  let ?n = "nat (if v < 0 then - v else v)"
  obtain d cs where s: "show_nat ?n = digit_char d # cs" "d < 10"
    using show_nat_Cons [of ?n] by (elim exE conjE)
  obtain b where b: "scan_base (show_nat ?n) = (b, show_nat ?n)" "is_digit_of b (show_nat ?n)"
    "scan_digits b 0 (show_nat ?n) = (?n, [])"
    using scan_base_show_nat [of ?n] by (elim exE conjE)
  have "dropWhile isspace (show_int v) = show_int v"
    using s by (auto simp: show_int_def isspace_def [of "CHR ''-''"])
  moreover have "scan_sign (show_int v) = (v < 0, show_nat ?n)"
    using s digit_char_neq(1,2) [OF s(2)] by (auto simp: show_int_def scan_sign_def)
  ultimately show ?thesis
    using b assms by (simp add: strtol0_def min_def max_def)
qed

text \<open>The text fits the 32 bytes \<open>config_set_int\<close> reserves for it.\<close>

lemma length_show_nat: "0 < k \<Longrightarrow> n < 10 ^ k \<Longrightarrow> length (show_nat n) \<le> k"
proof (induction n arbitrary: k rule: show_nat.induct)
  case (1 n)
  show ?case
  proof (cases "n < 10")
    case False
    obtain j where k: "k = Suc j" using 1(2) by (cases k) auto
    have j: "0 < j" using 1(3) k False by (cases j) auto
    have "n div 10 < 10 ^ j" using 1(3) k by (simp add: div_less_iff_less_mult mult.commute)
    from 1(1) [OF False j this] False k show ?thesis by (simp add: show_nat.simps [of n])
  qed (use 1(2) in \<open>simp add: show_nat.simps [of n]\<close>)
qed

lemma show_int_fits: "- (2 ^ 31) \<le> v \<Longrightarrow> v < 2 ^ 31 \<Longrightarrow> length (show_int v) < 32"
proof -
  assume v: "- (2 ^ 31) \<le> v" "v < 2 ^ 31"
  then have "nat v < nat 10000000000" "nat (- v) < nat 10000000000" by simp_all
  then have "length (show_nat (nat v)) \<le> 10" "length (show_nat (nat (- v))) \<le> 10"
    using length_show_nat [of 10 "nat v"] length_show_nat [of 10 "nat (- v)"] by simp_all
  then show ?thesis by (simp add: show_int_def)
qed

section \<open>The interface of the typed accessors\<close>

text \<open>
  What the accessors for integers and booleans rely on: a store of texts in which the last
  write to a place is what is found there.
\<close>

locale text_store =
  fixes put :: "'c \<Rightarrow> string \<Rightarrow> string \<Rightarrow> string \<Rightarrow> 'c"
    and look :: "'c \<Rightarrow> string \<Rightarrow> string \<rightharpoonup> string"
  assumes look_put: "look (put c s k v) s' k' = (if s' = s \<and> k' = k then Some v else look c s' k')"
begin

lemma last_write_wins: "look (put (put c s k v) s k v') = look (put c s k v')"
  by (auto simp: look_put fun_eq_iff)

lemma writes_commute:
  "(s, k) \<noteq> (s', k') \<Longrightarrow> look (put (put c s k v) s' k' v') = look (put (put c s' k' v') s k v)"
  by (auto simp: look_put fun_eq_iff)

text \<open>A typed value written through an encoding is read back through its decoding.\<close>

lemma coded_value:
  "decode (encode x) = Some y \<Longrightarrow> Option.bind (look (put c s k (encode x)) s k) decode = Some y"
  by (simp add: look_put)

end

interpretation cfg: text_store config_set_string config_lookup
  by unfold_locales (rule config_set_string_lookup)

text \<open>The two decodings, and the accessors in terms of them.\<close>

definition decode_int :: "string \<Rightarrow> int option" where
  "decode_int t = (let (v, rest) = strtol0 t in if rest = [] then Some (long_to_int v) else None)"

definition decode_bool :: "string \<Rightarrow> bool option" where
  "decode_bool t = (if t = ''true'' then Some True else if t = ''false'' then Some False else None)"

lemma config_get_int_decode:
  "config_get_int config name k d = (case Option.bind (config_lookup config name k) decode_int of None \<Rightarrow> d | Some v \<Rightarrow> v)"
  by (auto simp: config_get_int_def config_lookup_def decode_int_def Let_def split: option.splits prod.splits if_splits)

lemma config_get_bool_decode:
  "config_get_bool config name k d = (case Option.bind (config_lookup config name k) decode_bool of None \<Rightarrow> d | Some v \<Rightarrow> v)"
  by (auto simp: config_get_bool_def config_lookup_def decode_bool_def split: option.splits)

lemma decode_show_int:
  "LONG_MIN \<le> v \<Longrightarrow> v \<le> LONG_MAX \<Longrightarrow> decode_int (show_int v) = Some (long_to_int v)"
  by (simp add: decode_int_def strtol0_show_int)

lemma long_to_int_id: "- (2 ^ 31) \<le> v \<Longrightarrow> v < 2 ^ 31 \<Longrightarrow> long_to_int v = v"
  by (simp add: long_to_int_def)

section \<open>Properties\<close>

text \<open>
  Writing and reading texts: after \<open>config_set_string\<close> the key has the new text and counts as
  present together with its section, every other key of every section reads as before, and
  no section or key is ever there twice.
\<close>

theorem config_set_string_correct:
  assumes "config_wf config"
  shows "let config' = config_set_string config name k v in
    config_wf config' \<and> config_has_section config' name \<and> config_has_key config' name k \<and>
    config_get_string config' name k d = Some v \<and>
    (\<forall>name' k'. (name', k') \<noteq> (name, k) \<longrightarrow>
       config_get_string config' name' k' d = config_get_string config name' k' d)"
proof -
  define config' where "config' = config_set_string config name k v"
  have look: "config_lookup config' n x = (if n = name \<and> x = k then Some v else config_lookup config n x)" for n x
    unfolding config'_def by (rule cfg.look_put)
  have "config_lookup config' name k = Some v" by (simp add: look)
  then have "entry_find config' name k \<noteq> None" by (auto simp: config_lookup_def)
  moreover from this have "section_find config' name \<noteq> None" by (auto simp: entry_find_def split: option.splits)
  moreover have "config_wf config'" unfolding config'_def by (rule config_set_string_wf [OF assms])
  ultimately show ?thesis
    unfolding config'_def [symmetric] Let_def
    by (simp add: config_get_string_lookup config_has_key_def config_has_section_def look)
qed

theorem config_set_string_correct_witness:
  "config_wf config_new_empty \<and>
   config_get_string (config_set_string config_new_empty ''Adapter'' ''Name'' ''osi'') ''Adapter'' ''Name'' None = Some ''osi''"
  using config_set_string_correct [of config_new_empty "''Adapter''" "''Name''" "''osi''" None]
  by (simp add: config_wf_def config_new_empty_def Let_def)

text \<open>
  Removing: \<open>config_remove_key\<close> and \<open>config_remove_section\<close> answer whether there was something to
  remove, remove exactly that, and keep everything else. A section stays when its last key
  goes: \<open>config_has_section\<close> still answers true.
\<close>

theorem config_remove_correct:
  assumes "config_wf config"
  shows "(case config_remove_key config name k of (ok, config') \<Rightarrow>
      ok = config_has_key config name k \<and> config_wf config' \<and>
      (\<forall>n x. config_lookup config' n x = (if n = name \<and> x = k then None else config_lookup config n x)) \<and>
      (\<forall>n. config_has_section config' n = config_has_section config n)) \<and>
    (case config_remove_section config name of (ok, config') \<Rightarrow>
      ok = config_has_section config name \<and> config_wf config' \<and> \<not> config_has_section config' name \<and>
      (\<forall>n x. config_lookup config' n x = (if n = name then None else config_lookup config n x)))"
proof -
  obtain ok1 c1 where k: "config_remove_key config name k = (ok1, c1)" by fastforce
  obtain ok2 c2 where s: "config_remove_section config name = (ok2, c2)" by fastforce
  have wf: "config_wf c1" "config_wf c2"
    using config_remove_wf(2) [OF assms, of name k] config_remove_wf(1) [OF assms, of name] k s by simp_all
  show ?thesis
    unfolding k s prod.case
    using wf config_remove_key_lookup [OF assms k] config_remove_section_lookup [OF assms s] by blast
qed

theorem config_remove_correct_witness:
  "config_wf \<lparr>sections = [\<lparr>sec_name = ''A'', sec_entries = [entry_new ''k'' ''v'']\<rparr>]\<rparr> \<and>
   (case config_remove_key \<lparr>sections = [\<lparr>sec_name = ''A'', sec_entries = [entry_new ''k'' ''v'']\<rparr>]\<rparr> ''A'' ''k'' of
      (ok, config') \<Rightarrow> ok \<and> config_has_section config' ''A'' \<and> config_lookup config' ''A'' ''k'' = None)"
proof -
  let ?c = "\<lparr>sections = [\<lparr>sec_name = ''A'', sec_entries = [entry_new ''k'' ''v'']\<rparr>]\<rparr>"
  have wf: "config_wf ?c" by (simp add: config_wf_def)
  have "config_has_key ?c ''A'' ''k''" "config_has_section ?c ''A''"
    by (simp_all add: config_has_key_def config_has_section_def entry_find_def section_find_def entry_new_def)
  then show ?thesis
    using config_remove_correct [OF wf, of "''A''" "''k''"] wf by (simp add: case_prod_beta)
qed

text \<open>
  Typed values survive the store: a boolean or a 32-bit integer written with
  \<open>config_set_bool\<close> or \<open>config_set_int\<close> is what \<open>config_get_bool\<close> or \<open>config_get_int\<close> reads back, and the
  text of the integer fits the local buffer of \<open>config_set_int\<close>.
\<close>

theorem config_typed_roundtrip:
  assumes "- (2 ^ 31) \<le> i" and "i < 2 ^ 31"
  shows "config_get_int (config_set_int config name k i) name k d = i \<and> length (show_int i) < 32 \<and>
    config_get_bool (config_set_bool config name k b) name k e = b"
proof -
  have "decode_int (show_int i) = Some i"
    using decode_show_int [of i] long_to_int_id [of i] assms by simp
  moreover have "decode_bool (if b then ''true'' else ''false'') = Some b" by (simp add: decode_bool_def)
  ultimately show ?thesis
    using show_int_fits [OF assms] cfg.look_put
    by (simp add: config_get_int_decode config_get_bool_decode config_set_int_def config_set_bool_def)
qed

theorem config_typed_roundtrip_witness:
  "config_get_int (config_set_int config_new_empty ''A'' ''n'' (- 42)) ''A'' ''n'' 0 = - 42"
  using config_typed_roundtrip [of "- 42" config_new_empty "''A''" "''n''" 0] by simp

text \<open>
  \<open>config_get_int\<close> does not check the range: any text of a \<open>long\<close> is accepted and reduced to its
  low 32 bits, and the empty text is accepted as 0; the default value is not used.
\<close>

theorem config_get_int_truncates:
  assumes "LONG_MIN \<le> v" and "v \<le> LONG_MAX"
  shows "config_get_int (config_set_string config name k (show_int v)) name k d = (v + 2 ^ 31) mod 2 ^ 32 - 2 ^ 31 \<and>
    config_get_int (config_set_string config name k []) name k d = 0"
proof -
  have "decode_int [] = Some 0"
    by (simp add: decode_int_def strtol0_def scan_sign_def scan_base_def is_digit_of_def long_to_int_def)
  then show ?thesis
    using decode_show_int [OF assms] cfg.look_put by (simp add: config_get_int_decode long_to_int_def)
qed

theorem config_get_int_truncates_witness:
  "config_get_int (config_set_string config_new_empty ''A'' ''n'' (show_int 4294967297)) ''A'' ''n'' 7 = 1"
  using config_get_int_truncates [of 4294967297 config_new_empty "''A''" "''n''" 7] by simp

end
