(* ===== verification/ConfigFile.thy ===== *)
theory ConfigFile
  imports Config
begin

text \<open>
  Configuration files: the reader (\<open>trim\<close>, \<open>config_parse\<close>, \<open>config_new\<close>) and the writer
  (\<open>config_save\<close>) of \<open>src/config.c\<close>. A file is the sequence of its characters, the file system a map
  from names to files. The reader takes lines through \<open>fgets\<close> with the 1024-byte buffer of the
  source; the writer writes a temporary file and renames it. The theory shows that reading
  ends on every file and makes the assignments the lines of the file mean, that reading back what
  was written gives the configuration that was saved, and that a save that fails leaves the
  file as it was.
\<close>

section \<open>The reader\<close>

text \<open>The last loop of \<open>trim\<close>: \<open>end_str\<close> is an index into the text.\<close>

fun trim_end :: "string \<Rightarrow> nat \<Rightarrow> nat" where
  "trim_end s 0 = 0"
| "trim_end s (Suc e) = (if isspace (s ! Suc e) then trim_end s e else Suc e)"

definition trim :: "string \<Rightarrow> string" where
  "trim str =
     (let s = dropWhile isspace str in
      if s = [] then s else take (trim_end s (length s - 1) + 1) s)"

abbreviation newline :: char where
  "newline \<equiv> CHR 0x0A"

text \<open>\<open>fgets\<close> with room for \<open>n\<close> characters: up to and including the first newline.\<close>

fun take_line :: "nat \<Rightarrow> string \<Rightarrow> string \<times> string" where
  "take_line 0 s = ([], s)"
| "take_line (Suc n) [] = ([], [])"
| "take_line (Suc n) (c # cs) =
     (if c = newline then ([c], cs) else (let (l, r) = take_line n cs in (c # l, r)))"

definition fgets :: "nat \<Rightarrow> string \<Rightarrow> (string \<times> string) option" where
  "fgets sz file = (if file = [] then None else Some (take_line (sz - 1) file))"

definition CONFIG_DEFAULT_SECTION :: string where
  "CONFIG_DEFAULT_SECTION = ''Global''"

text \<open>The body of the loop of \<open>config_parse\<close> on one line; the state is the section name and the configuration.\<close>

definition config_parse_line :: "string \<Rightarrow> config_t \<Rightarrow> string \<Rightarrow> string \<times> config_t" where
  "config_parse_line sec config line =
     (let l = trim (c_string line) in
      if l = [] \<or> hd l = CHR ''#'' then (sec, config)
      else if hd l = CHR ''['' then
        (if l ! (length l - 1) \<noteq> CHR '']'' then (sec, config)
         else (take (length l - 2) (drop 1 l), config))
      else if CHR ''='' \<notin> set l then (sec, config)
      else (sec, config_set_string config sec
              (trim (takeWhile (\<lambda>c. c \<noteq> CHR ''='') l))
              (trim (tl (dropWhile (\<lambda>c. c \<noteq> CHR ''='') l)))))"

lemma take_line_append: "fst (take_line n s) @ snd (take_line n s) = s"
  by (induction n s rule: take_line.induct) (auto split: prod.splits)

lemma take_line_shorter: "s \<noteq> [] \<Longrightarrow> length (snd (take_line (Suc n) s)) < length s"
proof (cases s)
  case (Cons c cs)
  have "length (snd (take_line n cs)) \<le> length cs"
    using arg_cong [OF take_line_append [of n cs], of length] by simp
  with Cons show ?thesis by (auto simp: case_prod_beta)
qed simp

lemma fgets_shorter: "1 < sz \<Longrightarrow> fgets sz file = Some (line, rest) \<Longrightarrow> length rest < length file"
proof -
  assume "1 < sz" and f: "fgets sz file = Some (line, rest)"
  then obtain n where "sz - 1 = Suc n" by (metis Suc_diff_1 zero_less_diff)
  with f take_line_shorter [of "file" n] show ?thesis by (auto simp: fgets_def split: if_splits)
qed

function config_parse_loop :: "string \<Rightarrow> string \<Rightarrow> config_t \<Rightarrow> config_t" where
  "config_parse_loop file sec config =
     (case fgets 1024 file of None \<Rightarrow> config
      | Some (line, rest) \<Rightarrow>
          (let (sec1, config1) = config_parse_line sec config line in config_parse_loop rest sec1 config1))"
  by pat_completeness auto

termination
  by (relation "measure (\<lambda>(file, _, _). length file)") (auto dest: fgets_shorter [rotated])

declare config_parse_loop.simps [simp del]

definition config_parse :: "string \<Rightarrow> config_t \<Rightarrow> config_t" where
  "config_parse file config = config_parse_loop file CONFIG_DEFAULT_SECTION config"

type_synonym file_system = "string \<rightharpoonup> string"

definition config_new :: "file_system \<Rightarrow> string \<Rightarrow> config_t option" where
  "config_new fs filename =
     (case fs filename of None \<Rightarrow> None | Some file \<Rightarrow> Some (config_parse file config_new_empty))"

section \<open>The writer\<close>

text \<open>One \<open>fprintf\<close> or \<open>fputc\<close>: \<open>wr n\<close> says whether the \<open>n\<close>-th write succeeds.\<close>

type_synonym writer = "nat \<times> string"

definition put_text :: "(nat \<Rightarrow> bool) \<Rightarrow> string \<Rightarrow> writer \<Rightarrow> writer option" where
  "put_text wr t st = (case st of (n, out) \<Rightarrow> if wr n then Some (Suc n, out @ t) else None)"

definition header_line :: "section_t \<Rightarrow> string" where
  "header_line sec = CHR ''['' # sec_name sec @ [CHR '']'', newline]"

definition entry_line :: "entry_t \<Rightarrow> string" where
  "entry_line e = cfg_key e @ '' = '' @ cfg_value e @ [newline]"

fun save_entries :: "(nat \<Rightarrow> bool) \<Rightarrow> entry_t list \<Rightarrow> writer \<Rightarrow> writer option" where
  "save_entries wr [] st = Some st"
| "save_entries wr (e # es) st = Option.bind (put_text wr (entry_line e) st) (save_entries wr es)"

fun save_sections :: "(nat \<Rightarrow> bool) \<Rightarrow> section_t list \<Rightarrow> writer \<Rightarrow> writer option" where
  "save_sections wr [] st = Some st"
| "save_sections wr (sec # secs) st =
     Option.bind (put_text wr (header_line sec) st) (\<lambda>st1.
     Option.bind (save_entries wr (sec_entries sec) st1) (\<lambda>st2.
     Option.bind (if secs \<noteq> [] then put_text wr [newline] st2 else Some st2) (save_sections wr secs)))"

text \<open>Which of the other system calls succeed.\<close>

record save_env =
  open_ok :: bool
  write_ok :: "nat \<Rightarrow> bool"
  close_ok :: bool
  chmod_ok :: bool
  rename_ok :: bool
  unlink_ok :: bool
  flushed :: string  \<comment> \<open>what the temporary file holds when a write or \<open>fclose\<close> has failed\<close>

text \<open>
  \<open>remove\<close> is the \<open>unlink\<close> under the label \<open>error\<close>, whose answer is not looked at; its argument is the
  file system at the moment of the failure.
\<close>

definition config_save :: "save_env \<Rightarrow> config_t \<Rightarrow> string \<Rightarrow> file_system \<Rightarrow> (bool \<times> file_system) res" where
  "config_save env config filename fs =
     rbind (c_assert (filename \<noteq> [])) (\<lambda>_.
     let temp = filename @ ''.new'';
         remove = (\<lambda>fs1 :: file_system. if unlink_ok env then fs1(temp := None) else fs1) in
     if \<not> open_ok env then Inr (False, remove fs)
     else (case save_sections (write_ok env) (sections config) (0, []) of
         None \<Rightarrow> Inr (False, remove (fs(temp \<mapsto> flushed env)))
       | Some (_, text) \<Rightarrow>
           if \<not> close_ok env then Inr (False, remove (fs(temp \<mapsto> flushed env)))
           else if \<not> chmod_ok env then Inr (False, remove (fs(temp \<mapsto> text)))
           else if \<not> rename_ok env then Inr (False, remove (fs(temp \<mapsto> text)))
           else Inr (True, fs(temp := None, filename \<mapsto> text))))"

section \<open>Trimming\<close>

definition rstrip :: "string \<Rightarrow> string" where
  "rstrip s = rev (dropWhile isspace (rev s))"

definition strip :: "string \<Rightarrow> string" where
  "strip s = rstrip (dropWhile isspace s)"

lemma trim_end_rstrip:
  assumes "e < length s" and "\<not> isspace (s ! 0)"
  shows "take (trim_end s e + 1) s = rstrip (take (Suc e) s)"
  using assms
proof (induction e)
  case 0
  then show ?case by (cases s) (simp_all add: rstrip_def)
next
  case (Suc e)
  then have "take (Suc (Suc e)) s = take (Suc e) s @ [s ! Suc e]" by (simp add: take_Suc_conv_app_nth)
  with Suc show ?case by (auto simp: rstrip_def)
qed

lemma trim_strip: "trim s = strip s"
proof (cases "dropWhile isspace s = []")
  case True
  show ?thesis unfolding trim_def strip_def Let_def True by (simp add: rstrip_def)
next
  case False
  let ?s = "dropWhile isspace s"
  have "\<not> isspace (?s ! 0)" using False hd_dropWhile [of isspace s] by (simp add: hd_conv_nth)
  moreover have "length ?s - 1 < length ?s" using False by (cases ?s) simp_all
  moreover have "Suc (length ?s - 1) = length ?s" using False by (cases ?s) simp_all
  ultimately have "take (trim_end ?s (length ?s - 1) + 1) ?s = rstrip ?s"
    using trim_end_rstrip [of "length ?s - 1" ?s] by simp
  then show ?thesis unfolding trim_def strip_def Let_def if_not_P [OF False] .
qed

lemma dropWhile_all: "\<forall>c \<in> set ws. isspace c \<Longrightarrow> dropWhile isspace (ws @ s) = dropWhile isspace s"
  by (induction ws) auto

lemma rstrip_all: "\<forall>c \<in> set ws. isspace c \<Longrightarrow> rstrip (s @ ws) = rstrip s"
  using dropWhile_all [of "rev ws" "rev s"] by (simp add: rstrip_def)

lemma rstrip_snoc: "\<not> isspace c \<Longrightarrow> rstrip (s @ [c]) = s @ [c]"
  by (simp add: rstrip_def)

lemma rstrip_keeps: "\<not> isspace c \<Longrightarrow> rstrip (a @ c # b) = a @ c # rstrip b"
proof -
  assume c: "\<not> isspace c"
  then show ?thesis
    by (cases "\<forall>x \<in> set b. isspace x")
       (auto simp: rstrip_def dropWhile_append dropWhile_eq_Nil_conv)
qed

lemma rstrip_decomp: "\<exists>ws. s = rstrip s @ ws \<and> (\<forall>c \<in> set ws. isspace c)"
proof -
  have "s = rstrip s @ rev (takeWhile isspace (rev s))"
    unfolding rstrip_def by (metis rev_append rev_rev_ident takeWhile_dropWhile_id)
  then show ?thesis by (metis set_rev set_takeWhileD)
qed

lemma strip_spaces:
  assumes "\<forall>c \<in> set ws. isspace c" and "\<forall>c \<in> set ws'. isspace c"
  shows "strip (ws @ s @ ws') = strip s"
proof (cases "dropWhile isspace s = []")
  case True
  then have "\<forall>c \<in> set (ws @ s @ ws'). isspace c" using assms by (auto simp: dropWhile_eq_Nil_conv)
  then have all: "dropWhile isspace (ws @ s @ ws') = []" by (simp add: dropWhile_eq_Nil_conv)
  show ?thesis unfolding strip_def all True by (rule refl)
next
  case False
  then have "dropWhile isspace (s @ ws') = dropWhile isspace s @ ws'"
    by (auto simp: dropWhile_append dropWhile_eq_Nil_conv)
  then show ?thesis using assms by (simp add: strip_def dropWhile_all rstrip_all)
qed

lemma strip_rstrip [simp]: "strip (rstrip s) = strip s"
  using rstrip_decomp [of s] strip_spaces [of "[]" _ "rstrip s"] by (metis append_Nil empty_iff list.set(1))

lemma dropWhile_twice: "dropWhile P (dropWhile P s) = dropWhile P s"
  by (induction s) auto

lemma strip_dropWhile [simp]: "strip (dropWhile isspace s) = strip s"
  by (simp add: strip_def dropWhile_twice)

lemma isspace_eq [simp]: "\<not> isspace (CHR ''='')" "\<not> isspace (CHR ''['')" "\<not> isspace (CHR '']'')"
  "isspace (CHR '' '')" "isspace newline"
  by (simp_all add: isspace_def)

lemma strip_split:
  "strip (a @ CHR ''='' # b) = dropWhile isspace a @ CHR ''='' # rstrip b"
  by (cases "\<forall>x \<in> set a. isspace x")
     (auto simp: strip_def dropWhile_append dropWhile_eq_Nil_conv rstrip_keeps rstrip_keeps [of _ "[]", simplified])

section \<open>Reading one line\<close>

lemma takeWhile_eq_split: "CHR ''='' \<notin> set a \<Longrightarrow> takeWhile (\<lambda>c. c \<noteq> CHR ''='') (a @ CHR ''='' # b) = a"
  by (induction a) auto

lemma dropWhile_eq_split: "CHR ''='' \<notin> set a \<Longrightarrow> dropWhile (\<lambda>c. c \<noteq> CHR ''='') (a @ CHR ''='' # b) = CHR ''='' # b"
  by (induction a) auto

lemma c_string_id: "NUL \<notin> set s \<Longrightarrow> c_string s = s"
  by (auto simp: c_string_def takeWhile_eq_all_conv)

lemma config_parse_line_entry:
  assumes "NUL \<notin> set (a @ b)" and "CHR ''='' \<notin> set a"
    and "hd (dropWhile isspace a @ [CHR ''='']) \<notin> {CHR ''#'', CHR ''[''}"
  shows "config_parse_line sec config (a @ CHR ''='' # b) = (sec, config_set_string config sec (trim a) (trim b))"
proof -
  let ?a = "dropWhile isspace a"
  have cs: "c_string (a @ CHR ''='' # b) = a @ CHR ''='' # b" using assms(1) by (intro c_string_id) auto
  have l: "trim (c_string (a @ CHR ''='' # b)) = ?a @ CHR ''='' # rstrip b"
    unfolding cs trim_strip by (rule strip_split)
  have notin: "CHR ''='' \<notin> set ?a" using assms(2) by (meson set_dropWhileD)
  have hd: "hd (?a @ CHR ''='' # rstrip b) = hd (?a @ [CHR ''=''])" by (simp add: hd_append)
  show ?thesis
    unfolding config_parse_line_def Let_def l takeWhile_eq_split [OF notin] dropWhile_eq_split [OF notin]
    using assms(3) hd by (simp add: trim_strip)
qed

lemma trim_header:
  assumes "NUL \<notin> set name"
  shows "trim (c_string (CHR ''['' # name @ [CHR '']'', newline])) = CHR ''['' # name @ [CHR '']'']"
proof -
  have cs: "c_string (CHR ''['' # name @ [CHR '']'', newline]) = CHR ''['' # name @ [CHR '']'', newline]"
    using assms by (intro c_string_id) auto
  have "rstrip ((CHR ''['' # name) @ CHR '']'' # [newline]) = (CHR ''['' # name) @ CHR '']'' # rstrip [newline]"
    by (rule rstrip_keeps) simp
  moreover have "rstrip [newline] = []" by (simp add: rstrip_def)
  ultimately show ?thesis unfolding cs trim_strip strip_def by simp
qed

lemma config_parse_line_header:
  assumes "NUL \<notin> set name"
  shows "config_parse_line sec config (CHR ''['' # name @ [CHR '']'', newline]) = (name, config)"
proof -
  have "(CHR ''['' # name @ [CHR '']'']) ! (length (CHR ''['' # name @ [CHR '']'']) - 1) = CHR '']''"
    by (simp add: nth_append)
  then show ?thesis unfolding config_parse_line_def trim_header [OF assms] by simp
qed

lemma config_parse_line_blank: "config_parse_line sec config [newline] = (sec, config)"
  by (simp add: config_parse_line_def c_string_def trim_def)

text \<open>A line that fits the buffer is read as a whole.\<close>

lemma take_line_whole:
  "newline \<notin> set t \<Longrightarrow> length t < n \<Longrightarrow> take_line n (t @ newline # rest) = (t @ [newline], rest)"
proof (induction t arbitrary: n)
  case Nil
  then show ?case by (cases n) simp_all
next
  case (Cons c t)
  then show ?case by (cases n) auto
qed

lemma config_parse_loop_line:
  assumes "newline \<notin> set t" and "length t < 1023"
  shows "config_parse_loop (t @ newline # rest) sec config =
    (let (sec1, config1) = config_parse_line sec config (t @ [newline]) in config_parse_loop rest sec1 config1)"
  using take_line_whole [OF assms, of rest]
  by (subst config_parse_loop.simps) (simp add: fgets_def)

lemma config_parse_loop_Nil [simp]: "config_parse_loop [] sec config = config"
  by (subst config_parse_loop.simps) (simp add: fgets_def)

section \<open>Reading any file\<close>

text \<open>The section name never outgrows the 1024-byte buffer it is kept in.\<close>

lemma length_trim: "length (trim s) \<le> length s"
  unfolding trim_def Let_def using length_dropWhile_le [of isspace s] by (simp add: min_le_iff_disj)

lemma length_take_line: "length (fst (take_line n s)) \<le> n"
  by (induction n s rule: take_line.induct) (auto split: prod.splits)

lemma config_parse_line_section:
  assumes "length line \<le> 1023" and "length sec < 1024"
  shows "length (fst (config_parse_line sec config line)) < 1024"
proof -
  have "length (c_string line) \<le> length line" unfolding c_string_def by (rule length_takeWhile_le)
  then have "length (trim (c_string line)) \<le> 1023" using length_trim [of "c_string line"] assms(1) by linarith
  then show ?thesis using assms(2) by (auto simp: config_parse_line_def Let_def)
qed

lemma config_parse_line_wf: "config_wf config \<Longrightarrow> config_wf (snd (config_parse_line sec config line))"
  by (simp add: config_parse_line_def Let_def config_set_string_wf)

lemma config_parse_loop_wf: "config_wf config \<Longrightarrow> config_wf (config_parse_loop file sec config)"
proof (induction "file" sec config rule: config_parse_loop.induct)
  case (1 "file" sec config)
  show ?case
  proof (cases "fgets 1024 file")
    case None
    then show ?thesis using 1(2) by (subst config_parse_loop.simps) simp
  next
    case (Some lr)
    obtain line rest where lr: "lr = (line, rest)" by (cases lr)
    obtain sec1 config1 where step: "config_parse_line sec config line = (sec1, config1)"
      by (cases "config_parse_line sec config line")
    have "config_wf config1" using config_parse_line_wf [OF 1(2), of sec line] step by simp
    then have "config_wf (config_parse_loop rest sec1 config1)"
      using 1(1) [OF Some lr [symmetric] refl step [symmetric]] by simp
    then show ?thesis using Some lr step by (subst config_parse_loop.simps) simp
  qed
qed

lemma strip_strip [simp]: "strip (strip s) = strip s"
proof -
  have "strip (strip s) = strip (rstrip (dropWhile isspace s))" by (simp only: strip_def [of s])
  also have "\<dots> = strip s" by simp
  finally show ?thesis .
qed

section \<open>Writing and reading back\<close>

text \<open>Configurations whose text reads back: what the file format can express.\<close>

definition plain :: "string \<Rightarrow> bool" where
  "plain s \<longleftrightarrow> NUL \<notin> set s \<and> newline \<notin> set s"

definition entry_ok :: "entry_t \<Rightarrow> bool" where
  "entry_ok e \<longleftrightarrow> plain (cfg_key e) \<and> plain (cfg_value e) \<and>
     trim (cfg_key e) = cfg_key e \<and> trim (cfg_value e) = cfg_value e \<and>
     CHR ''='' \<notin> set (cfg_key e) \<and>
     (cfg_key e \<noteq> [] \<longrightarrow> hd (cfg_key e) \<notin> {CHR ''#'', CHR ''[''}) \<and>
     length (cfg_key e) + length (cfg_value e) < 1020"

definition sec_ok :: "section_t \<Rightarrow> bool" where
  "sec_ok sec \<longleftrightarrow> plain (sec_name sec) \<and> length (sec_name sec) < 1021 \<and> sec_entries sec \<noteq> [] \<and>
     (\<forall>e \<in> set (sec_entries sec). entry_ok e)"

definition saveable :: "config_t \<Rightarrow> bool" where
  "saveable config \<longleftrightarrow> config_wf config \<and> (\<forall>sec \<in> set (sections config). sec_ok sec)"

lemma entry_key_start:
  assumes "trim k = k" and "k \<noteq> [] \<longrightarrow> hd k \<notin> {CHR ''#'', CHR ''[''}"
  shows "hd (dropWhile isspace (k @ '' '') @ [CHR ''='']) \<notin> {CHR ''#'', CHR ''[''}"
proof (cases k)
  case Nil
  then show ?thesis by simp
next
  case (Cons c cs)
  have "\<not> isspace c"
  proof
    assume "isspace c"
    then have "length (dropWhile isspace k) < length k"
      using Cons length_dropWhile_le [of isspace cs] by simp
    moreover have "length (trim k) \<le> length (dropWhile isspace k)"
      unfolding trim_def Let_def by simp
    ultimately show False using assms(1) by simp
  qed
  then show ?thesis using assms(2) Cons by simp
qed

lemma config_parse_entry_line:
  assumes ok: "entry_ok e"
  shows "config_parse_loop (entry_line e @ rest) sec config =
    config_parse_loop rest sec (config_set_string config sec (cfg_key e) (cfg_value e))"
proof -
  let ?k = "cfg_key e" and ?v = "cfg_value e"
  have e: "entry_line e @ rest = (?k @ '' = '' @ ?v) @ newline # rest" by (simp add: entry_line_def)
  have k: "trim (?k @ '' '') = ?k"
    using strip_spaces [of "[]" "'' ''" ?k] ok by (simp add: trim_strip entry_ok_def)
  have v: "trim ('' '' @ ?v @ [newline]) = ?v"
    using strip_spaces [of "'' ''" "[newline]" ?v] ok by (simp add: trim_strip entry_ok_def)
  have "config_parse_line sec config ((?k @ '' '') @ CHR ''='' # ('' '' @ ?v @ [newline])) =
      (sec, config_set_string config sec (trim (?k @ '' '')) (trim ('' '' @ ?v @ [newline])))"
    by (rule config_parse_line_entry) (use ok entry_key_start [of ?k] in \<open>auto simp: entry_ok_def plain_def\<close>)
  then have line: "config_parse_line sec config ((?k @ '' = '' @ ?v) @ [newline]) =
      (sec, config_set_string config sec ?k ?v)"
    unfolding k v by simp
  show ?thesis
    unfolding e
    by (subst config_parse_loop_line) (use ok line in \<open>auto simp: entry_ok_def plain_def\<close>)
qed

lemma config_parse_header_line:
  assumes "plain (sec_name s)" and "length (sec_name s) < 1021"
  shows "config_parse_loop (header_line s @ rest) sec config = config_parse_loop rest (sec_name s) config"
proof -
  have e: "header_line s @ rest = (CHR ''['' # sec_name s @ [CHR '']'']) @ newline # rest"
    by (simp add: header_line_def)
  have line: "config_parse_line sec config ((CHR ''['' # sec_name s @ [CHR '']'']) @ [newline]) = (sec_name s, config)"
    using config_parse_line_header [of "sec_name s" sec config] assms(1) by (simp add: plain_def)
  show ?thesis
    unfolding e by (subst config_parse_loop_line) (use assms line in \<open>auto simp: plain_def\<close>)
qed

text \<open>The sections read so far, the last one as far as its entries have been read.\<close>

definition add_section :: "section_t list \<Rightarrow> string \<Rightarrow> entry_t list \<Rightarrow> config_t" where
  "add_section secs name es =
     \<lparr>sections = secs @ (if es = [] then [] else [\<lparr>sec_name = name, sec_entries = es\<rparr>])\<rparr>"

lemma set_entry_new: "k \<notin> cfg_key ` set es \<Longrightarrow> set_entry es k v = es @ [entry_new k v]"
  by (induction es) auto

lemma change_section_last:
  "name \<notin> sec_name ` set secs \<Longrightarrow> sec_name s = name \<Longrightarrow> change_section (secs @ [s]) name f = secs @ [f s]"
  by (induction secs) auto

lemma config_set_string_add:
  assumes "name \<notin> sec_name ` set secs" and "k \<notin> cfg_key ` set es"
  shows "config_set_string (add_section secs name es) name k v = add_section secs name (es @ [entry_new k v])"
proof -
  have none: "section_find_loop secs name = None" using assms(1) by (simp add: section_find_None)
  have "change_section (secs @ [\<lparr>sec_name = name, sec_entries = es\<rparr>]) name
      (\<lambda>sec. sec\<lparr>sec_entries := set_entry (sec_entries sec) k v\<rparr>) =
      secs @ [\<lparr>sec_name = name, sec_entries = es @ [entry_new k v]\<rparr>]"
    using assms by (simp add: change_section_last set_entry_new)
  then show ?thesis
    using none by (auto simp: config_set_string_def add_section_def section_find_def section_new_def split: if_splits)
qed

lemma entry_new_same [simp]: "entry_new (cfg_key e) (cfg_value e) = (e :: entry_t)"
  by (cases e) (simp add: entry_new_def)

lemma config_parse_entries:
  assumes "\<forall>e \<in> set es. entry_ok e" and "name \<notin> sec_name ` set secs" and "distinct (map cfg_key (es0 @ es))"
  shows "config_parse_loop (concat (map entry_line es) @ rest) name (add_section secs name es0) =
    config_parse_loop rest name (add_section secs name (es0 @ es))"
  using assms
proof (induction es arbitrary: es0)
  case (Cons e es)
  have "cfg_key e \<notin> cfg_key ` set es0" using Cons.prems(3) by auto
  then have "config_parse_loop (concat (map entry_line (e # es)) @ rest) name (add_section secs name es0) =
      config_parse_loop (concat (map entry_line es) @ rest) name (add_section secs name (es0 @ [e]))"
    using config_parse_entry_line [of e "concat (map entry_line es) @ rest" name "add_section secs name es0"]
      config_set_string_add [OF Cons.prems(2)] Cons.prems(1) by simp
  also have "\<dots> = config_parse_loop rest name (add_section secs name ((es0 @ [e]) @ es))"
    using Cons.prems by (intro Cons.IH) auto
  finally show ?case by simp
qed simp

text \<open>The text of a list of sections: an empty line between two sections.\<close>

fun sections_text :: "section_t list \<Rightarrow> string" where
  "sections_text [] = []"
| "sections_text (sec # secs) =
     header_line sec @ concat (map entry_line (sec_entries sec)) @
     (if secs \<noteq> [] then [newline] else []) @ sections_text secs"

lemma config_parse_sections:
  assumes "\<forall>sec \<in> set secs. sec_ok sec" and "distinct (map sec_name (done @ secs))"
    and "\<forall>sec \<in> set secs. distinct (map cfg_key (sec_entries sec))"
  shows "config_parse_loop (sections_text secs) name \<lparr>sections = done\<rparr> = \<lparr>sections = done @ secs\<rparr>"
  using assms
proof (induction secs arbitrary: "done" name)
  case (Cons sec secs)
  let ?rest = "(if secs \<noteq> [] then [newline] else []) @ sections_text secs"
  have ok: "plain (sec_name sec)" "length (sec_name sec) < 1021" "sec_entries sec \<noteq> []" "\<forall>e \<in> set (sec_entries sec). entry_ok e"
    using Cons.prems(1) by (simp_all add: sec_ok_def)
  have new: "sec_name sec \<notin> sec_name ` set done" using Cons.prems(2) by auto
  have "config_parse_loop (sections_text (sec # secs)) name \<lparr>sections = done\<rparr> =
      config_parse_loop (concat (map entry_line (sec_entries sec)) @ ?rest) (sec_name sec) (add_section done (sec_name sec) [])"
    using config_parse_header_line [OF ok(1,2), of "concat (map entry_line (sec_entries sec)) @ ?rest" name "\<lparr>sections = done\<rparr>"]
    by (simp add: add_section_def)
  also have "\<dots> = config_parse_loop ?rest (sec_name sec) (add_section done (sec_name sec) ([] @ sec_entries sec))"
    using Cons.prems(3) ok(4) new by (intro config_parse_entries) simp_all
  also have "add_section done (sec_name sec) ([] @ sec_entries sec) = \<lparr>sections = done @ [sec]\<rparr>"
    using ok(3) by (cases sec) (simp add: add_section_def)
  also have "config_parse_loop ?rest (sec_name sec) \<lparr>sections = done @ [sec]\<rparr> =
      config_parse_loop (sections_text secs) (sec_name sec) \<lparr>sections = done @ [sec]\<rparr>"
    using config_parse_loop_line [of "[]" "sections_text secs" "sec_name sec" "\<lparr>sections = done @ [sec]\<rparr>"]
    by (simp add: config_parse_line_blank)
  also have "\<dots> = \<lparr>sections = (done @ [sec]) @ secs\<rparr>"
    using Cons.prems by (intro Cons.IH) simp_all
  finally show ?case by simp
qed simp

lemma save_entries_text:
  "(\<And>n. wr n) \<Longrightarrow> \<exists>m. save_entries wr es (n, out) = Some (m, out @ concat (map entry_line es))"
proof (induction es arbitrary: n out)
  case (Cons e es)
  then show ?case using Cons.IH [of "Suc n" "out @ entry_line e"] by (simp add: put_text_def)
qed simp

lemma save_sections_text:
  "(\<And>n. wr n) \<Longrightarrow> \<exists>m. save_sections wr secs (n, out) = Some (m, out @ sections_text secs)"
proof (induction secs arbitrary: n out)
  case (Cons sec secs)
  obtain m where es: "save_entries wr (sec_entries sec) (Suc n, out @ header_line sec) =
      Some (m, (out @ header_line sec) @ concat (map entry_line (sec_entries sec)))"
    using save_entries_text Cons.prems by blast
  have put: "put_text wr t (i, o1) = Some (Suc i, o1 @ t)" for t i o1
    using Cons.prems by (simp add: put_text_def)
  let ?out = "(out @ header_line sec) @ concat (map entry_line (sec_entries sec))"
  show ?case
  proof (cases "secs = []")
    case False
    obtain k where "save_sections wr secs (Suc m, ?out @ [newline]) = Some (k, (?out @ [newline]) @ sections_text secs)"
      using Cons.IH [OF Cons.prems] by blast
    with False es show ?thesis by (simp add: put)
  qed (use es in \<open>simp add: put\<close>)
qed simp

section \<open>The file format\<close>

text \<open>
  What a line means, said without the functions of the reader: nothing, the start of a section, or
  an assignment. White space around a line, a key and a value does not count.
\<close>

datatype cfg_line = Skip | Header string | Assign string string

definition spaces :: "string \<Rightarrow> bool" where
  "spaces ws \<longleftrightarrow> (\<forall>c \<in> set ws. isspace c)"

definition trimmed :: "string \<Rightarrow> bool" where
  "trimmed s \<longleftrightarrow> s = [] \<or> \<not> isspace (hd s) \<and> \<not> isspace (last s)"

inductive line_means :: "string \<Rightarrow> cfg_line \<Rightarrow> bool" where
  blank: "spaces ws \<Longrightarrow> line_means ws Skip"
| comment: "spaces ws \<Longrightarrow> line_means (ws @ CHR ''#'' # t) Skip"
| header: "spaces ws \<Longrightarrow> spaces ws' \<Longrightarrow> line_means (ws @ CHR ''['' # name @ CHR '']'' # ws') (Header name)"
| unterminated: "spaces ws \<Longrightarrow> spaces ws' \<Longrightarrow> trimmed (CHR ''['' # t) \<Longrightarrow> last (CHR ''['' # t) \<noteq> CHR '']'' \<Longrightarrow>
    line_means (ws @ (CHR ''['' # t) @ ws') Skip"
| assign: "spaces ws \<Longrightarrow> spaces ws1 \<Longrightarrow> spaces ws2 \<Longrightarrow> spaces ws3 \<Longrightarrow> trimmed key \<Longrightarrow> trimmed val \<Longrightarrow>
    CHR ''='' \<notin> set key \<Longrightarrow> hd (key @ [CHR ''='']) \<notin> {CHR ''#'', CHR ''[''} \<Longrightarrow>
    line_means (ws @ key @ ws1 @ CHR ''='' # ws2 @ val @ ws3) (Assign key val)"
| no_separator: "spaces ws \<Longrightarrow> \<not> isspace c \<Longrightarrow> c \<notin> {CHR ''#'', CHR ''[''} \<Longrightarrow> CHR ''='' \<notin> set (c # t) \<Longrightarrow>
    line_means (ws @ c # t) Skip"

text \<open>The assignments of a sequence of lines, with their sections, and the configuration after them.\<close>

fun assigns :: "string \<Rightarrow> cfg_line list \<Rightarrow> (string \<times> string \<times> string) list" where
  "assigns sec [] = []"
| "assigns sec (Skip # ls) = assigns sec ls"
| "assigns sec (Header name # ls) = assigns name ls"
| "assigns sec (Assign key val # ls) = (sec, key, val) # assigns sec ls"

definition make_assigns :: "(string \<times> string \<times> string) list \<Rightarrow> config_t \<Rightarrow> config_t" where
  "make_assigns = fold (\<lambda>(sec, key, val) config. config_set_string config sec key val)"

text \<open>The effect of one line on the section and the configuration.\<close>

fun line_effect :: "cfg_line \<Rightarrow> string \<Rightarrow> config_t \<Rightarrow> string \<times> config_t" where
  "line_effect Skip sec config = (sec, config)"
| "line_effect (Header name) sec config = (name, config)"
| "line_effect (Assign key val) sec config = (sec, config_set_string config sec key val)"

lemma spacesD: "spaces ws \<Longrightarrow> \<forall>c \<in> set ws. isspace c"
  by (simp add: spaces_def)

lemma strip_trimmed: "trimmed s \<Longrightarrow> strip s = s"
proof (cases s rule: rev_cases)
  case (snoc t c)
  assume tr: "trimmed s"
  have c: "\<not> isspace c" using tr snoc by (simp add: trimmed_def)
  have "dropWhile isspace s = s" using tr by (cases s) (simp_all add: trimmed_def)
  then have "strip s = rstrip (t @ [c])" by (simp only: strip_def snoc)
  also have "\<dots> = s" using rstrip_snoc [OF c] snoc by simp
  finally show ?thesis .
qed (simp add: strip_def rstrip_def)

lemma trimmed_strip: "trimmed (strip s)"
proof (cases "strip s" rule: rev_cases)
  case (snoc t c)
  have r: "dropWhile isspace (rev (dropWhile isspace s)) = c # rev t"
    using snoc by (metis rev_append rev_rev_ident rev_singleton_conv rstrip_def strip_def append_Cons append_Nil)
  have "\<not> isspace c" using hd_dropWhile [of isspace "rev (dropWhile isspace s)"] unfolding r by simp
  moreover have "\<not> isspace (hd (strip s))"
  proof -
    obtain ws where "dropWhile isspace s = strip s @ ws" using rstrip_decomp unfolding strip_def by blast
    then have "hd (dropWhile isspace s) = hd (strip s)" "dropWhile isspace s \<noteq> []" using snoc by (auto simp: hd_append)
    then show ?thesis using hd_dropWhile [of isspace s] by simp
  qed
  ultimately show ?thesis using snoc by (simp add: trimmed_def)
qed (simp add: trimmed_def)

lemma strip_cut: "\<exists>ws ws'. spaces ws \<and> spaces ws' \<and> s = ws @ strip s @ ws'"
proof -
  obtain ws' where "dropWhile isspace s = strip s @ ws'" "\<forall>c \<in> set ws'. isspace c"
    using rstrip_decomp unfolding strip_def by blast
  moreover have "s = takeWhile isspace s @ dropWhile isspace s" by simp
  moreover have "spaces (takeWhile isspace s)" by (auto simp: spaces_def dest: set_takeWhileD)
  ultimately show ?thesis unfolding spaces_def by metis
qed

text \<open>Only the trimmed text of a line matters to the reader.\<close>

lemma config_parse_line_strip:
  assumes "NUL \<notin> set t"
  shows "config_parse_line sec config t = config_parse_line sec config (strip t)"
proof -
  have "NUL \<notin> set (strip t)" using assms strip_cut [of t] by (metis Un_iff set_append)
  then show ?thesis using assms by (simp add: config_parse_line_def c_string_id trim_strip)
qed

lemma config_parse_line_means:
  assumes "line_means t kind" and "NUL \<notin> set t" and "spaces e"
  shows "config_parse_line sec config (t @ e) = line_effect kind sec config"
proof -
  have "\<not> isspace NUL" by (simp add: isspace_def)
  then have e: "NUL \<notin> set e" using spacesD [OF assms(3)] by blast
  have st: "strip (t @ e) = strip t" using strip_spaces [of "[]" e t] assms(3) by (simp add: spaces_def)
  have "config_parse_line sec config (t @ e) = config_parse_line sec config (strip t)"
    using config_parse_line_strip [of "t @ e" sec config] assms(2) e unfolding st by simp
  also have "\<dots> = config_parse_line sec config t" by (rule config_parse_line_strip [OF assms(2), symmetric])
  also have "\<dots> = line_effect kind sec config"
    using assms(1)
  proof cases
    case blank
    then have "strip t = []" using strip_spaces [of t "[]" "[]"] by (simp add: spaces_def strip_def rstrip_def)
    then show ?thesis using assms(2) blank by (simp add: config_parse_line_def c_string_id trim_strip)
  next
    case (comment ws r)
    have "strip t = CHR ''#'' # rstrip r"
      using comment strip_spaces [of ws "[]" "CHR ''#'' # r"] rstrip_keeps [of "CHR ''#''" "[]" r]
      by (simp add: spaces_def strip_def isspace_def)
    then show ?thesis using assms(2) comment by (simp add: config_parse_line_def c_string_id trim_strip)
  next
    case (header ws ws' name)
    have "strip t = CHR ''['' # name @ [CHR '']'']"
      using header strip_spaces [of ws ws' "CHR ''['' # name @ [CHR '']'']"]
        strip_trimmed [of "CHR ''['' # name @ [CHR '']'']"]
      by (simp add: spaces_def trimmed_def)
    then show ?thesis using assms(2) header
      by (simp add: config_parse_line_def c_string_id trim_strip nth_append)
  next
    case (unterminated ws ws' r)
    have "strip t = CHR ''['' # r"
      using unterminated strip_spaces [of ws ws' "CHR ''['' # r"] strip_trimmed [of "CHR ''['' # r"]
      by (simp add: spaces_def)
    moreover have "(CHR ''['' # r) ! length r = last (CHR ''['' # r)"
      using last_conv_nth [of "CHR ''['' # r"] by simp
    ultimately show ?thesis using assms(2) unterminated
      by (simp add: config_parse_line_def c_string_id trim_strip)
  next
    case (assign ws ws1 ws2 ws3 key val)
    let ?a = "ws @ key @ ws1" and ?b = "ws2 @ val @ ws3"
    have k: "trim ?a = key" "trim ?b = val"
      using assign strip_spaces [of ws ws1 key] strip_spaces [of ws2 ws3 val] strip_trimmed
      by (simp_all add: spaces_def trim_strip)
    have "hd (dropWhile isspace ?a @ [CHR ''='']) \<notin> {CHR ''#'', CHR ''[''}"
    proof (cases key)
      case Nil
      then have "\<forall>c \<in> set ?a. isspace c" using assign by (auto simp: spaces_def)
      then have none: "dropWhile isspace ?a = []" by (simp only: dropWhile_eq_Nil_conv)
      show ?thesis unfolding none by simp
    next
      case (Cons c cs)
      then have "dropWhile isspace ?a = key @ ws1"
        using assign dropWhile_all [of ws "key @ ws1"] by (simp add: spaces_def trimmed_def)
      then show ?thesis using Cons assign by simp
    qed
    moreover have "CHR ''='' \<notin> set ?a" "NUL \<notin> set (?a @ ?b)"
      using assign assms(2) by (auto simp: spaces_def)
    ultimately have "config_parse_line sec config (?a @ CHR ''='' # ?b) =
        (sec, config_set_string config sec (trim ?a) (trim ?b))"
      by (intro config_parse_line_entry) auto
    then show ?thesis unfolding k using assign by simp
  next
    case (no_separator ws c r)
    have "strip t = c # rstrip r"
      using no_separator strip_spaces [of ws "[]" "c # r"] rstrip_keeps [of c "[]" r]
      by (simp add: spaces_def strip_def)
    moreover have "CHR ''='' \<notin> set (rstrip r)"
      using no_separator rstrip_decomp [of r] by (metis Un_iff list.set_intros(2) set_append)
    ultimately show ?thesis using assms(2) no_separator
      by (auto simp: config_parse_line_def c_string_id trim_strip)
  qed
  finally show ?thesis .
qed

text \<open>Every line has a meaning.\<close>

lemma line_means_total: "\<exists>kind. line_means t kind"
proof -
  obtain ws ws' where cut: "spaces ws" "spaces ws'" "t = ws @ strip t @ ws'" using strip_cut by blast
  have trim: "trimmed (strip t)" by (rule trimmed_strip)
  show ?thesis
  proof (cases "strip t")
    case Nil
    then show ?thesis using cut line_means.blank [of t] by (auto simp: spaces_def)
  next
    case (Cons c r)
    have c: "\<not> isspace c" using trim Cons by (simp add: trimmed_def)
    consider "c = CHR ''#''" | "c = CHR ''[''" "last (c # r) = CHR '']''" | "c = CHR ''[''" "last (c # r) \<noteq> CHR '']''"
      | "c \<notin> {CHR ''#'', CHR ''[''}" "CHR ''='' \<in> set (c # r)" | "c \<notin> {CHR ''#'', CHR ''[''}" "CHR ''='' \<notin> set (c # r)"
      by auto
    then show ?thesis
    proof cases
      case 1
      then show ?thesis using line_means.comment [OF cut(1), of "r @ ws'"] cut(3) Cons by auto
    next
      case 2
      then obtain name where "r = name @ [CHR '']'']" by (cases r rule: rev_cases) auto
      then show ?thesis using 2 line_means.header [OF cut(1,2), of name] cut(3) Cons by auto
    next
      case 3
      then show ?thesis using line_means.unterminated [OF cut(1,2), of r] trim cut(3) Cons by auto
    next
      case 4
      then obtain a b where ab: "c # r = a @ CHR ''='' # b" "CHR ''='' \<notin> set a" by (meson split_list_first)
      obtain w0 w1 where a: "spaces w0" "spaces w1" "a = w0 @ strip a @ w1" using strip_cut by blast
      obtain w2 w3 where b: "spaces w2" "spaces w3" "b = w2 @ strip b @ w3" using strip_cut by blast
      have key: "hd (strip a @ [CHR ''='']) \<notin> {CHR ''#'', CHR ''[''}"
      proof (cases "strip a")
        case (Cons d ds)
        have "w0 = []"
        proof (rule ccontr)
          assume "w0 \<noteq> []"
          then have "hd a = hd w0" "a \<noteq> []" using a(3) by (metis hd_append2, metis append_is_Nil_conv)
          moreover have "hd a = c" using ab(1) \<open>a \<noteq> []\<close> by (metis hd_append2 list.sel(1))
          ultimately show False using c a(1) \<open>w0 \<noteq> []\<close> by (simp add: spaces_def)
        qed
        then have "d = c" using a(3) ab(1) Cons by (metis append_Cons append_Nil list.inject)
        then show ?thesis using 4(1) Cons by simp
      qed simp
      have "CHR ''='' \<notin> set (strip a)" using a(3) ab(2) by (metis Un_iff set_append)
      moreover have "spaces (ws @ w0)" "spaces (w3 @ ws')" using cut a b by (auto simp: spaces_def)
      ultimately have "line_means ((ws @ w0) @ strip a @ w1 @ CHR ''='' # w2 @ strip b @ (w3 @ ws')) (Assign (strip a) (strip b))"
        using line_means.assign [of "ws @ w0" w1 w2 "w3 @ ws'" "strip a" "strip b"] a(2) b(1) trimmed_strip key by blast
      moreover have "t = (ws @ w0) @ strip a @ w1 @ CHR ''='' # w2 @ strip b @ (w3 @ ws')"
        using cut(3) Cons ab(1) a(3) b(3) by (metis append.assoc append_Cons)
      ultimately show ?thesis by metis
    next
      case 5
      moreover have "CHR ''='' \<notin> set (c # r @ ws')" using 5 cut(2) by (auto simp: spaces_def)
      ultimately show ?thesis using line_means.no_separator [OF cut(1) c, of "r @ ws'"] cut(3) Cons by auto
    qed
  qed
qed

lemma list_all2_total: "(\<And>x. \<exists>y. P x y) \<Longrightarrow> \<exists>ys. list_all2 P xs ys"
proof (induction xs)
  case (Cons x xs)
  then obtain y ys where "P x y" "list_all2 P xs ys" by blast
  then show ?case by (intro exI [of _ "y # ys"]) simp
qed (auto intro: exI [of _ "[]"])

text \<open>A whole text: its lines, the last one possibly without a newline.\<close>

lemma take_line_last: "newline \<notin> set u \<Longrightarrow> length u \<le> n \<Longrightarrow> take_line n u = (u, [])"
proof (induction u arbitrary: n)
  case Nil
  then show ?case by (cases n) simp_all
next
  case (Cons c u)
  then show ?case by (cases n) auto
qed

lemma config_parse_loop_last:
  assumes "newline \<notin> set u" and "length u < 1023"
  shows "config_parse_loop u sec config = snd (config_parse_line sec config u)"
proof (cases "u = []")
  case True
  then show ?thesis by (simp add: config_parse_line_def c_string_def trim_def)
next
  case False
  with take_line_last [of u 1023] assms show ?thesis
    by (subst config_parse_loop.simps) (simp add: fgets_def case_prod_beta)
qed

lemma config_parse_loop_lines:
  assumes "list_all2 line_means (ts @ [u]) kinds" and "\<forall>t \<in> set (ts @ [u]). plain t \<and> length t < 1023"
  shows "config_parse_loop (concat (map (\<lambda>t. t @ [newline]) ts) @ u) sec config =
    make_assigns (assigns sec kinds) config"
  using assms
proof (induction ts arbitrary: kinds sec config)
  case Nil
  then obtain kind where "kinds = [kind]" "line_means u kind" by (auto simp: list_all2_Cons1)
  then show ?case
    using Nil.prems(2) config_parse_line_means [of u kind "[]" sec config] config_parse_loop_last [of u sec config]
    by (cases kind) (simp_all add: plain_def spaces_def make_assigns_def)
next
  case (Cons t ts)
  then obtain kind ks where ks: "kinds = kind # ks" "line_means t kind" "list_all2 line_means (ts @ [u]) ks"
    by (auto simp: list_all2_Cons1)
  let ?rest = "concat (map (\<lambda>t. t @ [newline]) ts) @ u"
  have t: "newline \<notin> set t" "NUL \<notin> set t" "length t < 1023" using Cons.prems(2) by (auto simp: plain_def)
  have "config_parse_line sec config (t @ [newline]) = line_effect kind sec config"
    using config_parse_line_means [OF ks(2) t(2)] by (simp add: spaces_def)
  then have "config_parse_loop (concat (map (\<lambda>t. t @ [newline]) (t # ts)) @ u) sec config =
      (let (sec1, config1) = line_effect kind sec config in config_parse_loop ?rest sec1 config1)"
    using config_parse_loop_line [OF t(1,3), of ?rest sec config] by simp
  also have "\<dots> = make_assigns (assigns sec kinds) config"
    using Cons.IH [OF ks(3)] Cons.prems(2) ks(1) by (cases kind) (simp_all add: make_assigns_def)
  finally show ?case .
qed

lemma make_assigns_get:
  "config_get_string (make_assigns as config) sec key def =
     (case List.find (\<lambda>(s, k, _). s = sec \<and> k = key) (rev as) of
        None \<Rightarrow> config_get_string config sec key def | Some (_, _, val) \<Rightarrow> Some val)"
proof (induction as rule: rev_induct)
  case (snoc a as)
  obtain s k v where a: "a = (s, k, v)" by (cases a)
  show ?case
    using snoc by (auto simp: a make_assigns_def config_get_string_lookup cfg.look_put split: option.splits)
qed (simp add: make_assigns_def)

section \<open>Properties\<close>

text \<open>A small configuration, and calls that all succeed.\<close>

definition demo_config :: config_t where
  "demo_config = \<lparr>sections = [\<lparr>sec_name = ''Adapter'', sec_entries = [entry_new ''Name'' ''osi = 1'']\<rparr>]\<rparr>"

definition all_ok :: save_env where
  "all_ok = \<lparr>open_ok = True, write_ok = (\<lambda>_. True), close_ok = True, chmod_ok = True, rename_ok = True,
     unlink_ok = True, flushed = []\<rparr>"

lemma demo_config_saveable: "saveable demo_config"
  by (simp add: saveable_def demo_config_def config_wf_def sec_ok_def entry_ok_def plain_def entry_new_def trim_def isspace_def eval_nat_numeral)

text \<open>
  C5. Saving and loading: when every system call succeeds, \<open>config_save\<close> answers true and
  \<open>config_new\<close> on the same name then gives exactly the configuration that was saved, for every
  configuration the file format can express (non-empty sections, trimmed keys and values
  without newlines, lines that fit the reader's buffer, no key that looks like a comment, a
  section header or a separator).
\<close>

theorem config_save_roundtrip:
  assumes "saveable config" and "filename \<noteq> []"
    and "open_ok env" and "\<And>n. write_ok env n" and "close_ok env" and "chmod_ok env" and "rename_ok env"
  shows "\<exists>fs'. config_save env config filename fs = Inr (True, fs') \<and> config_new fs' filename = Some config"
proof -
  obtain m where out: "save_sections (write_ok env) (sections config) (0, []) = Some (m, [] @ sections_text (sections config))"
    using save_sections_text [of "write_ok env" "sections config" 0 "[]"] assms(4) by blast
  have "config_parse_loop (sections_text (sections config)) CONFIG_DEFAULT_SECTION \<lparr>sections = []\<rparr> =
      \<lparr>sections = [] @ sections config\<rparr>"
    using assms(1) by (intro config_parse_sections) (simp_all add: saveable_def config_wf_def)
  then have "config_parse (sections_text (sections config)) config_new_empty = config"
    by (cases config) (simp add: config_parse_def config_new_empty_def)
  then show ?thesis
    using assms out by (simp add: config_save_def config_new_def Let_def)
qed

theorem config_save_roundtrip_witness:
  "saveable demo_config \<and> (\<exists>fs'. config_save all_ok demo_config ''bt.conf'' Map.empty = Inr (True, fs') \<and>
     config_new fs' ''bt.conf'' = Some demo_config)"
  using config_save_roundtrip [OF demo_config_saveable, of "''bt.conf''" all_ok Map.empty] demo_config_saveable
  by (simp add: all_ok_def)



text \<open>
  C29. The reader follows the file format. For every text whose lines fit the buffer (fewer than
  1023 characters, no null character; the last line need not end in a newline), on top of any
  configuration: every line has a meaning in the sense of \<open>line_means\<close>, and whatever meanings the
  lines have, \<open>config_parse\<close> makes exactly their assignments, in order and nothing else, each in
  the section of the last header before it (\<open>Global\<close> before the first). So a key leads to the
  value of its last assignment in that section and, without one, to what it led to before; and
  a well-formed configuration stays well-formed.
\<close>

theorem config_parse_correct:
  assumes "\<forall>t \<in> set (ts @ [u]). plain t \<and> length t < 1023"
  defines "contents \<equiv> concat (map (\<lambda>t. t @ [newline]) ts) @ u"
  shows "(\<exists>kinds. list_all2 line_means (ts @ [u]) kinds) \<and>
    (\<forall>kinds. list_all2 line_means (ts @ [u]) kinds \<longrightarrow>
       config_parse contents config = make_assigns (assigns ''Global'' kinds) config \<and>
       (\<forall>sec key def. config_get_string (config_parse contents config) sec key def =
          (case List.find (\<lambda>(s, k, _). s = sec \<and> k = key) (rev (assigns ''Global'' kinds)) of
             None \<Rightarrow> config_get_string config sec key def | Some (_, _, val) \<Rightarrow> Some val))) \<and>
    (config_wf config \<longrightarrow> config_wf (config_parse contents config))"
proof -
  have "\<exists>kinds. list_all2 line_means (ts @ [u]) kinds" by (rule list_all2_total [OF line_means_total])
  moreover have "config_parse contents config = make_assigns (assigns ''Global'' kinds) config"
    if "list_all2 line_means (ts @ [u]) kinds" for kinds
    using config_parse_loop_lines [OF that assms(1)]
    by (simp add: contents_def config_parse_def CONFIG_DEFAULT_SECTION_def)
  moreover have "config_wf config \<longrightarrow> config_wf (config_parse contents config)"
    using config_parse_loop_wf by (simp add: config_parse_def)
  ultimately show ?thesis using make_assigns_get by simp
qed

theorem config_parse_correct_witness:
  "config_get_string (config_parse (concat (map (\<lambda>t. t @ [newline]) [''# a comment'', '' [A] '', ''x = 1'']) @ ''x= 2'') config_new_empty)
     ''A'' ''x'' None = Some ''2''"
proof -
  have m: "list_all2 line_means ([''# a comment'', '' [A] '', ''x = 1''] @ [''x= 2'']) [Skip, Header ''A'', Assign ''x'' ''1'', Assign ''x'' ''2'']"
    using line_means.comment [of "[]" "'' a comment''"] line_means.header [of "'' ''" "'' ''" "''A''"]
      line_means.assign [of "[]" "'' ''" "'' ''" "[]" "''x''" "''1''"]
      line_means.assign [of "[]" "[]" "'' ''" "[]" "''x''" "''2''"]
    by (simp add: trimmed_def spaces_def isspace_def)
  have l: "\<forall>t \<in> set ([''# a comment'', '' [A] '', ''x = 1''] @ [''x= 2'']). plain t \<and> length t < 1023"
    by (simp add: plain_def)
  show ?thesis
    using conjunct2 [OF conjunct1 [OF conjunct2 [OF config_parse_correct [OF l, of config_new_empty]], rule_format, OF m],
      rule_format, of "''A''" "''x''" None]
    by simp
qed

end
