(* ===== verification/Alarm.thy ===== *)
theory Alarm
  imports Prelude
begin

text \<open>
  The alarm module of \<open>src/alarm.c\<close>: the list of pending alarms ordered by deadline, the two
  kernel timers, the dispatcher that moves expired alarms to their processing queues, and the
  processing of one queued alarm. The \<open>alarms\<close> list and the processing queues are represented by
  their sequences of elements (\<open>OsiList\<close> and \<open>AlarmQueues\<close> show that their operations act on these);
  an alarm is an object in a store. Every operation runs with the monitor held, so it is one
  function on the state of the module; \<open>alarm_queue_ready\<close> is put together from its part under the
  monitor and the two parts around the callback, and \<open>alarm_cancel\<close> has its wait for a running
  callback left out here. The theory \<open>AlarmThreads\<close> interleaves these parts. What the environment answers - the clock, whether a
  wake lock is granted, whether the timer has already fired - is a function of the number of
  readings so far. Times are 64-bit words in milliseconds, all arithmetic wraps around.
\<close>

section \<open>The state\<close>

type_synonym period_ms_t = uint64_t

record stat_t =
  st_count :: size_t
  total_ms :: period_ms_t
  max_ms :: period_ms_t

record alarm_stats_t =
  stats_name :: string
  scheduled_count :: size_t
  canceled_count :: size_t
  rescheduled_count :: size_t
  total_updates :: size_t
  last_update_ms :: period_ms_t
  callback_execution :: stat_t
  overdue_scheduling :: stat_t
  premature_scheduling :: stat_t

record alarm_t =
  creation_time :: period_ms_t
  period :: period_ms_t
  deadline :: period_ms_t
  prev_deadline :: period_ms_t
  is_periodic :: bool
  alarm_queue :: ptr
  callback :: ptr
  cb_data :: ptr
  stats :: alarm_stats_t

text \<open>What the \<open>n\<close>-th question to the environment is answered.\<close>

record alarm_env =
  clk :: "nat \<Rightarrow> period_ms_t"
  acquired :: "nat \<Rightarrow> bool"
  fired :: "nat \<Rightarrow> bool"

text \<open>A timer is armed at seconds and nanoseconds; both zero means disarmed.\<close>

type_synonym timespec = "uint64_t \<times> uint64_t"

datatype resource =
    Monitor | AlarmList | Timer | WakeupTimer | ExpiredSem | CallbackThread | CallbackQueue | DispatcherThread

text \<open>
  The static variables. \<open>made\<close> says whether the pointer \<open>alarms\<close> is not NULL, \<open>held\<close> which resources the
  module has; \<open>queues\<close> and \<open>places\<close> are the contents and the capacities of the processing queues,
  \<open>expired\<close> is the count of the semaphore \<open>alarm_expired\<close>, \<open>ticks\<close> the number of questions asked so far.
\<close>

record alarm_sys =
  made :: bool
  held :: "resource list"
  dispatcher_active :: bool
  objs :: "(ptr \<times> alarm_t) list"
  alarms :: "ptr list"
  queues :: "ptr \<Rightarrow> ptr list"
  places :: "ptr \<Rightarrow> nat"
  timer_set :: bool
  timer_at :: timespec
  wakeup_at :: timespec
  wakelocks :: int
  expired :: nat
  ticks :: nat

section \<open>Statistics\<close>

definition zero_stat :: stat_t where
  "zero_stat = \<lparr>st_count = 0, total_ms = 0, max_ms = 0\<rparr>"

definition update_stat :: "stat_t \<Rightarrow> period_ms_t \<Rightarrow> stat_t" where
  "update_stat st delta =
     \<lparr>st_count = st_count st + 1, total_ms = total_ms st + delta,
      max_ms = (if max_ms st < delta then delta else max_ms st)\<rparr>"

definition update_scheduling_stats ::
  "alarm_stats_t \<Rightarrow> period_ms_t \<Rightarrow> period_ms_t \<Rightarrow> period_ms_t \<Rightarrow> alarm_stats_t" where
  "update_scheduling_stats sts now_ms deadline_ms execution_delta_ms =
     (let s1 = sts\<lparr>total_updates := total_updates sts + 1, last_update_ms := now_ms,
                  callback_execution := update_stat (callback_execution sts) execution_delta_ms\<rparr> in
      if deadline_ms < now_ms then
        s1\<lparr>overdue_scheduling := update_stat (overdue_scheduling s1) (now_ms - deadline_ms)\<rparr>
      else if deadline_ms > now_ms then
        s1\<lparr>premature_scheduling := update_stat (premature_scheduling s1) (deadline_ms - now_ms)\<rparr>
      else s1)"

text \<open>The three numbers \<open>dump_stat\<close> prints: total, maximum and average.\<close>

definition dump_stat :: "stat_t \<Rightarrow> period_ms_t \<times> period_ms_t \<times> period_ms_t" where
  "dump_stat st = (total_ms st, max_ms st, if st_count st \<noteq> 0 then total_ms st div st_count st else 0)"

section \<open>Start and end of the module\<close>

text \<open>Which of the calls of \<open>lazy_initialize\<close> succeed, in their order.\<close>

record init_env =
  list_ok :: bool
  timer_ok :: bool
  wakeup_ok :: bool
  sem_ok :: bool
  cb_thread_ok :: bool
  cb_queue_ok :: bool
  dispatcher_ok :: bool

text \<open>The code at the label \<open>error\<close>: everything that may exist is given back.\<close>

definition init_error :: "bool \<Rightarrow> bool \<Rightarrow> resource list \<Rightarrow> alarm_sys \<Rightarrow> bool \<times> alarm_sys" where
  "init_error timer_initialized wakeup_timer_initialized h s =
     (False, s\<lparr>made := False, dispatcher_active := False,
       held := filter (\<lambda>r. r \<notin> {CallbackQueue, CallbackThread, DispatcherThread, ExpiredSem, AlarmList, Monitor} \<and>
         (r = WakeupTimer \<longrightarrow> \<not> wakeup_timer_initialized) \<and> (r = Timer \<longrightarrow> \<not> timer_initialized)) h\<rparr>)"

definition lazy_initialize :: "init_env \<Rightarrow> alarm_sys \<Rightarrow> (bool \<times> alarm_sys) res" where
  "lazy_initialize ie s =
     rbind (c_assert (\<not> made s)) (\<lambda>_. Inr (
      let h0 = held s @ [Monitor] in
      if \<not> list_ok ie then init_error False False h0 s else
      let h1 = h0 @ [AlarmList] in
      if \<not> timer_ok ie then init_error False False h1 s else
      let h2 = h1 @ [Timer] in
      if \<not> wakeup_ok ie then init_error True False h2 s else
      let h3 = h2 @ [WakeupTimer] in
      if \<not> sem_ok ie then init_error True True h3 s else
      let h4 = h3 @ [ExpiredSem] in
      if \<not> cb_thread_ok ie then init_error True True h4 s else
      let h5 = h4 @ [CallbackThread] in
      if \<not> cb_queue_ok ie then init_error True True h5 s else
      let h6 = h5 @ [CallbackQueue] in
      if \<not> dispatcher_ok ie then init_error True True h6 s else
      (True, s\<lparr>made := True, alarms := [], expired := 0, dispatcher_active := True, held := h6 @ [DispatcherThread]\<rparr>)))"

text \<open>
  \<open>alarm_cleanup\<close>: the call \<open>timer_delete(&timer)\<close> passes the address of the variable that holds the
  timer's id, not the id, so it does not delete the timer. The dispatcher thread, woken by the
  post, sees the flag, ends, and is joined before the semaphore is freed.
\<close>

definition alarm_cleanup :: "alarm_sys \<Rightarrow> alarm_sys" where
  "alarm_cleanup s =
     (if \<not> made s then s
      else s\<lparr>made := False, dispatcher_active := False, alarms := [], expired := 0,
        held := filter (\<lambda>r. r \<notin> {DispatcherThread, CallbackQueue, CallbackThread, ExpiredSem, AlarmList, Monitor}) (held s)\<rparr>)"

section \<open>The operations\<close>

text \<open>
  \<open>now()\<close>: one reading of the clock. A failing \<open>clock_gettime\<close> is logged and answers 0, so it is a clock
  that shows 0 at that reading. The assertion is checked where it is not already known to hold.
\<close>

definition now_ms :: "alarm_env \<Rightarrow> alarm_sys \<Rightarrow> period_ms_t \<times> alarm_sys" where
  "now_ms env s = (clk env (ticks s), s\<lparr>ticks := Suc (ticks s)\<rparr>)"

text \<open>
  \<open>alarm_new_internal\<close>: \<open>p\<close> is the new object, \<open>mutex_ok\<close> says whether the recursive mutex could be made.
\<close>

definition alarm_new_internal :: "init_env \<Rightarrow> bool \<Rightarrow> ptr \<Rightarrow> string \<Rightarrow> bool \<Rightarrow> alarm_sys \<Rightarrow> (ptr \<times> alarm_sys) res" where
  "alarm_new_internal ie mutex_ok p name periodic s0 =
     rbind (if made s0 then Inr s0
            else rbind (lazy_initialize ie s0) (\<lambda>(ok, s1). rbind (c_assert ok) (\<lambda>_. Inr s1))) (\<lambda>s.
     Inr (if \<not> mutex_ok then (NULL, s)
      else (p, s\<lparr>objs := store_at p
        \<lparr>creation_time = 0, period = 0, deadline = 0, prev_deadline = 0, is_periodic = periodic,
         alarm_queue = NULL, callback = NULL, cb_data = NULL,
         stats = \<lparr>stats_name = name, scheduled_count = 0, canceled_count = 0, rescheduled_count = 0,
           total_updates = 0, last_update_ms = 0, callback_execution = zero_stat,
           overdue_scheduling = zero_stat, premature_scheduling = zero_stat\<rparr>\<rparr> (objs s)\<rparr>)))"

definition alarm_new :: "init_env \<Rightarrow> bool \<Rightarrow> ptr \<Rightarrow> string \<Rightarrow> alarm_sys \<Rightarrow> (ptr \<times> alarm_sys) res" where
  "alarm_new ie mutex_ok p name s = alarm_new_internal ie mutex_ok p name False s"

definition alarm_new_periodic :: "init_env \<Rightarrow> bool \<Rightarrow> ptr \<Rightarrow> string \<Rightarrow> alarm_sys \<Rightarrow> (ptr \<times> alarm_sys) res" where
  "alarm_new_periodic ie mutex_ok p name s = alarm_new_internal ie mutex_ok p name True s"

definition alarm_get_remaining_ms :: "alarm_env \<Rightarrow> ptr \<Rightarrow> alarm_sys \<Rightarrow> (period_ms_t \<times> alarm_sys) res" where
  "alarm_get_remaining_ms env a s =
     rbind (c_assert (a \<noteq> NULL)) (\<lambda>_.
     rbind (c_assert (made s)) (\<lambda>_.
     rbind (deref (objs s) a) (\<lambda>al.
     let (just_now, s1) = now_ms env s in
     Inr (if deadline al > just_now then deadline al - just_now else 0, s1))))"

text \<open>The loop that removes an alarm from its processing queue until it is not found.\<close>

function drain_queue :: "ptr \<Rightarrow> ptr list \<Rightarrow> ptr list" where
  "drain_queue a q = (if a \<in> set q then drain_queue a (remove1 a q) else q)"
  by pat_completeness auto

termination
  by (relation "measure (\<lambda>(_, q). length q)") (auto simp: length_remove1 dest: length_pos_if_in_set)

declare drain_queue.simps [simp del]

definition remove_pending_alarm :: "ptr \<Rightarrow> alarm_sys \<Rightarrow> alarm_sys res" where
  "remove_pending_alarm a s =
     rbind (deref (objs s) a) (\<lambda>al.
     Inr (s\<lparr>alarms := remove1 a (alarms s),
            queues := (if alarm_queue al = NULL then queues s
                       else (queues s)(alarm_queue al := drain_queue a (queues s (alarm_queue al))))\<rparr>))"

definition TIMER_INTERVAL_FOR_WAKELOCK_IN_MS :: int where
  "TIMER_INTERVAL_FOR_WAKELOCK_IN_MS = 3000"

definition to_timespec :: "period_ms_t \<Rightarrow> timespec" where
  "to_timespec d = (d div 1000, (d mod 1000) * 1000000)"

definition END_OF_TIME :: timespec where
  "END_OF_TIME = (2 ^ 62, 0)"

text \<open>\<open>wakelock_acquire()\<close> as this module uses it.\<close>

definition acquire :: "alarm_env \<Rightarrow> alarm_sys \<Rightarrow> bool \<times> alarm_sys" where
  "acquire env s =
     (acquired env (ticks s),
      s\<lparr>ticks := Suc (ticks s), wakelocks := wakelocks s + (if acquired env (ticks s) then 1 else 0)\<rparr>)"

text \<open>The part of \<open>reschedule_root_alarm\<close> before the label \<open>done\<close>: the time for the timer.\<close>

definition root_timer_time :: "alarm_env \<Rightarrow> alarm_sys \<Rightarrow> (timespec \<times> alarm_sys) res" where
  "root_timer_time env s =
     (case alarms s of [] \<Rightarrow> Inr ((0, 0), s)
      | a # _ \<Rightarrow> rbind (deref (objs s) a) (\<lambda>next_alarm.
          let (t, s1) = now_ms env s in
          if sint (deadline next_alarm - t) < TIMER_INTERVAL_FOR_WAKELOCK_IN_MS then
            (let (ok, s2) = (if \<not> timer_set s1 then acquire env s1 else (True, s1)) in
             if \<not> ok then Inr ((0, 0), s2)
             else Inr (to_timespec (deadline next_alarm), s2\<lparr>wakeup_at := END_OF_TIME\<rparr>))
          else Inr ((0, 0), s1\<lparr>wakeup_at := to_timespec (deadline next_alarm)\<rparr>)))"

definition reschedule_root_alarm :: "alarm_env \<Rightarrow> alarm_sys \<Rightarrow> alarm_sys res" where
  "reschedule_root_alarm env s =
     (let timer_was_set = timer_set s in
      rbind (root_timer_time env s) (\<lambda>(timer_time, s1).
      let is_set = (fst timer_time \<noteq> 0 \<or> snd timer_time \<noteq> 0);
          s2 = s1\<lparr>timer_set := is_set, timer_at := timer_time,
                  wakelocks := wakelocks s1 - (if timer_was_set \<and> \<not> is_set then 1 else 0)\<rparr> in
      if is_set then
        Inr (s2\<lparr>ticks := Suc (ticks s2), expired := expired s2 + (if fired env (ticks s2) then 1 else 0)\<rparr>)
      else Inr s2))"

text \<open>Insertion by deadline, behind alarms with the same deadline; \<open>d\<close> is the new alarm's deadline.\<close>

fun insert_alarm_loop :: "(ptr \<times> alarm_t) list \<Rightarrow> ptr \<Rightarrow> period_ms_t \<Rightarrow> ptr list \<Rightarrow> ptr list res" where
  "insert_alarm_loop st a d [] = Inr []"
| "insert_alarm_loop st a d [node] = Inr [node, a]"
| "insert_alarm_loop st a d (node # nxt # rest) =
     rbind (deref st nxt) (\<lambda>al.
       if deadline al > d then Inr (node # a # nxt # rest)
       else rbind (insert_alarm_loop st a d (nxt # rest)) (\<lambda>l. Inr (node # l)))"

definition insert_alarm :: "(ptr \<times> alarm_t) list \<Rightarrow> ptr \<Rightarrow> period_ms_t \<Rightarrow> ptr list \<Rightarrow> ptr list res" where
  "insert_alarm st a d l =
     (case l of [] \<Rightarrow> Inr [a]
      | f # _ \<Rightarrow> rbind (deref st f) (\<lambda>al.
          if deadline al > d then Inr (a # l) else insert_alarm_loop st a d l))"

definition is_front :: "ptr \<Rightarrow> alarm_sys \<Rightarrow> bool" where
  "is_front a s \<longleftrightarrow> alarms s \<noteq> [] \<and> hd (alarms s) = a"

definition schedule_next_instance :: "alarm_env \<Rightarrow> ptr \<Rightarrow> alarm_sys \<Rightarrow> alarm_sys res" where
  "schedule_next_instance env a s =
     rbind (deref (objs s) a) (\<lambda>al.
     let needs_reschedule = is_front a s in
     rbind (if callback al \<noteq> NULL then remove_pending_alarm a s else Inr s) (\<lambda>s1.
     let (just_now, s2) = now_ms env s1 in
     rbind (if is_periodic al
            then (if period al = 0 then Inl DivByZero else Inr ((just_now - creation_time al) mod period al))
            else Inr 0) (\<lambda>ms_into_period.
     let d = just_now + (period al - ms_into_period);
         s3 = s2\<lparr>objs := store_at a (al\<lparr>deadline := d\<rparr>) (objs s2)\<rparr> in
     rbind (insert_alarm (objs s3) a d (alarms s3)) (\<lambda>l.
     let s4 = s3\<lparr>alarms := l\<rparr> in
     if needs_reschedule \<or> is_front a s4 then reschedule_root_alarm env s4 else Inr s4))))"

definition bump_scheduled :: "alarm_t \<Rightarrow> alarm_t" where
  "bump_scheduled al = al\<lparr>stats := (stats al)\<lparr>scheduled_count := scheduled_count (stats al) + 1\<rparr>\<rparr>"

definition alarm_set_internal ::
  "alarm_env \<Rightarrow> ptr \<Rightarrow> period_ms_t \<Rightarrow> ptr \<Rightarrow> ptr \<Rightarrow> ptr \<Rightarrow> alarm_sys \<Rightarrow> alarm_sys res" where
  "alarm_set_internal env a per cb dat q s =
     rbind (c_assert (made s)) (\<lambda>_.
     rbind (c_assert (a \<noteq> NULL)) (\<lambda>_.
     rbind (c_assert (cb \<noteq> NULL)) (\<lambda>_.
     rbind (deref (objs s) a) (\<lambda>al.
     let (t, s1) = now_ms env s;
         al1 = al\<lparr>creation_time := t, period := per, alarm_queue := q, callback := cb, cb_data := dat\<rparr> in
     rbind (schedule_next_instance env a (s1\<lparr>objs := store_at a al1 (objs s1)\<rparr>)) (\<lambda>s2.
     rbind (deref (objs s2) a) (\<lambda>al2.
     Inr (s2\<lparr>objs := store_at a (bump_scheduled al2) (objs s2)\<rparr>)))))))"

definition alarm_set_on_queue ::
  "alarm_env \<Rightarrow> ptr \<Rightarrow> period_ms_t \<Rightarrow> ptr \<Rightarrow> ptr \<Rightarrow> ptr \<Rightarrow> alarm_sys \<Rightarrow> alarm_sys res" where
  "alarm_set_on_queue env a interval_ms cb dat q s =
     rbind (c_assert (q \<noteq> NULL)) (\<lambda>_. alarm_set_internal env a interval_ms cb dat q s)"

text \<open>The default queue is the queue the module made for itself.\<close>

definition alarm_set ::
  "ptr \<Rightarrow> alarm_env \<Rightarrow> ptr \<Rightarrow> period_ms_t \<Rightarrow> ptr \<Rightarrow> ptr \<Rightarrow> alarm_sys \<Rightarrow> alarm_sys res" where
  "alarm_set default_callback_queue env a interval_ms cb dat s =
     alarm_set_on_queue env a interval_ms cb dat default_callback_queue s"

definition canceled_alarm :: "alarm_t \<Rightarrow> alarm_t" where
  "canceled_alarm al = al\<lparr>deadline := 0, prev_deadline := 0, callback := NULL, cb_data := NULL,
     stats := (stats al)\<lparr>canceled_count := canceled_count (stats al) + 1\<rparr>\<rparr>"

text \<open>The part of \<open>alarm_cancel\<close> under the monitor.\<close>

definition cancel_locked :: "alarm_env \<Rightarrow> ptr \<Rightarrow> alarm_sys \<Rightarrow> alarm_sys res" where
  "cancel_locked env a s =
     (let needs_reschedule = is_front a s in
      rbind (remove_pending_alarm a s) (\<lambda>s1.
      rbind (deref (objs s1) a) (\<lambda>al.
      let s2 = s1\<lparr>objs := store_at a (canceled_alarm al) (objs s1)\<rparr> in
      if needs_reschedule then reschedule_root_alarm env s2 else Inr s2)))"

text \<open>
  The last part takes the callback lock of the alarm and lets it go at once, to wait for a
  callback in progress; it changes nothing and is modelled with the threads.
\<close>

definition alarm_cancel :: "alarm_env \<Rightarrow> ptr \<Rightarrow> alarm_sys \<Rightarrow> alarm_sys res" where
  "alarm_cancel env a s =
     rbind (c_assert (made s)) (\<lambda>_. if a = NULL then Inr s else cancel_locked env a s)"

definition alarm_free :: "alarm_env \<Rightarrow> ptr \<Rightarrow> alarm_sys \<Rightarrow> alarm_sys res" where
  "alarm_free env a s =
     (if a = NULL then Inr s
      else rbind (alarm_cancel env a s) (\<lambda>s1. Inr (s1\<lparr>objs := release a (objs s1)\<rparr>)))"

definition alarm_is_scheduled :: "ptr \<Rightarrow> alarm_sys \<Rightarrow> bool res" where
  "alarm_is_scheduled a s =
     (if \<not> made s \<or> a = NULL then Inr False else rbind (deref (objs s) a) (\<lambda>al. Inr (callback al \<noteq> NULL)))"

text \<open>The kernel's timer thread.\<close>

definition timer_callback :: "alarm_sys \<Rightarrow> alarm_sys" where
  "timer_callback s = s\<lparr>expired := expired s + 1\<rparr>"

text \<open>\<open>fixed_queue_enqueue\<close> on a processing queue: it waits when the queue is full.\<close>

definition enqueue_alarm :: "ptr \<Rightarrow> ptr \<Rightarrow> alarm_sys \<Rightarrow> alarm_sys res" where
  "enqueue_alarm q a s =
     (if length (queues s q) < places s q then Inr (s\<lparr>queues := (queues s)(q := queues s q @ [a])\<rparr>)
      else Inl Blocks)"

definition bump_rescheduled :: "alarm_t \<Rightarrow> alarm_t" where
  "bump_rescheduled al = al\<lparr>stats := (stats al)\<lparr>rescheduled_count := rescheduled_count (stats al) + 1\<rparr>\<rparr>"

text \<open>The body of the loop of \<open>callback_dispatch\<close>, after the semaphore.\<close>

definition dispatch_once :: "alarm_env \<Rightarrow> alarm_sys \<Rightarrow> alarm_sys res" where
  "dispatch_once env s =
     rbind (c_assert (made s)) (\<lambda>_. case alarms s of [] \<Rightarrow> reschedule_root_alarm env s
      | a # _ \<Rightarrow> rbind (deref (objs s) a) (\<lambda>al.
          let (t, s1) = now_ms env s in
          if deadline al > t then reschedule_root_alarm env s1
          else
            let s2 = s1\<lparr>alarms := remove1 a (alarms s1)\<rparr> in
            rbind (if is_periodic al then
                rbind (schedule_next_instance env a
                  (s2\<lparr>objs := store_at a (al\<lparr>prev_deadline := deadline al\<rparr>) (objs s2)\<rparr>)) (\<lambda>s3.
                rbind (deref (objs s3) a) (\<lambda>al3.
                Inr (s3\<lparr>objs := store_at a (bump_rescheduled al3) (objs s3)\<rparr>)))
              else Inr s2) (\<lambda>s4.
            rbind (reschedule_root_alarm env s4) (\<lambda>s5.
            rbind (deref (objs s5) a) (\<lambda>al5. enqueue_alarm (alarm_queue al5) a s5)))))"

text \<open>
  The loop itself: every round takes one signal from \<open>alarm_expired\<close> and ends when the module is
  being cleaned up; \<open>n\<close> bounds the number of rounds looked at. Without a signal it waits.
\<close>

fun callback_dispatch :: "nat \<Rightarrow> alarm_env \<Rightarrow> alarm_sys \<Rightarrow> alarm_sys res" where
  "callback_dispatch 0 env s = Inr s"
| "callback_dispatch (Suc n) env s =
     (if expired s = 0 then Inr s
      else
        let s1 = s\<lparr>expired := expired s - 1\<rparr> in
        if \<not> dispatcher_active s1 then Inr s1
        else rbind (dispatch_once env s1) (callback_dispatch n env))"

text \<open>
  The first part of \<open>alarm_queue_ready\<close>, under the monitor: the next alarm of the queue, its
  callback, data and the deadline for the statistics; a single alarm is reset.
\<close>

definition take_ready :: "ptr \<Rightarrow> alarm_sys \<Rightarrow> ((ptr \<times> ptr \<times> ptr \<times> period_ms_t) option \<times> alarm_sys) res" where
  "take_ready q s =
     (case queues s q of [] \<Rightarrow> Inr (None, s)
      | a # rest \<Rightarrow>
        let s1 = s\<lparr>queues := (queues s)(q := rest)\<rparr> in
        rbind (deref (objs s1) a) (\<lambda>al.
        let dl = (if is_periodic al then prev_deadline al else deadline al);
            al1 = (if is_periodic al then al else al\<lparr>deadline := 0, callback := NULL, cb_data := NULL\<rparr>) in
        Inr (Some (a, callback al, cb_data al, dl), s1\<lparr>objs := store_at a al1 (objs s1)\<rparr>)))"

text \<open>
  The second part, under the callback lock of the alarm, around the call of the callback: the
  call itself, whose effect is not part of the module, and the statistics.
\<close>

definition call_start :: "alarm_env \<Rightarrow> ptr \<Rightarrow> alarm_sys \<Rightarrow> (period_ms_t \<times> alarm_sys) res" where
  "call_start env cb s =
     rbind (c_assert (made s)) (\<lambda>_.
     let (t0, s1) = now_ms env s in
     if cb = NULL then Inl BadPointer else Inr (t0, s1))"

definition call_end :: "alarm_env \<Rightarrow> ptr \<Rightarrow> period_ms_t \<Rightarrow> period_ms_t \<Rightarrow> alarm_sys \<Rightarrow> alarm_sys res" where
  "call_end env a t0 dl s =
     rbind (c_assert (made s)) (\<lambda>_.
     let (t1, s1) = now_ms env s in
     rbind (c_assert (t1 \<ge> t0)) (\<lambda>_.
     rbind (deref (objs s1) a) (\<lambda>al.
     Inr (s1\<lparr>objs := store_at a (al\<lparr>stats := update_scheduling_stats (stats al) t0 dl (t1 - t0)\<rparr>) (objs s1)\<rparr>))))"

text \<open>The whole, with a callback that leaves the module alone; the answer is what was called.\<close>

definition alarm_queue_ready :: "alarm_env \<Rightarrow> ptr \<Rightarrow> alarm_sys \<Rightarrow> ((ptr \<times> ptr) option \<times> alarm_sys) res" where
  "alarm_queue_ready env q s =
     rbind (take_ready q s) (\<lambda>(next_call, s1).
     case next_call of None \<Rightarrow> Inr (None, s1)
     | Some (a, cb, dat, dl) \<Rightarrow>
         rbind (call_start env cb s1) (\<lambda>(t0, s2).
         rbind (call_end env a t0 dl s2) (\<lambda>s3. Inr (Some (cb, dat), s3))))"

text \<open>The rows \<open>alarm_debug_dump\<close> prints for one pending alarm: name, kind, counts, times, statistics.\<close>

record dump_row =
  row_name :: string
  row_periodic :: bool
  row_actions :: "size_t \<times> size_t \<times> size_t \<times> size_t"
  row_deviations :: "size_t \<times> size_t"
  row_times :: "uint64_t \<times> uint64_t \<times> int"
  row_stats :: "(period_ms_t \<times> period_ms_t \<times> period_ms_t) list"

definition dump_alarm :: "period_ms_t \<Rightarrow> alarm_t \<Rightarrow> dump_row" where
  "dump_alarm just_now al =
     (let st = stats al in
      \<lparr>row_name = stats_name st, row_periodic = is_periodic al,
       row_actions = (scheduled_count st, rescheduled_count st, st_count (callback_execution st), canceled_count st),
       row_deviations = (st_count (overdue_scheduling st), st_count (premature_scheduling st)),
       row_times = (just_now - creation_time al, period al, sint (deadline al - just_now)),
       row_stats = [dump_stat (callback_execution st), dump_stat (overdue_scheduling st),
                    dump_stat (premature_scheduling st)]\<rparr>)"

fun dump_loop :: "(ptr \<times> alarm_t) list \<Rightarrow> period_ms_t \<Rightarrow> ptr list \<Rightarrow> dump_row list res" where
  "dump_loop st t [] = Inr []"
| "dump_loop st t (a # as) =
     rbind (deref st a) (\<lambda>al. rbind (dump_loop st t as) (\<lambda>rows. Inr (dump_alarm t al # rows)))"

definition alarm_debug_dump :: "alarm_env \<Rightarrow> alarm_sys \<Rightarrow> (nat \<times> dump_row list) option res" where
  "alarm_debug_dump env s =
     (if \<not> made s then Inr None
      else let (just_now, s1) = now_ms env s in
        rbind (dump_loop (objs s1) just_now (alarms s1)) (\<lambda>rows. Inr (Some (length (alarms s1), rows))))"

section \<open>Deadlines in the store, and the invariant\<close>

definition dl :: "(ptr \<times> alarm_t) list \<Rightarrow> ptr \<Rightarrow> period_ms_t" where
  "dl st a = (case map_of st a of None \<Rightarrow> 0 | Some al \<Rightarrow> deadline al)"

text \<open>The pending list: no alarm twice, all alive, ordered by deadline, no zero deadline.\<close>

definition pending_ok :: "(ptr \<times> alarm_t) list \<Rightarrow> ptr list \<Rightarrow> bool" where
  "pending_ok st l \<longleftrightarrow> distinct l \<and> set l \<subseteq> fst ` set st \<and> sorted (map (dl st) l) \<and> (\<forall>a \<in> set l. dl st a \<noteq> 0)"

text \<open>The module holds a wake lock exactly while its timer is armed.\<close>

definition lock_ok :: "alarm_sys \<Rightarrow> bool" where
  "lock_ok s \<longleftrightarrow> wakelocks s = (if timer_set s then 1 else 0)"

text \<open>One of the two timers is set to the earliest deadline.\<close>

definition armed :: "alarm_sys \<Rightarrow> bool" where
  "armed s \<longleftrightarrow> alarms s = [] \<or>
     timer_set s \<and> timer_at s = to_timespec (dl (objs s) (hd (alarms s))) \<or>
     wakeup_at s = to_timespec (dl (objs s) (hd (alarms s)))"

definition granting :: "alarm_env \<Rightarrow> bool" where
  "granting env \<longleftrightarrow> (\<forall>n. acquired env n)"

text \<open>The parts of the state rescheduling does not touch.\<close>

definition same_core :: "alarm_sys \<Rightarrow> alarm_sys \<Rightarrow> bool" where
  "same_core s s' \<longleftrightarrow> objs s' = objs s \<and> alarms s' = alarms s \<and> queues s' = queues s \<and> places s' = places s \<and>
     made s' = made s \<and> held s' = held s \<and> dispatcher_active s' = dispatcher_active s"

lemma to_timespec_zero: "to_timespec d = (0, 0) \<longleftrightarrow> d = 0"
proof
  assume z: "to_timespec d = (0, 0)"
  then have q: "unat d div 1000 = 0" by (simp add: to_timespec_def flip: unat_eq_zero) (simp add: unat_div)
  then have small: "unat d < 1000" by simp
  then have "unat (d mod 1000) = unat d" by (simp add: unat_mod)
  then have "unat ((d mod 1000) * 1000000) = unat d * 1000000"
    using small unat_mult_lem [of "d mod 1000" 1000000] by simp
  then have "unat d = 0" using z by (simp add: to_timespec_def)
  then show "d = 0" by (simp add: unat_eq_zero)
qed (simp add: to_timespec_def)

lemma pending_front:
  "pending_ok st (a # l) \<Longrightarrow> \<exists>al. map_of st a = Some al \<and> dl st a = deadline al \<and> deadline al \<noteq> 0"
  by (cases "map_of st a") (auto simp: pending_ok_def dl_def)

lemma root_timer_time_ok:
  assumes ok: "pending_ok (objs s) (alarms s)"
  shows "\<exists>tt s1. root_timer_time env s = Inr (tt, s1) \<and> same_core s s1 \<and> timer_set s1 = timer_set s \<and>
    wakelocks s1 = wakelocks s + (if tt \<noteq> (0, 0) \<and> \<not> timer_set s then 1 else 0) \<and> expired s1 = expired s \<and>
    (tt \<noteq> (0, 0) \<longrightarrow> alarms s \<noteq> [] \<and> tt = to_timespec (dl (objs s) (hd (alarms s)))) \<and>
    (granting env \<and> alarms s \<noteq> [] \<and> tt = (0, 0) \<longrightarrow> wakeup_at s1 = to_timespec (dl (objs s) (hd (alarms s))))"
proof (cases "alarms s")
  case Nil
  then show ?thesis by (simp add: root_timer_time_def same_core_def)
next
  case (Cons a l)
  obtain al where al: "map_of (objs s) a = Some al" "dl (objs s) a = deadline al" "deadline al \<noteq> 0"
    using pending_front [of "objs s" a l] ok Cons by auto
  have nz: "to_timespec (deadline al) \<noteq> (0, 0)" using al(3) to_timespec_zero by blast
  show ?thesis
  proof (cases "sint (deadline al - clk env (ticks s)) < TIMER_INTERVAL_FOR_WAKELOCK_IN_MS")
    case True
    then show ?thesis using Cons al nz
      by (cases "timer_set s"; cases "acquired env (Suc (ticks s))")
         (simp_all add: root_timer_time_def now_ms_def acquire_def same_core_def granting_def, blast?)
  next
    case False
    then show ?thesis using Cons al
      by (simp add: root_timer_time_def now_ms_def same_core_def)
  qed
qed

lemma reschedule_root_alarm_ok:
  assumes ok: "pending_ok (objs s) (alarms s)" and lock: "lock_ok s"
  shows "\<exists>s'. reschedule_root_alarm env s = Inr s' \<and> same_core s s' \<and> lock_ok s' \<and>
    (granting env \<longrightarrow> armed s') \<and> expired s \<le> expired s'"
proof -
  obtain tt s1 where run: "root_timer_time env s = Inr (tt, s1)" and core: "same_core s s1"
    and ts: "timer_set s1 = timer_set s" "expired s1 = expired s"
    and wl: "wakelocks s1 = wakelocks s + (if tt \<noteq> (0, 0) \<and> \<not> timer_set s then 1 else 0)"
    and front: "tt \<noteq> (0, 0) \<longrightarrow> alarms s \<noteq> [] \<and> tt = to_timespec (dl (objs s) (hd (alarms s)))"
    and wake: "granting env \<and> alarms s \<noteq> [] \<and> tt = (0, 0) \<longrightarrow> wakeup_at s1 = to_timespec (dl (objs s) (hd (alarms s)))"
    using root_timer_time_ok [OF ok, of env] by (elim exE conjE)
  have set: "(fst tt \<noteq> 0 \<or> snd tt \<noteq> 0) \<longleftrightarrow> tt \<noteq> (0, 0)" by (cases tt) simp
  show ?thesis
  proof (cases "tt = (0, 0)")
    case True
    then show ?thesis
      using run core ts wl wake lock
      by (auto simp: reschedule_root_alarm_def Let_def same_core_def lock_ok_def armed_def)
  next
    case False
    with set have "fst tt \<noteq> 0 \<or> snd tt \<noteq> 0" by blast
    with False show ?thesis
      using run core ts wl front lock
      by (auto simp: reschedule_root_alarm_def Let_def same_core_def lock_ok_def armed_def)
  qed
qed

section \<open>The pending list as a priority queue\<close>

definition insert_by :: "('a \<Rightarrow> 'k :: linorder) \<Rightarrow> 'a \<Rightarrow> 'a list \<Rightarrow> 'a list" where
  "insert_by f a l = takeWhile (\<lambda>x. f x \<le> f a) l @ a # dropWhile (\<lambda>x. f x \<le> f a) l"

lemma set_insert_by [simp]: "set (insert_by f a l) = insert a (set l)"
  unfolding insert_by_def by (metis Un_insert_right list.simps(15) set_append takeWhile_dropWhile_id)

lemma mset_insert_by [simp]: "mset (insert_by f a l) = add_mset a (mset l)"
  unfolding insert_by_def by simp (metis mset_append takeWhile_dropWhile_id)

lemma distinct_insert_by: "distinct l \<Longrightarrow> a \<notin> set l \<Longrightarrow> distinct (insert_by f a l)"
proof -
  assume "distinct l" "a \<notin> set l"
  then have "distinct (a # l)" by simp
  then show ?thesis by (metis mset.simps(2) mset_eq_imp_distinct_iff mset_insert_by)
qed

lemma remove1_insert_by: "a \<notin> set l \<Longrightarrow> remove1 a (insert_by f a l) = l"
  by (auto simp: insert_by_def remove1_append dest: set_takeWhileD)

lemma sorted_insert_by: "sorted (map f l) \<Longrightarrow> sorted (map f (insert_by f a l))"
proof (induction l)
  case (Cons x l)
  then show ?case by (fastforce simp: insert_by_def dest!: set_takeWhileD set_dropWhileD)
qed (simp add: insert_by_def)

lemma insert_by_cong:
  "(\<And>x. x \<in> insert a (set l) \<Longrightarrow> f x = g x) \<Longrightarrow> insert_by f a l = insert_by g a l"
  unfolding insert_by_def by (metis (no_types, lifting) dropWhile_cong insertCI takeWhile_cong)

lemma insert_alarm_loop_ok:
  "set (n # l) \<subseteq> fst ` set st \<Longrightarrow>
     insert_alarm_loop st a d (n # l) =
     Inr (n # takeWhile (\<lambda>x. dl st x \<le> d) l @ a # dropWhile (\<lambda>x. dl st x \<le> d) l)"
proof (induction l arbitrary: n)
  case (Cons m l)
  then obtain al where "map_of st m = Some al" by (metis insert_subset list.simps(15) map_of_None_iff not_None_eq)
  with Cons show ?case by (auto simp: dl_def [of st m] not_le)
qed simp

lemma insert_alarm_ok:
  assumes "set l \<subseteq> fst ` set st" and "dl st a = d"
  shows "insert_alarm st a d l = Inr (insert_by (dl st) a l)"
proof (cases l)
  case Nil
  then show ?thesis by (simp add: insert_alarm_def insert_by_def)
next
  case (Cons n l')
  then obtain al where "map_of st n = Some al" using assms(1) by (metis insert_subset list.simps(15) map_of_None_iff not_None_eq)
  then show ?thesis
    using Cons assms insert_alarm_loop_ok [of n l' st a d]
    by (auto simp: insert_alarm_def insert_by_def dl_def [of st n] not_le)
qed

lemma drain_queue_removeAll: "drain_queue a q = removeAll a q"
proof (induction a q rule: drain_queue.induct)
  case (1 a q)
  have "removeAll a (remove1 a q) = removeAll a q" by (induction q) auto
  then show ?case using 1 by (subst drain_queue.simps) (simp add: removeAll_id)
qed

text \<open>Changing one alarm's record does not matter to a list without it.\<close>

lemma dl_store_at: "dl (store_at a al st) x = (if x = a then deadline al else dl st x)"
  by (simp add: dl_def)

lemma pending_ok_remove1: "pending_ok st l \<Longrightarrow> pending_ok st (remove1 a l)"
  unfolding pending_ok_def
  using set_remove1_subset [of a l] by (auto intro: sorted_map_remove1)

lemma pending_ok_store:
  "pending_ok st l \<Longrightarrow> a \<notin> set l \<Longrightarrow> pending_ok (store_at a al st) l"
proof -
  assume ok: "pending_ok st l" and a: "a \<notin> set l"
  then have eq: "map (dl (store_at a al st)) l = map (dl st) l"
    by (intro map_cong) (auto simp: dl_store_at)
  have "sorted (map (dl (store_at a al st)) l)" using ok unfolding pending_ok_def eq by blast
  then show ?thesis using ok a by (auto simp: pending_ok_def dl_store_at)
qed

lemma pending_ok_insert:
  assumes "pending_ok st l" and "a \<notin> set l" and "a \<in> fst ` set st" and "dl st a \<noteq> 0"
  shows "pending_ok st (insert_by (dl st) a l)"
  using assms distinct_insert_by [of l a "dl st"] sorted_insert_by [of "dl st" l a]
  by (auto simp: pending_ok_def)

section \<open>Scheduling one alarm\<close>

text \<open>The deadline \<open>schedule_next_instance\<close> computes at time \<open>t\<close>.\<close>

definition next_deadline :: "alarm_t \<Rightarrow> period_ms_t \<Rightarrow> period_ms_t" where
  "next_deadline al t =
     t + (period al - (if is_periodic al then (t - creation_time al) mod period al else 0))"

text \<open>The state right before \<open>reschedule_root_alarm\<close> is considered.\<close>

definition scheduled_state :: "alarm_env \<Rightarrow> ptr \<Rightarrow> alarm_t \<Rightarrow> alarm_sys \<Rightarrow> alarm_sys" where
  "scheduled_state env a al s =
     (let st = store_at a (al\<lparr>deadline := next_deadline al (clk env (ticks s))\<rparr>) (objs s) in
      s\<lparr>objs := st, alarms := insert_by (dl st) a (remove1 a (alarms s)),
        queues := (if alarm_queue al = NULL then queues s
                   else (queues s)(alarm_queue al := removeAll a (queues s (alarm_queue al)))),
        ticks := Suc (ticks s)\<rparr>)"

lemma schedule_next_instance_unfold:
  assumes ok: "pending_ok (objs s) (alarms s)" and al: "map_of (objs s) a = Some al" "callback al \<noteq> NULL"
    and per: "is_periodic al \<Longrightarrow> period al \<noteq> 0"
  shows "schedule_next_instance env a s =
    (if is_front a s \<or> is_front a (scheduled_state env a al s)
     then reschedule_root_alarm env (scheduled_state env a al s) else Inr (scheduled_state env a al s))"
proof -
  let ?st = "store_at a (al\<lparr>deadline := next_deadline al (clk env (ticks s))\<rparr>) (objs s)"
  have "set (remove1 a (alarms s)) \<subseteq> fst ` set ?st"
    using ok set_remove1_subset [of a "alarms s"] by (auto simp: pending_ok_def)
  then have ins: "insert_alarm ?st a (next_deadline al (clk env (ticks s))) (remove1 a (alarms s)) =
      Inr (insert_by (dl ?st) a (remove1 a (alarms s)))"
    by (rule insert_alarm_ok) (simp add: dl_store_at)
  let ?s1 = "s\<lparr>alarms := remove1 a (alarms s),
      queues := (if alarm_queue al = NULL then queues s
                 else (queues s)(alarm_queue al := removeAll a (queues s (alarm_queue al))))\<rparr>"
  have rem: "remove_pending_alarm a s = Inr ?s1"
    using al by (simp add: remove_pending_alarm_def drain_queue_removeAll)
  have ms: "(if is_periodic al
      then (if period al = 0 then Inl DivByZero else Inr ((t - creation_time al) mod period al)) else Inr 0) =
      (Inr (if is_periodic al then (t - creation_time al) mod period al else 0) :: period_ms_t res)" for t
    using per by simp
  have fin: "?s1\<lparr>ticks := Suc (ticks s), objs := ?st, alarms := insert_by (dl ?st) a (remove1 a (alarms s))\<rparr> =
      scheduled_state env a al s"
    by (simp add: scheduled_state_def Let_def)
  show ?thesis
    unfolding schedule_next_instance_def now_ms_def Let_def deref_Some [OF al(1)] rbind_Inr if_P [OF al(2)] rem
    unfolding ms rbind_Inr prod.case next_deadline_def [symmetric]
    using ins fin by (simp add: next_deadline_def)
qed

lemma scheduled_state_pending:
  assumes ok: "pending_ok (objs s) (alarms s)" and al: "map_of (objs s) a = Some al"
    and nz: "next_deadline al (clk env (ticks s)) \<noteq> 0"
  shows "pending_ok (objs (scheduled_state env a al s)) (alarms (scheduled_state env a al s))"
proof -
  let ?st = "store_at a (al\<lparr>deadline := next_deadline al (clk env (ticks s))\<rparr>) (objs s)"
  have new: "a \<notin> set (remove1 a (alarms s))" using ok by (simp add: pending_ok_def)
  have "pending_ok ?st (remove1 a (alarms s))"
    by (rule pending_ok_store [OF pending_ok_remove1 [OF ok] new])
  then show ?thesis
    using pending_ok_insert [OF _ new, of ?st] nz by (simp add: scheduled_state_def Let_def dl_store_at)
qed

text \<open>When neither condition for rescheduling holds, the earliest alarm is the one it was.\<close>

lemma scheduled_state_front:
  assumes "\<not> is_front a s" and "\<not> is_front a (scheduled_state env a al s)" and "armed s"
  shows "armed (scheduled_state env a al s)"
proof -
  let ?st = "store_at a (al\<lparr>deadline := next_deadline al (clk env (ticks s))\<rparr>) (objs s)"
  let ?l = "insert_by (dl ?st) a (remove1 a (alarms s))"
  have l: "alarms (scheduled_state env a al s) = ?l" by (simp add: scheduled_state_def Let_def)
  have "hd ?l \<noteq> a" using assms(2) l by (auto simp: is_front_def insert_by_def)
  then obtain f r where r: "remove1 a (alarms s) = f # r" and hd: "hd ?l = f"
    by (cases "remove1 a (alarms s)") (auto simp: insert_by_def split: if_splits)
  then have f: "alarms s \<noteq> []" "hd (alarms s) = f" "f \<noteq> a"
    using assms(1) \<open>hd ?l \<noteq> a\<close> by (cases "alarms s"; auto simp: is_front_def split: if_splits)+
  then have "dl ?st f = dl (objs s) f" by (simp add: dl_store_at)
  then show ?thesis
    using assms(3) f hd l by (auto simp: armed_def scheduled_state_def Let_def)
qed

definition alarm_inv :: "alarm_sys \<Rightarrow> bool" where
  "alarm_inv s \<longleftrightarrow> made s \<and> pending_ok (objs s) (alarms s) \<and> lock_ok s"

lemma alarm_invD: "alarm_inv s \<Longrightarrow> pending_ok (objs s) (alarms s)" "alarm_inv s \<Longrightarrow> lock_ok s"
  by (simp_all add: alarm_inv_def)

lemma alarm_inv_made: "alarm_inv s \<Longrightarrow> made s"
  by (simp add: alarm_inv_def)

lemma same_core_refl [simp]: "same_core s s"
  by (simp add: same_core_def)

lemma schedule_next_instance_ok:
  assumes inv: "alarm_inv s" and al: "map_of (objs s) a = Some al" "callback al \<noteq> NULL"
    and per: "is_periodic al \<Longrightarrow> period al \<noteq> 0"
    and nz: "next_deadline al (clk env (ticks s)) \<noteq> 0"
  shows "\<exists>s'. schedule_next_instance env a s = Inr s' \<and> same_core (scheduled_state env a al s) s' \<and>
    alarm_inv s' \<and> (granting env \<and> armed s \<longrightarrow> armed s')"
proof -
  let ?s = "scheduled_state env a al s"
  have pend: "pending_ok (objs ?s) (alarms ?s)" by (rule scheduled_state_pending [OF alarm_invD(1) [OF inv] al(1) nz])
  have lock: "lock_ok ?s" using alarm_invD(2) [OF inv] by (simp add: lock_ok_def scheduled_state_def Let_def)
  have mk: "made ?s" using alarm_inv_made [OF inv] by (simp add: scheduled_state_def Let_def)
  note unfold = schedule_next_instance_unfold [OF alarm_invD(1) [OF inv] al per, of env]
  show ?thesis
  proof (cases "is_front a s \<or> is_front a ?s")
    case True
    obtain s' where "reschedule_root_alarm env ?s = Inr s'" "same_core ?s s'" "lock_ok s'" "granting env \<longrightarrow> armed s'"
      using reschedule_root_alarm_ok [OF pend lock, of env] by blast
    then show ?thesis using True unfold pend mk by (auto simp: alarm_inv_def same_core_def)
  next
    case False
    then show ?thesis using unfold pend lock mk scheduled_state_front [of a s env al] by (auto simp: alarm_inv_def)
  qed
qed

section \<open>Deadlines in numbers\<close>

lemma next_deadline_nat:
  assumes per: "period al \<noteq> 0" and fits: "unat t + unat (period al) < 2 ^ 64"
  shows "unat (next_deadline al t) =
    unat t + (unat (period al) - (if is_periodic al then unat (t - creation_time al) mod unat (period al) else 0))"
proof -
  let ?m = "if is_periodic al then (t - creation_time al) mod period al else 0"
  have pos: "0 < unat (period al)" using per by (simp add: unat_gt_0)
  have m: "unat ?m = (if is_periodic al then unat (t - creation_time al) mod unat (period al) else 0)"
    by (simp add: unat_mod)
  have "unat ?m < unat (period al)" using pos unfolding m by simp
  then have sub: "unat (period al - ?m) = unat (period al) - unat ?m"
    by (intro unat_sub) (simp add: word_le_nat_alt)
  have "unat (t + (period al - ?m)) = unat t + unat (period al - ?m)"
    using fits sub by (intro unat_add_lem [THEN iffD1]) simp
  then show ?thesis unfolding next_deadline_def sub m .
qed

lemma next_deadline_bounds:
  assumes "period al \<noteq> 0" and "unat t + unat (period al) < 2 ^ 64"
  shows "t < next_deadline al t" "unat (next_deadline al t) \<le> unat t + unat (period al)" "next_deadline al t \<noteq> 0"
proof -
  have pos: "0 < unat (period al)" using assms(1) by (simp add: unat_gt_0)
  define m where "m = (if is_periodic al then unat (t - creation_time al) mod unat (period al) else 0)"
  have "unat (next_deadline al t) = unat t + (unat (period al) - m)"
    unfolding m_def by (rule next_deadline_nat [OF assms])
  moreover have "m < unat (period al)" unfolding m_def using pos by simp
  ultimately have "unat t < unat (next_deadline al t)" "unat (next_deadline al t) \<le> unat t + unat (period al)"
    by linarith+
  then show less: "t < next_deadline al t" "unat (next_deadline al t) \<le> unat t + unat (period al)"
    by (simp_all add: word_less_nat_alt)
  show "next_deadline al t \<noteq> 0" using less(1) by auto
qed

lemma next_deadline_aligned:
  assumes "period al \<noteq> 0" and "unat t + unat (period al) < 2 ^ 64" and "is_periodic al" and "creation_time al \<le> t"
  shows "unat (period al) dvd unat (next_deadline al t) - unat (creation_time al)"
proof -
  let ?p = "unat (period al)" and ?e = "unat t - unat (creation_time al)"
  have e: "unat (t - creation_time al) = ?e" using assms(4) by (rule unat_sub)
  have ct: "unat (creation_time al) \<le> unat t" using assms(4) by (simp add: word_le_nat_alt)
  have r: "?e mod ?p < ?p" using assms(1) by (simp add: unat_gt_0)
  have "unat (next_deadline al t) = unat t + (?p - ?e mod ?p)"
    using next_deadline_nat [OF assms(1,2)] unfolding if_P [OF assms(3)] e .
  then have "unat (next_deadline al t) - unat (creation_time al) = ?e - ?e mod ?p + ?p"
    using r ct mod_less_eq_dividend [of ?e ?p] by linarith
  moreover have "?p dvd ?e - ?e mod ?p" by (rule dvd_minus_mod)
  ultimately show ?thesis by simp
qed

section \<open>Setting and cancelling\<close>

lemma dl_store_same:
  "map_of st a = Some al \<Longrightarrow> deadline al' = deadline al \<Longrightarrow> dl (store_at a al' st) = dl st"
  by (auto simp: fun_eq_iff dl_def)

lemma alarm_inv_store_same:
  assumes "alarm_inv s" and "map_of (objs s) a = Some al" and "deadline al' = deadline al"
  shows "alarm_inv (s\<lparr>objs := store_at a al' (objs s)\<rparr>)"
  using assms dl_store_same [OF assms(2,3)] by (auto simp: alarm_inv_def pending_ok_def lock_ok_def)

lemma armed_store_same:
  assumes "armed s" and "map_of (objs s) a = Some al" and "deadline al' = deadline al"
  shows "armed (s\<lparr>objs := store_at a al' (objs s)\<rparr>)"
  using assms dl_store_same [OF assms(2,3)] by (auto simp: armed_def)

lemma alarm_inv_ticks [simp]: "alarm_inv (s\<lparr>ticks := n\<rparr>) = alarm_inv s" "armed (s\<lparr>ticks := n\<rparr>) = armed s"
  by (simp_all add: alarm_inv_def lock_ok_def armed_def)

text \<open>What one alarm's record becomes when it is set.\<close>

definition set_fields :: "period_ms_t \<Rightarrow> period_ms_t \<Rightarrow> ptr \<Rightarrow> ptr \<Rightarrow> ptr \<Rightarrow> alarm_t \<Rightarrow> alarm_t" where
  "set_fields t per q cb dat al =
     al\<lparr>creation_time := t, period := per, alarm_queue := q, callback := cb, cb_data := dat\<rparr>"

lemma alarm_set_internal_ok:
  fixes dat :: ptr
  assumes inv: "alarm_inv s" and al: "map_of (objs s) a = Some al" and nn: "a \<noteq> NULL" "cb \<noteq> NULL" "q \<noteq> NULL"
    and per: "per \<noteq> 0" and fits: "unat (clk env (Suc (ticks s))) + unat per < 2 ^ 64"
  defines "al1 \<equiv> set_fields (clk env (ticks s)) per q cb dat al"
  defines "al2 \<equiv> al1\<lparr>deadline := next_deadline al1 (clk env (Suc (ticks s)))\<rparr>"
  shows "\<exists>s'. alarm_set_internal env a per cb dat q s = Inr s' \<and> alarm_inv s' \<and>
    (granting env \<and> armed s \<longrightarrow> armed s') \<and>
    map_of (objs s') = (map_of (objs s))(a \<mapsto> bump_scheduled al2) \<and>
    alarms s' = insert_by (dl (objs s')) a (remove1 a (alarms s)) \<and>
    queues s' = (queues s)(q := removeAll a (queues s q)) \<and> places s' = places s"
proof -
  let ?s1 = "s\<lparr>ticks := Suc (ticks s), objs := store_at a al1 (objs s)\<rparr>"
  have dead: "deadline al1 = deadline al" by (simp add: al1_def set_fields_def)
  have inv1: "alarm_inv ?s1" and arm1: "armed s \<Longrightarrow> armed ?s1"
    using alarm_inv_store_same [of "s\<lparr>ticks := Suc (ticks s)\<rparr>" a al al1] armed_store_same [of "s\<lparr>ticks := Suc (ticks s)\<rparr>" a al al1]
      inv al dead by simp_all
  have al1: "map_of (objs ?s1) a = Some al1" "callback al1 \<noteq> NULL" "period al1 \<noteq> 0"
    using nn per by (simp_all add: al1_def set_fields_def)
  have nz: "next_deadline al1 (clk env (ticks ?s1)) \<noteq> 0"
    using next_deadline_bounds(3) [OF al1(3), of "clk env (ticks ?s1)"] fits by (simp add: al1_def set_fields_def)
  obtain s2 where s2: "schedule_next_instance env a ?s1 = Inr s2" "same_core (scheduled_state env a al1 ?s1) s2"
    "alarm_inv s2" "granting env \<and> armed ?s1 \<longrightarrow> armed s2"
    using schedule_next_instance_ok [OF inv1 al1(1,2) _ nz] al1(3) by blast
  have core: "objs s2 = store_at a al2 (store_at a al1 (objs s))" "places s2 = places s"
    "alarms s2 = insert_by (dl (objs s2)) a (remove1 a (alarms s))"
    "queues s2 = (queues s)(q := removeAll a (queues s q))"
    using s2(2) nn(3) by (simp_all add: same_core_def scheduled_state_def Let_def al2_def al1_def set_fields_def)
  let ?s' = "s2\<lparr>objs := store_at a (bump_scheduled al2) (objs s2)\<rparr>"
  have al2: "map_of (objs s2) a = Some al2" using core(1) by simp
  have same: "deadline (bump_scheduled al2) = deadline al2" by (simp add: bump_scheduled_def)
  have run: "alarm_set_internal env a per cb dat q s = Inr ?s'"
    using al nn s2(1) al2 alarm_inv_made [OF inv] by (simp add: alarm_set_internal_def now_ms_def al1_def set_fields_def)
  have dls: "dl (objs ?s') = dl (objs s2)" using dl_store_same [OF al2 same] by simp
  have "alarms ?s' = insert_by (dl (objs ?s')) a (remove1 a (alarms s))" unfolding dls using core(3) by simp
  moreover have "map_of (objs ?s') = (map_of (objs s))(a \<mapsto> bump_scheduled al2)" using core(1) by simp
  moreover have "granting env \<and> armed s \<longrightarrow> armed ?s'" using arm1 s2(4) armed_store_same [OF _ al2 same] by blast
  moreover have "alarm_inv ?s'" by (rule alarm_inv_store_same [OF s2(3) al2 same])
  moreover have "queues ?s' = (queues s)(q := removeAll a (queues s q))" "places ?s' = places s" using core by simp_all
  ultimately show ?thesis using run by blast
qed

lemma canceled_core:
  assumes inv: "alarm_inv s" and al: "map_of (objs s) a = Some al"
  shows "alarm_inv (s\<lparr>alarms := remove1 a (alarms s), queues := qs, objs := store_at a (canceled_alarm al) (objs s)\<rparr>)"
proof -
  have "a \<notin> set (remove1 a (alarms s))" using inv by (simp add: alarm_inv_def pending_ok_def)
  then show ?thesis
    using inv pending_ok_store [OF pending_ok_remove1] by (auto simp: alarm_inv_def lock_ok_def)
qed

lemma cancel_locked_ok:
  assumes inv: "alarm_inv s" and al: "map_of (objs s) a = Some al"
  shows "\<exists>s'. cancel_locked env a s = Inr s' \<and> alarm_inv s' \<and> (granting env \<and> armed s \<longrightarrow> armed s') \<and>
    map_of (objs s') = (map_of (objs s))(a \<mapsto> canceled_alarm al) \<and>
    alarms s' = remove1 a (alarms s) \<and> places s' = places s \<and>
    queues s' = (if alarm_queue al = NULL then queues s
                 else (queues s)(alarm_queue al := removeAll a (queues s (alarm_queue al))))"
proof -
  let ?qs = "if alarm_queue al = NULL then queues s
                 else (queues s)(alarm_queue al := removeAll a (queues s (alarm_queue al)))"
  let ?s2 = "s\<lparr>alarms := remove1 a (alarms s), queues := ?qs, objs := store_at a (canceled_alarm al) (objs s)\<rparr>"
  have run: "cancel_locked env a s = (if is_front a s then reschedule_root_alarm env ?s2 else Inr ?s2)"
    using al by (simp add: cancel_locked_def remove_pending_alarm_def drain_queue_removeAll Let_def)
  note inv2 = canceled_core [OF inv al, of ?qs]
  show ?thesis
  proof (cases "is_front a s")
    case True
    obtain s' where "reschedule_root_alarm env ?s2 = Inr s'" "same_core ?s2 s'" "lock_ok s'" "granting env \<longrightarrow> armed s'"
      using reschedule_root_alarm_ok [OF alarm_invD [OF inv2], of env] by blast
    then show ?thesis using True run inv2 by (auto simp: alarm_inv_def same_core_def)
  next
    case False
    have "armed ?s2" if "armed s"
      using that False by (cases "alarms s") (auto simp: armed_def is_front_def dl_store_at)
    then show ?thesis using False run inv2 by auto
  qed
qed

lemma alarm_cancel_locked: "alarm_inv s \<Longrightarrow> a \<noteq> NULL \<Longrightarrow> alarm_cancel env a s = cancel_locked env a s"
  by (simp add: alarm_cancel_def alarm_inv_made)

lemma alarm_cancel_ok:
  assumes "alarm_inv s" and "map_of (objs s) a = Some al" and "a \<noteq> NULL"
  shows "\<exists>s'. alarm_cancel env a s = Inr s' \<and> alarm_inv s' \<and> (granting env \<and> armed s \<longrightarrow> armed s') \<and>
    map_of (objs s') = (map_of (objs s))(a \<mapsto> canceled_alarm al) \<and>
    alarms s' = remove1 a (alarms s) \<and> places s' = places s \<and>
    queues s' = (if alarm_queue al = NULL then queues s
                 else (queues s)(alarm_queue al := removeAll a (queues s (alarm_queue al))))"
  unfolding alarm_cancel_locked [OF assms(1,3)] by (rule cancel_locked_ok [OF assms(1,2)])

section \<open>Dispatching\<close>

lemma dispatch_idle:
  assumes inv: "alarm_inv s"
    and idle: "alarms s = [] \<or> (\<exists>a r al. alarms s = a # r \<and> map_of (objs s) a = Some al \<and> clk env (ticks s) < deadline al)"
  shows "\<exists>s'. dispatch_once env s = Inr s' \<and> alarm_inv s' \<and> (granting env \<longrightarrow> armed s') \<and> same_core s s'"
proof (cases "alarms s")
  case Nil
  with reschedule_root_alarm_ok [OF alarm_invD [OF inv], of env] inv show ?thesis
    by (auto simp: dispatch_once_def alarm_inv_def same_core_def)
next
  case (Cons a r)
  let ?s = "s\<lparr>ticks := Suc (ticks s)\<rparr>"
  have "alarm_inv ?s" using inv by simp
  from reschedule_root_alarm_ok [OF alarm_invD [OF this], of env] Cons idle inv show ?thesis
    by (auto simp: dispatch_once_def now_ms_def alarm_inv_def same_core_def)
qed

lemma alarm_inv_drop_front:
  assumes "alarm_inv s" and "alarms s = a # r"
  shows "alarm_inv (s\<lparr>ticks := n, alarms := remove1 a (alarms s)\<rparr>)" "a \<notin> set (remove1 a (alarms s))"
  using assms pending_ok_remove1 [of "objs s" "alarms s" a] by (auto simp: alarm_inv_def lock_ok_def pending_ok_def)

lemma dispatch_single:
  assumes inv: "alarm_inv s" and front: "alarms s = a # r" "map_of (objs s) a = Some al"
    and due: "deadline al \<le> clk env (ticks s)" and single: "\<not> is_periodic al"
  shows "if length (queues s (alarm_queue al)) < places s (alarm_queue al)
    then \<exists>s'. dispatch_once env s = Inr s' \<and> alarm_inv s' \<and> (granting env \<longrightarrow> armed s') \<and>
      objs s' = objs s \<and> alarms s' = r \<and> places s' = places s \<and> dispatcher_active s' = dispatcher_active s \<and>
      queues s' = (queues s)(alarm_queue al := queues s (alarm_queue al) @ [a])
    else dispatch_once env s = Inl Blocks"
proof -
  let ?s2 = "s\<lparr>ticks := Suc (ticks s), alarms := remove1 a (alarms s)\<rparr>"
  have inv2: "alarm_inv ?s2" by (rule alarm_inv_drop_front [OF inv front(1)])
  obtain s5 where s5: "reschedule_root_alarm env ?s2 = Inr s5" "same_core ?s2 s5" "lock_ok s5" "granting env \<longrightarrow> armed s5"
    using reschedule_root_alarm_ok [OF alarm_invD [OF inv2], of env] by blast
  have run: "dispatch_once env s = enqueue_alarm (alarm_queue al) a s5"
    using s5(1,2) front due single alarm_inv_made [OF inv] by (auto simp: dispatch_once_def now_ms_def same_core_def not_less)
  have "alarm_inv (s5\<lparr>queues := qs\<rparr>)" "granting env \<longrightarrow> armed (s5\<lparr>queues := qs\<rparr>)" for qs
    using s5 inv2 by (auto simp: alarm_inv_def same_core_def lock_ok_def armed_def)
  then show ?thesis
    unfolding run using s5(2) front by (auto simp: enqueue_alarm_def same_core_def)
qed

lemma dispatch_periodic:
  assumes inv: "alarm_inv s" and front: "alarms s = a # r" "map_of (objs s) a = Some al"
    and due: "deadline al \<le> clk env (ticks s)" and periodic: "is_periodic al" "callback al \<noteq> NULL" "alarm_queue al \<noteq> NULL"
    and per: "period al \<noteq> 0" and fits: "unat (clk env (Suc (ticks s))) + unat (period al) < 2 ^ 64"
    and room: "length (removeAll a (queues s (alarm_queue al))) < places s (alarm_queue al)"
  shows "\<exists>s' al'. dispatch_once env s = Inr s' \<and> alarm_inv s' \<and> (granting env \<longrightarrow> armed s') \<and>
      map_of (objs s') = (map_of (objs s))(a \<mapsto> al') \<and> prev_deadline al' = deadline al \<and>
      deadline al' = next_deadline al (clk env (Suc (ticks s))) \<and> dispatcher_active s' = dispatcher_active s \<and>
      alarms s' = insert_by (dl (objs s')) a r \<and> places s' = places s \<and>
      queues s' = (queues s)(alarm_queue al := removeAll a (queues s (alarm_queue al)) @ [a])"
proof -
  define al1 where "al1 = al\<lparr>prev_deadline := deadline al\<rparr>"
  let ?s2 = "s\<lparr>ticks := Suc (ticks s), alarms := remove1 a (alarms s), objs := store_at a al1 (objs s)\<rparr>"
  have inv2: "alarm_inv ?s2"
    using alarm_inv_store_same [OF alarm_inv_drop_front(1) [OF inv front(1), of "Suc (ticks s)"], of a al al1] front
    by (simp add: al1_def)
  have al1: "map_of (objs ?s2) a = Some al1" "callback al1 \<noteq> NULL" "period al1 \<noteq> 0"
    using periodic per by (simp_all add: al1_def)
  have nd: "next_deadline al1 t = next_deadline al t" for t by (simp add: al1_def next_deadline_def)
  have nz: "next_deadline al1 (clk env (ticks ?s2)) \<noteq> 0"
    using next_deadline_bounds(3) [OF al1(3), of "clk env (ticks ?s2)"] fits by (simp add: al1_def)
  obtain s3 where s3: "schedule_next_instance env a ?s2 = Inr s3" "same_core (scheduled_state env a al1 ?s2) s3" "alarm_inv s3"
    using schedule_next_instance_ok [OF inv2 al1(1,2) _ nz] al1(3) by blast
  define al3 where "al3 = al1\<lparr>deadline := next_deadline al (clk env (Suc (ticks s)))\<rparr>"
  have r: "remove1 a (remove1 a (alarms s)) = r"
    using front(1) inv by (simp add: alarm_inv_def pending_ok_def remove1_idem)
  have core: "objs s3 = store_at a al3 (store_at a al1 (objs s))" "alarms s3 = insert_by (dl (objs s3)) a r"
    "places s3 = places s" "queues s3 = (queues s)(alarm_queue al := removeAll a (queues s (alarm_queue al)))"
    "dispatcher_active s3 = dispatcher_active s"
    using s3(2) periodic(3) r by (simp_all add: same_core_def scheduled_state_def Let_def al3_def nd) (simp_all add: al1_def)
  let ?s4 = "s3\<lparr>objs := store_at a (bump_rescheduled al3) (objs s3)\<rparr>"
  have al3: "map_of (objs s3) a = Some al3" using core(1) by simp
  have same: "deadline (bump_rescheduled al3) = deadline al3" by (simp add: bump_rescheduled_def)
  have inv4: "alarm_inv ?s4" by (rule alarm_inv_store_same [OF s3(3) al3 same])
  obtain s5 where s5: "reschedule_root_alarm env ?s4 = Inr s5" "same_core ?s4 s5" "lock_ok s5" "granting env \<longrightarrow> armed s5"
    using reschedule_root_alarm_ok [OF alarm_invD [OF inv4], of env] by blast
  let ?s' = "s5\<lparr>queues := (queues s5)(alarm_queue al := queues s5 (alarm_queue al) @ [a])\<rparr>"
  have al5: "map_of (objs s5) a = Some (bump_rescheduled al3)" "alarm_queue (bump_rescheduled al3) = alarm_queue al"
    using s5(2) by (simp_all add: same_core_def bump_rescheduled_def al3_def al1_def)
  have run: "dispatch_once env s = Inr ?s'"
    using alarm_inv_made [OF inv] front due periodic(1) s3(1) al3 s5(1,2) al5 core room
    by (auto simp: dispatch_once_def now_ms_def not_less enqueue_alarm_def same_core_def al1_def)
  have fin: "alarm_inv ?s'" "granting env \<longrightarrow> armed ?s'"
    using s5 inv4 by (auto simp: alarm_inv_def same_core_def lock_ok_def armed_def)
  have "map_of (objs ?s') = (map_of (objs s))(a \<mapsto> bump_rescheduled al3)" "alarms ?s' = insert_by (dl (objs ?s')) a r"
    "queues ?s' = (queues s)(alarm_queue al := removeAll a (queues s (alarm_queue al)) @ [a])" "places ?s' = places s"
    "dispatcher_active ?s' = dispatcher_active s"
    using s5(2) core dl_store_same [OF al3 same] by (simp_all add: same_core_def)
  moreover have "prev_deadline (bump_rescheduled al3) = deadline al"
    "deadline (bump_rescheduled al3) = next_deadline al (clk env (Suc (ticks s)))"
    by (simp_all add: bump_rescheduled_def al3_def al1_def)
  ultimately show ?thesis using run fin by blast
qed

section \<open>Runs of the dispatcher\<close>

text \<open>Time and signals only grow while the dispatcher works on one alarm.\<close>

definition advanced :: "alarm_sys \<Rightarrow> alarm_sys \<Rightarrow> bool" where
  "advanced s s' \<longleftrightarrow> ticks s \<le> ticks s' \<and> expired s \<le> expired s'"

lemma advanced_trans: "advanced s s1 \<Longrightarrow> advanced s1 s2 \<Longrightarrow> advanced s s2"
  by (simp add: advanced_def)

lemma root_timer_advanced: "root_timer_time env s = Inr (tt, s1) \<Longrightarrow> advanced s s1"
proof (cases "alarms s")
  case (Cons a l)
  assume run: "root_timer_time env s = Inr (tt, s1)"
  then obtain al where al: "map_of (objs s) a = Some al"
    using Cons by (cases "map_of (objs s) a") (simp_all add: root_timer_time_def deref_def)
  show ?thesis
    using run Cons al
    by (cases "timer_set s"; cases "acquired env (Suc (ticks s))")
       (auto simp: root_timer_time_def now_ms_def acquire_def advanced_def split: if_splits)
qed (simp add: root_timer_time_def advanced_def)

lemma reschedule_advanced:
  assumes "reschedule_root_alarm env s = Inr s'"
  shows "advanced s s'"
proof -
  obtain tt s1 where run: "root_timer_time env s = Inr (tt, s1)"
    using assms by (auto simp: reschedule_root_alarm_def Let_def)
  have "advanced s1 s'"
    using assms run
    by (cases "fst tt \<noteq> 0 \<or> snd tt \<noteq> 0") (simp_all add: reschedule_root_alarm_def Let_def advanced_def, auto)
  with root_timer_advanced [OF run] show ?thesis by (rule advanced_trans)
qed

lemma schedule_advanced:
  assumes "schedule_next_instance env a s = Inr s'"
  shows "advanced s s'"
  using assms
  unfolding schedule_next_instance_def now_ms_def Let_def prod.case remove_pending_alarm_def
  by (elim rbind_InrE) (auto elim!: rbind_InrE simp del: rbind_eq_Inr dest!: reschedule_advanced simp: advanced_def split: if_splits)

lemma dispatch_advanced:
  assumes "dispatch_once env s = Inr s'"
  shows "advanced s s'"
proof (cases "alarms s")
  case Nil
  with assms show ?thesis by (auto simp: dispatch_once_def intro: reschedule_advanced)
next
  case (Cons a l)
  then obtain al where al: "map_of (objs s) a = Some al"
    using assms by (cases "map_of (objs s) a") (simp_all add: dispatch_once_def deref_def)
  show ?thesis
    using assms unfolding dispatch_once_def now_ms_def Let_def prod.case Cons list.case enqueue_alarm_def
    by (elim rbind_InrE) (auto elim!: rbind_InrE simp del: rbind_eq_Inr dest!: reschedule_advanced schedule_advanced
        simp: advanced_def split: if_splits)
qed

definition on_queue :: "(ptr \<times> alarm_t) list \<Rightarrow> ptr \<Rightarrow> ptr \<Rightarrow> bool" where
  "on_queue st q a \<longleftrightarrow> (case map_of st a of None \<Rightarrow> False | Some al \<Rightarrow> alarm_queue al = q)"

definition periodic_in :: "(ptr \<times> alarm_t) list \<Rightarrow> ptr \<Rightarrow> bool" where
  "periodic_in st a \<longleftrightarrow> (case map_of st a of None \<Rightarrow> False | Some al \<Rightarrow> is_periodic al)"

text \<open>
  An alarm that is due at the \<open>n\<close>-th reading of the clock; a periodic one has been set (it has a
  callback, a queue and a period, and was set in the past), and its next deadline is far from the
  end of the clock's range.
\<close>

definition due_alarm :: "alarm_env \<Rightarrow> nat \<Rightarrow> alarm_t \<Rightarrow> bool" where
  "due_alarm env n al \<longleftrightarrow> deadline al \<le> clk env n \<and>
     (is_periodic al \<longrightarrow> callback al \<noteq> NULL \<and> alarm_queue al \<noteq> NULL \<and> period al \<noteq> 0 \<and>
        creation_time al \<le> clk env n \<and> (\<forall>m \<ge> n. unat (clk env m) + unat (period al) < 2 ^ 64))"

text \<open>
  What becomes of the record of an alarm that is handed on: nothing if it is a single one; a
  periodic one remembers the deadline that was due and has a new one in the future, a whole
  number of periods after its creation.
\<close>

definition handed_on :: "alarm_env \<Rightarrow> nat \<Rightarrow> alarm_t \<Rightarrow> alarm_t \<Rightarrow> bool" where
  "handed_on env n al al' \<longleftrightarrow>
     (if is_periodic al
      then prev_deadline al' = deadline al \<and> clk env n < deadline al' \<and>
        unat (period al) dvd unat (deadline al') - unat (creation_time al)
      else al' = al)"

text \<open>One due alarm, single or periodic.\<close>

lemma dispatch_due:
  assumes inv: "alarm_inv s" and front: "alarms s = a # l" "map_of (objs s) a = Some al"
    and due: "due_alarm env n al" and n: "n \<le> ticks s" and mono: "\<forall>m \<ge> n. clk env n \<le> clk env m"
    and room: "length (queues s (alarm_queue al)) < places s (alarm_queue al)"
  shows "\<exists>s' al'. dispatch_once env s = Inr s' \<and> alarm_inv s' \<and> (granting env \<longrightarrow> armed s') \<and>
    map_of (objs s') = (map_of (objs s))(a \<mapsto> al') \<and> handed_on env n al al' \<and>
    alarms s' = (if is_periodic al then insert_by (dl (objs s')) a l else l) \<and> places s' = places s \<and>
    dispatcher_active s' = dispatcher_active s \<and>
    queues s' = (queues s)(alarm_queue al :=
      (if is_periodic al then removeAll a (queues s (alarm_queue al)) else queues s (alarm_queue al)) @ [a])"
proof (cases "is_periodic al")
  case True
  have "deadline al \<le> clk env (ticks s)" using due mono n order.trans by (fastforce simp: due_alarm_def)
  moreover have per: "callback al \<noteq> NULL" "alarm_queue al \<noteq> NULL" "period al \<noteq> 0"
    "unat (clk env (Suc (ticks s))) + unat (period al) < 2 ^ 64"
    using due True n by (simp_all add: due_alarm_def)
  moreover have "length (removeAll a (queues s (alarm_queue al))) < places s (alarm_queue al)"
    using room length_filter_le [of "\<lambda>x. a \<noteq> x" "queues s (alarm_queue al)"]
    unfolding removeAll_filter_not_eq by linarith
  ultimately obtain s' al' where s': "dispatch_once env s = Inr s'" "alarm_inv s'" "granting env \<longrightarrow> armed s'"
      "map_of (objs s') = (map_of (objs s))(a \<mapsto> al')" "prev_deadline al' = deadline al"
      "deadline al' = next_deadline al (clk env (Suc (ticks s)))" "dispatcher_active s' = dispatcher_active s"
      "alarms s' = insert_by (dl (objs s')) a l" "places s' = places s"
      "queues s' = (queues s)(alarm_queue al := removeAll a (queues s (alarm_queue al)) @ [a])"
    using dispatch_periodic [OF inv front _ True] by blast
  have now: "clk env n \<le> clk env (Suc (ticks s))" using mono n by simp
  have "creation_time al \<le> clk env (Suc (ticks s))" using due True now by (auto simp: due_alarm_def)
  then have "handed_on env n al al'"
    using True s'(5,6) next_deadline_bounds(1) [OF per(3,4)] next_deadline_aligned [OF per(3,4) True] now
    by (simp add: handed_on_def)
  with s' True show ?thesis by auto
next
  case False
  have "deadline al \<le> clk env (ticks s)" using due mono n order.trans by (fastforce simp: due_alarm_def)
  from dispatch_single [OF inv front this False] room obtain s' where
    "dispatch_once env s = Inr s'" "alarm_inv s'" "granting env \<longrightarrow> armed s'" "objs s' = objs s" "alarms s' = l"
    "places s' = places s" "dispatcher_active s' = dispatcher_active s"
    "queues s' = (queues s)(alarm_queue al := queues s (alarm_queue al) @ [a])"
    by auto
  moreover have "map_of (objs s) = (map_of (objs s))(a \<mapsto> al)" using front(2) by auto
  ultimately show ?thesis using False by (auto simp: handed_on_def)
qed

lemma insert_by_append:
  "\<forall>x \<in> set ds. f x \<le> f a \<Longrightarrow> insert_by f a (ds @ r) = ds @ insert_by f a r"
  by (simp add: insert_by_def)

text \<open>
  The queues after the alarms \<open>ds\<close> have been handed on: an instance of a periodic alarm that was
  still waiting is replaced, and the alarms of each queue are appended in their order.
\<close>

definition queue_after :: "(ptr \<times> alarm_t) list \<Rightarrow> ptr list \<Rightarrow> ptr \<Rightarrow> ptr list \<Rightarrow> ptr list" where
  "queue_after st ds q xs =
     filter (\<lambda>x. \<not> (x \<in> set ds \<and> periodic_in st x \<and> on_queue st q x)) xs @ filter (on_queue st q) ds"

lemma queue_after_Cons:
  assumes "map_of st a = Some al" and "a \<notin> set ds"
    and same: "\<And>x. x \<in> set ds \<Longrightarrow> map_of st' x = map_of st x"
  shows "queue_after st' ds q ((qs(alarm_queue al := (if is_periodic al then removeAll a (qs (alarm_queue al))
      else qs (alarm_queue al)) @ [a])) q) = queue_after st (a # ds) q (qs q)"
proof -
  have p: "periodic_in st' x = periodic_in st x" "on_queue st' q x = on_queue st q x" if "x \<in> set ds" for x
    using same [OF that] by (simp_all add: periodic_in_def on_queue_def)
  have f: "filter (on_queue st' q) ds = filter (on_queue st q) ds" using p(2) by (intro filter_cong) simp_all
  have g: "filter (\<lambda>x. \<not> (x \<in> set ds \<and> periodic_in st' x \<and> on_queue st' q x)) xs =
      filter (\<lambda>x. \<not> (x \<in> set ds \<and> periodic_in st x \<and> on_queue st q x)) xs" for xs
    using p by (intro filter_cong) auto
  have a: "periodic_in st a = is_periodic al" "on_queue st q a = (alarm_queue al = q)"
    using assms(1) by (simp_all add: periodic_in_def on_queue_def)
  show ?thesis
    unfolding queue_after_def f g
    using assms(2) a by (auto simp: removeAll_filter_not_eq intro!: filter_cong)
qed

text \<open>A run over several due alarms, one signal for each.\<close>

lemma dispatch_run:
  assumes "alarm_inv s" and "dispatcher_active s" and "alarms s = ds @ r" and "length ds \<le> expired s"
    and "\<forall>a \<in> set ds. \<exists>al. map_of (objs s) a = Some al \<and> due_alarm env n al"
    and "n \<le> ticks s" and mono: "\<forall>m \<ge> n. clk env n \<le> clk env m"
    and "\<forall>q. length (queues s q) + length (filter (on_queue (objs s) q) ds) \<le> places s q"
  shows "\<exists>s'. callback_dispatch (length ds) env s = Inr s' \<and> alarm_inv s' \<and> (granting env \<and> ds \<noteq> [] \<longrightarrow> armed s') \<and>
    (\<forall>a \<in> set ds. \<forall>al. map_of (objs s) a = Some al \<longrightarrow> (\<exists>al'. map_of (objs s') a = Some al' \<and> handed_on env n al al')) \<and>
    (\<forall>b. b \<notin> set ds \<longrightarrow> map_of (objs s') b = map_of (objs s) b) \<and>
    mset (alarms s') = mset (filter (periodic_in (objs s)) ds) + mset r \<and>
    (\<forall>q. queues s' q = queue_after (objs s) ds q (queues s q))"
  using assms(1-6,8)
proof (induction ds arbitrary: s r)
  case Nil
  then show ?case by (simp add: queue_after_def)
next
  case (Cons a ds)
  let ?s1 = "s\<lparr>expired := expired s - 1\<rparr>"
  obtain al where al: "map_of (objs s) a = Some al" and due: "due_alarm env n al" using Cons.prems(5) by auto
  have dist: "a \<notin> set ds" using Cons.prems(1,3) by (auto simp: alarm_inv_def pending_ok_def)
  have "on_queue (objs s) (alarm_queue al) a" using al by (simp add: on_queue_def)
  then have room: "length (queues ?s1 (alarm_queue al)) < places ?s1 (alarm_queue al)"
    using spec [OF Cons.prems(7), of "alarm_queue al"] by simp
  have inv1: "alarm_inv ?s1" using Cons.prems(1) by (simp add: alarm_inv_def lock_ok_def)
  obtain s2 al' where s2: "dispatch_once env ?s1 = Inr s2" "alarm_inv s2" "granting env \<longrightarrow> armed s2"
      "map_of (objs s2) = (map_of (objs s))(a \<mapsto> al')" "handed_on env n al al'"
      "alarms s2 = (if is_periodic al then insert_by (dl (objs s2)) a (ds @ r) else ds @ r)" "places s2 = places s"
      "dispatcher_active s2 = dispatcher_active s"
      "queues s2 = (queues s)(alarm_queue al :=
        (if is_periodic al then removeAll a (queues s (alarm_queue al)) else queues s (alarm_queue al)) @ [a])"
    using dispatch_due [OF inv1, of a "ds @ r" al env n] Cons.prems(3,6) al due mono room by auto
  have lat: "n \<le> ticks s2" "expired s \<le> Suc (expired s2)"
    using dispatch_advanced [OF s2(1)] Cons.prems(6) by (auto simp: advanced_def)
  have same: "map_of (objs s2) x = map_of (objs s) x" if "x \<in> set ds" for x using that dist s2(4) by auto
  have early: "dl (objs s2) x \<le> clk env n" if "x \<in> set ds" for x
    using that Cons.prems(5) same by (force simp: dl_def due_alarm_def)
  define r2 where "r2 = (if is_periodic al then insert_by (dl (objs s2)) a r else r)"
  have l2: "alarms s2 = ds @ r2"
  proof (cases "is_periodic al")
    case True
    then have "clk env n < dl (objs s2) a" using s2(4,5) by (simp add: handed_on_def dl_def)
    then have "\<forall>x \<in> set ds. dl (objs s2) x \<le> dl (objs s2) a" using early by (meson less_imp_le order.trans)
    then show ?thesis using s2(6) True by (simp add: insert_by_append r2_def)
  qed (use s2(6) in \<open>simp add: r2_def\<close>)
  have ready: "\<forall>x \<in> set ds. \<exists>al. map_of (objs s2) x = Some al \<and> due_alarm env n al"
    using Cons.prems(5) same by auto
  have oq: "on_queue (objs s2) q x = on_queue (objs s) q x" "periodic_in (objs s2) x = periodic_in (objs s) x"
    if "x \<in> set ds" for q x using same [OF that] by (simp_all add: on_queue_def periodic_in_def)
  have fil: "filter (on_queue (objs s2) q) ds = filter (on_queue (objs s) q) ds"
    "filter (periodic_in (objs s2)) ds = filter (periodic_in (objs s)) ds" for q
    using oq by (auto intro!: filter_cong)
  have room2: "length (queues s2 q) + length (filter (on_queue (objs s2) q) ds) \<le> places s2 q" for q
  proof -
    have "length (queues s2 q) \<le> length (queues s q) + (if alarm_queue al = q then 1 else 0)"
      using length_filter_le [of "\<lambda>x. a \<noteq> x" "queues s (alarm_queue al)"]
      by (simp add: s2(9) removeAll_filter_not_eq)
    moreover have "on_queue (objs s) q a = (alarm_queue al = q)" using al by (simp add: on_queue_def)
    ultimately show ?thesis using spec [OF Cons.prems(7), of q] by (simp add: fil s2(7) split: if_splits)
  qed
  have len: "length ds \<le> expired s2" using Cons.prems(4) lat(2) by simp
  have act: "dispatcher_active s2" using s2(8) Cons.prems(2) by simp
  obtain s' where s': "callback_dispatch (length ds) env s2 = Inr s'" "alarm_inv s'" "granting env \<and> ds \<noteq> [] \<longrightarrow> armed s'"
      "\<forall>a \<in> set ds. \<forall>al. map_of (objs s2) a = Some al \<longrightarrow> (\<exists>al'. map_of (objs s') a = Some al' \<and> handed_on env n al al')"
      "\<forall>b. b \<notin> set ds \<longrightarrow> map_of (objs s') b = map_of (objs s2) b"
      "mset (alarms s') = mset (filter (periodic_in (objs s2)) ds) + mset r2"
      "\<forall>q. queues s' q = queue_after (objs s2) ds q (queues s2 q)"
    using Cons.IH [OF s2(2) act l2 len ready lat(1)] room2 by blast
  have run: "callback_dispatch (length (a # ds)) env s = Inr s'"
    using Cons.prems(2,4) s2(1) s'(1) by simp
  have arm: "granting env \<longrightarrow> armed s'" using s'(1,3) s2(3) by (cases "ds = []") auto
  have recs: "\<forall>x \<in> set (a # ds). \<forall>al. map_of (objs s) x = Some al \<longrightarrow>
      (\<exists>al'. map_of (objs s') x = Some al' \<and> handed_on env n al al')"
    using s'(4,5) s2(4,5) al same dist by auto
  have others: "\<forall>b. b \<notin> set (a # ds) \<longrightarrow> map_of (objs s') b = map_of (objs s) b" using s'(5) s2(4) by simp
  have ms: "mset (alarms s') = mset (filter (periodic_in (objs s)) (a # ds)) + mset r"
    using s'(6) al by (simp add: fil r2_def periodic_in_def)
  have "queues s' q = queue_after (objs s) (a # ds) q (queues s q)" for q
    using s'(7) queue_after_Cons [OF al dist same, of q "queues s"] by (simp add: s2(9))
  with run s'(2) arm recs others ms show ?case by blast
qed

section \<open>The interface of the pending list\<close>

text \<open>What the dispatcher relies on: the first element of the list is one of the earliest.\<close>

locale pending_queue =
  fixes key :: "'a \<Rightarrow> 'k :: linorder" and ins del :: "'a \<Rightarrow> 'a list \<Rightarrow> 'a list"
  assumes mset_ins: "mset (ins a l) = add_mset a (mset l)"
    and sorted_ins: "sorted (map key l) \<Longrightarrow> sorted (map key (ins a l))"
    and mset_del: "mset (del a l) = mset l - {#a#}"
    and sorted_del: "sorted (map key l) \<Longrightarrow> sorted (map key (del a l))"
begin

lemma del_ins: "mset (del a (ins a l)) = mset l"
  by (simp add: mset_ins mset_del)

lemma earliest_first:
  assumes "sorted (map key l)" and "x \<in> set (ins a l)"
  shows "key (hd (ins a l)) \<le> key x"
  using sorted_ins [OF assms(1), of a] assms(2) by (cases "ins a l") auto

end

interpretation pq: pending_queue "dl st" "insert_by (dl st)" remove1 for st
  by unfold_locales (simp_all add: sorted_insert_by sorted_map_remove1)

section \<open>Properties\<close>

text \<open>A module with one alarm, due at 50, on queue 8, and a clock that runs one millisecond per reading.\<close>

definition demo_env :: alarm_env where
  "demo_env = \<lparr>clk = (\<lambda>n. 100 + word_of_nat n), acquired = (\<lambda>_. True), fired = (\<lambda>_. False)\<rparr>"

definition demo_alarm :: alarm_t where
  "demo_alarm = \<lparr>creation_time = 40, period = 10, deadline = 50, prev_deadline = 0, is_periodic = False,
     alarm_queue = 8, callback = 5, cb_data = 6,
     stats = \<lparr>stats_name = ''demo'', scheduled_count = 1, canceled_count = 0, rescheduled_count = 0,
       total_updates = 0, last_update_ms = 0, callback_execution = zero_stat, overdue_scheduling = zero_stat,
       premature_scheduling = zero_stat\<rparr>\<rparr>"

definition demo_alarms :: alarm_sys where
  "demo_alarms = \<lparr>made = True,
     held = [Monitor, AlarmList, Timer, WakeupTimer, ExpiredSem, CallbackThread, CallbackQueue, DispatcherThread],
     dispatcher_active = True, objs = [(16, demo_alarm)], alarms = [16], queues = (\<lambda>_. []), places = (\<lambda>_. 4),
     timer_set = True, timer_at = to_timespec 50, wakeup_at = END_OF_TIME, wakelocks = 1, expired = 1, ticks = 0\<rparr>"

lemma demo_alarms_facts:
  "alarm_inv demo_alarms" "map_of (objs demo_alarms) 16 = Some demo_alarm" "armed demo_alarms" "granting demo_env"
  by (simp_all add: demo_alarms_def demo_alarm_def alarm_inv_def pending_ok_def lock_ok_def dl_def armed_def
      granting_def demo_env_def)

text \<open>
  C4. Setting an alarm: on a well-formed module \<open>alarm_set_on_queue\<close> returns; the alarm is in the
  pending list exactly once, its deadline is later than the current time by at most the
  period, it is gone from the given queue, all other alarms keep their records and their
  order; the list stays ordered by deadline with the earliest first, the wake lock is held
  exactly while the timer is armed, and if wake locks are granted a timer stays armed for
  the earliest deadline.
\<close>

theorem alarm_set_correct:
  assumes "alarm_inv s" and "map_of (objs s) a = Some al" and "a \<noteq> NULL" "cb \<noteq> NULL" "q \<noteq> NULL" and "per \<noteq> 0"
    and "unat (clk env (Suc (ticks s))) + unat per < 2 ^ 64"
  shows "\<exists>s'. alarm_set_on_queue env a per cb dat q s = Inr s' \<and> alarm_inv s' \<and>
    (granting env \<and> armed s \<longrightarrow> armed s') \<and>
    clk env (Suc (ticks s)) < dl (objs s') a \<and>
    unat (dl (objs s') a) \<le> unat (clk env (Suc (ticks s))) + unat per \<and>
    mset (alarms s') = add_mset a (mset (remove1 a (alarms s))) \<and> remove1 a (alarms s') = remove1 a (alarms s) \<and>
    (\<forall>b \<in> set (alarms s'). dl (objs s') (hd (alarms s')) \<le> dl (objs s') b) \<and>
    (\<forall>b. b \<noteq> a \<longrightarrow> map_of (objs s') b = map_of (objs s) b) \<and>
    queues s' = (queues s)(q := removeAll a (queues s q)) \<and> alarm_is_scheduled a s' = Inr True"
proof -
  define al1 where "al1 = set_fields (clk env (ticks s)) per q cb dat al"
  define al2 where "al2 = al1\<lparr>deadline := next_deadline al1 (clk env (Suc (ticks s)))\<rparr>"
  obtain s' where run: "alarm_set_internal env a per cb dat q s = Inr s'" and inv: "alarm_inv s'"
    and arm: "granting env \<and> armed s \<longrightarrow> armed s'"
    and objs: "map_of (objs s') = (map_of (objs s))(a \<mapsto> bump_scheduled al2)"
    and l: "alarms s' = insert_by (dl (objs s')) a (remove1 a (alarms s))"
    and qs: "queues s' = (queues s)(q := removeAll a (queues s q))"
    using alarm_set_internal_ok [OF assms(1-7), of dat] unfolding al1_def al2_def by blast
  have d: "dl (objs s') a = next_deadline al1 (clk env (Suc (ticks s)))"
    using objs by (simp add: dl_def bump_scheduled_def al2_def)
  have "period al1 = per" by (simp add: al1_def set_fields_def)
  then have bounds: "clk env (Suc (ticks s)) < dl (objs s') a"
      "unat (dl (objs s') a) \<le> unat (clk env (Suc (ticks s))) + unat per"
    using next_deadline_bounds(1,2) [of al1 "clk env (Suc (ticks s))"] assms(6,7) unfolding d by simp_all
  have "a \<notin> set (remove1 a (alarms s))" using assms(1) by (simp add: alarm_inv_def pending_ok_def)
  then have rem: "remove1 a (alarms s') = remove1 a (alarms s)"
    unfolding l by (rule remove1_insert_by)
  have "dl (objs s') (hd (alarms s')) \<le> dl (objs s') b" if "b \<in> set (alarms s')" for b
    using that inv by (cases "alarms s'") (auto simp: alarm_inv_def pending_ok_def)
  moreover have "alarm_is_scheduled a s' = Inr True"
    using objs assms(3,4) alarm_inv_made [OF inv] by (simp add: alarm_is_scheduled_def bump_scheduled_def al2_def al1_def set_fields_def)
  moreover have "mset (alarms s') = add_mset a (mset (remove1 a (alarms s)))" unfolding l by (rule pq.mset_ins)
  moreover have "alarm_set_on_queue env a per cb dat q s = Inr s'"
    using run assms(5) by (simp add: alarm_set_on_queue_def)
  ultimately show ?thesis using inv arm bounds rem objs qs by auto
qed

theorem alarm_set_correct_witness:
  "alarm_inv demo_alarms \<and> (\<exists>s'. alarm_set_on_queue demo_env 16 20 5 6 8 demo_alarms = Inr s' \<and>
     alarm_inv s' \<and> armed s' \<and> 101 < dl (objs s') 16)"
proof -
  have clk: "clk demo_env (Suc (ticks demo_alarms)) = 101" by (simp add: demo_env_def demo_alarms_def)
  have fits: "unat (clk demo_env (Suc (ticks demo_alarms))) + unat (20 :: period_ms_t) < 2 ^ 64" unfolding clk by simp
  obtain s' where "alarm_set_on_queue demo_env 16 20 5 6 8 demo_alarms = Inr s'" "alarm_inv s'"
      "granting demo_env \<and> armed demo_alarms \<longrightarrow> armed s'" "clk demo_env (Suc (ticks demo_alarms)) < dl (objs s') 16"
    using alarm_set_correct [OF demo_alarms_facts(1,2) _ _ _ _ fits, of 5 8 6] by auto
  then show ?thesis using demo_alarms_facts clk by auto
qed

text \<open>
  Cancelling: after \<open>alarm_cancel\<close> the alarm is neither in the pending list nor in its processing
  queue and does not count as scheduled; all other alarms keep their records and order; the
  invariants hold.
\<close>

theorem alarm_cancel_correct:
  assumes "alarm_inv s" and "map_of (objs s) a = Some al" and "a \<noteq> NULL"
  shows "\<exists>s'. alarm_cancel env a s = Inr s' \<and> alarm_inv s' \<and> (granting env \<and> armed s \<longrightarrow> armed s') \<and>
    a \<notin> set (alarms s') \<and> alarms s' = remove1 a (alarms s) \<and>
    (alarm_queue al \<noteq> NULL \<longrightarrow> a \<notin> set (queues s' (alarm_queue al))) \<and>
    (\<forall>b. b \<noteq> a \<longrightarrow> map_of (objs s') b = map_of (objs s) b) \<and> alarm_is_scheduled a s' = Inr False"
proof -
  obtain s' where s': "alarm_cancel env a s = Inr s'" "alarm_inv s'" "granting env \<and> armed s \<longrightarrow> armed s'"
    "map_of (objs s') = (map_of (objs s))(a \<mapsto> canceled_alarm al)" "alarms s' = remove1 a (alarms s)"
    "queues s' = (if alarm_queue al = NULL then queues s
       else (queues s)(alarm_queue al := removeAll a (queues s (alarm_queue al))))"
    using alarm_cancel_ok [OF assms, of env] by blast
  moreover have "a \<notin> set (remove1 a (alarms s))" using assms(1) by (simp add: alarm_inv_def pending_ok_def)
  moreover have "alarm_is_scheduled a s' = Inr False"
    using s'(4) assms(3) by (simp add: alarm_is_scheduled_def canceled_alarm_def)
  ultimately show ?thesis by auto
qed

theorem alarm_cancel_correct_witness:
  "alarm_inv demo_alarms \<and> (\<exists>s'. alarm_cancel demo_env 16 demo_alarms = Inr s' \<and> alarm_inv s' \<and> 16 \<notin> set (alarms s'))"
  using alarm_cancel_correct [OF demo_alarms_facts(1,2), of demo_env] demo_alarms_facts(1) by auto

text \<open>
  C11. The dispatcher hands on what is due, in order, and nothing early. Let the first \<open>length ds\<close>
  alarms of the pending list (which is ordered by deadline) be due, with a clock that does not
  run backwards, a signal for each of them, and room in their queues. Then as many rounds of
  \<open>callback_dispatch\<close> return; every queue has got its alarms among \<open>ds\<close> appended in the order of their
  deadlines (an instance of a periodic alarm still waiting there is replaced); the single ones
  have left the pending list with their records unchanged, the periodic ones are back in it with
  the deadline that was due remembered and a new one in the future, a whole number of periods
  after their creation; the rest of the list stays, no other record changes, and the
  invariants hold with a timer armed. When the first alarm is then not due, or none is left, one
  more round changes neither the alarms nor the queues.
\<close>

theorem alarm_dispatch_correct:
  assumes "alarm_inv s" and "dispatcher_active s" and "alarms s = ds @ r" and "length ds \<le> expired s"
    and "\<forall>a \<in> set ds. \<exists>al. map_of (objs s) a = Some al \<and> due_alarm env (ticks s) al"
    and "\<forall>m \<ge> ticks s. clk env (ticks s) \<le> clk env m"
    and "\<forall>q. length (queues s q) + length (filter (on_queue (objs s) q) ds) \<le> places s q"
  shows "\<exists>s'. callback_dispatch (length ds) env s = Inr s' \<and> alarm_inv s' \<and>
    (granting env \<and> ds \<noteq> [] \<longrightarrow> armed s') \<and>
    (\<forall>q. queues s' q = queue_after (objs s) ds q (queues s q)) \<and>
    mset (alarms s') = mset (filter (periodic_in (objs s)) ds) + mset r \<and>
    (\<forall>a \<in> set ds. \<forall>al. map_of (objs s) a = Some al \<longrightarrow>
       (\<exists>al'. map_of (objs s') a = Some al' \<and> handed_on env (ticks s) al al')) \<and>
    (\<forall>b. b \<notin> set ds \<longrightarrow> map_of (objs s') b = map_of (objs s) b) \<and>
    (alarms s' = [] \<or> clk env (ticks s') < dl (objs s') (hd (alarms s')) \<longrightarrow>
       (\<exists>s''. dispatch_once env s' = Inr s'' \<and> alarm_inv s'' \<and> same_core s' s'' \<and> (granting env \<longrightarrow> armed s'')))"
proof -
  obtain s' where s': "callback_dispatch (length ds) env s = Inr s'" "alarm_inv s'" "granting env \<and> ds \<noteq> [] \<longrightarrow> armed s'"
      "\<forall>a \<in> set ds. \<forall>al. map_of (objs s) a = Some al \<longrightarrow>
         (\<exists>al'. map_of (objs s') a = Some al' \<and> handed_on env (ticks s) al al')"
      "\<forall>b. b \<notin> set ds \<longrightarrow> map_of (objs s') b = map_of (objs s) b"
      "mset (alarms s') = mset (filter (periodic_in (objs s)) ds) + mset r"
      "\<forall>q. queues s' q = queue_after (objs s) ds q (queues s q)"
    using dispatch_run [OF assms(1-5) order.refl assms(6,7)] by blast
  have "\<exists>s''. dispatch_once env s' = Inr s'' \<and> alarm_inv s'' \<and> same_core s' s'' \<and> (granting env \<longrightarrow> armed s'')"
    if idle: "alarms s' = [] \<or> clk env (ticks s') < dl (objs s') (hd (alarms s'))"
  proof -
    have "alarms s' = [] \<or> (\<exists>a l al. alarms s' = a # l \<and> map_of (objs s') a = Some al \<and> clk env (ticks s') < deadline al)"
      using idle pending_front [of "objs s'"] alarm_invD(1) [OF s'(2)] by (cases "alarms s'") force+
    from dispatch_idle [OF s'(2) this] show ?thesis by blast
  qed
  with s' show ?thesis by blast
qed

text \<open>Two alarms are due, a single one at 50 and a periodic one at 60; a third one is not.\<close>

definition demo_three :: alarm_sys where
  "demo_three = demo_alarms\<lparr>expired := 2,
     objs := [(16, demo_alarm), (24, demo_alarm\<lparr>deadline := 60, is_periodic := True, alarm_queue := 9\<rparr>),
              (32, demo_alarm\<lparr>deadline := 900\<rparr>)], alarms := [16, 24, 32]\<rparr>"

definition slow_env :: alarm_env where
  "slow_env = demo_env\<lparr>clk := (\<lambda>_. 100)\<rparr>"

theorem alarm_dispatch_correct_witness:
  "alarm_inv demo_three \<and> (\<exists>s'. callback_dispatch 2 slow_env demo_three = Inr s' \<and>
     queues s' 8 = [16] \<and> queues s' 9 = [24] \<and> mset (alarms s') = {#24, 32#})"
proof -
  have inv: "alarm_inv demo_three" "dispatcher_active demo_three" "alarms demo_three = [16, 24] @ [32]"
    by (simp_all add: demo_three_def demo_alarms_def demo_alarm_def alarm_inv_def pending_ok_def lock_ok_def dl_def)
  have due: "\<forall>a \<in> set [16, 24]. \<exists>al. map_of (objs demo_three) a = Some al \<and> due_alarm slow_env (ticks demo_three) al"
    by (simp add: demo_three_def demo_alarm_def due_alarm_def slow_env_def)
  have rest: "length [16 :: ptr, 24] \<le> expired demo_three"
      "\<forall>m \<ge> ticks demo_three. clk slow_env (ticks demo_three) \<le> clk slow_env m"
      "\<forall>q. length (queues demo_three q) + length (filter (on_queue (objs demo_three) q) [16, 24]) \<le> places demo_three q"
    by (simp_all add: demo_three_def slow_env_def demo_alarms_def on_queue_def)
  obtain s' where s': "callback_dispatch (length [16 :: ptr, 24]) slow_env demo_three = Inr s'"
      "\<forall>q. queues s' q = queue_after (objs demo_three) [16, 24] q (queues demo_three q)"
      "mset (alarms s') = mset (filter (periodic_in (objs demo_three)) [16, 24]) + mset [32]"
    using alarm_dispatch_correct [OF inv rest(1) due rest(2,3)] by blast
  have q: "queues s' 8 = [16]" "queues s' 9 = [24]"
    by (simp_all add: s'(2) queue_after_def demo_three_def demo_alarms_def demo_alarm_def on_queue_def)
  have m: "mset (alarms s') = {#24, 32#}"
    by (simp add: s'(3) demo_three_def demo_alarm_def periodic_in_def)
  have "length [16 :: ptr, 24] = 2" by simp
  with s'(1) q m inv(1) show ?thesis by metis
qed

text \<open>
  If the queue of a due alarm is full, the dispatcher blocks there, with the monitor held.
\<close>

lemma alarm_dispatch_blocks:
  assumes "alarm_inv s" and "alarms s = a # r" and "map_of (objs s) a = Some al"
    and "deadline al \<le> clk env (ticks s)" and "\<not> is_periodic al"
    and "places s (alarm_queue al) \<le> length (queues s (alarm_queue al))"
  shows "dispatch_once env s = Inl Blocks"
  using dispatch_single [OF assms(1-5)] assms(6) by simp

text \<open>
  Periodic alarms keep their rhythm: when a periodic alarm is dispatched it is at once
  scheduled again, at a whole number of periods after its creation, strictly in the future
  and at most one period away, however late the dispatcher runs; one instance is in the
  queue, and the deadline that was due is remembered for the statistics.
\<close>

theorem alarm_periodic_rhythm:
  assumes "alarm_inv s" and "alarms s = a # r" and "map_of (objs s) a = Some al"
    and "deadline al \<le> clk env (ticks s)" and "is_periodic al" "callback al \<noteq> NULL" "alarm_queue al \<noteq> NULL"
    and "period al \<noteq> 0" and "unat (clk env (Suc (ticks s))) + unat (period al) < 2 ^ 64"
    and "creation_time al \<le> clk env (Suc (ticks s))"
    and "length (removeAll a (queues s (alarm_queue al))) < places s (alarm_queue al)"
  shows "\<exists>s' al'. dispatch_once env s = Inr s' \<and> alarm_inv s' \<and> (granting env \<longrightarrow> armed s') \<and>
    map_of (objs s') a = Some al' \<and> prev_deadline al' = deadline al \<and>
    unat (period al) dvd unat (deadline al') - unat (creation_time al) \<and>
    clk env (Suc (ticks s)) < deadline al' \<and>
    unat (deadline al') \<le> unat (clk env (Suc (ticks s))) + unat (period al) \<and>
    mset (alarms s') = mset (alarms s) \<and>
    queues s' (alarm_queue al) = removeAll a (queues s (alarm_queue al)) @ [a]"
proof -
  obtain s' al' where s': "dispatch_once env s = Inr s'" "alarm_inv s'" "granting env \<longrightarrow> armed s'"
      "map_of (objs s') = (map_of (objs s))(a \<mapsto> al')" "prev_deadline al' = deadline al"
      "deadline al' = next_deadline al (clk env (Suc (ticks s)))"
      "alarms s' = insert_by (dl (objs s')) a r"
      "queues s' = (queues s)(alarm_queue al := removeAll a (queues s (alarm_queue al)) @ [a])"
    using dispatch_periodic [OF assms(1-9,11)] by blast
  have "mset (alarms s') = mset (alarms s)" using s'(7) assms(2) by simp
  with s' next_deadline_bounds(1,2) [OF assms(8,9)] next_deadline_aligned [OF assms(8,9,5,10)] show ?thesis
    by (intro exI [of _ s'] exI [of _ al']) simp
qed

theorem alarm_periodic_rhythm_witness:
  "\<exists>s' al'. dispatch_once demo_env (demo_alarms\<lparr>objs := [(16, demo_alarm\<lparr>is_periodic := True\<rparr>)]\<rparr>) = Inr s' \<and>
     map_of (objs s') 16 = Some al' \<and> 10 dvd unat (deadline al') - 40 \<and> 101 < deadline al'"
proof -
  let ?s = "demo_alarms\<lparr>objs := [(16, demo_alarm\<lparr>is_periodic := True\<rparr>)]\<rparr>" and ?al = "demo_alarm\<lparr>is_periodic := True\<rparr>"
  have inv: "alarm_inv ?s"
    by (simp add: demo_alarms_def demo_alarm_def alarm_inv_def pending_ok_def lock_ok_def dl_def)
  have facts: "alarms ?s = 16 # []" "map_of (objs ?s) 16 = Some ?al" "deadline ?al \<le> clk demo_env (ticks ?s)"
      "is_periodic ?al" "callback ?al \<noteq> NULL" "alarm_queue ?al \<noteq> NULL" "period ?al \<noteq> 0"
      "unat (clk demo_env (Suc (ticks ?s))) + unat (period ?al) < 2 ^ 64" "creation_time ?al \<le> clk demo_env (Suc (ticks ?s))"
      "length (removeAll 16 (queues ?s (alarm_queue ?al))) < places ?s (alarm_queue ?al)"
    by (simp_all add: demo_alarms_def demo_alarm_def demo_env_def)
  have nums: "clk demo_env (Suc (ticks ?s)) = 101" "period ?al = 10" "creation_time ?al = 40"
    by (simp_all add: demo_alarms_def demo_alarm_def demo_env_def)
  from alarm_periodic_rhythm [OF inv facts] show ?thesis unfolding nums by auto
qed

text \<open>
  C39. Moving a fired alarm to another queue leaves it behind: \<open>alarm_set_internal\<close> overwrites the
  queue before the pending instance is removed, so an instance waiting in the old queue stays
  there; if the alarm is then cancelled, processing the old queue calls a null pointer.
\<close>

theorem alarm_queue_change_crash:
  assumes "alarm_inv s" and "map_of (objs s) a = Some al" and "a \<noteq> NULL" "cb \<noteq> NULL" "q \<noteq> NULL" and "per \<noteq> 0"
    and "unat (clk env (Suc (ticks s))) + unat per < 2 ^ 64"
    and "\<not> is_periodic al" and "queues s old = a # waiting" and "old \<noteq> q"
  shows "\<exists>s1 s2. alarm_set_on_queue env a per cb dat q s = Inr s1 \<and> queues s1 old = a # waiting \<and>
    alarm_cancel env a s1 = Inr s2 \<and> alarm_queue_ready env old s2 = Inl BadPointer"
proof -
  define al1 where "al1 = set_fields (clk env (ticks s)) per q cb dat al"
  define al2 where "al2 = bump_scheduled (al1\<lparr>deadline := next_deadline al1 (clk env (Suc (ticks s)))\<rparr>)"
  obtain s1 where s1: "alarm_set_internal env a per cb dat q s = Inr s1" "alarm_inv s1"
    "map_of (objs s1) = (map_of (objs s))(a \<mapsto> al2)" "queues s1 = (queues s)(q := removeAll a (queues s q))"
    using alarm_set_internal_ok [OF assms(1-7), of dat] unfolding al1_def al2_def by blast
  have al2: "map_of (objs s1) a = Some al2" using s1(3) by simp
  have q: "alarm_queue al2 = q" by (simp add: al2_def al1_def set_fields_def bump_scheduled_def)
  have old: "queues s1 old = a # waiting" using s1(4) assms(9,10) by simp
  obtain s2 where s2: "alarm_cancel env a s1 = Inr s2" "map_of (objs s2) = (map_of (objs s1))(a \<mapsto> canceled_alarm al2)"
    "queues s2 = (if alarm_queue al2 = NULL then queues s1
       else (queues s1)(alarm_queue al2 := removeAll a (queues s1 (alarm_queue al2))))" "alarm_inv s2"
    using alarm_cancel_ok [OF s1(2) al2 assms(3), of env] by blast
  have "queues s2 old = a # waiting" "map_of (objs s2) a = Some (canceled_alarm al2)"
    using s2 old q assms(10) by simp_all
  then have "alarm_queue_ready env old s2 = Inl BadPointer"
    using alarm_inv_made [OF s2(4)]
    by (simp add: alarm_queue_ready_def take_ready_def call_start_def now_ms_def Let_def canceled_alarm_def)
  then show ?thesis using s1(1) s2(1) old assms(5) by (auto simp: alarm_set_on_queue_def)
qed

theorem alarm_queue_change_crash_witness:
  "\<exists>s1 s2. alarm_set_on_queue demo_env 16 20 5 6 9 (demo_alarms\<lparr>queues := (\<lambda>_. [])(8 := [16])\<rparr>) = Inr s1 \<and>
     alarm_cancel demo_env 16 s1 = Inr s2 \<and> alarm_queue_ready demo_env 8 s2 = Inl BadPointer"
proof -
  let ?s = "demo_alarms\<lparr>queues := (\<lambda>_. [])(8 := [16])\<rparr>"
  have inv: "alarm_inv ?s" using demo_alarms_facts(1) by (simp add: alarm_inv_def lock_ok_def)
  have facts: "map_of (objs ?s) 16 = Some demo_alarm" "\<not> is_periodic demo_alarm" "queues ?s 8 = 16 # []"
      "unat (clk demo_env (Suc (ticks ?s))) + unat (20 :: period_ms_t) < 2 ^ 64"
    by (simp_all add: demo_alarms_def demo_alarm_def demo_env_def)
  show ?thesis
    using alarm_queue_change_crash [OF inv facts(1) _ _ _ _ facts(4,2,3), of 5 9 6] by auto
qed

text \<open>
  Initialisation is all or nothing: when any step of \<open>lazy_initialize\<close> fails, it answers false
  and nothing is left allocated; when all succeed everything is there. \<open>alarm_cleanup\<close> does not
  give everything back: both kernel timers survive it.
\<close>

theorem lazy_initialize_balanced:
  assumes "\<not> made s" and "held s = []"
  shows "\<exists>ok s'. lazy_initialize ie s = Inr (ok, s') \<and> made s' = ok \<and> dispatcher_active s' = ok \<and>
     (ok \<longleftrightarrow> list_ok ie \<and> timer_ok ie \<and> wakeup_ok ie \<and> sem_ok ie \<and> cb_thread_ok ie \<and> cb_queue_ok ie \<and> dispatcher_ok ie) \<and>
     (if ok then (\<forall>x. x \<in> set (held s')) \<and> alarms s' = [] \<and> held (alarm_cleanup s') = [Timer, WakeupTimer] else held s' = [])"
proof -
  have "\<forall>x. x \<in> set [Monitor, AlarmList, Timer, WakeupTimer, ExpiredSem, CallbackThread, CallbackQueue, DispatcherThread]"
    using resource.exhaust by (metis list.set_intros)
  then show ?thesis using assms by (simp add: lazy_initialize_def init_error_def alarm_cleanup_def Let_def)
qed

theorem lazy_initialize_balanced_witness:
  "\<exists>s'. lazy_initialize \<lparr>list_ok = True, timer_ok = True, wakeup_ok = True, sem_ok = False, cb_thread_ok = True,
     cb_queue_ok = True, dispatcher_ok = True\<rparr> (demo_alarms\<lparr>made := False, held := []\<rparr>) = Inr (False, s') \<and> held s' = []"
  using lazy_initialize_balanced [of "demo_alarms\<lparr>made := False, held := []\<rparr>" "\<lparr>list_ok = True, timer_ok = True,
     wakeup_ok = True, sem_ok = False, cb_thread_ok = True, cb_queue_ok = True, dispatcher_ok = True\<rparr>"] by auto

end
