(* ===== verification/AlarmQueues.thy ===== *)
theory AlarmQueues
  imports Alarm FixedQueue
begin

text \<open>
  The processing queues of the alarms (\<open>src/alarm.c\<close>) are fixed queues (\<open>src/fixed_queue.c\<close>). The
  theory \<open>Alarm\<close> represents such a queue by its sequence of elements and its number of places;
  here this is justified: every operation of the alarm module on a queue, carried out on the
  linked list and the two semaphores, does to the sequence what \<open>Alarm\<close> says, waits in the
  same cases, and the loop that removes an alarm from its queue ends.
\<close>

section \<open>Operations on fixed queues\<close>

text \<open>\<open>ready_fn\<close> is the address of \<open>alarm_queue_ready\<close>, \<open>obj\<close> what \<open>reactor_register\<close> answers.\<close>

definition alarm_register_processing_queue ::
  "ptr \<Rightarrow> ptr \<Rightarrow> fixed_queue_t option \<Rightarrow> bool \<Rightarrow> (reactor_call list \<times> fixed_queue_t) res" where
  "alarm_register_processing_queue ready_fn obj queue thread_given =
     (case queue of None \<Rightarrow> Inl AssertFailed
      | Some q \<Rightarrow> rbind (c_assert thread_given) (\<lambda>_. fixed_queue_register_dequeue obj q ready_fn NULL))"

definition alarm_unregister_processing_queue :: "fixed_queue_t option \<Rightarrow> (reactor_call list \<times> fixed_queue_t) res" where
  "alarm_unregister_processing_queue queue =
     (case queue of None \<Rightarrow> Inl AssertFailed | Some q \<Rightarrow> Inr (fixed_queue_unregister_dequeue q))"

text \<open>What the reactor runs for a queue: the function and the context it calls.\<close>

definition internal_dequeue_ready :: "fixed_queue_t option \<Rightarrow> (ptr \<times> ptr) res" where
  "internal_dequeue_ready queue =
     (case queue of None \<Rightarrow> Inl AssertFailed
      | Some q \<Rightarrow> if dequeue_ready q = NULL then Inl BadPointer else Inr (dequeue_ready q, dequeue_context q))"

text \<open>The loop of \<open>remove_pending_alarm\<close>; a null queue contains nothing.\<close>

fun drain_fixed_queue :: "nat \<Rightarrow> ptr \<Rightarrow> fixed_queue_t \<Rightarrow> fixed_queue_t res" where
  "drain_fixed_queue 0 a q = Inl Diverges"
| "drain_fixed_queue (Suc n) a q =
     rbind (fixed_queue_try_remove_from_queue q a) (\<lambda>(found, q1).
     if found \<noteq> NULL then drain_fixed_queue n a q1 else Inr q1)"

text \<open>The queues of a system, by address, and the three things the module does with them.\<close>

type_synonym fixed_queues = "ptr \<rightharpoonup> fixed_queue_t"

definition queue_enqueue :: "ptr \<Rightarrow> ptr \<Rightarrow> fixed_queues \<Rightarrow> fixed_queues res" where
  "queue_enqueue q a fqs =
     (case fqs q of None \<Rightarrow> Inl BadPointer
      | Some fq \<Rightarrow> rbind (fixed_queue_enqueue fq a) (\<lambda>fq1. Inr (fqs(q \<mapsto> fq1))))"

definition queue_drain :: "nat \<Rightarrow> ptr \<Rightarrow> ptr \<Rightarrow> fixed_queues \<Rightarrow> fixed_queues res" where
  "queue_drain n q a fqs =
     (if q = NULL then Inr fqs
      else case fqs q of None \<Rightarrow> Inl BadPointer
      | Some fq \<Rightarrow> rbind (drain_fixed_queue n a fq) (\<lambda>fq1. Inr (fqs(q \<mapsto> fq1))))"

definition queue_take :: "ptr \<Rightarrow> fixed_queues \<Rightarrow> (ptr \<times> fixed_queues) res" where
  "queue_take q fqs =
     (case fqs q of None \<Rightarrow> Inl BadPointer
      | Some fq \<Rightarrow> rbind (fixed_queue_try_dequeue fq) (\<lambda>(a, fq1). Inr (a, fqs(q \<mapsto> fq1))))"

section \<open>Refinement\<close>

text \<open>The fixed queues implement the sequences and the numbers of places of the alarm module.\<close>

definition implements :: "fixed_queues \<Rightarrow> alarm_sys \<Rightarrow> bool" where
  "implements fqs s \<longleftrightarrow> (\<forall>q fq. fqs q = Some fq \<longrightarrow>
     fq_inv fq \<and> fq_content fq = queues s q \<and> fq_places fq = places s q)"

lemma implementsD:
  assumes "implements fqs s" and "fqs q = Some fq"
  shows "fq_inv fq" "fq_content fq = queues s q" "fq_places fq = places s q"
  using assms by (auto simp: implements_def)

lemma implements_upd:
  assumes "implements fqs s" and "fq_inv fq" and "fq_places fq = places s q"
  shows "implements (fqs(q \<mapsto> fq)) (s\<lparr>queues := (queues s)(q := fq_content fq)\<rparr>)"
  using assms by (auto simp: implements_def)

lemma fq_full_iff: "fq_inv fq \<Longrightarrow> fq_full fq \<longleftrightarrow> fq_places fq \<le> length (fq_content fq)"
  by (auto simp: fq_full_def fq_inv_def)

lemma fq_places_capacity: "fq_capacity q' = fq_capacity q \<Longrightarrow> fq_places q' = fq_places q"
  by (simp add: fq_places_def)

text \<open>The loop ends after at most one round more than the queue has elements.\<close>

lemma drain_fixed_queue_ok:
  assumes "fq_inv q" and "a \<noteq> NULL" and "length (fq_content q) < n"
  shows "\<exists>q'. drain_fixed_queue n a q = Inr q' \<and> fq_inv q' \<and> fq_content q' = removeAll a (fq_content q) \<and>
    fq_places q' = fq_places q"
  using assms
proof (induction n arbitrary: q)
  case (Suc n)
  show ?case
  proof (cases "a \<in> set (fq_content q)")
    case True
    then obtain q1 where q1: "fixed_queue_try_remove_from_queue q a = Inr (a, q1)" "fq_inv q1"
      "fq_content q1 = remove1 a (fq_content q)" "fq_places q1 = fq_places q"
      using fixed_queue_try_remove_ok [OF Suc.prems(1,2)] by (auto dest: fq_places_capacity)
    have "length (fq_content q1) = length (fq_content q) - 1" unfolding q1(3) using True by (simp add: length_remove1)
    then have "length (fq_content q1) < n" using length_pos_if_in_set [OF True] Suc.prems(3) by linarith
    moreover have "removeAll a (remove1 a (fq_content q)) = removeAll a (fq_content q)"
      by (metis drain_queue.simps drain_queue_removeAll True)
    ultimately show ?thesis using Suc.IH [OF q1(2) Suc.prems(2)] q1 Suc.prems(2) by auto
  next
    case False
    then show ?thesis using fixed_queue_try_remove_ok [OF Suc.prems(1,2)] Suc.prems(1) by simp
  qed
qed simp

lemma queue_enqueue_refines:
  assumes imp: "implements fqs s" and q: "fqs q = Some fq" and a: "a \<noteq> NULL"
  shows "case enqueue_alarm q a s of Inl e \<Rightarrow> queue_enqueue q a fqs = Inl e
    | Inr s' \<Rightarrow> \<exists>fqs'. queue_enqueue q a fqs = Inr fqs' \<and> implements fqs' s'"
proof -
  note fq = implementsD [OF imp q]
  show ?thesis
  proof (cases "length (queues s q) < places s q")
    case True
    then have "\<not> fq_full fq" using fq fq_full_iff by auto
    then obtain fq' where "fixed_queue_enqueue fq a = Inr fq'" "fq_inv fq'" "fq_content fq' = fq_content fq @ [a]"
      "fq_places fq' = fq_places fq"
      using fixed_queue_enqueue_ok [OF fq(1) a] by (auto dest: fq_places_capacity)
    then show ?thesis using True q fq implements_upd [OF imp, of fq' q] by (simp add: enqueue_alarm_def queue_enqueue_def)
  next
    case False
    then have "fq_full fq" using fq fq_full_iff by auto
    then show ?thesis using False q bq.enqueue_full [OF fq(1) a] by (simp add: enqueue_alarm_def queue_enqueue_def)
  qed
qed

lemma queue_drain_refines:
  assumes imp: "implements fqs s" and q: "q \<noteq> NULL \<Longrightarrow> fqs q = Some fq" and a: "a \<noteq> NULL"
    and al: "map_of (objs s) a = Some al" "alarm_queue al = q" and fuel: "length (queues s q) < n"
  shows "\<exists>fqs' s'. queue_drain n q a fqs = Inr fqs' \<and> remove_pending_alarm a s = Inr s' \<and> implements fqs' s'"
proof (cases "q = NULL")
  case True
  then show ?thesis using imp al by (simp add: queue_drain_def remove_pending_alarm_def implements_def)
next
  case False
  note fq = implementsD [OF imp q [OF False]]
  obtain fq' where fq': "drain_fixed_queue n a fq = Inr fq'" "fq_inv fq'" "fq_content fq' = removeAll a (queues s q)"
    "fq_places fq' = places s q"
    using drain_fixed_queue_ok [OF fq(1) a, of n] fuel fq by auto
  then show ?thesis using False q al implements_upd [OF imp fq'(2,4)]
    by (simp add: queue_drain_def remove_pending_alarm_def drain_queue_removeAll implements_def)
qed

lemma queue_take_refines:
  assumes imp: "implements fqs s" and q: "fqs q = Some fq"
  shows "case queues s q of [] \<Rightarrow> \<exists>fqs'. queue_take q fqs = Inr (NULL, fqs') \<and> implements fqs' s
    | a # rest \<Rightarrow> \<exists>fqs'. a \<noteq> NULL \<and> queue_take q fqs = Inr (a, fqs') \<and> implements fqs' (s\<lparr>queues := (queues s)(q := rest)\<rparr>)"
proof -
  note fq = implementsD [OF imp q]
  show ?thesis
  proof (cases "queues s q")
    case Nil
    then have "fixed_queue_try_dequeue fq = Inr (NULL, fq)" using bq.dequeue_empty [OF fq(1)] fq(2) by simp
    then show ?thesis using Nil q imp by (auto simp: queue_take_def implements_def)
  next
    case (Cons a rest)
    then obtain fq' where "fixed_queue_try_dequeue fq = Inr (a, fq')" "fq_inv fq'" "fq_content fq' = rest"
      "fq_places fq' = places s q"
      using fixed_queue_dequeue_ok [OF fq(1)] fq(2,3) by (auto dest: fq_places_capacity)
    moreover have "a \<noteq> NULL" using bq.content_nonnull [OF fq(1)] fq(2) Cons by auto
    ultimately show ?thesis using Cons q implements_upd [OF imp, of fq' q] by (simp add: queue_take_def)
  qed
qed

section \<open>Properties\<close>

text \<open>
  C12. The processing queues of the alarm module are implemented by fixed queues: enqueuing waits
  exactly when the module says so and else appends; removing an alarm from its queue and taking
  the next alarm have the effect they have on the sequences; the relation between queues and
  sequences is kept by all of them.
\<close>

theorem alarm_queues_refine:
  assumes "implements fqs s" and "fqs q = Some fq" and "q \<noteq> NULL" and "a \<noteq> NULL"
    and "map_of (objs s) a = Some al" and "alarm_queue al = q"
  shows "(case enqueue_alarm q a s of Inl e \<Rightarrow> queue_enqueue q a fqs = Inl e
      | Inr s' \<Rightarrow> \<exists>fqs'. queue_enqueue q a fqs = Inr fqs' \<and> implements fqs' s') \<and>
    (\<exists>fqs' s'. queue_drain (Suc (length (queues s q))) q a fqs = Inr fqs' \<and> remove_pending_alarm a s = Inr s' \<and>
      implements fqs' s') \<and>
    (case queues s q of [] \<Rightarrow> \<exists>fqs'. queue_take q fqs = Inr (NULL, fqs') \<and> implements fqs' s
      | b # rest \<Rightarrow> \<exists>fqs'. b \<noteq> NULL \<and> queue_take q fqs = Inr (b, fqs') \<and> implements fqs' (s\<lparr>queues := (queues s)(q := rest)\<rparr>))"
  using queue_enqueue_refines [OF assms(1,2,4)] queue_drain_refines [OF assms(1) _ assms(4-6)] assms(2,3)
    queue_take_refines [OF assms(1,2)] by blast

theorem alarm_queues_refine_witness:
  "\<exists>fqs' s'. queue_drain 1 8 16 [8 \<mapsto> demo_queue] = Inr fqs' \<and>
     remove_pending_alarm 16 (demo_alarms\<lparr>places := \<lambda>_. 2\<rparr>) = Inr s' \<and> implements fqs' s'"
proof -
  let ?s = "demo_alarms\<lparr>places := \<lambda>_. 2\<rparr>"
  have "implements [8 \<mapsto> demo_queue] ?s"
    using demo_queue_facts by (simp add: implements_def demo_alarms_def)
  moreover have "map_of (objs ?s) 16 = Some demo_alarm" "alarm_queue demo_alarm = 8" "queues ?s 8 = []"
    by (simp_all add: demo_alarms_def demo_alarm_def)
  ultimately show ?thesis
    using alarm_queues_refine [of "[8 \<mapsto> demo_queue]" ?s 8 demo_queue 16 demo_alarm] by auto
qed

text \<open>
  C18. The loop that removes an alarm from its queue ends: on every well-formed queue one round
  more than it has elements is enough; afterwards the alarm is not in the queue, all other
  elements are there in their order, and the freed places are available again.
\<close>

theorem drain_terminates:
  assumes "fq_inv q" and "a \<noteq> NULL"
  shows "\<exists>n q'. n \<le> Suc (length (fq_content q)) \<and> drain_fixed_queue n a q = Inr q' \<and> fq_inv q' \<and>
    fq_content q' = filter (\<lambda>x. x \<noteq> a) (fq_content q) \<and>
    unat (sem_count (enqueue_sem q')) = fq_places q - length (filter (\<lambda>x. x \<noteq> a) (fq_content q))"
proof -
  have rem: "removeAll a xs = filter (\<lambda>x. x \<noteq> a) xs" for xs :: "ptr list"
    by (induction xs) auto
  obtain q' where q': "drain_fixed_queue (Suc (length (fq_content q))) a q = Inr q'" "fq_inv q'"
    "fq_content q' = filter (\<lambda>x. x \<noteq> a) (fq_content q)" "fq_places q' = fq_places q"
    using drain_fixed_queue_ok [OF assms lessI] unfolding rem by blast
  then have "unat (sem_count (enqueue_sem q')) = fq_places q - length (fq_content q')" by (auto simp: fq_inv_def)
  then show ?thesis using q' by (intro exI [of _ "Suc (length (fq_content q))"] exI [of _ q']) simp
qed

theorem drain_terminates_witness:
  "\<exists>n q'. n \<le> 1 \<and> drain_fixed_queue n 16 demo_queue = Inr q' \<and> fq_content q' = [] \<and> unat (sem_count (enqueue_sem q')) = 2"
  using drain_terminates [of demo_queue 16] demo_queue_facts by auto

end
