(* ===== verification/AlarmThreads.thy ===== *)
theory AlarmThreads
  imports Alarm
begin

text \<open>
  The threads that use the alarm module of \<open>src/alarm.c\<close> at the same time. The sections under the
  monitor are the functions of \<open>Alarm\<close>, executed atomically; what happens between them is a step
  relation: the callback lock of each alarm, taken by \<open>alarm_queue_ready\<close> while it still holds the
  monitor and kept during the callback, and the wait for that lock at the end of \<open>alarm_cancel\<close>.
  A callback may itself set and cancel alarms. The dispatcher and the kernel timer run in
  between. The module is not cleaned up in this model.

  The theory shows what \<open>alarm_cancel\<close> promises (once it has returned, no other thread is in the
  callback or will enter it unless the alarm is set again), and that no null callback is ever
  called as long as an alarm that waits in a queue is not moved to another queue. It also shows
  that \<open>alarm_free\<close> takes the object away without leaving a reference to it, except to a thread that is
  still at the end of its own \<open>alarm_cancel\<close> of the alarm, and that two callbacks which cancel the alarm of each other wait for ever.
\<close>

section \<open>The system\<close>

text \<open>
  What a thread is doing inside the module: waiting at the end of \<open>alarm_cancel\<close>, or waiting for the
  callback lock of the alarm it took from its queue, with the callback and the deadline.
\<close>

datatype thread_act = NoAct | CancelWait ptr | TakeWait ptr ptr period_ms_t

text \<open>\<open>calling\<close>: the alarm whose callback the thread is in, the time it started, the deadline.\<close>

record athread =
  calling :: "(ptr \<times> period_ms_t \<times> period_ms_t) option"
  act :: thread_act

record alarm_world =
  alarm_mod :: alarm_sys
  monitor :: "nat option"
  callback_lock :: "ptr \<Rightarrow> nat option"
  workers :: "athread list"
  crashed :: bool

datatype alarm_label = SetAlarm nat ptr ptr | CancelBegin nat ptr | CancelEnd nat ptr | Internal

definition does :: "alarm_world \<Rightarrow> nat \<Rightarrow> thread_act \<Rightarrow> bool" where
  "does x i w \<longleftrightarrow> i < length (workers x) \<and> act (workers x ! i) = w"

definition in_call :: "alarm_world \<Rightarrow> nat \<Rightarrow> ptr \<Rightarrow> bool" where
  "in_call x i a \<longleftrightarrow> i < length (workers x) \<and> (\<exists>t d. calling (workers x ! i) = Some (a, t, d))"

definition set_act :: "nat \<Rightarrow> thread_act \<Rightarrow> alarm_world \<Rightarrow> alarm_world" where
  "set_act i w x = x\<lparr>workers := (workers x)[i := (workers x ! i)\<lparr>act := w\<rparr>]\<rparr>"

definition set_call :: "nat \<Rightarrow> (ptr \<times> period_ms_t \<times> period_ms_t) option \<Rightarrow> alarm_world \<Rightarrow> alarm_world" where
  "set_call i c x = x\<lparr>workers := (workers x)[i := \<lparr>calling = c, act = NoAct\<rparr>]\<rparr>"

text \<open>The alarms that are allocated. The callback lock of an alarm is part of its object.\<close>

definition live_objs :: "alarm_sys \<Rightarrow> ptr set" where
  "live_objs s = dom (map_of (objs s))"

text \<open>
  A call that sets, cancels or dispatches is a step when it returns. A dispatcher in front of a full
  queue has no step; in the code it waits there and keeps the monitor, so the model has more runs
  than the code, where the other threads go on meanwhile. A call of \<open>alarm_set\<close> that fails has no
  step either. The step \<open>lock_crash\<close> is the use of the callback lock of an object that was freed, by
  a thread that waits for it at the end of \<open>alarm_cancel\<close> or in \<open>alarm_queue_ready\<close>.
\<close>

inductive alarm_step :: "alarm_env \<Rightarrow> alarm_label \<Rightarrow> alarm_world \<Rightarrow> alarm_world \<Rightarrow> bool" for env where
  set: "does x i NoAct \<Longrightarrow> monitor x = None \<Longrightarrow>
    alarm_set_on_queue env a per cb dat q (alarm_mod x) = Inr s \<Longrightarrow>
    alarm_step env (SetAlarm i a q) x (x\<lparr>alarm_mod := s\<rparr>)"
| cancel_begin: "does x i NoAct \<Longrightarrow> monitor x = None \<Longrightarrow> a \<noteq> NULL \<Longrightarrow> alarm_cancel env a (alarm_mod x) = Inr s \<Longrightarrow>
    alarm_step env (CancelBegin i a) x (set_act i (CancelWait a) (x\<lparr>alarm_mod := s\<rparr>))"
| cancel_end: "does x i (CancelWait a) \<Longrightarrow> callback_lock x a = None \<or> callback_lock x a = Some i \<Longrightarrow>
    a \<in> live_objs (alarm_mod x) \<Longrightarrow>
    alarm_step env (CancelEnd i a) x (set_act i NoAct x)"
| take_none: "does x i NoAct \<Longrightarrow> monitor x = None \<Longrightarrow> take_ready q (alarm_mod x) = Inr (None, s) \<Longrightarrow>
    alarm_step env Internal x (x\<lparr>alarm_mod := s\<rparr>)"
| take: "does x i NoAct \<Longrightarrow> calling (workers x ! i) = None \<Longrightarrow> monitor x = None \<Longrightarrow>
    take_ready q (alarm_mod x) = Inr (Some (a, cb, dat, d), s) \<Longrightarrow>
    alarm_step env Internal x (set_act i (TakeWait a cb d) (x\<lparr>alarm_mod := s, monitor := Some i\<rparr>))"
| call: "does x i (TakeWait a cb d) \<Longrightarrow> callback_lock x a = None \<or> callback_lock x a = Some i \<Longrightarrow>
    call_start env cb (alarm_mod x) = Inr (t, s) \<Longrightarrow> a \<in> live_objs (alarm_mod x) \<Longrightarrow>
    alarm_step env Internal x (set_call i (Some (a, t, d))
      (x\<lparr>alarm_mod := s, monitor := None, callback_lock := (callback_lock x)(a := Some i)\<rparr>))"
| call_crash: "does x i (TakeWait a cb d) \<Longrightarrow> callback_lock x a = None \<or> callback_lock x a = Some i \<Longrightarrow>
    call_start env cb (alarm_mod x) = Inl e \<Longrightarrow> alarm_step env Internal x (x\<lparr>crashed := True\<rparr>)"
| lock_crash: "does x i w \<Longrightarrow> w = CancelWait a \<or> w = TakeWait a cb d \<Longrightarrow> a \<notin> live_objs (alarm_mod x) \<Longrightarrow>
    alarm_step env Internal x (x\<lparr>crashed := True\<rparr>)"
| return: "does x i NoAct \<Longrightarrow> calling (workers x ! i) = Some (a, t, d) \<Longrightarrow>
    call_end env a t d (alarm_mod x) = Inr s \<Longrightarrow>
    alarm_step env Internal x (set_call i None (x\<lparr>alarm_mod := s, callback_lock := (callback_lock x)(a := None)\<rparr>))"
| return_crash: "does x i NoAct \<Longrightarrow> calling (workers x ! i) = Some (a, t, d) \<Longrightarrow>
    call_end env a t d (alarm_mod x) = Inl e \<Longrightarrow> alarm_step env Internal x (x\<lparr>crashed := True\<rparr>)"
| dispatch: "monitor x = None \<Longrightarrow> dispatcher_active (alarm_mod x) \<Longrightarrow> 0 < expired (alarm_mod x) \<Longrightarrow>
    dispatch_once env ((alarm_mod x)\<lparr>expired := expired (alarm_mod x) - 1\<rparr>) = Inr s \<Longrightarrow>
    alarm_step env Internal x (x\<lparr>alarm_mod := s\<rparr>)"
| timer: "alarm_step env Internal x (x\<lparr>alarm_mod := timer_callback (alarm_mod x)\<rparr>)"

text \<open>Runs whose steps all satisfy a condition on the label and the state.\<close>

definition alarm_run :: "alarm_env \<Rightarrow> (alarm_label \<Rightarrow> alarm_world \<Rightarrow> bool) \<Rightarrow> alarm_world \<Rightarrow> alarm_world \<Rightarrow> bool" where
  "alarm_run env P = (\<lambda>x y. \<exists>l. alarm_step env l x y \<and> P l x)\<^sup>*\<^sup>*"

text \<open>Clients that do not move an alarm to another queue while it waits in one.\<close>

fun disciplined :: "alarm_label \<Rightarrow> alarm_world \<Rightarrow> bool" where
  "disciplined (SetAlarm i a q) x = (case map_of (objs (alarm_mod x)) a of None \<Rightarrow> True
     | Some al \<Rightarrow> alarm_queue al = q \<or> a \<notin> set (queues (alarm_mod x) (alarm_queue al)))"
| "disciplined _ x = True"

fun sets :: "ptr \<Rightarrow> alarm_label \<Rightarrow> bool" where
  "sets a (SetAlarm i b q) = (a = b)"
| "sets a _ = False"

definition start_world :: "nat \<Rightarrow> alarm_sys \<Rightarrow> alarm_world" where
  "start_world n s = \<lparr>alarm_mod = s, monitor = None, callback_lock = \<lambda>_. None,
     workers = replicate n \<lparr>calling = None, act = NoAct\<rparr>, crashed = False\<rparr>"

section \<open>What the operations leave alone\<close>

text \<open>The clock is only read, never set back, and the module stays initialised.\<close>

definition later :: "alarm_sys \<Rightarrow> alarm_sys \<Rightarrow> bool" where
  "later s s' \<longleftrightarrow> made s' = made s \<and> ticks s \<le> ticks s'"

lemma later_refl [simp]: "later s s"
  by (simp add: later_def)

lemma later_trans: "later s1 s2 \<Longrightarrow> later s2 s3 \<Longrightarrow> later s1 s3"
  by (auto simp: later_def)

lemma root_timer_time_core:
  assumes run: "root_timer_time env s = Inr (tt, s')"
  shows "same_core s s' \<and> later s s'"
proof (cases "alarms s")
  case Nil
  then show ?thesis using run by (simp add: root_timer_time_def)
next
  case (Cons a l)
  then obtain al where al: "map_of (objs s) a = Some al" using run by (auto simp: root_timer_time_def)
  have "\<exists>tt1 s1. root_timer_time env s = Inr (tt1, s1) \<and> same_core s s1 \<and> later s s1"
    using Cons al
    by (cases "timer_set s"; cases "acquired env (Suc (ticks s))";
        cases "sint (deadline al - clk env (ticks s)) < TIMER_INTERVAL_FOR_WAKELOCK_IN_MS")
       (simp_all add: root_timer_time_def now_ms_def acquire_def same_core_def later_def)
  then show ?thesis using run by simp
qed

lemma reschedule_core:
  assumes "reschedule_root_alarm env s = Inr s'"
  shows "same_core s s'" "later s s'"
proof -
  obtain tt s1 where "root_timer_time env s = Inr (tt, s1)"
    using assms by (auto simp: reschedule_root_alarm_def Let_def)
  with root_timer_time_core [OF this] assms show "same_core s s'" "later s s'"
    by (auto simp: reschedule_root_alarm_def same_core_def later_def Let_def split: if_splits)
qed

lemma insert_alarm_loop_set:
  "insert_alarm_loop st a d (x # xs) = Inr l \<Longrightarrow> distinct (x # xs) \<Longrightarrow> a \<notin> set (x # xs) \<Longrightarrow>
    set l = insert a (set (x # xs)) \<and> distinct l"
proof (induction st a d "x # xs" arbitrary: x xs l rule: insert_alarm_loop.induct)
  case (2 st a d node)
  then show ?case by auto
next
  case (3 st a d node nxt rest)
  obtain al where al: "map_of st nxt = Some al" using "3.prems"(1) by auto
  show ?case
  proof (cases "deadline al > d")
    case True
    then show ?thesis using "3.prems" al by auto
  next
    case False
    then obtain l1 where l1: "insert_alarm_loop st a d (nxt # rest) = Inr l1" "l = node # l1" using "3.prems"(1) al by auto
    then have "set l1 = insert a (set (nxt # rest))" "distinct l1" using "3.hyps" [OF _ False l1(1)] "3.prems" al by auto
    then show ?thesis using l1 "3.prems" by auto
  qed
qed

lemma insert_alarm_set:
  assumes "insert_alarm st a d l = Inr l'" and "distinct l" and "a \<notin> set l"
  shows "set l' = insert a (set l) \<and> distinct l'"
proof (cases l)
  case Nil
  then show ?thesis using assms by (auto simp: insert_alarm_def)
next
  case (Cons x xs)
  then obtain al where "map_of st x = Some al" using assms(1) by (auto simp: insert_alarm_def)
  then show ?thesis using assms Cons insert_alarm_loop_set [of st a d x xs l']
    by (cases "deadline al > d") (auto simp: insert_alarm_def)
qed

text \<open>The queues after an alarm was taken out of its own queue.\<close>

definition out_of_queue :: "ptr \<Rightarrow> ptr \<Rightarrow> (ptr \<Rightarrow> ptr list) \<Rightarrow> ptr \<Rightarrow> ptr list" where
  "out_of_queue a q qs = (if q = NULL then qs else qs(q := removeAll a (qs q)))"

lemma remove_pending_core:
  assumes "remove_pending_alarm a s = Inr s'" and "map_of (objs s) a = Some al"
  shows "s' = s\<lparr>alarms := remove1 a (alarms s), queues := out_of_queue a (alarm_queue al) (queues s)\<rparr>"
  using assms by (auto simp: remove_pending_alarm_def out_of_queue_def drain_queue_removeAll)

lemma schedule_core:
  assumes run: "schedule_next_instance env a s = Inr s'" and al: "map_of (objs s) a = Some al" "callback al \<noteq> NULL"
    and dist: "distinct (alarms s)"
  shows "\<exists>d. map_of (objs s') = (map_of (objs s))(a \<mapsto> al\<lparr>deadline := d\<rparr>) \<and> distinct (alarms s') \<and>
    set (alarms s') = insert a (set (alarms s)) \<and> queues s' = out_of_queue a (alarm_queue al) (queues s) \<and> later s s'"
proof -
  obtain s1 where s1: "remove_pending_alarm a s = Inr s1" using al by (simp add: remove_pending_alarm_def)
  note s1_eq = remove_pending_core [OF s1 al(1)]
  obtain d l s4 where l: "insert_alarm (store_at a (al\<lparr>deadline := d\<rparr>) (objs s)) a d (remove1 a (alarms s)) = Inr l"
    and s4: "s4 = s1\<lparr>ticks := Suc (ticks s1), objs := store_at a (al\<lparr>deadline := d\<rparr>) (objs s), alarms := l\<rparr>"
    and s': "s' = s4 \<or> reschedule_root_alarm env s4 = Inr s'"
    using run al s1 s1_eq
    by (auto simp: schedule_next_instance_def now_ms_def Let_def split: if_splits)
  have "a \<notin> set (remove1 a (alarms s))" "distinct (remove1 a (alarms s))" using dist by simp_all
  with insert_alarm_set [OF l] have ins: "set l = insert a (set (remove1 a (alarms s)))" "distinct l" by blast+
  have core: "same_core s4 s'" "later s4 s'" using s' reschedule_core [of env s4 s'] by auto
  have "set (alarms s4) = insert a (set (alarms s))" using ins(1) dist s4 by auto
  then show ?thesis using core ins(2) s4 s1_eq
    by (intro exI [of _ d]) (simp add: same_core_def later_def)
qed

lemma set_core:
  assumes run: "alarm_set_on_queue env a per cb dat q s = Inr s'" and dist: "distinct (alarms s)"
  shows "\<exists>al al'. map_of (objs s) a = Some al \<and> map_of (objs s') = (map_of (objs s))(a \<mapsto> al') \<and>
    callback al' \<noteq> NULL \<and> alarm_queue al' = q \<and> q \<noteq> NULL \<and> is_periodic al' = is_periodic al \<and> distinct (alarms s') \<and>
    set (alarms s') = insert a (set (alarms s)) \<and> queues s' = (queues s)(q := removeAll a (queues s q)) \<and> later s s'"
proof -
  obtain al s2 al2 where al: "map_of (objs s) a = Some al" and nn: "cb \<noteq> NULL" "q \<noteq> NULL"
    and s2: "schedule_next_instance env a (s\<lparr>ticks := Suc (ticks s),
        objs := store_at a (set_fields (clk env (ticks s)) per q cb dat al) (objs s)\<rparr>) = Inr s2"
    and al2: "map_of (objs s2) a = Some al2" and s': "s' = s2\<lparr>objs := store_at a (bump_scheduled al2) (objs s2)\<rparr>"
    using run by (auto simp: alarm_set_on_queue_def alarm_set_internal_def now_ms_def set_fields_def)
  obtain d where core: "map_of (objs s2) = (map_of (objs s))(a \<mapsto> (set_fields (clk env (ticks s)) per q cb dat al)\<lparr>deadline := d\<rparr>)"
    "distinct (alarms s2)" "set (alarms s2) = insert a (set (alarms s))" "queues s2 = out_of_queue a q (queues s)"
    "later (s\<lparr>ticks := Suc (ticks s), objs := store_at a (set_fields (clk env (ticks s)) per q cb dat al) (objs s)\<rparr>) s2"
    using schedule_core [OF s2, of "set_fields (clk env (ticks s)) per q cb dat al"] nn dist
    by (auto simp: set_fields_def)
  then show ?thesis using al nn s' al2
    by (auto simp: bump_scheduled_def set_fields_def out_of_queue_def later_def)
qed

lemma cancel_core:
  assumes run: "alarm_cancel env a s = Inr s'" and "a \<noteq> NULL"
  shows "\<exists>al. map_of (objs s) a = Some al \<and> map_of (objs s') = (map_of (objs s))(a \<mapsto> canceled_alarm al) \<and>
    alarms s' = remove1 a (alarms s) \<and> queues s' = out_of_queue a (alarm_queue al) (queues s) \<and> later s s'"
proof -
  obtain s1 al where s1: "remove_pending_alarm a s = Inr s1" and al: "map_of (objs s1) a = Some al"
    and s': "s' = s1\<lparr>objs := store_at a (canceled_alarm al) (objs s1)\<rparr> \<or>
      reschedule_root_alarm env (s1\<lparr>objs := store_at a (canceled_alarm al) (objs s1)\<rparr>) = Inr s'"
    using run assms(2) by (auto simp: alarm_cancel_def cancel_locked_def Let_def split: if_splits)
  then have al0: "map_of (objs s) a = Some al" by (auto simp: remove_pending_alarm_def)
  note s1_eq = remove_pending_core [OF s1 al0]
  have "same_core (s1\<lparr>objs := store_at a (canceled_alarm al) (objs s1)\<rparr>) s'"
    "later (s1\<lparr>objs := store_at a (canceled_alarm al) (objs s1)\<rparr>) s'"
    using s' reschedule_core by auto
  then show ?thesis using al0 s1_eq by (auto simp: same_core_def later_def)
qed


text \<open>The dispatcher: nothing due, or the first alarm goes to its queue (a periodic one stays pending too).\<close>

lemma dispatch_core:
  assumes run: "dispatch_once env s = Inr s'" and dist: "distinct (alarms s)"
    and cb: "\<And>a al. a \<in> set (alarms s) \<Longrightarrow> map_of (objs s) a = Some al \<Longrightarrow> callback al \<noteq> NULL"
  obtains (idle) "same_core s s'" "later s s'"
  | (fire) a r al al' where "alarms s = a # r" "map_of (objs s) a = Some al" "map_of (objs s') = (map_of (objs s))(a \<mapsto> al')"
      "callback al' = callback al" "alarm_queue al' = alarm_queue al" "is_periodic al' = is_periodic al"
      "distinct (alarms s')" "set (alarms s') = (if is_periodic al then set (alarms s) else set r)"
      "queues s' = (let qs = if is_periodic al then out_of_queue a (alarm_queue al) (queues s) else queues s
         in qs(alarm_queue al := qs (alarm_queue al) @ [a]))" "later s s'"
proof (cases "alarms s")
  case Nil
  then show ?thesis using run idle reschedule_core [of env s s'] by (auto simp: dispatch_once_def)
next
  case (Cons a r)
  then obtain al where al: "map_of (objs s) a = Some al" using run by (auto simp: dispatch_once_def)
  show ?thesis
  proof (cases "deadline al > clk env (ticks s)")
    case True
    then have "reschedule_root_alarm env (s\<lparr>ticks := Suc (ticks s)\<rparr>) = Inr s'"
      using run Cons al by (auto simp: dispatch_once_def now_ms_def)
    from reschedule_core [OF this] show ?thesis using idle by (simp add: same_core_def later_def)
  next
    case False
    let ?s2 = "s\<lparr>ticks := Suc (ticks s), alarms := r\<rparr>"
    define al1 where "al1 = (if is_periodic al then al\<lparr>prev_deadline := deadline al\<rparr> else al)"
    obtain s4 s5 al5 where s4: "if is_periodic al
          then \<exists>s3 al3. schedule_next_instance env a (?s2\<lparr>objs := store_at a al1 (objs s)\<rparr>) = Inr s3 \<and>
            map_of (objs s3) a = Some al3 \<and> s4 = s3\<lparr>objs := store_at a (bump_rescheduled al3) (objs s3)\<rparr>
          else s4 = ?s2"
      and s5: "reschedule_root_alarm env s4 = Inr s5" "map_of (objs s5) a = Some al5" "enqueue_alarm (alarm_queue al5) a s5 = Inr s'"
      using run Cons al False unfolding al1_def
      by (cases "is_periodic al") (auto simp: dispatch_once_def now_ms_def Let_def)
    note core5 = reschedule_core [OF s5(1)]
    have r: "distinct r" "a \<notin> set r" using dist Cons by simp_all
    have s4_core: "distinct (alarms s4) \<and> set (alarms s4) = (if is_periodic al then set (alarms s) else set r) \<and>
        queues s4 = (if is_periodic al then out_of_queue a (alarm_queue al) (queues s) else queues s) \<and> later s s4 \<and>
        (\<exists>al4. map_of (objs s4) = (map_of (objs s))(a \<mapsto> al4) \<and> callback al4 = callback al \<and>
          alarm_queue al4 = alarm_queue al \<and> is_periodic al4 = is_periodic al)"
    proof (cases "is_periodic al")
      case True
      then obtain s3 al3 where s3: "schedule_next_instance env a (?s2\<lparr>objs := store_at a al1 (objs s)\<rparr>) = Inr s3"
        "map_of (objs s3) a = Some al3" "s4 = s3\<lparr>objs := store_at a (bump_rescheduled al3) (objs s3)\<rparr>"
        using s4 by auto
      have "callback al1 \<noteq> NULL" "alarm_queue al1 = alarm_queue al" using cb [of a al] Cons al by (simp_all add: al1_def)
      then obtain d where d: "map_of (objs s3) = (map_of (objs s))(a \<mapsto> al1\<lparr>deadline := d\<rparr>)" "distinct (alarms s3)"
        "set (alarms s3) = insert a (set r)" "queues s3 = out_of_queue a (alarm_queue al) (queues s)"
        "later (?s2\<lparr>objs := store_at a al1 (objs s)\<rparr>) s3"
        using schedule_core [OF s3(1), of al1] r by auto
      then have "al3 = al1\<lparr>deadline := d\<rparr>" using s3(2) by simp
      then show ?thesis using d s3(3) True Cons
        by (intro conjI exI [of _ "bump_rescheduled (al1\<lparr>deadline := d\<rparr>)"])
           (simp_all add: al1_def bump_rescheduled_def later_def)
    next
      case False
      moreover have "map_of (objs s) = (map_of (objs s))(a \<mapsto> al)" using al by (simp add: fun_upd_idem)
      ultimately show ?thesis using s4 r Cons by (intro conjI exI [of _ al]) (simp_all add: later_def)
    qed
    then obtain al4 where al4: "map_of (objs s4) = (map_of (objs s))(a \<mapsto> al4)" "callback al4 = callback al"
      "alarm_queue al4 = alarm_queue al" "is_periodic al4 = is_periodic al" by blast
    have "s' = s5\<lparr>queues := (queues s5)(alarm_queue al := queues s5 (alarm_queue al) @ [a])\<rparr>"
      using s5(2,3) core5(1) al4(1,3) by (auto simp: enqueue_alarm_def same_core_def split: if_splits)
    then show ?thesis using fire [OF Cons al] al4 s4_core core5
      by (simp add: same_core_def later_def Let_def)
  qed
qed

section \<open>Well-formed modules\<close>

text \<open>
  An alarm that is pending or waits in a queue has a callback, and it waits only in the queue it
  was set on; a single alarm is in one place only.
\<close>

definition alarm_wf :: "alarm_sys \<Rightarrow> bool" where
  "alarm_wf s \<longleftrightarrow> made s \<and> distinct (alarms s) \<and>
     (\<forall>a \<in> set (alarms s). \<exists>al. map_of (objs s) a = Some al \<and> callback al \<noteq> NULL \<and> alarm_queue al \<noteq> NULL) \<and>
     (\<forall>q. \<forall>a \<in> set (queues s q). \<exists>al. map_of (objs s) a = Some al \<and> callback al \<noteq> NULL \<and> alarm_queue al = q \<and> q \<noteq> NULL) \<and>
     (\<forall>a al. map_of (objs s) a = Some al \<and> \<not> is_periodic al \<longrightarrow>
       count_list (queues s (alarm_queue al)) a + (if a \<in> set (alarms s) then 1 else 0) \<le> 1)"

lemma alarm_wf_pending:
  "alarm_wf s \<Longrightarrow> a \<in> set (alarms s) \<Longrightarrow> map_of (objs s) a = Some al \<Longrightarrow> callback al \<noteq> NULL \<and> alarm_queue al \<noteq> NULL"
  by (auto simp: alarm_wf_def)

lemma alarm_wf_queued:
  "alarm_wf s \<Longrightarrow> a \<in> set (queues s q) \<Longrightarrow>
    \<exists>al. map_of (objs s) a = Some al \<and> callback al \<noteq> NULL \<and> alarm_queue al = q \<and> q \<noteq> NULL"
  by (auto simp: alarm_wf_def)

lemma alarm_wf_single:
  "alarm_wf s \<Longrightarrow> map_of (objs s) a = Some al \<Longrightarrow> \<not> is_periodic al \<Longrightarrow>
    count_list (queues s (alarm_queue al)) a + (if a \<in> set (alarms s) then 1 else 0) \<le> 1"
  by (auto simp: alarm_wf_def)

lemma count_list_removeAll: "count_list (removeAll a xs) b = (if a = b then 0 else count_list xs b)"
  by (induction xs) auto

text \<open>A change of one alarm, its places in the list and in the queues.\<close>

lemma alarm_wf_update:
  assumes wf: "alarm_wf s" and mk: "made s'" and objs: "map_of (objs s') = (map_of (objs s))(a \<mapsto> al')"
    and l: "distinct (alarms s')" "set (alarms s') - {a} = set (alarms s) - {a}"
    and qs: "\<And>q b. b \<noteq> a \<Longrightarrow> count_list (queues s' q) b = count_list (queues s q) b"
    and own: "\<And>q. q \<noteq> alarm_queue al' \<Longrightarrow> a \<notin> set (queues s' q)"
    and cb: "a \<in> set (alarms s') \<or> a \<in> set (queues s' (alarm_queue al')) \<Longrightarrow> callback al' \<noteq> NULL \<and> alarm_queue al' \<noteq> NULL"
    and single: "\<not> is_periodic al' \<Longrightarrow>
      count_list (queues s' (alarm_queue al')) a + (if a \<in> set (alarms s') then 1 else 0) \<le> 1"
  shows "alarm_wf s'"
proof -
  have mem: "b \<in> set (queues s' q) \<longleftrightarrow> b \<in> set (queues s q)" if "b \<noteq> a" for b q
    using qs [OF that, of q] count_list_0_iff [of "queues s' q" b] count_list_0_iff [of "queues s q" b] by metis
  have pend: "b \<in> set (alarms s') \<longleftrightarrow> b \<in> set (alarms s)" if "b \<noteq> a" for b using l(2) that by blast
  have 1: "\<exists>al. map_of (objs s') b = Some al \<and> callback al \<noteq> NULL \<and> alarm_queue al \<noteq> NULL" if "b \<in> set (alarms s')" for b
    using that wf cb objs pend [of b] by (cases "b = a") (auto simp: alarm_wf_def)
  have 2: "\<exists>al. map_of (objs s') b = Some al \<and> callback al \<noteq> NULL \<and> alarm_queue al = q \<and> q \<noteq> NULL"
    if "b \<in> set (queues s' q)" for b q
  proof (cases "b = a")
    case True
    then have "q = alarm_queue al'" using that own by blast
    then show ?thesis using True cb that objs by simp
  next
    case False
    then show ?thesis using alarm_wf_queued [OF wf, of b q] mem that objs by simp
  qed
  have 3: "count_list (queues s' (alarm_queue al)) b + (if b \<in> set (alarms s') then 1 else 0) \<le> 1"
    if "map_of (objs s') b = Some al" "\<not> is_periodic al" for b al
    using that alarm_wf_single [OF wf, of b al] single objs qs [of b] pend [of b] by (cases "b = a") auto
  show ?thesis unfolding alarm_wf_def using mk l(1) 1 2 3 by blast
qed

lemma alarm_wf_same_core: "same_core s s' \<Longrightarrow> alarm_wf s' = alarm_wf s"
  by (simp add: alarm_wf_def same_core_def)

lemma out_of_queue_simps:
  "b \<noteq> a \<Longrightarrow> count_list (out_of_queue a q qs p) b = count_list (qs p) b"
  "q \<noteq> NULL \<Longrightarrow> a \<notin> set (out_of_queue a q qs q)"
  "set (out_of_queue a q qs p) \<subseteq> set (qs p)"
  by (auto simp: out_of_queue_def count_list_removeAll)

lemma alarm_wf_own: "alarm_wf s \<Longrightarrow> map_of (objs s) a = Some al \<Longrightarrow> q \<noteq> alarm_queue al \<Longrightarrow> a \<notin> set (queues s q)"
  using alarm_wf_queued by fastforce

lemma alarm_wf_out:
  assumes "alarm_wf s" and "map_of (objs s) a = Some al"
  shows "a \<notin> set (out_of_queue a (alarm_queue al) (queues s) q)"
proof (cases "q = alarm_queue al")
  case True
  then show ?thesis using alarm_wf_queued [OF assms(1), of a q] by (auto simp: out_of_queue_def)
next
  case False
  then show ?thesis using alarm_wf_own [OF assms False] out_of_queue_simps(3) by blast
qed

lemma set_wf:
  assumes wf: "alarm_wf s" and run: "alarm_set_on_queue env a per cb dat q s = Inr s'"
    and disc: "\<And>al. map_of (objs s) a = Some al \<Longrightarrow> alarm_queue al = q \<or> a \<notin> set (queues s (alarm_queue al))"
  shows "alarm_wf s'" "later s s'" "live_objs s \<subseteq> live_objs s'" "set (alarms s') = insert a (set (alarms s))"
    "set (queues s' p) \<subseteq> set (queues s p)"
proof -
  have "distinct (alarms s)" "made s" using wf by (auto simp: alarm_wf_def)
  then obtain al al' where al: "map_of (objs s) a = Some al" and objs: "map_of (objs s') = (map_of (objs s))(a \<mapsto> al')"
    and al': "callback al' \<noteq> NULL" "alarm_queue al' = q" "q \<noteq> NULL" "is_periodic al' = is_periodic al"
    and l: "distinct (alarms s')" "set (alarms s') = insert a (set (alarms s))"
    and qs: "queues s' = (queues s)(q := removeAll a (queues s q))" and lat: "later s s'"
    using set_core [OF run] by blast
  have out: "a \<notin> set (queues s' p)" for p
    using disc [OF al] alarm_wf_own [OF wf al, of p] qs by auto
  have cnt: "count_list (queues s' p) b = count_list (queues s p) b" if "b \<noteq> a" for p b
    using qs that by (simp add: count_list_removeAll)
  have none: "count_list (queues s' p) a = 0" for p using out count_list_0_iff by metis
  have "set (alarms s') - {a} = set (alarms s) - {a}" using l(2) by auto
  moreover have "made s'" using lat \<open>made s\<close> by (simp add: later_def)
  ultimately show "alarm_wf s'" using alarm_wf_update [OF wf _ objs l(1) _ cnt out] al' none by simp
  show "later s s'" by (rule lat)
  show "live_objs s \<subseteq> live_objs s'" "set (alarms s') = insert a (set (alarms s))" "set (queues s' p) \<subseteq> set (queues s p)"
    using objs l(2) qs by (auto simp: live_objs_def)
qed

lemma cancel_wf:
  assumes wf: "alarm_wf s" and run: "alarm_cancel env a s = Inr s'" and nn: "a \<noteq> NULL"
  shows "alarm_wf s'" "later s s'" "a \<notin> set (alarms s')" "a \<notin> set (queues s' q)"
    "live_objs s \<subseteq> live_objs s'" "set (alarms s') \<subseteq> set (alarms s)" "set (queues s' q) \<subseteq> set (queues s q)"
proof -
  obtain al where al: "map_of (objs s) a = Some al" and objs: "map_of (objs s') = (map_of (objs s))(a \<mapsto> canceled_alarm al)"
    and l: "alarms s' = remove1 a (alarms s)" and qs: "queues s' = out_of_queue a (alarm_queue al) (queues s)" and lat: "later s s'"
    using cancel_core [OF run nn] by blast
  have d: "distinct (alarms s)" "made s" using wf by (auto simp: alarm_wf_def)
  show out: "a \<notin> set (queues s' q)" for q using alarm_wf_out [OF wf al] qs by simp
  show pend: "a \<notin> set (alarms s')" using l d by simp
  show "alarm_wf s'"
    by (rule alarm_wf_update [OF wf _ objs])
       (use lat l d qs out pend in \<open>auto simp: later_def out_of_queue_simps(1)\<close>)
  show "later s s'" by (rule lat)
  show "live_objs s \<subseteq> live_objs s'" "set (alarms s') \<subseteq> set (alarms s)" "set (queues s' q) \<subseteq> set (queues s q)"
    using objs l qs out_of_queue_simps(3) set_remove1_subset [of a "alarms s"] by (auto simp: live_objs_def)
qed

lemma dispatch_wf:
  assumes wf: "alarm_wf s" and run: "dispatch_once env s = Inr s'"
  shows "alarm_wf s'" "later s s'"
    "set (alarms s') \<subseteq> set (alarms s)" "set (queues s' q) \<subseteq> set (queues s q) \<union> set (alarms s)" "live_objs s \<subseteq> live_objs s'"
proof -
  have d: "distinct (alarms s)" "made s" using wf by (auto simp: alarm_wf_def)
  have cb: "callback al \<noteq> NULL" if "a \<in> set (alarms s)" "map_of (objs s) a = Some al" for a al
    using alarm_wf_pending [OF wf that] by blast
  have "alarm_wf s' \<and> later s s' \<and> set (alarms s') \<subseteq> set (alarms s) \<and> set (queues s' q) \<subseteq> set (queues s q) \<union> set (alarms s) \<and>
      live_objs s \<subseteq> live_objs s'"
  proof (rule dispatch_core [OF run d(1) cb], assumption, assumption)
    assume core: "same_core s s'" "later s s'"
    have "alarm_wf s'" using wf alarm_wf_same_core [OF core(1)] by simp
    then show ?thesis using core by (auto simp: same_core_def live_objs_def)
  next
    fix a r al al'
    assume al: "alarms s = a # r" "map_of (objs s) a = Some al" and objs: "map_of (objs s') = (map_of (objs s))(a \<mapsto> al')"
      and al': "callback al' = callback al" "alarm_queue al' = alarm_queue al" "is_periodic al' = is_periodic al"
      and l: "distinct (alarms s')" "set (alarms s') = (if is_periodic al then set (alarms s) else set r)"
      and qs: "queues s' = (let qs = if is_periodic al then out_of_queue a (alarm_queue al) (queues s) else queues s
         in qs(alarm_queue al := qs (alarm_queue al) @ [a]))" and lat: "later s s'"
    have pend: "callback al \<noteq> NULL" "alarm_queue al \<noteq> NULL" "a \<notin> set r" using alarm_wf_pending [OF wf _ al(2)] al(1) d by auto
    have free: "a \<notin> set (queues s p)" if "\<not> is_periodic al" for p
    proof (cases "p = alarm_queue al")
      case True
      then show ?thesis using alarm_wf_single [OF wf al(2) that] al(1) by (simp add: count_list_0_iff)
    next
      case False
      then show ?thesis by (rule alarm_wf_own [OF wf al(2)])
    qed
    have cnt: "count_list (queues s' p) b = count_list (queues s p) b" if "b \<noteq> a" for p b
      using qs that by (simp add: Let_def out_of_queue_simps(1))
    have own: "a \<notin> set (queues s' p)" if "p \<noteq> alarm_queue al'" for p
      using qs that al'(2) alarm_wf_out [OF wf al(2)] alarm_wf_own [OF wf al(2)] by (simp add: Let_def)
    have one: "count_list (queues s' (alarm_queue al')) a = 1" "a \<notin> set (alarms s')" if "\<not> is_periodic al'"
      using qs that al' l(2) pend(3) free by (simp_all add: Let_def)
    have "set (alarms s') - {a} = set (alarms s) - {a}" using l(2) al(1) by auto
    moreover have "made s'" using lat d(2) by (simp add: later_def)
    ultimately have "alarm_wf s'" using alarm_wf_update [OF wf _ objs l(1) _ cnt own] one pend al' by simp
    moreover have "set (queues s' q) \<subseteq> set (queues s q) \<union> set (alarms s)"
      using qs al(1) out_of_queue_simps(3) [of a "alarm_queue al" "queues s" q] by (auto simp: Let_def split: if_splits)
    moreover have "live_objs s \<subseteq> live_objs s'" using objs by (auto simp: live_objs_def)
    ultimately show ?thesis using lat l al(1) by auto
  qed
  then show "alarm_wf s'" "later s s'" "set (alarms s') \<subseteq> set (alarms s)" "set (queues s' q) \<subseteq> set (queues s q) \<union> set (alarms s)" "live_objs s \<subseteq> live_objs s'"
    by blast+
qed

lemma take_wf:
  assumes wf: "alarm_wf s" and run: "take_ready q s = Inr (Some (a, cb, dat, d), s')"
  shows "alarm_wf s'" "later s s'" "live_objs s \<subseteq> live_objs s'" "cb \<noteq> NULL" "a \<in> live_objs s'" "a \<in> set (queues s q)"
    "alarms s' = alarms s" "set (queues s' p) \<subseteq> set (queues s p)"
proof -
  obtain rest where rest: "queues s q = a # rest" using run by (auto simp: take_ready_def Let_def split: list.splits)
  then obtain al where al: "map_of (objs s) a = Some al" "callback al \<noteq> NULL" "alarm_queue al = q" "q \<noteq> NULL"
    using alarm_wf_queued [OF wf, of a q] by auto
  define al1 where "al1 = (if is_periodic al then al else al\<lparr>deadline := 0, callback := NULL, cb_data := NULL\<rparr>)"
  have s': "s' = s\<lparr>queues := (queues s)(q := rest), objs := store_at a al1 (objs s)\<rparr>" and cb: "cb = callback al"
    using run rest al(1) by (auto simp: take_ready_def al1_def Let_def)
  have d: "distinct (alarms s)" "made s" using wf by (auto simp: alarm_wf_def)
  have cnt: "count_list (queues s' p) b = count_list (queues s p) b" if "b \<noteq> a" for p b
    using s' rest that by simp
  have own: "a \<notin> set (queues s' p)" if "p \<noteq> alarm_queue al1" for p
    using that alarm_wf_own [OF wf al(1), of p] al(3) s' by (auto simp: al1_def split: if_splits)
  have gone: "a \<notin> set rest \<and> a \<notin> set (alarms s)" if "\<not> is_periodic al"
    using alarm_wf_single [OF wf al(1) that] rest al(3) by (auto simp: count_list_0_iff split: if_splits)
  have cb1: "callback al1 \<noteq> NULL \<and> alarm_queue al1 \<noteq> NULL"
    if "a \<in> set (alarms s') \<or> a \<in> set (queues s' (alarm_queue al1))"
    using that gone al s' by (auto simp: al1_def split: if_splits)
  have one: "count_list (queues s' (alarm_queue al1)) a + (if a \<in> set (alarms s') then 1 else 0) \<le> 1" if "\<not> is_periodic al1"
    using that gone al(3) s' by (auto simp: al1_def count_list_0_iff split: if_splits)
  show "alarm_wf s'"
    by (rule alarm_wf_update [OF wf _ _ _ _ cnt own cb1 one]) (use s' d in simp_all)
  show "later s s'" "live_objs s \<subseteq> live_objs s'" "cb \<noteq> NULL" "a \<in> live_objs s'" "a \<in> set (queues s q)"
    "alarms s' = alarms s" "set (queues s' p) \<subseteq> set (queues s p)"
    using s' cb al rest by (auto simp: later_def live_objs_def)
qed

lemma alarm_wf_ticks: "alarm_wf (s\<lparr>ticks := n\<rparr>) = alarm_wf s" "alarm_wf (s\<lparr>expired := n\<rparr>) = alarm_wf s"
  by (simp_all add: alarm_wf_def)

lemma call_end_wf:
  assumes wf: "alarm_wf s" and run: "call_end env a t d s = Inr s'"
  shows "alarm_wf s'" "later s s'" "live_objs s \<subseteq> live_objs s'" "alarms s' = alarms s" "queues s' = queues s"
proof -
  obtain al sts where al: "map_of (objs s) a = Some al"
    and s': "s' = s\<lparr>ticks := Suc (ticks s), objs := store_at a (al\<lparr>stats := sts\<rparr>) (objs s)\<rparr>"
    using run by (auto simp: call_end_def now_ms_def)
  have "callback al \<noteq> NULL \<and> alarm_queue al \<noteq> NULL" if "a \<in> set (alarms s) \<or> a \<in> set (queues s (alarm_queue al))"
    using that alarm_wf_pending [OF wf _ al] alarm_wf_queued [OF wf] al by fastforce
  moreover have "a \<notin> set (queues s p)" if "p \<noteq> alarm_queue al" for p using that by (rule alarm_wf_own [OF wf al])
  moreover have "made s" "distinct (alarms s)" using wf by (auto simp: alarm_wf_def)
  ultimately show "alarm_wf s'"
    using alarm_wf_update [OF wf, of s' a "al\<lparr>stats := sts\<rparr>"] alarm_wf_single [OF wf al] s' by simp
  show "later s s'" "live_objs s \<subseteq> live_objs s'" "alarms s' = alarms s" "queues s' = queues s"
    using s' by (auto simp: later_def live_objs_def)
qed

section \<open>The invariant of the threads\<close>

definition worker_ok :: "alarm_env \<Rightarrow> alarm_sys \<Rightarrow> nat option \<Rightarrow> nat \<Rightarrow> athread \<Rightarrow> bool" where
  "worker_ok env s m i w \<longleftrightarrow>
     (\<forall>a cb d. act w = TakeWait a cb d \<longrightarrow> m = Some i \<and> calling w = None \<and> cb \<noteq> NULL \<and> a \<in> live_objs s) \<and>
     (\<forall>a. act w = CancelWait a \<longrightarrow> a \<in> live_objs s) \<and>
     (\<forall>a t d. calling w = Some (a, t, d) \<longrightarrow> a \<in> live_objs s \<and> (\<exists>k < ticks s. t = clk env k))"

text \<open>The callback lock of an alarm is held by the thread that is in its callback.\<close>

definition locks_ok :: "(ptr \<Rightarrow> nat option) \<Rightarrow> athread list \<Rightarrow> bool" where
  "locks_ok L ws \<longleftrightarrow> (\<forall>a i. L a = Some i \<longleftrightarrow> i < length ws \<and> (\<exists>t d. calling (ws ! i) = Some (a, t, d)))"

definition world_ok :: "alarm_env \<Rightarrow> alarm_world \<Rightarrow> bool" where
  "world_ok env x \<longleftrightarrow> alarm_wf (alarm_mod x) \<and> \<not> crashed x \<and> locks_ok (callback_lock x) (workers x) \<and>
     (\<forall>i < length (workers x). worker_ok env (alarm_mod x) (monitor x) i (workers x ! i))"

lemma worker_ok_later:
  assumes "worker_ok env s m i w" and "later s s'" and "live_objs s \<subseteq> live_objs s'"
  shows "worker_ok env s' m i w"
proof -
  have "k < ticks s \<Longrightarrow> k < ticks s'" for k using assms(2) by (simp add: later_def)
  then show ?thesis using assms(1,3) unfolding worker_ok_def by blast
qed

lemma worker_ok_monitor: "worker_ok env s m i w \<Longrightarrow> m \<noteq> Some i \<Longrightarrow> worker_ok env s m' i w"
  by (auto simp: worker_ok_def)

text \<open>A step that changes the module and at most one thread.\<close>

lemma world_ok_mod:
  assumes "world_ok env x" and "alarm_wf s" and "later (alarm_mod x) s" and "live_objs (alarm_mod x) \<subseteq> live_objs s"
  shows "world_ok env (x\<lparr>alarm_mod := s\<rparr>)"
  using assms worker_ok_later by (auto simp: world_ok_def)

lemma world_ok_worker:
  assumes "world_ok env x" and "i < length (workers x)" and "locks_ok L ((workers x)[i := w])"
    and "worker_ok env (alarm_mod x) m i w"
    and "\<And>j. j < length (workers x) \<Longrightarrow> j \<noteq> i \<Longrightarrow> m = monitor x \<or> monitor x \<noteq> Some j"
  shows "world_ok env (x\<lparr>monitor := m, callback_lock := L, workers := (workers x)[i := w]\<rparr>)"
proof -
  have "worker_ok env (alarm_mod x) m j ((workers x)[i := w] ! j)" if "j < length (workers x)" for j
  proof (cases "j = i")
    case True
    then show ?thesis using assms(2,4) by simp
  next
    case False
    have "worker_ok env (alarm_mod x) (monitor x) j (workers x ! j)" using assms(1) that by (simp add: world_ok_def)
    then show ?thesis using False assms(5) [OF that False] worker_ok_monitor by auto
  qed
  then show ?thesis using assms(1,3) by (simp add: world_ok_def)
qed

lemma locks_okD:
  assumes "locks_ok L ws"
  shows "L a = Some i \<Longrightarrow> i < length ws \<and> (\<exists>t d. calling (ws ! i) = Some (a, t, d))"
    and "i < length ws \<Longrightarrow> calling (ws ! i) = Some (a, t, d) \<Longrightarrow> L a = Some i"
  using assms unfolding locks_ok_def by blast+

lemma locks_ok_same: "locks_ok L ws \<Longrightarrow> i < length ws \<Longrightarrow> calling w = calling (ws ! i) \<Longrightarrow> locks_ok L (ws[i := w])"
  by (auto simp: locks_ok_def nth_list_update)

lemma locks_ok_enter:
  assumes ok: "locks_ok L ws" and i: "i < length ws" "calling (ws ! i) = None" and free: "L a = None \<or> L a = Some i"
  shows "locks_ok (L(a := Some i)) (ws[i := \<lparr>calling = Some (a, t, d), act = NoAct\<rparr>])"
  unfolding locks_ok_def
proof (intro allI)
  fix b j
  show "(L(a := Some i)) b = Some j \<longleftrightarrow> j < length (ws[i := \<lparr>calling = Some (a, t, d), act = NoAct\<rparr>]) \<and>
      (\<exists>t' d'. calling (ws[i := \<lparr>calling = Some (a, t, d), act = NoAct\<rparr>] ! j) = Some (b, t', d'))"
    using locks_okD(1) [OF ok, of b j] locks_okD(2) [OF ok, of j b] locks_okD(1) [OF ok, of b i] i free by (cases "j = i"; cases "b = a") auto
qed

lemma locks_ok_leave:
  assumes ok: "locks_ok L ws" and i: "i < length ws" "calling (ws ! i) = Some (a, t, d)"
  shows "locks_ok (L(a := None)) (ws[i := \<lparr>calling = None, act = NoAct\<rparr>])"
  unfolding locks_ok_def
proof (intro allI)
  fix b j
  have "L a = Some i" by (rule locks_okD(2) [OF ok i])
  then show "(L(a := None)) b = Some j \<longleftrightarrow> j < length (ws[i := \<lparr>calling = None, act = NoAct\<rparr>]) \<and>
      (\<exists>t' d'. calling (ws[i := \<lparr>calling = None, act = NoAct\<rparr>] ! j) = Some (b, t', d'))"
    using locks_okD(1) [OF ok, of b j] locks_okD(2) [OF ok, of j b] i by (cases "j = i"; cases "b = a") auto
qed

lemma set_act_eq: "set_act i w x = x\<lparr>monitor := monitor x, callback_lock := callback_lock x,
    workers := (workers x)[i := (workers x ! i)\<lparr>act := w\<rparr>]\<rparr>"
  by (simp add: set_act_def)

lemma world_ok_set_act:
  assumes "world_ok env x" and "i < length (workers x)" and "\<And>a cb d. w \<noteq> TakeWait a cb d"
    and "\<And>a. w = CancelWait a \<Longrightarrow> a \<in> live_objs (alarm_mod x)"
  shows "world_ok env (set_act i w x)"
  unfolding set_act_eq
  by (rule world_ok_worker) (use assms in \<open>auto simp: world_ok_def worker_ok_def intro!: locks_ok_same\<close>)

lemma step_take_ok:
  assumes ok: "world_ok env x" and i: "i < length (workers x)" "calling (workers x ! i) = None" and free: "monitor x = None"
    and run: "take_ready q (alarm_mod x) = Inr (Some (a, cb, dat, d), s)"
  shows "world_ok env (set_act i (TakeWait a cb d) (x\<lparr>alarm_mod := s, monitor := Some i\<rparr>))"
proof -
  have wf: "alarm_wf (alarm_mod x)" and locks: "locks_ok (callback_lock x) (workers x)" using ok by (auto simp: world_ok_def)
  note t = take_wf [OF wf run]
  have "world_ok env (x\<lparr>alarm_mod := s\<rparr>)" by (rule world_ok_mod [OF ok t(1-3)])
  then have "world_ok env ((x\<lparr>alarm_mod := s\<rparr>)\<lparr>monitor := Some i, callback_lock := callback_lock x,
      workers := (workers x)[i := (workers x ! i)\<lparr>act := TakeWait a cb d\<rparr>]\<rparr>)"
    by (intro world_ok_worker [of env "x\<lparr>alarm_mod := s\<rparr>", simplified])
       (use i free t locks in \<open>auto simp: worker_ok_def intro!: locks_ok_same\<close>)
  then show ?thesis by (simp add: set_act_def)
qed

lemma step_call_ok:
  assumes ok: "world_ok env x" and pc: "does x i (TakeWait a cb d)"
    and free: "callback_lock x a = None \<or> callback_lock x a = Some i" and run: "call_start env cb (alarm_mod x) = Inr (t, s)"
  shows "world_ok env (set_call i (Some (a, t, d))
    (x\<lparr>alarm_mod := s, monitor := None, callback_lock := (callback_lock x)(a := Some i)\<rparr>))"
proof -
  have wf: "alarm_wf (alarm_mod x)" and locks: "locks_ok (callback_lock x) (workers x)" using ok by (auto simp: world_ok_def)
  have i: "i < length (workers x)" "act (workers x ! i) = TakeWait a cb d" using pc by (simp_all add: does_def)
  then have w: "monitor x = Some i" "calling (workers x ! i) = None" "a \<in> live_objs (alarm_mod x)"
    using ok by (auto simp: world_ok_def worker_ok_def)
  have s: "s = (alarm_mod x)\<lparr>ticks := Suc (ticks (alarm_mod x))\<rparr>" "t = clk env (ticks (alarm_mod x))"
    using run by (auto simp: call_start_def now_ms_def split: if_splits)
  have "world_ok env (x\<lparr>alarm_mod := s\<rparr>)"
    by (rule world_ok_mod [OF ok]) (use s wf in \<open>auto simp: alarm_wf_ticks later_def live_objs_def\<close>)
  then have "world_ok env ((x\<lparr>alarm_mod := s\<rparr>)\<lparr>monitor := None, callback_lock := (callback_lock x)(a := Some i),
      workers := (workers x)[i := \<lparr>calling = Some (a, t, d), act = NoAct\<rparr>]\<rparr>)"
    by (intro world_ok_worker [of env "x\<lparr>alarm_mod := s\<rparr>", simplified])
       (use i w s locks free locks_ok_enter in \<open>auto simp: worker_ok_def live_objs_def\<close>)
  then show ?thesis by (simp add: set_call_def)
qed

lemma step_return_ok:
  assumes ok: "world_ok env x" and i: "i < length (workers x)" "calling (workers x ! i) = Some (a, t, d)"
    and run: "call_end env a t d (alarm_mod x) = Inr s"
  shows "world_ok env (set_call i None (x\<lparr>alarm_mod := s, callback_lock := (callback_lock x)(a := None)\<rparr>))"
proof -
  have wf: "alarm_wf (alarm_mod x)" and locks: "locks_ok (callback_lock x) (workers x)" using ok by (auto simp: world_ok_def)
  have "world_ok env (x\<lparr>alarm_mod := s\<rparr>)" by (rule world_ok_mod [OF ok call_end_wf(1-3) [OF wf run]])
  then have "world_ok env ((x\<lparr>alarm_mod := s\<rparr>)\<lparr>monitor := monitor x, callback_lock := (callback_lock x)(a := None),
      workers := (workers x)[i := \<lparr>calling = None, act = NoAct\<rparr>]\<rparr>)"
    by (intro world_ok_worker [of env "x\<lparr>alarm_mod := s\<rparr>", simplified])
       (use i locks locks_ok_leave in \<open>auto simp: worker_ok_def\<close>)
  then show ?thesis by (simp add: set_call_def)
qed

text \<open>Neither the call of a callback nor its return can fail.\<close>

lemma no_crash:
  assumes ok: "world_ok env x" and clock: "\<And>m n. m \<le> n \<Longrightarrow> clk env m \<le> clk env n"
  shows "does x i (TakeWait a cb d) \<Longrightarrow> call_start env cb (alarm_mod x) \<noteq> Inl e"
    and "does x i NoAct \<Longrightarrow> calling (workers x ! i) = Some (a, t, d) \<Longrightarrow> call_end env a t d (alarm_mod x) \<noteq> Inl e"
proof -
  have mk: "made (alarm_mod x)" using ok by (simp add: world_ok_def alarm_wf_def)
  show "call_start env cb (alarm_mod x) \<noteq> Inl e" if "does x i (TakeWait a cb d)"
  proof -
    have "worker_ok env (alarm_mod x) (monitor x) i (workers x ! i)" "act (workers x ! i) = TakeWait a cb d"
      using that ok by (simp_all add: does_def world_ok_def)
    then have "cb \<noteq> NULL" by (simp add: worker_ok_def)
    then show ?thesis using mk by (simp add: call_start_def now_ms_def)
  qed
  show "call_end env a t d (alarm_mod x) \<noteq> Inl e" if "does x i NoAct" "calling (workers x ! i) = Some (a, t, d)"
  proof -
    have "a \<in> live_objs (alarm_mod x)" "\<exists>k < ticks (alarm_mod x). t = clk env k"
      using that ok by (auto simp: does_def world_ok_def worker_ok_def)
    moreover from this(2) have "t \<le> clk env (ticks (alarm_mod x))" using clock by (auto intro: less_imp_le)
    ultimately show ?thesis using mk by (auto simp: call_end_def now_ms_def live_objs_def)
  qed
qed

lemma alarm_step_ok:
  assumes ok: "world_ok env x" and step: "alarm_step env l x x'" and disc: "disciplined l x"
    and clock: "\<And>m n. m \<le> n \<Longrightarrow> clk env m \<le> clk env n"
  shows "world_ok env x'"
proof -
  have wf: "alarm_wf (alarm_mod x)" using ok by (simp add: world_ok_def)
  from step show ?thesis
  proof cases
    case (set i a per cb dat q s)
    then have "alarm_queue al = q \<or> a \<notin> List.set (queues (alarm_mod x) (alarm_queue al))"
      if "map_of (objs (alarm_mod x)) a = Some al" for al using disc that by simp
    with set_wf [OF wf set(5)] set(2) show ?thesis using world_ok_mod [OF ok] by simp
  next
    case (cancel_begin i a s)
    have "a \<in> live_objs s" using cancel_core [OF cancel_begin(6,5)] by (auto simp: live_objs_def)
    moreover have "world_ok env (x\<lparr>alarm_mod := s\<rparr>)"
      using cancel_wf [OF wf cancel_begin(6,5)] world_ok_mod [OF ok, of s] by blast
    ultimately show ?thesis
      using cancel_begin(2,3) world_ok_set_act [of env "x\<lparr>alarm_mod := s\<rparr>" i "CancelWait a"] by (simp add: does_def)
  next
    case (cancel_end i a)
    then show ?thesis using world_ok_set_act [OF ok, of i NoAct] by (simp add: does_def)
  next
    case (take_none i q s)
    then have "s = alarm_mod x" by (auto simp: take_ready_def Let_def split: list.splits)
    then show ?thesis using take_none ok by simp
  next
    case (take i q a cb dat d s)
    then show ?thesis using step_take_ok [OF ok _ take(4,5,6)] by (simp add: does_def)
  next
    case (call i a cb d t s)
    then show ?thesis using step_call_ok [OF ok] by simp
  next
    case (call_crash i a cb d e)
    then show ?thesis using no_crash(1) [OF ok clock] by blast
  next
    case (lock_crash i w a cb d)
    then show ?thesis using ok by (auto simp: world_ok_def worker_ok_def does_def)
  next
    case (return i a t d s)
    then show ?thesis using step_return_ok [OF ok _ return(4,5)] by (simp add: does_def)
  next
    case (return_crash i a t d e)
    then show ?thesis using no_crash(2) [OF ok clock] by blast
  next
    case (dispatch s)
    let ?s = "(alarm_mod x)\<lparr>expired := expired (alarm_mod x) - 1\<rparr>"
    have "alarm_wf ?s" using wf by (simp add: alarm_wf_ticks)
    from dispatch_wf [OF this dispatch(6)] show ?thesis
      using dispatch(2) world_ok_mod [OF ok, of s] by (simp add: later_def live_objs_def)
  next
    case timer
    then show ?thesis using world_ok_mod [OF ok, of "timer_callback (alarm_mod x)"] wf
      by (simp add: timer_callback_def alarm_wf_ticks later_def live_objs_def)
  qed
qed

lemma alarm_run_ok:
  assumes "alarm_run env P x x'" and "world_ok env x" and "\<And>l y. P l y \<Longrightarrow> disciplined l y"
    and "\<And>m n. m \<le> n \<Longrightarrow> clk env m \<le> clk env n"
  shows "world_ok env x'"
  using assms(1) unfolding alarm_run_def
proof (induction rule: rtranclp_induct)
  case base
  show ?case by (rule assms(2))
next
  case (step y z)
  then show ?case using alarm_step_ok [of env y _ z] assms(3,4) by blast
qed

lemma start_world_ok: "alarm_wf s \<Longrightarrow> world_ok env (start_world n s)"
  by (auto simp: world_ok_def start_world_def locks_ok_def worker_ok_def)

lemma start_world_idle:
  "\<not> in_call (start_world n s) k c" "k < n \<Longrightarrow> does (start_world n s) k NoAct"
  by (simp_all add: in_call_def does_def start_world_def)

section \<open>Quiet alarms\<close>

text \<open>An alarm that is not pending, waits in no queue, and that no thread is about to call.\<close>

definition quiet :: "ptr \<Rightarrow> alarm_world \<Rightarrow> bool" where
  "quiet a x \<longleftrightarrow> a \<notin> set (alarms (alarm_mod x)) \<and> (\<forall>q. a \<notin> set (queues (alarm_mod x) q)) \<and>
     (\<forall>i cb d. \<not> does x i (TakeWait a cb d))"

lemma does_simps:
  "does (x\<lparr>alarm_mod := s\<rparr>) i w = does x i w"
  "does (x\<lparr>crashed := k\<rparr>) i w = does x i w"
  "does (x\<lparr>monitor := m\<rparr>) i w = does x i w"
  "does (x\<lparr>callback_lock := L\<rparr>) i w = does x i w"
  "j < length (workers x) \<Longrightarrow> does (set_act j v x) i w = (if i = j then v = w else does x i w)"
  "j < length (workers x) \<Longrightarrow> does (set_call j c x) i w = (if i = j then w = NoAct else does x i w)"
  "in_call (x\<lparr>alarm_mod := s\<rparr>) i b = in_call x i b"
  "in_call (x\<lparr>crashed := k\<rparr>) i b = in_call x i b"
  "in_call (x\<lparr>monitor := m\<rparr>) i b = in_call x i b"
  "in_call (x\<lparr>callback_lock := L\<rparr>) i b = in_call x i b"
  "in_call (set_act j v x) i b = in_call x i b"
  "j < length (workers x) \<Longrightarrow> in_call (set_call j c x) i b = (if i = j then \<exists>t d. c = Some (b, t, d) else in_call x i b)"
  by (cases "i = j"; auto simp: does_def in_call_def set_act_def set_call_def)+

lemma mod_simps [simp]:
  "alarm_mod (set_act i w x) = alarm_mod x" "alarm_mod (set_call i c x) = alarm_mod x"
  "monitor (set_act i w x) = monitor x" "monitor (set_call i c x) = monitor x"
  by (simp_all add: set_act_def set_call_def)

lemma quiet_step:
  assumes ok: "world_ok env x" and step: "alarm_step env l x x'" and disc: "disciplined l x"
    and other: "\<not> sets a l" and quiet: "quiet a x"
  shows "quiet a x' \<and> (\<forall>j. in_call x' j a \<longrightarrow> in_call x j a)"
proof -
  have wf: "alarm_wf (alarm_mod x)" using ok by (simp add: world_ok_def)
  have bound: "j < length (workers x)" if "does x j w" for j w using that by (simp add: does_def)
  from step show ?thesis
  proof cases
    case (set i b per cb dat q s)
    then have "alarm_queue al = q \<or> b \<notin> List.set (queues (alarm_mod x) (alarm_queue al))"
      if "map_of (objs (alarm_mod x)) b = Some al" for al using disc that by simp
    with set_wf(4,5) [OF wf set(5)] set(1,2) quiet other show ?thesis
      unfolding quiet_def by (simp add: does_simps subset_iff) blast
  next
    case (cancel_begin i b s)
    note c = cancel_wf(6,7) [OF wf cancel_begin(6,5)]
    show ?thesis using cancel_begin c quiet bound [OF cancel_begin(3)] by (auto simp: quiet_def does_simps)
  next
    case (cancel_end i b)
    then show ?thesis using quiet bound [OF cancel_end(3)] by (auto simp: quiet_def does_simps)
  next
    case (take_none i q s)
    then have "s = alarm_mod x" by (auto simp: take_ready_def Let_def split: list.splits)
    then show ?thesis using take_none quiet by simp
  next
    case (take i q b cb dat d s)
    note t = take_wf(6-8) [OF wf take(6)]
    then have "b \<noteq> a" using quiet by (auto simp: quiet_def)
    then show ?thesis using take t quiet bound [OF take(3)] by (auto simp: quiet_def does_simps)
  next
    case (call i b cb d t s)
    then have "b \<noteq> a" "s = (alarm_mod x)\<lparr>ticks := Suc (ticks (alarm_mod x))\<rparr>"
      using quiet by (auto simp: quiet_def call_start_def now_ms_def split: if_splits)
    then show ?thesis using call quiet bound [OF call(3)] by (auto simp: quiet_def does_simps)
  next
    case (return i b t d s)
    note c = call_end_wf(4,5) [OF wf return(5)]
    show ?thesis using return c quiet bound [OF return(3)] by (auto simp: quiet_def does_simps)
  next
    case (dispatch s)
    have "alarm_wf ((alarm_mod x)\<lparr>expired := expired (alarm_mod x) - 1\<rparr>)" using wf by (simp add: alarm_wf_ticks)
    from dispatch_wf(3,4) [OF this dispatch(6)] dispatch(2) quiet show ?thesis by (fastforce simp: quiet_def does_simps)
  next
    case timer
    then show ?thesis using quiet by (simp add: quiet_def does_simps timer_callback_def)
  qed (use quiet in \<open>auto simp: quiet_def does_simps\<close>)
qed

lemma quiet_run:
  assumes run: "alarm_run env (\<lambda>l y. disciplined l y \<and> \<not> sets a l) x x'" and ok: "world_ok env x"
    and clock: "\<And>m n. m \<le> n \<Longrightarrow> clk env m \<le> clk env n" and quiet: "quiet a x"
  shows "world_ok env x' \<and> quiet a x' \<and> (\<forall>j. in_call x' j a \<longrightarrow> in_call x j a)"
  using run unfolding alarm_run_def
proof (induction rule: rtranclp_induct)
  case base
  show ?case using ok quiet by simp
next
  case (step y z)
  then obtain l where l: "alarm_step env l y z" "disciplined l y" "\<not> sets a l" by blast
  with step.IH have "world_ok env z" "quiet a z \<and> (\<forall>j. in_call z j a \<longrightarrow> in_call y j a)"
    using alarm_step_ok [OF _ l(1,2) clock] quiet_step [OF _ l] by blast+
  then show ?case using step.IH by blast
qed

lemma cancel_begin_quiet:
  assumes ok: "world_ok env x" and step: "alarm_step env (CancelBegin i a) x x'"
  shows "quiet a x'"
  using step
proof cases
  case (cancel_begin s)
  have "\<not> does x j (TakeWait a cb d)" for j cb d
    using ok cancel_begin(3) by (auto simp: world_ok_def worker_ok_def does_def)
  moreover have "i < length (workers x)" using cancel_begin(2) by (simp add: does_def)
  moreover have "alarm_wf (alarm_mod x)" using ok by (simp add: world_ok_def)
  note cancel_wf(3,4) [OF this cancel_begin(5,4)]
  ultimately show ?thesis unfolding cancel_begin(1) by (auto simp: quiet_def does_simps)
qed

section \<open>Properties\<close>

text \<open>
  C6. Concurrent use is safe: whatever several threads do with the module (setting and cancelling
  alarms, from callbacks too, processing queues, dispatching), as long as an alarm waiting in a
  queue is not moved to another queue and the clock does not run backwards, no null callback
  is called and no assertion of \<open>alarm_queue_ready\<close> fails, and at most one thread is in the callback
  of an alarm.
\<close>

theorem alarm_threads_safe:
  assumes "\<And>m n. m \<le> n \<Longrightarrow> clk env m \<le> clk env n" and "alarm_wf s" and "alarm_run env disciplined (start_world n s) x"
  shows "\<not> crashed x \<and> alarm_wf (alarm_mod x) \<and> (in_call x i a \<and> in_call x j a \<longrightarrow> i = j)"
proof -
  have ok: "world_ok env x" by (rule alarm_run_ok [OF assms(3) start_world_ok [OF assms(2)] _ assms(1)])
  then have locks: "locks_ok (callback_lock x) (workers x)" by (simp add: world_ok_def)
  have "callback_lock x a = Some k" if "in_call x k a" for k
    using that locks_okD(2) [OF locks] by (auto simp: in_call_def)
  from this [of i] this [of j] show ?thesis using ok by (auto simp: world_ok_def)
qed

text \<open>Thread \<open>i\<close> takes the first alarm of a queue and enters its callback.\<close>

lemma run_into_call:
  assumes idle: "does x i NoAct" "\<And>b. \<not> in_call x i b" and free: "monitor x = None" "callback_lock x a = None"
    and q: "queues (alarm_mod x) q = a # r" and al: "map_of (objs (alarm_mod x)) a = Some al" "callback al \<noteq> NULL"
    and made: "made (alarm_mod x)"
  shows "\<exists>y. alarm_run env disciplined x y \<and> in_call y i a \<and> does y i NoAct \<and> monitor y = None \<and>
    callback_lock y = (callback_lock x)(a := Some i) \<and>
    (\<forall>k w b. k \<noteq> i \<longrightarrow> does y k w = does x k w \<and> in_call y k b = in_call x k b) \<and>
    made (alarm_mod y) \<and> alarms (alarm_mod y) = alarms (alarm_mod x) \<and>
    queues (alarm_mod y) = (queues (alarm_mod x))(q := r) \<and>
    (\<exists>al1. map_of (objs (alarm_mod y)) = (map_of (objs (alarm_mod x)))(a \<mapsto> al1) \<and> alarm_queue al1 = alarm_queue al)"
proof -
  have i: "i < length (workers x)" "calling (workers x ! i) = None"
    using idle(1) idle(2) [of "fst (the (calling (workers x ! i)))"]
    by (cases "calling (workers x ! i)"; auto simp: does_def in_call_def)+
  obtain dat d s where take: "take_ready q (alarm_mod x) = Inr (Some (a, callback al, dat, d), s)"
    and s: "made s" "alarms s = alarms (alarm_mod x)" "queues s = (queues (alarm_mod x))(q := r)"
      "\<exists>al1. map_of (objs s) = (map_of (objs (alarm_mod x)))(a \<mapsto> al1) \<and> alarm_queue al1 = alarm_queue al"
  proof -
    let ?al1 = "if is_periodic al then al else al\<lparr>deadline := 0, callback := NULL, cb_data := NULL\<rparr>"
    have "alarm_queue ?al1 = alarm_queue al" by simp
    then show thesis using that q al made by (simp add: take_ready_def Let_def) blast
  qed
  let ?y = "set_act i (TakeWait a (callback al) d) (x\<lparr>alarm_mod := s, monitor := Some i\<rparr>)"
  have 1: "alarm_step env Internal x ?y" by (rule alarm_step.take [OF idle(1) i(2) free(1) take])
  have start: "call_start env (callback al) s = Inr (clk env (ticks s), s\<lparr>ticks := Suc (ticks s)\<rparr>)"
    using s(1) al(2) by (simp add: call_start_def now_ms_def)
  let ?z = "set_call i (Some (a, clk env (ticks s), d)) (?y\<lparr>alarm_mod := s\<lparr>ticks := Suc (ticks s)\<rparr>, monitor := None,
      callback_lock := (callback_lock ?y)(a := Some i)\<rparr>)"
  have "does ?y i (TakeWait a (callback al) d)" "callback_lock ?y a = None" using i free(2) by (simp_all add: does_def set_act_def)
  moreover have "a \<in> live_objs (alarm_mod ?y)" using s(4) by (auto simp: live_objs_def set_act_def)
  moreover note start
  ultimately have 2: "alarm_step env Internal ?y ?z" by (intro alarm_step.call) simp_all
  have "alarm_run env disciplined x ?z" unfolding alarm_run_def
    by (rule rtranclp.rtrancl_into_rtrancl [OF r_into_rtranclp]) (use 1 2 in auto)
  moreover have "in_call ?z i a" "does ?z i NoAct" using i by (simp_all add: in_call_def does_def set_call_def set_act_def)
  moreover have "does ?z k w = does x k w" "in_call ?z k b = in_call x k b" if "k \<noteq> i" for k w b
    using that i(1) by (simp_all add: does_def in_call_def set_call_def set_act_def)
  ultimately show ?thesis using s by (intro exI [of _ ?z]) (simp add: set_call_def set_act_def)
qed

definition world_demo :: alarm_sys where
  "world_demo = demo_alarms\<lparr>alarms := [], queues := (\<lambda>_. [])(8 := [16])\<rparr>"

lemma world_demo_wf: "alarm_wf world_demo"
  by (auto simp: alarm_wf_def world_demo_def demo_alarms_def demo_alarm_def)

definition still_env :: alarm_env where
  "still_env = demo_env\<lparr>clk := \<lambda>_. 100\<rparr>"

text \<open>A thread takes the alarm from its queue and enters the callback.\<close>

lemma world_demo_run:
  "\<exists>x. alarm_run still_env disciplined (start_world 2 world_demo) x \<and> in_call x 0 16"
proof -
  have "does (start_world 2 world_demo) 0 NoAct" "\<And>b. \<not> in_call (start_world 2 world_demo) 0 b"
    by (simp_all add: start_world_idle)
  from run_into_call [OF this, of 16 8 "[]" demo_alarm still_env] show ?thesis
    by (auto simp: start_world_def world_demo_def demo_alarms_def demo_alarm_def)
qed

theorem alarm_threads_safe_witness:
  "\<exists>x. alarm_run still_env disciplined (start_world 2 world_demo) x \<and> in_call x 0 16 \<and> \<not> in_call x 1 16 \<and> \<not> crashed x"
proof -
  obtain x where x: "alarm_run still_env disciplined (start_world 2 world_demo) x" "in_call x 0 16"
    using world_demo_run by blast
  have "clk still_env m \<le> clk still_env n" for m n by (simp add: still_env_def)
  from alarm_threads_safe [OF this world_demo_wf x(1), of 0 16 1] x show ?thesis by auto
qed

lemma cancel_quiet:
  assumes clock: "\<And>m n. m \<le> n \<Longrightarrow> clk env m \<le> clk env n" and ok: "world_ok env x"
    and s1: "alarm_step env (CancelBegin i a) x x1" and run: "alarm_run env (\<lambda>l y. disciplined l y \<and> \<not> sets a l) x1 x2"
    and s2: "alarm_step env (CancelEnd i a) x2 x3"
  shows "world_ok env x3" "quiet a x3" "j \<noteq> i \<Longrightarrow> \<not> in_call x3 j a" "in_call x3 j b = in_call x2 j b"
proof -
  have 1: "world_ok env x1" "quiet a x1"
    using alarm_step_ok [OF ok s1 _ clock] cancel_begin_quiet [OF ok s1] by simp_all
  then have 2: "world_ok env x2" "quiet a x2" using quiet_run [OF run _ clock] by blast+
  show "world_ok env x3" "quiet a x3"
    using alarm_step_ok [OF 2(1) s2 _ clock] quiet_step [OF 2(1) s2 _ _ 2(2)] by simp_all
  have lock: "callback_lock x2 a = None \<or> callback_lock x2 a = Some i" and x3: "x3 = set_act i NoAct x2"
    using s2 by (auto elim: alarm_step.cases)
  show same: "in_call x3 j b = in_call x2 j b" for j b using x3 by (simp add: does_simps)
  have "locks_ok (callback_lock x2) (workers x2)" using 2(1) by (simp add: world_ok_def)
  then show "\<not> in_call x3 j a" if "j \<noteq> i"
    using same lock locks_okD(2) [of "callback_lock x2" "workers x2" j a] that by (auto simp: in_call_def)
qed

text \<open>
  C3. The promise of \<open>alarm_cancel\<close>: in runs that keep to \<open>disciplined\<close> (an alarm waiting in a queue is
  not moved to another queue), with a clock that does not run backwards, once a call of it by
  thread \<open>i\<close> has returned, and as long as nobody
  sets the alarm again after the cancellation began, no other thread is in the callback of the
  alarm, now or later, and the alarm is neither pending nor in any queue. (Thread \<open>i\<close> itself may be
  in the callback, when the callback cancels its own alarm.)
\<close>

theorem alarm_cancel_quiesces:
  assumes "\<And>m n. m \<le> n \<Longrightarrow> clk env m \<le> clk env n" and "alarm_wf s" and "alarm_run env disciplined (start_world n s) x"
    and "alarm_step env (CancelBegin i a) x x1" and "alarm_run env (\<lambda>l y. disciplined l y \<and> \<not> sets a l) x1 x2"
    and "alarm_step env (CancelEnd i a) x2 x3" and "alarm_run env (\<lambda>l y. disciplined l y \<and> \<not> sets a l) x3 x4"
    and "j \<noteq> i"
  shows "\<not> in_call x4 j a \<and> a \<notin> set (alarms (alarm_mod x4)) \<and> (\<forall>q. a \<notin> set (queues (alarm_mod x4) q))"
proof -
  have ok: "world_ok env x" by (rule alarm_run_ok [OF assms(3) start_world_ok [OF assms(2)] _ assms(1)])
  note q = cancel_quiet [OF assms(1) ok assms(4-6)]
  show ?thesis using quiet_run [OF assms(7) q(1) assms(1) q(2)] q(3) [of j] assms(8) by (auto simp: quiet_def)
qed

text \<open>Another thread cancels the alarm that waits in the queue.\<close>

lemma world_demo_cancel: "\<exists>s. alarm_cancel still_env 16 world_demo = Inr s"
proof -
  have "alarm_inv world_demo" "map_of (objs world_demo) 16 = Some demo_alarm"
    by (auto simp: world_demo_def demo_alarms_def demo_alarm_def alarm_inv_def pending_ok_def lock_ok_def dl_def)
  from alarm_cancel_ok [OF this] show ?thesis by auto
qed

lemma world_demo_cancel_run:
  "\<exists>x1 x3. alarm_step still_env (CancelBegin 1 16) (start_world 2 world_demo) x1 \<and> \<not> in_call x1 1 16 \<and>
     alarm_step still_env (CancelEnd 1 16) x1 x3 \<and> (\<forall>j. \<not> does x3 j (CancelWait 16))"
proof -
  let ?x = "start_world 2 world_demo"
  obtain s where s: "alarm_cancel still_env 16 world_demo = Inr s" using world_demo_cancel by blast
  let ?x1 = "set_act 1 (CancelWait 16) (?x\<lparr>alarm_mod := s\<rparr>)"
  have "alarm_step still_env (CancelBegin 1 16) ?x ?x1"
    using alarm_step.cancel_begin [of ?x 1 16 still_env s] s by (simp add: does_def start_world_def)
  moreover have "alarm_step still_env (CancelEnd 1 16) ?x1 (set_act 1 NoAct ?x1)"
    using alarm_step.cancel_end [of ?x1 1 16 still_env] cancel_core [OF s]
    by (auto simp: does_def set_act_def start_world_def live_objs_def)
  moreover have "\<not> in_call ?x1 1 16" by (simp add: does_simps start_world_idle)
  moreover have "\<forall>j. \<not> does (set_act 1 NoAct ?x1) j (CancelWait 16)"
    by (simp add: does_def set_act_def start_world_def nth_list_update)
  ultimately show ?thesis by (intro exI [of _ ?x1] exI [of _ "set_act 1 NoAct ?x1"]) simp
qed

lemma still_clock: "clk still_env m \<le> clk still_env n"
  by (simp add: still_env_def)

lemma alarm_run_refl: "alarm_run env P x x"
  by (simp add: alarm_run_def)

theorem alarm_cancel_quiesces_witness:
  "\<exists>x1 x3. alarm_step still_env (CancelBegin 1 16) (start_world 2 world_demo) x1 \<and>
     alarm_step still_env (CancelEnd 1 16) x1 x3 \<and> \<not> in_call x3 0 16 \<and> 16 \<notin> set (queues (alarm_mod x3) 8)"
proof -
  obtain x1 x3 where x: "alarm_step still_env (CancelBegin 1 16) (start_world 2 world_demo) x1" "alarm_step still_env (CancelEnd 1 16) x1 x3"
    using world_demo_cancel_run by blast
  from alarm_cancel_quiesces [OF still_clock world_demo_wf alarm_run_refl x(1) alarm_run_refl x(2) alarm_run_refl, of 0] x
  show ?thesis by (intro exI [of _ x1] exI [of _ x3]) simp
qed

section \<open>Freeing alarms\<close>

text \<open>
  The end of \<open>alarm_free\<close>, after its call of \<open>alarm_cancel\<close>: the object is gone, and with it its
  callback lock.
\<close>

definition free_object :: "ptr \<Rightarrow> alarm_world \<Rightarrow> alarm_world" where
  "free_object a x = x\<lparr>alarm_mod := (alarm_mod x)\<lparr>objs := release a (objs (alarm_mod x))\<rparr>\<rparr>"

lemma alarm_wf_release:
  assumes wf: "alarm_wf s" and a: "a \<notin> set (alarms s)" "\<And>q. a \<notin> set (queues s q)"
  shows "alarm_wf (s\<lparr>objs := release a (objs s)\<rparr>)" (is "alarm_wf ?s")
proof -
  have other: "map_of (objs ?s) b = map_of (objs s) b" if "b \<in> set (alarms s) \<or> b \<in> set (queues s q)" for b q
    using that a by auto
  have "\<exists>al. map_of (objs ?s) b = Some al \<and> callback al \<noteq> NULL \<and> alarm_queue al \<noteq> NULL" if "b \<in> set (alarms s)" for b
    using wf that other [of b] unfolding alarm_wf_def by simp
  moreover have "\<exists>al. map_of (objs ?s) b = Some al \<and> callback al \<noteq> NULL \<and> alarm_queue al = q \<and> q \<noteq> NULL"
    if "b \<in> set (queues s q)" for b q
    using wf that other [of b q] unfolding alarm_wf_def by simp
  moreover have "count_list (queues s (alarm_queue al)) b + (if b \<in> set (alarms s) then 1 else 0) \<le> 1"
    if "map_of (objs ?s) b = Some al \<and> \<not> is_periodic al" for b al
    using that wf unfolding alarm_wf_def by (cases "b = a") simp_all
  moreover have "made ?s" "distinct (alarms s)" using wf by (simp_all add: alarm_wf_def)
  ultimately show ?thesis unfolding alarm_wf_def by simp
qed

lemma free_object_ok:
  assumes ok: "world_ok env x" and quiet: "quiet a x" and none: "\<And>j. \<not> in_call x j a"
    and wait: "\<And>j. \<not> does x j (CancelWait a)"
  shows "world_ok env (free_object a x)" "quiet a (free_object a x)" "in_call (free_object a x) j b = in_call x j b"
proof -
  have "alarm_wf (alarm_mod (free_object a x))"
    unfolding free_object_def using ok quiet alarm_wf_release by (simp add: world_ok_def quiet_def)
  moreover have "worker_ok env (alarm_mod (free_object a x)) (monitor x) i (workers x ! i)" if "i < length (workers x)" for i
  proof -
    have w: "worker_ok env (alarm_mod x) (monitor x) i (workers x ! i)" using ok that by (simp add: world_ok_def)
    moreover have "act (workers x ! i) \<noteq> TakeWait a cb d" for cb d using quiet that by (auto simp: quiet_def does_def)
    moreover have "calling (workers x ! i) \<noteq> Some (a, t, d)" for t d using none that by (auto simp: in_call_def)
    moreover have "act (workers x ! i) \<noteq> CancelWait a" using wait that by (auto simp: does_def)
    ultimately show ?thesis by (auto simp: worker_ok_def live_objs_def free_object_def)
  qed
  ultimately show "world_ok env (free_object a x)" using ok by (simp add: world_ok_def free_object_def)
  show "quiet a (free_object a x)" using quiet by (simp add: quiet_def free_object_def does_simps)
  show "in_call (free_object a x) j b = in_call x j b" by (simp add: free_object_def does_simps)
qed

text \<open>The calls that use an alarm.\<close>

fun uses :: "ptr \<Rightarrow> alarm_label \<Rightarrow> bool" where
  "uses a (SetAlarm i b q) = (a = b)"
| "uses a (CancelBegin i b) = (a = b)"
| "uses a _ = False"

lemma sets_uses: "sets a l \<Longrightarrow> uses a l"
  by (cases l) simp_all

lemma alarm_run_mono: "alarm_run env P x y \<Longrightarrow> (\<And>l z. P l z \<Longrightarrow> Q l z) \<Longrightarrow> alarm_run env Q x y"
  unfolding alarm_run_def by (erule rtranclp_mono [THEN predicate2D, rotated]) blast

text \<open>
  C14. When freeing an alarm is safe, and when not. Let a thread that is not in the callback of the
  alarm call \<open>alarm_free\<close>, let queue changes keep to the rule of \<open>disciplined\<close>, and let nobody set the
  alarm again. When the call of \<open>alarm_cancel\<close> has come back, no thread is in the callback and the
  callback lock is free. If no other thread is at that moment still at the end of an
  \<open>alarm_cancel\<close> of the same alarm, taking the object away breaks nothing: whatever the threads do
  afterwards without using the alarm, nothing crashes and the callback is not entered again. If
  there is such a thread, its next step uses the destroyed lock of the freed object.
\<close>

theorem alarm_free_safe:
  assumes "\<And>m n. m \<le> n \<Longrightarrow> clk env m \<le> clk env n" and "alarm_wf s" and "alarm_run env disciplined (start_world n s) x"
    and "alarm_step env (CancelBegin i a) x x1" and "alarm_run env (\<lambda>l y. disciplined l y \<and> \<not> sets a l) x1 x2"
    and "alarm_step env (CancelEnd i a) x2 x3" and "\<not> in_call x2 i a"
  shows "(\<forall>j. \<not> in_call x3 j a) \<and> callback_lock x3 a = None \<and>
    (if \<exists>j. does x3 j (CancelWait a)
     then \<exists>y. alarm_step env Internal (free_object a x3) y \<and> crashed y
     else \<forall>x4. alarm_run env (\<lambda>l y. disciplined l y \<and> \<not> uses a l) (free_object a x3) x4 \<longrightarrow>
       \<not> crashed x4 \<and> alarm_wf (alarm_mod x4) \<and> (\<forall>j. \<not> in_call x4 j a))"
proof -
  have ok: "world_ok env x" by (rule alarm_run_ok [OF assms(3) start_world_ok [OF assms(2)] _ assms(1)])
  note q = cancel_quiet [OF assms(1) ok assms(4-6)]
  have none: "\<not> in_call x3 j a" for j using q(3) [of j] q(4) assms(7) by (cases "j = i") simp_all
  have lock: "callback_lock x3 a = None"
    using none q(1) locks_okD(1) by (cases "callback_lock x3 a") (force simp: world_ok_def in_call_def)+
  show ?thesis
  proof (cases "\<exists>j. does x3 j (CancelWait a)")
    case True
    then obtain j where "does (free_object a x3) j (CancelWait a)" by (auto simp: free_object_def does_def)
    moreover have "a \<notin> live_objs (alarm_mod (free_object a x3))" by (simp add: live_objs_def free_object_def)
    ultimately have "alarm_step env Internal (free_object a x3) ((free_object a x3)\<lparr>crashed := True\<rparr>)"
      by (blast intro: alarm_step.lock_crash)
    then have "\<exists>y. alarm_step env Internal (free_object a x3) y \<and> crashed y"
      by (intro exI [of _ "(free_object a x3)\<lparr>crashed := True\<rparr>"]) simp
    then show ?thesis using True none lock by simp
  next
    case False
    then have wait: "\<not> does x3 j (CancelWait a)" for j by blast
    note f = free_object_ok [OF q(1,2) none wait]
    have "\<not> crashed x4 \<and> alarm_wf (alarm_mod x4) \<and> (\<forall>j. \<not> in_call x4 j a)"
      if run: "alarm_run env (\<lambda>l y. disciplined l y \<and> \<not> uses a l) (free_object a x3) x4" for x4
    proof -
      have "alarm_run env (\<lambda>l y. disciplined l y \<and> \<not> sets a l) (free_object a x3) x4"
        using run by (rule alarm_run_mono) (use sets_uses in blast)
      from quiet_run [OF this f(1) assms(1) f(2)] show ?thesis using none f(3) by (auto simp: world_ok_def)
    qed
    then show ?thesis using False none lock by simp
  qed
qed

theorem alarm_free_safe_witness:
  "\<exists>x3. \<not> in_call x3 0 16 \<and> callback_lock x3 16 = None \<and> \<not> crashed (free_object 16 x3) \<and>
     alarm_wf (alarm_mod (free_object 16 x3))"
proof -
  obtain x1 x3 where x: "alarm_step still_env (CancelBegin 1 16) (start_world 2 world_demo) x1" "alarm_step still_env (CancelEnd 1 16) x1 x3"
    "\<not> in_call x1 1 16" "\<forall>j. \<not> does x3 j (CancelWait 16)" using world_demo_cancel_run by blast
  from alarm_free_safe [OF still_clock world_demo_wf alarm_run_refl x(1) alarm_run_refl x(2,3)] x(4) alarm_run_refl
  show ?thesis by (intro exI [of _ x3]) auto
qed

section \<open>Callbacks that cancel each other's alarms\<close>

text \<open>A thread that waits for a callback lock of another thread stays where it is.\<close>

lemma waiting_stays:
  assumes step: "alarm_step env l x x'" and wait: "does x i (CancelWait b)"
    and lock: "callback_lock x b = Some j" "j \<noteq> i"
  shows "does x' i (CancelWait b) \<and> (in_call x' i a \<longleftrightarrow> in_call x i a)"
proof -
  have bound: "k < length (workers x)" if "does x k w" for k w using that by (simp add: does_def)
  have other: "k \<noteq> i" if "does x k w" "w \<noteq> CancelWait b" for k w using that wait by (auto simp: does_def)
  from step show ?thesis
  proof cases
    case (cancel_begin k c s)
    then show ?thesis using wait other [OF cancel_begin(3)] bound [OF cancel_begin(3)] by (simp add: does_simps)
  next
    case (cancel_end k c)
    then have "k \<noteq> i" using wait lock by (auto simp: does_def)
    then show ?thesis using cancel_end wait bound [OF cancel_end(3)] by (simp add: does_simps)
  next
    case (take k q c cb dat d s)
    then show ?thesis using wait other [OF take(3)] bound [OF take(3)] by (simp add: does_simps)
  next
    case (call k c cb d t s)
    then show ?thesis using wait other [OF call(3)] bound [OF call(3)] by (simp add: does_simps)
  next
    case (return k c t d s)
    then show ?thesis using wait other [OF return(3)] bound [OF return(3)] by (simp add: does_simps)
  qed (use wait in \<open>simp_all add: does_simps\<close>)
qed

lemma in_call_lock: "world_ok env x \<Longrightarrow> in_call x i a \<Longrightarrow> callback_lock x a = Some i"
  using locks_okD(2) by (auto simp: world_ok_def in_call_def)

text \<open>
  C30. The wait of \<open>alarm_cancel\<close> can deadlock: when two threads are each in the callback of one alarm and
  have begun to cancel the alarm of the other, both wait for ever, whatever else happens.
\<close>

theorem alarm_cross_cancel_deadlock:
  assumes "\<And>m n. m \<le> n \<Longrightarrow> clk env m \<le> clk env n" and "alarm_wf s" and "alarm_run env disciplined (start_world n s) x"
    and "in_call x i a" and "in_call x j b" and "i \<noteq> j" and "does x i (CancelWait b)" and "does x j (CancelWait a)"
    and "alarm_run env disciplined x y"
  shows "does y i (CancelWait b) \<and> does y j (CancelWait a)"
proof -
  have "world_ok env x" by (rule alarm_run_ok [OF assms(3) start_world_ok [OF assms(2)] _ assms(1)])
  with assms(9) assms(4-8)
  have "world_ok env y \<and> in_call y i a \<and> in_call y j b \<and> does y i (CancelWait b) \<and> does y j (CancelWait a)"
    unfolding alarm_run_def
  proof (induction rule: rtranclp_induct)
    case (step y z)
    then obtain l where l: "alarm_step env l y z" "disciplined l y" by blast
    have y: "world_ok env y" "in_call y i a" "in_call y j b" "does y i (CancelWait b)" "does y j (CancelWait a)"
      using step.IH step.prems by blast+
    have "callback_lock y b = Some j" "callback_lock y a = Some i" using in_call_lock y by blast+
    then show ?case
      using waiting_stays [OF l(1) y(4), of j a] waiting_stays [OF l(1) y(5), of i b]
        alarm_step_ok [OF y(1) l assms(1)] y assms(6) by simp
  qed simp
  then show ?thesis by blast
qed

text \<open>Thread \<open>i\<close> begins to cancel an alarm, while none is pending.\<close>

lemma run_into_cancel:
  assumes idle: "does x i NoAct" and free: "monitor x = None" and b: "b \<noteq> NULL" "map_of (objs (alarm_mod x)) b = Some al"
    and made: "made (alarm_mod x)" and none: "alarms (alarm_mod x) = []"
  obtains y where "alarm_run env disciplined x y" "does y i (CancelWait b)" "monitor y = None"
    "\<And>k w. k \<noteq> i \<Longrightarrow> does y k w = does x k w" "\<And>k c. in_call y k c = in_call x k c"
    "made (alarm_mod y)" "alarms (alarm_mod y) = []" "dom (map_of (objs (alarm_mod y))) = dom (map_of (objs (alarm_mod x)))"
proof -
  have i: "i < length (workers x)" using idle by (simp add: does_def)
  obtain s where s: "alarm_cancel env b (alarm_mod x) = Inr s"
    using b made none by (auto simp: alarm_cancel_def cancel_locked_def is_front_def remove_pending_alarm_def Let_def)
  have "made s \<and> alarms s = [] \<and> dom (map_of (objs s)) = dom (map_of (objs (alarm_mod x)))"
    using cancel_core [OF s b(1)] made none b(2) by (auto simp: later_def)
  moreover have "alarm_run env disciplined x (set_act i (CancelWait b) (x\<lparr>alarm_mod := s\<rparr>))"
    unfolding alarm_run_def using alarm_step.cancel_begin [OF idle free b(1) s] by fastforce
  ultimately show ?thesis using i free by (intro that [of "set_act i (CancelWait b) (x\<lparr>alarm_mod := s\<rparr>)"]) (simp_all add: does_simps)
qed

definition cross_demo :: alarm_sys where
  "cross_demo = demo_alarms\<lparr>alarms := [], objs := [(16, demo_alarm), (24, demo_alarm\<lparr>alarm_queue := 9\<rparr>)],
     queues := (\<lambda>_. [])(8 := [16], 9 := [24])\<rparr>"

lemma cross_demo_wf: "alarm_wf cross_demo"
  by (auto simp: alarm_wf_def cross_demo_def demo_alarms_def demo_alarm_def split: if_splits)

lemma cross_demo_calls:
  "\<exists>x. alarm_run still_env disciplined (start_world 2 cross_demo) x \<and> in_call x 0 16 \<and> in_call x 1 24 \<and>
    does x 0 NoAct \<and> does x 1 NoAct \<and> monitor x = None \<and> made (alarm_mod x) \<and> alarms (alarm_mod x) = [] \<and>
    {16, 24} \<subseteq> dom (map_of (objs (alarm_mod x)))"
proof -
  let ?x = "start_world 2 cross_demo"
  have x: "does ?x 0 NoAct" "does ?x 1 NoAct" "\<not> in_call ?x k c" "monitor ?x = None" "callback_lock ?x c = None" for k c
    by (simp_all add: start_world_idle) (simp_all add: start_world_def)
  have m: "queues (alarm_mod ?x) 8 = [16]" "queues (alarm_mod ?x) 9 = [24]" "made (alarm_mod ?x)" "alarms (alarm_mod ?x) = []"
    "map_of (objs (alarm_mod ?x)) 16 = Some demo_alarm" "callback demo_alarm \<noteq> NULL"
    "map_of (objs (alarm_mod ?x)) 24 = Some (demo_alarm\<lparr>alarm_queue := 9\<rparr>)"
    by (simp_all add: start_world_def cross_demo_def demo_alarms_def demo_alarm_def)
  obtain y al1 where y: "alarm_run still_env disciplined ?x y" "in_call y 0 16" "does y 0 NoAct" "monitor y = None"
    "callback_lock y = (callback_lock ?x)(16 := Some 0)" "does y 1 NoAct" "\<And>b. \<not> in_call y 1 b" "made (alarm_mod y)"
    "alarms (alarm_mod y) = []" "queues (alarm_mod y) = (queues (alarm_mod ?x))(8 := [])"
    "map_of (objs (alarm_mod y)) = (map_of (objs (alarm_mod ?x)))(16 \<mapsto> al1)"
    using run_into_call [OF x(1,3,4,5) m(1,5,6,3), of still_env] x m(4) by auto
  have "callback_lock y 24 = None" "queues (alarm_mod y) 9 = [24]"
    "map_of (objs (alarm_mod y)) 24 = Some (demo_alarm\<lparr>alarm_queue := 9\<rparr>)" using x(5) y(5,10,11) m(2,7) by simp_all
  from run_into_call [OF y(6,7,4) this _ y(8), of still_env] obtain z where z: "alarm_run still_env disciplined y z" "in_call z 1 24"
    "does z 1 NoAct" "monitor z = None" "in_call z 0 16" "does z 0 NoAct" "made (alarm_mod z)" "alarms (alarm_mod z) = []"
    "{16, 24} \<subseteq> dom (map_of (objs (alarm_mod z)))"
    using y m(6) by auto
  moreover have "alarm_run still_env disciplined ?x z" using y(1) z(1) by (simp add: alarm_run_def)
  ultimately show ?thesis by blast
qed

theorem alarm_cross_cancel_deadlock_witness:
  "\<exists>x. alarm_run still_env disciplined (start_world 2 cross_demo) x \<and>
    (\<forall>y. \<not> (alarm_run still_env disciplined x y \<and> does y 0 NoAct))"
proof -
  obtain x where x: "alarm_run still_env disciplined (start_world 2 cross_demo) x" "in_call x 0 16" "in_call x 1 24"
    "does x 0 NoAct" "does x 1 NoAct" "monitor x = None" "made (alarm_mod x)" "alarms (alarm_mod x) = []"
    "{16, 24} \<subseteq> dom (map_of (objs (alarm_mod x)))" using cross_demo_calls by blast
  have nn: "(24 :: ptr) \<noteq> NULL" "(16 :: ptr) \<noteq> NULL" by simp_all
  obtain al where al: "map_of (objs (alarm_mod x)) 24 = Some al" using x(9) by auto
  obtain y where y: "alarm_run still_env disciplined x y" "does y 0 (CancelWait 24)" "monitor y = None"
    "\<And>k w. k \<noteq> 0 \<Longrightarrow> does y k w = does x k w" "\<And>k c. in_call y k c = in_call x k c"
    "made (alarm_mod y)" "alarms (alarm_mod y) = []" "dom (map_of (objs (alarm_mod y))) = dom (map_of (objs (alarm_mod x)))"
    by (rule run_into_cancel [OF x(4,6) nn(1) al x(7,8), where env = still_env]) (rule that)
  have "16 \<in> dom (map_of (objs (alarm_mod y)))" "does y 1 NoAct" using x(5,9) y(4) [of 1] y(8) by simp_all
  then obtain al2 where y2: "does y 1 NoAct" "map_of (objs (alarm_mod y)) 16 = Some al2" by auto
  obtain z where z: "alarm_run still_env disciplined y z" "does z 1 (CancelWait 16)" "monitor z = None"
    "\<And>k w. k \<noteq> 1 \<Longrightarrow> does z k w = does y k w" "\<And>k c. in_call z k c = in_call y k c"
    "made (alarm_mod z)" "alarms (alarm_mod z) = []" "dom (map_of (objs (alarm_mod z))) = dom (map_of (objs (alarm_mod y)))"
    by (rule run_into_cancel [OF y2(1) y(3) nn(2) y2(2) y(6,7), where env = still_env]) (rule that)
  have wait: "in_call z 0 16" "in_call z 1 24" "does z 0 (CancelWait 24)" using x(2,3) y(2,5) z(4,5) by simp_all
  have run: "alarm_run still_env disciplined (start_world 2 cross_demo) z" using x(1) y(1) z(1) by (simp add: alarm_run_def)
  have clock: "clk still_env m \<le> clk still_env n" for m n by (simp add: still_env_def)
  have "\<not> does w 0 NoAct" if "alarm_run still_env disciplined z w" for w
    using alarm_cross_cancel_deadlock [OF clock cross_demo_wf run wait(1,2) _ wait(3) z(2) that] by (auto simp: does_def)
  then show ?thesis using run by blast
qed

end
