(* ===== verification/Metrics.thy ===== *)
theory Metrics
  imports Prelude
begin

text \<open>
  The metrics of \<open>src/metrics.cpp\<close>: a log of Bluetooth events that is collected in memory and written
  out on request. The messages are those of the schema \<open>src/protos/bluetooth.proto\<close>: a message is
  a record whose optional fields are options, a repeated field is a list, and the signed fields
  keep the bits of the words they are set to. The serialiser, the text printer and the Base64
  encoding belong to other libraries and are arguments. The mutex \<open>log_lock\<close> is not recursive.

  The theory shows that the log is exactly the history of the calls since it was last cleared,
  and that a failing serialiser leaves the mutex locked for ever.
\<close>

section \<open>The messages\<close>

datatype device_type_t = DEVICE_TYPE_UNKNOWN | DEVICE_TYPE_BREDR | DEVICE_TYPE_LE | DEVICE_TYPE_DUMO

datatype wake_event_type_t = WAKE_EVENT_UNKNOWN | WAKE_EVENT_ACQUIRED | WAKE_EVENT_RELEASED

datatype scan_tech_t = SCAN_TYPE_UNKNOWN | SCAN_TECH_TYPE_LE | SCAN_TECH_TYPE_BREDR | SCAN_TECH_TYPE_BOTH

datatype DeviceInfo_DeviceType = Device_UNKNOWN | Device_BREDR | Device_LE | Device_DUMO

datatype WakeEvent_WakeEventType = Wake_UNKNOWN | Wake_ACQUIRED | Wake_RELEASED

datatype ScanEvent_ScanTechnologyType = Scan_UNKNOWN | Scan_LE | Scan_BREDR | Scan_BOTH

datatype ScanEvent_ScanEventType = SCAN_EVENT_START | SCAN_EVENT_STOP

datatype ConnectionTechnologyType =
  CONNECTION_TECHNOLOGY_TYPE_UNKNOWN | CONNECTION_TECHNOLOGY_TYPE_LE | CONNECTION_TECHNOLOGY_TYPE_BREDR

record DeviceInfo =
  device_class :: "uint32_t option"
  device_type :: "DeviceInfo_DeviceType option"

record PairEvent =
  pair_disconnect_reason :: "uint32_t option"
  pair_event_time_millis :: "uint64_t option"
  device_paired_with :: "DeviceInfo option"

record WakeEvent =
  wake_event_type :: "WakeEvent_WakeEventType option"
  requestor :: "string option"
  wake_name :: "string option"
  wake_event_time_millis :: "uint64_t option"

record ScanEvent =
  scan_event_type :: "ScanEvent_ScanEventType option"
  initiator :: "string option"
  scan_technology_type :: "ScanEvent_ScanTechnologyType option"
  number_results :: "uint32_t option"
  scan_event_time_millis :: "uint64_t option"

text \<open>The average is a \<open>float\<close>; only its bits are stored.\<close>

record A2DPSession =
  media_timer_min_millis :: "uint32_t option"
  media_timer_max_millis :: "uint32_t option"
  media_timer_avg_millis :: "uint32_t option"
  buffer_overruns_max_count :: "uint32_t option"
  buffer_overruns_total :: "uint32_t option"
  buffer_underruns_average :: "uint32_t option"
  buffer_underruns_count :: "uint32_t option"

record RFCommSession =
  rx_bytes :: "uint32_t option"
  tx_bytes :: "uint32_t option"

record BluetoothSession =
  session_duration_sec :: "uint64_t option"
  connection_technology_type :: "ConnectionTechnologyType option"
  session_disconnect_reason :: "string option"
  device_connected_to :: "DeviceInfo option"
  rfcomm_session :: "RFCommSession option"
  a2dp_session :: "A2DPSession option"

record BluetoothLog =
  session :: "BluetoothSession list"
  pair_event :: "PairEvent list"
  wake_event :: "WakeEvent list"
  scan_event :: "ScanEvent list"

definition empty_log :: BluetoothLog where
  "empty_log = \<lparr>session = [], pair_event = [], wake_event = [], scan_event = []\<rparr>"

section \<open>The operations\<close>

text \<open>
  The static variables, and what was written to descriptors. The environment says how messages
  are turned into bytes; a serialiser may fail.
\<close>

record metrics_sys =
  pending_log :: "BluetoothLog option"
  log_locked :: bool
  metrics_out :: "(int \<times> string) list"

record metrics_env =
  SerializeToString :: "BluetoothLog \<Rightarrow> string option"
  PrintToString :: "BluetoothLog \<Rightarrow> string"
  Base64Encode :: "string \<Rightarrow> string"
  metrics_write_ok :: bool

definition lock_log :: "metrics_sys \<Rightarrow> metrics_sys res" where
  "lock_log s = (if log_locked s then Inl Blocks else Inr (s\<lparr>log_locked := True\<rparr>))"

definition unlock_log :: "metrics_sys \<Rightarrow> metrics_sys" where
  "unlock_log s = s\<lparr>log_locked := False\<rparr>"

definition metrics_lazy_initialize :: "metrics_sys \<Rightarrow> BluetoothLog \<times> metrics_sys" where
  "metrics_lazy_initialize s =
     (case pending_log s of None \<Rightarrow> (empty_log, s\<lparr>pending_log := Some empty_log\<rparr>)
      | Some l \<Rightarrow> (l, s))"

text \<open>The frame of the four recording functions: \<open>lock_guard\<close>, \<open>lazy_initialize\<close>, a change of the log.\<close>

definition record_event :: "(BluetoothLog \<Rightarrow> BluetoothLog) \<Rightarrow> metrics_sys \<Rightarrow> metrics_sys res" where
  "record_event add s =
     rbind (lock_log s) (\<lambda>s1.
     let (l, s2) = metrics_lazy_initialize s1 in
     Inr (unlock_log (s2\<lparr>pending_log := Some (add l)\<rparr>)))"

definition pair_event_of :: "uint32_t \<Rightarrow> uint64_t \<Rightarrow> uint32_t \<Rightarrow> device_type_t \<Rightarrow> PairEvent" where
  "pair_event_of disconnect_reason timestamp_ms dev_class dev_type =
     (let type = (if dev_type = DEVICE_TYPE_DUMO then Device_DUMO
                  else if dev_type = DEVICE_TYPE_LE then Device_LE
                  else if dev_type = DEVICE_TYPE_BREDR then Device_BREDR else Device_UNKNOWN) in
      \<lparr>pair_disconnect_reason = Some disconnect_reason, pair_event_time_millis = Some timestamp_ms,
       device_paired_with = Some \<lparr>device_class = Some dev_class, device_type = Some type\<rparr>\<rparr>)"

definition metrics_pair_event ::
  "uint32_t \<Rightarrow> uint64_t \<Rightarrow> uint32_t \<Rightarrow> device_type_t \<Rightarrow> metrics_sys \<Rightarrow> metrics_sys res" where
  "metrics_pair_event disconnect_reason timestamp_ms dev_class dev_type =
     record_event (\<lambda>l. l\<lparr>pair_event := pair_event l @
       [pair_event_of disconnect_reason timestamp_ms dev_class dev_type]\<rparr>)"

definition wake_event_of :: "wake_event_type_t \<Rightarrow> string option \<Rightarrow> string option \<Rightarrow> uint64_t \<Rightarrow> WakeEvent" where
  "wake_event_of type req name timestamp_ms =
     (let waketype = (if type = WAKE_EVENT_RELEASED then Wake_RELEASED
                      else if type = WAKE_EVENT_ACQUIRED then Wake_ACQUIRED else Wake_UNKNOWN) in
      \<lparr>wake_event_type = Some waketype, requestor = map_option c_string req, wake_name = map_option c_string name,
       wake_event_time_millis = Some timestamp_ms\<rparr>)"

definition metrics_wake_event ::
  "wake_event_type_t \<Rightarrow> string option \<Rightarrow> string option \<Rightarrow> uint64_t \<Rightarrow> metrics_sys \<Rightarrow> metrics_sys res" where
  "metrics_wake_event type req name timestamp_ms =
     record_event (\<lambda>l. l\<lparr>wake_event := wake_event l @ [wake_event_of type req name timestamp_ms]\<rparr>)"

definition scan_event_of :: "bool \<Rightarrow> string option \<Rightarrow> scan_tech_t \<Rightarrow> uint32_t \<Rightarrow> uint64_t \<Rightarrow> ScanEvent" where
  "scan_event_of start initator type results timestamp_ms =
     (let scantype = (if type = SCAN_TECH_TYPE_BOTH then Scan_BOTH
                      else if type = SCAN_TECH_TYPE_BREDR then Scan_BREDR
                      else if type = SCAN_TECH_TYPE_LE then Scan_LE else Scan_UNKNOWN) in
      \<lparr>scan_event_type = Some (if start then SCAN_EVENT_START else SCAN_EVENT_STOP),
       initiator = map_option c_string initator, scan_technology_type = Some scantype,
       number_results = Some results, scan_event_time_millis = Some timestamp_ms\<rparr>)"

definition metrics_scan_event ::
  "bool \<Rightarrow> string option \<Rightarrow> scan_tech_t \<Rightarrow> uint32_t \<Rightarrow> uint64_t \<Rightarrow> metrics_sys \<Rightarrow> metrics_sys res" where
  "metrics_scan_event start initator type results timestamp_ms =
     record_event (\<lambda>l. l\<lparr>scan_event := scan_event l @ [scan_event_of start initator type results timestamp_ms]\<rparr>)"

text \<open>The seven numbers of an A2DP session, in the order of the parameters.\<close>

record a2dp_numbers =
  media_timer_min_ms :: uint32_t
  media_timer_max_ms :: uint32_t
  media_timer_avg_ms :: uint32_t
  overruns_max_count :: uint32_t
  overruns_total :: uint32_t
  underruns_average :: uint32_t
  underruns_count :: uint32_t

definition session_of :: "uint64_t \<Rightarrow> string option \<Rightarrow> uint32_t \<Rightarrow> a2dp_numbers \<Rightarrow> BluetoothSession" where
  "session_of duration_sec disconnect_reason dev_class n =
     \<lparr>session_duration_sec = Some duration_sec,
      connection_technology_type = Some CONNECTION_TECHNOLOGY_TYPE_BREDR,
      session_disconnect_reason = map_option c_string disconnect_reason,
      device_connected_to = Some \<lparr>device_class = Some dev_class, device_type = Some Device_BREDR\<rparr>,
      rfcomm_session = None,
      a2dp_session = Some \<lparr>media_timer_min_millis = Some (media_timer_min_ms n),
        media_timer_max_millis = Some (media_timer_max_ms n), media_timer_avg_millis = Some (media_timer_avg_ms n),
        buffer_overruns_max_count = Some (overruns_max_count n), buffer_overruns_total = Some (overruns_total n),
        buffer_underruns_average = Some (underruns_average n), buffer_underruns_count = Some (underruns_count n)\<rparr>\<rparr>"

definition metrics_a2dp_session ::
  "uint64_t \<Rightarrow> string option \<Rightarrow> uint32_t \<Rightarrow> a2dp_numbers \<Rightarrow> metrics_sys \<Rightarrow> metrics_sys res" where
  "metrics_a2dp_session duration_sec disconnect_reason dev_class n =
     record_event (\<lambda>l. l\<lparr>session := session l @ [session_of duration_sec disconnect_reason dev_class n]\<rparr>)"

definition write_out :: "metrics_env \<Rightarrow> int \<Rightarrow> string \<Rightarrow> metrics_sys \<Rightarrow> metrics_sys" where
  "write_out env fd bytes s = (if metrics_write_ok env then s\<lparr>metrics_out := metrics_out s @ [(fd, bytes)]\<rparr> else s)"

text \<open>The early return of \<open>metrics_write\<close> does not unlock.\<close>

definition metrics_write :: "metrics_env \<Rightarrow> int \<Rightarrow> bool \<Rightarrow> metrics_sys \<Rightarrow> metrics_sys res" where
  "metrics_write env fd clear s =
     rbind (lock_log s) (\<lambda>s1.
     let (l, s2) = metrics_lazy_initialize s1 in
     case SerializeToString env l of
       None \<Rightarrow> Inr s2
     | Some serialized \<Rightarrow>
         let s3 = (if clear then s2\<lparr>pending_log := Some empty_log\<rparr> else s2) in
         Inr (write_out env fd (Base64Encode env serialized) (unlock_log s3)))"

definition metrics_print :: "metrics_env \<Rightarrow> int \<Rightarrow> bool \<Rightarrow> metrics_sys \<Rightarrow> metrics_sys res" where
  "metrics_print env fd clear s =
     rbind (lock_log s) (\<lambda>s1.
     let (l, s2) = metrics_lazy_initialize s1;
         s3 = (if clear then s2\<lparr>pending_log := Some empty_log\<rparr> else s2) in
     Inr (write_out env fd (PrintToString env l) (unlock_log s3)))"

lemmas metrics_ops = metrics_pair_event_def metrics_wake_event_def metrics_scan_event_def metrics_a2dp_session_def
  record_event_def metrics_write_def metrics_print_def lock_log_def unlock_log_def metrics_lazy_initialize_def write_out_def

section \<open>Histories of calls\<close>

datatype metrics_call =
    PairCall uint32_t uint64_t uint32_t device_type_t
  | WakeCall wake_event_type_t "string option" "string option" uint64_t
  | ScanCall bool "string option" scan_tech_t uint32_t uint64_t
  | SessionCall uint64_t "string option" uint32_t a2dp_numbers
  | WriteCall int bool
  | PrintCall int bool

fun metrics_exec :: "metrics_env \<Rightarrow> metrics_call \<Rightarrow> metrics_sys \<Rightarrow> metrics_sys res" where
  "metrics_exec env (PairCall r t c d) = metrics_pair_event r t c d"
| "metrics_exec env (WakeCall w q n t) = metrics_wake_event w q n t"
| "metrics_exec env (ScanCall b i y k t) = metrics_scan_event b i y k t"
| "metrics_exec env (SessionCall d r c n) = metrics_a2dp_session d r c n"
| "metrics_exec env (WriteCall fd c) = metrics_write env fd c"
| "metrics_exec env (PrintCall fd c) = metrics_print env fd c"

fun metrics_run :: "metrics_env \<Rightarrow> metrics_call list \<Rightarrow> metrics_sys \<Rightarrow> metrics_sys res" where
  "metrics_run env [] s = Inr s"
| "metrics_run env (c # cs) s = rbind (metrics_exec env c s) (metrics_run env cs)"

fun clearing :: "metrics_call \<Rightarrow> bool" where
  "clearing (WriteCall fd c) = c"
| "clearing (PrintCall fd c) = c"
| "clearing _ = False"

text \<open>The calls since the log was last cleared, and what they recorded.\<close>

definition since_clear :: "metrics_call list \<Rightarrow> metrics_call list" where
  "since_clear cs = rev (takeWhile (\<lambda>c. \<not> clearing c) (rev cs))"

fun pair_of :: "metrics_call \<Rightarrow> PairEvent option" where
  "pair_of (PairCall r t c d) = Some (pair_event_of r t c d)"
| "pair_of _ = None"

fun wake_of :: "metrics_call \<Rightarrow> WakeEvent option" where
  "wake_of (WakeCall w q n t) = Some (wake_event_of w q n t)"
| "wake_of _ = None"

fun scan_of :: "metrics_call \<Rightarrow> ScanEvent option" where
  "scan_of (ScanCall b i y k t) = Some (scan_event_of b i y k t)"
| "scan_of _ = None"

fun session_call_of :: "metrics_call \<Rightarrow> BluetoothSession option" where
  "session_call_of (SessionCall d r c n) = Some (session_of d r c n)"
| "session_call_of _ = None"

definition log_of :: "metrics_call list \<Rightarrow> BluetoothLog" where
  "log_of cs = (let xs = since_clear cs in
     \<lparr>session = List.map_filter session_call_of xs, pair_event = List.map_filter pair_of xs,
      wake_event = List.map_filter wake_of xs, scan_event = List.map_filter scan_of xs\<rparr>)"

text \<open>What the last of the calls writes, when it is one that writes.\<close>

fun output_of :: "metrics_env \<Rightarrow> metrics_call list \<Rightarrow> metrics_call \<Rightarrow> (int \<times> string) list" where
  "output_of env before (WriteCall fd c) = (case SerializeToString env (log_of before) of None \<Rightarrow> []
     | Some serialized \<Rightarrow> [(fd, Base64Encode env serialized)])"
| "output_of env before (PrintCall fd c) = [(fd, PrintToString env (log_of before))]"
| "output_of env before _ = []"

text \<open>All output of a sequence of calls.\<close>

definition outputs :: "metrics_env \<Rightarrow> metrics_call list \<Rightarrow> (int \<times> string) list" where
  "outputs env cs = concat (map (\<lambda>i. output_of env (take i cs) (cs ! i)) [0..<length cs])"

lemma since_clear_Nil [simp]: "since_clear [] = []"
  by (simp add: since_clear_def)

lemma since_clear_snoc: "since_clear (cs @ [c]) = (if clearing c then [] else since_clear cs @ [c])"
  by (simp add: since_clear_def)

lemma map_filter_snoc: "List.map_filter f (xs @ [x]) = List.map_filter f xs @ (case f x of None \<Rightarrow> [] | Some y \<Rightarrow> [y])"
  by (simp add: List.map_filter_def split: option.split)

lemma log_of_Nil [simp]: "log_of [] = empty_log"
  by (simp add: log_of_def empty_log_def List.map_filter_def)

lemma outputs_snoc: "outputs env (cs @ [c]) = outputs env cs @ output_of env cs c"
proof -
  have eq: "map (\<lambda>i. output_of env (take i (cs @ [c])) ((cs @ [c]) ! i)) [0..<length cs] =
      map (\<lambda>i. output_of env (take i cs) (cs ! i)) [0..<length cs]"
    by (rule map_cong) (simp_all add: nth_append)
  show ?thesis
    unfolding outputs_def length_append_singleton upt_Suc_append [OF le0] map_append concat_append eq by simp
qed

lemma metrics_run_snoc: "metrics_run env (cs @ [c]) s = rbind (metrics_run env cs s) (metrics_exec env c)"
proof (induction cs arbitrary: s)
  case Nil
  then show ?case by (cases "metrics_exec env c s") simp_all
next
  case (Cons x xs)
  then show ?case by (cases "metrics_exec env x s") simp_all
qed

text \<open>A state whose log is that of a history; an empty log need not have been allocated yet.\<close>

definition current_log :: "metrics_sys \<Rightarrow> BluetoothLog" where
  "current_log s = (case pending_log s of None \<Rightarrow> empty_log | Some l \<Rightarrow> l)"

lemma metrics_exec_ok:
  assumes "\<not> log_locked s" and "metrics_write_ok env" and "\<And>l. SerializeToString env l \<noteq> None"
    and "current_log s = log_of cs"
  shows "\<exists>s'. metrics_exec env c s = Inr s' \<and> \<not> log_locked s' \<and> current_log s' = log_of (cs @ [c]) \<and>
    metrics_out s' = metrics_out s @ output_of env cs c"
proof -
  have log: "metrics_lazy_initialize (s\<lparr>log_locked := True\<rparr>) =
      (log_of cs, s\<lparr>log_locked := True, pending_log := Some (log_of cs)\<rparr>)"
    using assms(4) by (auto simp: metrics_lazy_initialize_def current_log_def split: option.splits)
  note run = metrics_write_def metrics_print_def record_event_def lock_log_def log Let_def
  show ?thesis
  proof (cases c)
    case (WriteCall fd cl)
    obtain bytes where "SerializeToString env (log_of cs) = Some bytes" using assms(3) by blast
    then show ?thesis using assms(1,2) WriteCall
      by (auto simp: run unlock_log_def write_out_def current_log_def log_of_def since_clear_snoc empty_log_def map_filter_snoc
          List.map_filter_def)
  qed (use assms(1,2) in \<open>auto simp: run metrics_pair_event_def metrics_wake_event_def metrics_scan_event_def
      metrics_a2dp_session_def unlock_log_def write_out_def current_log_def log_of_def since_clear_snoc empty_log_def
      map_filter_snoc List.map_filter_simps\<close>)
qed

text \<open>While the mutex is locked nothing returns, and a failing serialiser leaves it locked.\<close>

lemma locked_blocks: "log_locked s \<Longrightarrow> metrics_exec env c s = Inl Blocks"
  by (cases c) (simp_all add: metrics_ops)

lemma metrics_write_keeps_lock:
  assumes "\<not> log_locked s" and "SerializeToString env (current_log s) = None"
  shows "\<exists>s'. metrics_write env fd clear s = Inr s' \<and> log_locked s' \<and> metrics_out s' = metrics_out s \<and>
    current_log s' = current_log s"
  using assms
  by (auto simp: metrics_write_def lock_log_def metrics_lazy_initialize_def current_log_def split: option.split_asm)

definition start_metrics :: metrics_sys where
  "start_metrics = \<lparr>pending_log = None, log_locked = False, metrics_out = []\<rparr>"

section \<open>Properties\<close>

text \<open>
  C16. The log is the history: with a serialiser and descriptors that work, every sequence of
  calls returns with the mutex free, the log holds exactly the events recorded since it was last
  cleared, each kind in the order of the calls, and each write or print put out the log as it
  was before that call, so that nothing is lost or reported twice over.
\<close>

theorem metrics_log_history:
  assumes "metrics_write_ok env" and "\<And>l. SerializeToString env l \<noteq> None"
  shows "\<exists>s. metrics_run env cs start_metrics = Inr s \<and> \<not> log_locked s \<and> current_log s = log_of cs \<and>
    metrics_out s = outputs env cs"
proof (induction cs rule: rev_induct)
  case Nil
  then show ?case by (simp add: start_metrics_def current_log_def outputs_def)
next
  case (snoc c cs)
  then obtain s where s: "metrics_run env cs start_metrics = Inr s" "\<not> log_locked s" "current_log s = log_of cs"
    "metrics_out s = outputs env cs" by blast
  from metrics_exec_ok [OF s(2) assms s(3), of c] s(1,4) show ?case
    by (auto simp: metrics_run_snoc outputs_snoc)
qed

definition demo_metrics_env :: metrics_env where
  "demo_metrics_env = \<lparr>SerializeToString = (\<lambda>l. Some (if wake_event l = [] then [] else ''w'')), PrintToString = (\<lambda>l. []),
     Base64Encode = (\<lambda>t. t), metrics_write_ok = True\<rparr>"

theorem metrics_log_history_witness:
  "\<exists>s. metrics_run demo_metrics_env [WakeCall WAKE_EVENT_ACQUIRED None None 5, WriteCall 3 True, WriteCall 4 True] start_metrics = Inr s \<and>
    current_log s = empty_log \<and> metrics_out s = [(3, ''w''), (4, [])]"
  using metrics_log_history [of demo_metrics_env "[WakeCall WAKE_EVENT_ACQUIRED None None 5, WriteCall 3 True, WriteCall 4 True]"]
  by (auto simp: demo_metrics_env_def log_of_def since_clear_def List.map_filter_def empty_log_def outputs_def upt_rec)

text \<open>
  A failing serialiser: when the message cannot be serialised, \<open>metrics_write\<close> returns with the
  mutex locked, having written nothing; every later call of any function of the module then waits
  for ever.
\<close>

theorem metrics_write_deadlock:
  assumes "\<not> log_locked s" and "SerializeToString env (current_log s) = None"
  shows "\<exists>s'. metrics_write env fd clear s = Inr s' \<and> metrics_out s' = metrics_out s \<and>
    current_log s' = current_log s \<and> (\<forall>env' c. metrics_exec env' c s' = Inl Blocks)"
  using metrics_write_keeps_lock [OF assms, of fd clear] locked_blocks by blast

theorem metrics_write_deadlock_witness:
  "\<exists>s'. metrics_write (demo_metrics_env\<lparr>SerializeToString := \<lambda>_. None\<rparr>) 3 True start_metrics = Inr s' \<and>
    metrics_print demo_metrics_env 3 False s' = Inl Blocks"
proof -
  have "SerializeToString (demo_metrics_env\<lparr>SerializeToString := \<lambda>_. None\<rparr>) (current_log start_metrics) = None" by simp
  then obtain s' where "metrics_write (demo_metrics_env\<lparr>SerializeToString := \<lambda>_. None\<rparr>) 3 True start_metrics = Inr s'"
    "\<forall>env' c. metrics_exec env' c s' = Inl Blocks"
    using metrics_write_deadlock [of start_metrics "demo_metrics_env\<lparr>SerializeToString := \<lambda>_. None\<rparr>" 3 True]
    by (auto simp: start_metrics_def)
  moreover from this(2) have "metrics_exec demo_metrics_env (PrintCall 3 False) s' = Inl Blocks" by blast
  ultimately show ?thesis by simp
qed

end
