(* ===== verification/Wakelock.thy ===== *)
theory Wakelock
  imports Metrics
begin

text \<open>
  The wake lock of \<open>src/wakelock.c\<close>: acquiring and releasing it through the kernel's files or
  through callouts of the operating system, and the statistics of the intervals during which
  it was held, which also go to the metrics (\<open>Metrics\<close>). The static variables of the file are one record. What the system answers (the
  clock, \<open>open\<close>, \<open>write\<close>, the callouts) is given to each call. The theory shows that the statistics
  are those of the sequence of acquire and release events, and what happens when the system
  refuses.
\<close>

section \<open>The state\<close>

datatype bt_status_t = BT_STATUS_SUCCESS | BT_STATUS_FAIL | BT_STATUS_PARM_INVALID

text \<open>\<open>wake_lock_path\<close> and \<open>wake_unlock_path\<close>: null, the default string, or a copy made by the module.\<close>

datatype wl_path = PathNull | PathDefault | PathOwn string

record wakelock_stats_t =
  is_acquired :: bool
  acquired_count :: size_t
  released_count :: size_t
  acquired_errors :: size_t
  released_errors :: size_t
  min_acquired_interval_ms :: uint64_t
  max_acquired_interval_ms :: uint64_t
  last_acquired_interval_ms :: uint64_t
  total_acquired_interval_ms :: uint64_t
  last_acquired_timestamp_ms :: uint64_t
  last_released_timestamp_ms :: uint64_t
  last_reset_timestamp_ms :: uint64_t

record wakelock_sys =
  is_native :: bool
  wake_lock_path :: wl_path
  wake_unlock_path :: wl_path
  wake_lock_fd :: bool      \<comment> \<open>whether the descriptor is valid\<close>
  wake_unlock_fd :: bool
  locked_id_len :: int
  initialized :: bool
  wl_stats :: wakelock_stats_t
  wl_metrics :: metrics_sys \<comment> \<open>the metrics module\<close>
  open_fds :: nat           \<comment> \<open>descriptors opened and not closed\<close>

text \<open>
  The answers of the system during one call. \<open>write_answer n\<close> is what \<open>write\<close> of \<open>n\<close> bytes answers:
  \<open>- 1\<close> for an error, else the number of bytes written.
\<close>

record wakelock_env =
  wl_reset_now :: uint64_t  \<comment> \<open>the clock read by \<open>reset_wakelock_stats\<close>\<close>
  wl_now :: uint64_t        \<comment> \<open>the clock read by the update of the statistics\<close>
  open_lock_ok :: bool
  open_unlock_ok :: bool
  write_answer :: "int \<Rightarrow> int"
  callout_status :: bt_status_t

section \<open>Statistics\<close>

definition WAKE_LOCK_ID :: string where
  "WAKE_LOCK_ID = ''bluetooth_timer''"

definition reset_wakelock_stats :: "uint64_t \<Rightarrow> wakelock_stats_t" where
  "reset_wakelock_stats t =
     \<lparr>is_acquired = False, acquired_count = 0, released_count = 0, acquired_errors = 0, released_errors = 0,
      min_acquired_interval_ms = 0, max_acquired_interval_ms = 0, last_acquired_interval_ms = 0,
      total_acquired_interval_ms = 0, last_acquired_timestamp_ms = 0, last_released_timestamp_ms = 0,
      last_reset_timestamp_ms = t\<rparr>"

definition update_wakelock_acquired_stats :: "uint64_t \<Rightarrow> bt_status_t \<Rightarrow> wakelock_stats_t \<Rightarrow> metrics_sys \<Rightarrow> (wakelock_stats_t \<times> metrics_sys) res" where
  "update_wakelock_acquired_stats now_ms acquired_status st m =
     (let st1 = (if acquired_status \<noteq> BT_STATUS_SUCCESS then st\<lparr>acquired_errors := acquired_errors st + 1\<rparr> else st) in
      if is_acquired st1 then Inr (st1, m)
      else
        let st2 = st1\<lparr>is_acquired := True, acquired_count := acquired_count st1 + 1, last_acquired_timestamp_ms := now_ms\<rparr> in
        rbind (metrics_wake_event WAKE_EVENT_ACQUIRED None (Some WAKE_LOCK_ID) now_ms m) (\<lambda>m1. Inr (st2, m1)))"

definition update_wakelock_released_stats :: "uint64_t \<Rightarrow> bt_status_t \<Rightarrow> wakelock_stats_t \<Rightarrow> metrics_sys \<Rightarrow> (wakelock_stats_t \<times> metrics_sys) res" where
  "update_wakelock_released_stats now_ms released_status st m =
     (let st1 = (if released_status \<noteq> BT_STATUS_SUCCESS then st\<lparr>released_errors := released_errors st + 1\<rparr> else st) in
      if \<not> is_acquired st1 then Inr (st1, m)
      else
        let delta_ms = now_ms - last_acquired_timestamp_ms st1; count = released_count st1 + 1;
            st2 = st1\<lparr>is_acquired := False, released_count := count, last_released_timestamp_ms := now_ms,
            min_acquired_interval_ms :=
              (if delta_ms < min_acquired_interval_ms st1 \<or> count = 1 then delta_ms else min_acquired_interval_ms st1),
            max_acquired_interval_ms :=
              (if delta_ms > max_acquired_interval_ms st1 then delta_ms else max_acquired_interval_ms st1),
            last_acquired_interval_ms := delta_ms,
            total_acquired_interval_ms := total_acquired_interval_ms st1 + delta_ms\<rparr> in
        rbind (metrics_wake_event WAKE_EVENT_RELEASED None (Some WAKE_LOCK_ID) now_ms m) (\<lambda>m1. Inr (st2, m1)))"

text \<open>The times \<open>wakelock_debug_dump\<close> prints: last, minimum, maximum, average, total, and run time.\<close>

definition wakelock_debug_dump ::
  "uint64_t \<Rightarrow> wakelock_stats_t \<Rightarrow> uint64_t \<times> uint64_t \<times> uint64_t \<times> uint64_t \<times> uint64_t \<times> uint64_t" where
  "wakelock_debug_dump now_ms st =
     (let delta_ms = (if is_acquired st then now_ms - last_acquired_timestamp_ms st else 0);
          max_interval = (if is_acquired st \<and> delta_ms > max_acquired_interval_ms st then delta_ms
                          else max_acquired_interval_ms st);
          min_interval = (if is_acquired st \<and> delta_ms < min_acquired_interval_ms st then delta_ms
                          else min_acquired_interval_ms st);
          last_interval = (if is_acquired st then delta_ms else last_acquired_interval_ms st);
          total_interval = total_acquired_interval_ms st + delta_ms;
          ave_interval = (if acquired_count st > 0 then total_interval div acquired_count st else 0) in
      (last_interval, min_interval, max_interval, ave_interval, total_interval, now_ms - last_reset_timestamp_ms st))"

section \<open>The operations\<close>

definition wakelock_set_os_callouts :: "bool \<Rightarrow> wakelock_sys \<Rightarrow> wakelock_sys" where
  "wakelock_set_os_callouts callouts_given s = s\<lparr>is_native := \<not> callouts_given\<rparr>"

definition default_path :: "wl_path \<Rightarrow> wl_path" where
  "default_path p = (if p = PathNull then PathDefault else p)"

definition wakelock_initialize_native :: "wakelock_env \<Rightarrow> wakelock_sys \<Rightarrow> wakelock_sys" where
  "wakelock_initialize_native env s =
     s\<lparr>wake_lock_path := default_path (wake_lock_path s), wake_unlock_path := default_path (wake_unlock_path s),
       wake_lock_fd := open_lock_ok env, wake_unlock_fd := open_unlock_ok env,
       open_fds := open_fds s + (if open_lock_ok env then 1 else 0) + (if open_unlock_ok env then 1 else 0)\<rparr>"

definition wakelock_initialize :: "wakelock_env \<Rightarrow> wakelock_sys \<Rightarrow> wakelock_sys" where
  "wakelock_initialize env s =
     (let s1 = s\<lparr>wl_stats := reset_wakelock_stats (wl_reset_now env)\<rparr> in
      if is_native s1 then wakelock_initialize_native env s1 else s1)"

text \<open>\<open>pthread_once(&initialized, wakelock_initialize)\<close>\<close>

definition once_initialize :: "wakelock_env \<Rightarrow> wakelock_sys \<Rightarrow> wakelock_sys" where
  "once_initialize env s = (if initialized s then s else (wakelock_initialize env s)\<lparr>initialized := True\<rparr>)"

definition wakelock_acquire_native :: "wakelock_env \<Rightarrow> wakelock_sys \<Rightarrow> bt_status_t \<times> wakelock_sys" where
  "wakelock_acquire_native env s =
     (if \<not> wake_lock_fd s then (BT_STATUS_PARM_INVALID, s)
      else if \<not> wake_unlock_fd s then (BT_STATUS_PARM_INVALID, s)
      else let n = write_answer env (int (length WAKE_LOCK_ID)); s1 = s\<lparr>locked_id_len := n\<rparr> in
        if n = - 1 then (BT_STATUS_FAIL, s1) else (BT_STATUS_SUCCESS, s1))"

text \<open>The callouts into the operating system; what they answer is part of the environment.\<close>

definition wakelock_acquire_callout :: "wakelock_env \<Rightarrow> bt_status_t" where
  "wakelock_acquire_callout env = callout_status env"

definition wakelock_release_callout :: "wakelock_env \<Rightarrow> bt_status_t" where
  "wakelock_release_callout env = callout_status env"

lemmas callout_defs [simp] = wakelock_acquire_callout_def wakelock_release_callout_def

definition wakelock_acquire :: "wakelock_env \<Rightarrow> wakelock_sys \<Rightarrow> (bool \<times> wakelock_sys) res" where
  "wakelock_acquire env s0 =
     (let s = once_initialize env s0;
          (status, s1) = (if is_native s then wakelock_acquire_native env s else (wakelock_acquire_callout env, s)) in
      rbind (update_wakelock_acquired_stats (wl_now env) status (wl_stats s1) (wl_metrics s1)) (\<lambda>(st, m).
      Inr (status = BT_STATUS_SUCCESS, s1\<lparr>wl_stats := st, wl_metrics := m\<rparr>)))"

text \<open>Whatever the write to the unlock file answers, the status is success.\<close>

definition wakelock_release_native :: "wakelock_env \<Rightarrow> wakelock_sys \<Rightarrow> bt_status_t \<times> wakelock_sys" where
  "wakelock_release_native env s =
     (if \<not> wake_unlock_fd s then (BT_STATUS_PARM_INVALID, s) else (BT_STATUS_SUCCESS, s))"

definition wakelock_release :: "wakelock_env \<Rightarrow> wakelock_sys \<Rightarrow> (bool \<times> wakelock_sys) res" where
  "wakelock_release env s0 =
     (let s = once_initialize env s0;
          (status, s1) = (if is_native s then wakelock_release_native env s else (wakelock_release_callout env, s)) in
      rbind (update_wakelock_released_stats (wl_now env) status (wl_stats s1) (wl_metrics s1)) (\<lambda>(st, m).
      Inr (status = BT_STATUS_SUCCESS, s1\<lparr>wl_stats := st, wl_metrics := m\<rparr>)))"

definition reset_own_path :: "wl_path \<Rightarrow> wl_path" where
  "reset_own_path p = (case p of PathOwn _ \<Rightarrow> PathNull | _ \<Rightarrow> p)"

definition wakelock_cleanup :: "wakelock_sys \<Rightarrow> wakelock_sys" where
  "wakelock_cleanup s =
     s\<lparr>wake_lock_path := reset_own_path (wake_lock_path s),
       wake_unlock_path := reset_own_path (wake_unlock_path s), initialized := False\<rparr>"

text \<open>\<open>PATH_MAX\<close> is 4096 on Linux; \<open>osi_strndup\<close> keeps at most that many characters.\<close>

definition wakelock_set_paths :: "string option \<Rightarrow> string option \<Rightarrow> wakelock_sys \<Rightarrow> wakelock_sys" where
  "wakelock_set_paths lock_path unlock_path s =
     s\<lparr>wake_lock_path := (case lock_path of None \<Rightarrow> wake_lock_path s | Some p \<Rightarrow> PathOwn (take 4096 p)),
       wake_unlock_path := (case unlock_path of None \<Rightarrow> wake_unlock_path s | Some p \<Rightarrow> PathOwn (take 4096 p))\<rparr>"

section \<open>Statistics of a sequence of events\<close>

datatype wl_event = Acquired uint64_t bt_status_t | Released uint64_t bt_status_t

fun wl_update :: "wl_event \<Rightarrow> wakelock_stats_t \<Rightarrow> metrics_sys \<Rightarrow> (wakelock_stats_t \<times> metrics_sys) res" where
  "wl_update (Acquired t st) = update_wakelock_acquired_stats t st"
| "wl_update (Released t st) = update_wakelock_released_stats t st"

fun wl_updates :: "wl_event list \<Rightarrow> wakelock_stats_t \<Rightarrow> metrics_sys \<Rightarrow> (wakelock_stats_t \<times> metrics_sys) res" where
  "wl_updates [] st m = Inr (st, m)"
| "wl_updates (e # es) st m = rbind (wl_update e st m) (\<lambda>(st1, m1). wl_updates es st1 m1)"

text \<open>
  The abstract account: the spells completed so far, in order, each with its start and its end, and
  the start of the current one. An acquire notification starts a spell whatever its status: the
  code counts a refused acquisition as one. A second acquire and a release without acquire
  start and end nothing.
\<close>

type_synonym wl_account = "(uint64_t \<times> uint64_t) list \<times> uint64_t option"

fun wl_step :: "wl_event \<Rightarrow> wl_account \<Rightarrow> wl_account" where
  "wl_step (Acquired t _) (spells, None) = (spells, Some t)"
| "wl_step (Acquired t _) (spells, Some t0) = (spells, Some t0)"
| "wl_step (Released t _) (spells, None) = (spells, None)"
| "wl_step (Released t _) (spells, Some t0) = (spells @ [(t0, t)], None)"

text \<open>The notifications that report a failure, whether they start or end a spell or not.\<close>

fun acquire_refused :: "wl_event \<Rightarrow> bool" where
  "acquire_refused (Acquired _ status) = (status \<noteq> BT_STATUS_SUCCESS)"
| "acquire_refused (Released _ _) = False"

fun release_refused :: "wl_event \<Rightarrow> bool" where
  "release_refused (Acquired _ _) = False"
| "release_refused (Released _ status) = (status \<noteq> BT_STATUS_SUCCESS)"

text \<open>The events the metrics get: one for every change of the account, in order.\<close>

fun wl_wake :: "wl_event \<Rightarrow> wl_account \<Rightarrow> WakeEvent list" where
  "wl_wake (Acquired t _) (ds, None) = [wake_event_of WAKE_EVENT_ACQUIRED None (Some WAKE_LOCK_ID) t]"
| "wl_wake (Released t _) (ds, Some t0) = [wake_event_of WAKE_EVENT_RELEASED None (Some WAKE_LOCK_ID) t]"
| "wl_wake _ _ = []"

fun wl_wakes :: "wl_event list \<Rightarrow> wl_account \<Rightarrow> WakeEvent list" where
  "wl_wakes [] acc = []"
| "wl_wakes (e # es) acc = wl_wake e acc @ wl_wakes es (wl_step e acc)"

text \<open>
  The statistics of an account, every field of them: \<open>reset_ms\<close> is the time of the last reset, \<open>ae\<close>
  and \<open>re\<close> the numbers of refused acquisitions and releases.
\<close>

definition stats_of :: "uint64_t \<Rightarrow> nat \<Rightarrow> nat \<Rightarrow> wl_account \<Rightarrow> wakelock_stats_t" where
  "stats_of reset_ms ae re acc = (case acc of (spells, start) \<Rightarrow>
     let ds = map (\<lambda>(t0, t). t - t0) spells in
     \<lparr>is_acquired = (start \<noteq> None),
      acquired_count = word_of_nat (length spells + (if start = None then 0 else 1)),
      released_count = word_of_nat (length spells),
      acquired_errors = word_of_nat ae, released_errors = word_of_nat re,
      min_acquired_interval_ms = (if ds = [] then 0 else Min (set ds)),
      max_acquired_interval_ms = Max (insert 0 (set ds)),
      last_acquired_interval_ms = (if ds = [] then 0 else last ds),
      total_acquired_interval_ms = sum_list ds,
      last_acquired_timestamp_ms =
        (case start of Some t \<Rightarrow> t | None \<Rightarrow> if spells = [] then 0 else fst (last spells)),
      last_released_timestamp_ms = (if spells = [] then 0 else snd (last spells)),
      last_reset_timestamp_ms = reset_ms\<rparr>)"

lemma stats_reset: "reset_wakelock_stats t = stats_of t 0 0 ([], None)"
  by (simp add: stats_of_def reset_wakelock_stats_def)

lemma released_first:
  assumes "length ds < 18446744073709551615"
  shows "word_of_nat (length ds) + 1 = (1 :: size_t) \<longleftrightarrow> ds = []"
proof -
  have "word_of_nat (length ds) + 1 = (1 :: size_t) \<longleftrightarrow> (word_of_nat (length ds) :: size_t) = 0" by simp
  also have "\<dots> \<longleftrightarrow> unat (word_of_nat (length ds) :: size_t) = 0" by (simp add: unat_eq_zero)
  also have "\<dots> \<longleftrightarrow> ds = []" using assms by (simp add: unat_word_of_nat_id)
  finally show ?thesis .
qed

text \<open>One wake event in the metrics; nothing else of the log changes.\<close>

definition adds_wakes :: "WakeEvent list \<Rightarrow> metrics_sys \<Rightarrow> metrics_sys \<Rightarrow> bool" where
  "adds_wakes ws m m' \<longleftrightarrow> \<not> log_locked m' \<and> metrics_out m' = metrics_out m \<and>
     current_log m' = (current_log m)\<lparr>wake_event := wake_event (current_log m) @ ws\<rparr>"

lemma adds_wakes_Nil: "\<not> log_locked m \<Longrightarrow> adds_wakes [] m m"
  by (simp add: adds_wakes_def)

lemma adds_wakes_trans: "adds_wakes xs m1 m2 \<Longrightarrow> adds_wakes ys m2 m3 \<Longrightarrow> adds_wakes (xs @ ys) m1 m3"
  by (simp add: adds_wakes_def)

lemma metrics_wake_event_ok:
  "\<not> log_locked m \<Longrightarrow> \<exists>m'. metrics_wake_event type req name t m = Inr m' \<and> adds_wakes [wake_event_of type req name t] m m'"
  by (auto simp: metrics_ops adds_wakes_def current_log_def empty_log_def Let_def split: option.split)

lemma account_acquire:
  assumes "\<not> log_locked m"
  shows "\<exists>m'. update_wakelock_acquired_stats t status (stats_of r ae re acc) m =
      Inr (stats_of r (if acquire_refused (Acquired t status) then Suc ae else ae) re (wl_step (Acquired t status) acc), m') \<and>
    adds_wakes (wl_wake (Acquired t status) acc) m m'"
proof -
  obtain spells start where acc: "acc = (spells, start)" by (cases acc)
  obtain m' where "metrics_wake_event WAKE_EVENT_ACQUIRED None (Some WAKE_LOCK_ID) t m = Inr m'"
    "adds_wakes [wake_event_of WAKE_EVENT_ACQUIRED None (Some WAKE_LOCK_ID) t] m m'"
    using metrics_wake_event_ok [OF assms] by blast
  then show ?thesis using assms adds_wakes_Nil [OF assms]
    by (cases start) (auto simp: acc stats_of_def update_wakelock_acquired_stats_def Let_def add.commute)
qed

lemma Min_snoc: "Min (set (ds @ [d])) = (if ds = [] then d else if d < Min (set ds) then d else Min (set ds))"
proof (cases "ds = []")
  case False
  have "Min (set (ds @ [d])) = Min (insert d (set ds))" by simp
  also have "\<dots> = min d (Min (set ds))" using False by (intro Min_insert) simp_all
  finally show ?thesis using False by (simp only: min_def if_False) (metis not_less order.order_iff_strict)
qed simp

lemma Max_snoc: "Max (insert 0 (set (ds @ [d]))) = (if d > Max (insert 0 (set ds)) then d else Max (insert 0 (set ds)))"
proof -
  have eq: "insert 0 (set (ds @ [d])) = insert d (insert 0 (set ds))" by auto
  have "Max (insert d (insert 0 (set ds))) = max d (Max (insert 0 (set ds)))" by (intro Max_insert) simp_all
  then show ?thesis unfolding eq by (simp only: max_def) (metis not_less)
qed

lemma account_release:
  assumes len: "length (fst acc) < 18446744073709551615" and free: "\<not> log_locked m"
  shows "\<exists>m'. update_wakelock_released_stats t status (stats_of r ae re acc) m =
      Inr (stats_of r ae (if release_refused (Released t status) then Suc re else re) (wl_step (Released t status) acc), m') \<and>
    adds_wakes (wl_wake (Released t status) acc) m m'"
proof -
  obtain spells start where acc: "acc = (spells, start)" by (cases acc)
  obtain m' where m': "metrics_wake_event WAKE_EVENT_RELEASED None (Some WAKE_LOCK_ID) t m = Inr m'"
    "adds_wakes [wake_event_of WAKE_EVENT_RELEASED None (Some WAKE_LOCK_ID) t] m m'"
    using metrics_wake_event_ok [OF free] by blast
  show ?thesis
  proof (cases start)
    case None
    then show ?thesis using acc adds_wakes_Nil [OF free]
      by (auto simp: stats_of_def update_wakelock_released_stats_def Let_def add.commute)
  next
    case (Some t0)
    let ?st = "stats_of r ae re acc" and ?d = "t - t0" and ?ds = "map (\<lambda>(t0, t). t - t0) spells"
    have first: "word_of_nat (length spells) + 1 = (1 :: size_t) \<longleftrightarrow> spells = []"
      using released_first len acc by simp
    have mn: "(if ?d < min_acquired_interval_ms ?st \<or> released_count ?st + 1 = 1 then ?d else min_acquired_interval_ms ?st) =
        Min (set (?ds @ [?d]))"
      using acc first unfolding Min_snoc by (auto simp: stats_of_def Let_def)
    have mx: "(if ?d > max_acquired_interval_ms ?st then ?d else max_acquired_interval_ms ?st) =
        Max (insert 0 (set (?ds @ [?d])))"
      using acc unfolding Max_snoc by (simp add: stats_of_def Let_def)
    have t0: "last_acquired_timestamp_ms ?st = t0" "is_acquired ?st" using acc Some by (simp_all add: stats_of_def Let_def)
    let ?st1 = "if status \<noteq> BT_STATUS_SUCCESS then ?st\<lparr>released_errors := released_errors ?st + 1\<rparr> else ?st"
    have run: "update_wakelock_released_stats t status ?st m = Inr
        (?st1\<lparr>is_acquired := False, released_count := released_count ?st + 1, last_released_timestamp_ms := t,
          min_acquired_interval_ms := Min (set (?ds @ [?d])),
          max_acquired_interval_ms := Max (insert 0 (set (?ds @ [?d]))),
          last_acquired_interval_ms := ?d, total_acquired_interval_ms := total_acquired_interval_ms ?st + ?d\<rparr>, m')"
      unfolding mn [symmetric] mx [symmetric] using t0 m'(1) by (simp add: update_wakelock_released_stats_def Let_def)
    show ?thesis
      unfolding run using acc Some m'(2) by (simp add: stats_of_def Let_def add.commute)
  qed
qed

lemma account_event:
  assumes "length (fst acc) < 18446744073709551615" and "\<not> log_locked m"
  shows "\<exists>m'. wl_update e (stats_of r ae re acc) m =
      Inr (stats_of r (ae + length (filter acquire_refused [e])) (re + length (filter release_refused [e]))
        (wl_step e acc), m') \<and>
    adds_wakes (wl_wake e acc) m m'"
proof (cases e)
  case (Acquired t status)
  with account_acquire [OF assms(2), of t status r ae re acc] show ?thesis by (cases "acquire_refused e") auto
next
  case (Released t status)
  with account_release [OF assms, of t status r ae re] show ?thesis by (cases "release_refused e") auto
qed

lemma wl_step_length: "length (fst (wl_step e acc)) \<le> Suc (length (fst acc))"
  by (induction e acc rule: wl_step.induct) simp_all

lemma wl_events_account:
  assumes "length (fst acc) + length es < 18446744073709551615" and "\<not> log_locked m"
  shows "\<exists>m'. wl_updates es (stats_of r ae re acc) m =
      Inr (stats_of r (ae + length (filter acquire_refused es)) (re + length (filter release_refused es))
        (fold wl_step es acc), m') \<and>
    adds_wakes (wl_wakes es acc) m m'"
  using assms
proof (induction es arbitrary: ae re acc m)
  case Nil
  then show ?case by (simp add: adds_wakes_Nil)
next
  case (Cons e es)
  obtain m1 where e: "wl_update e (stats_of r ae re acc) m =
      Inr (stats_of r (ae + length (filter acquire_refused [e])) (re + length (filter release_refused [e])) (wl_step e acc), m1)"
    and w: "adds_wakes (wl_wake e acc) m m1"
    using account_event [of acc m e r ae re] Cons.prems by auto
  have free: "\<not> log_locked m1" using w by (simp add: adds_wakes_def)
  have len: "length (fst (wl_step e acc)) + length es < 18446744073709551615"
    using Cons.prems(1) wl_step_length [of e acc] by simp
  obtain m' where "wl_updates es (stats_of r (ae + length (filter acquire_refused [e]))
        (re + length (filter release_refused [e])) (wl_step e acc)) m1 =
      Inr (stats_of r (ae + length (filter acquire_refused [e]) + length (filter acquire_refused es))
        (re + length (filter release_refused [e]) + length (filter release_refused es)) (fold wl_step es (wl_step e acc)), m')"
    "adds_wakes (wl_wakes es (wl_step e acc)) m1 m'"
    using Cons.IH [OF len free] by blast
  then show ?case using e adds_wakes_trans [OF w] by auto
qed

section \<open>Properties\<close>

text \<open>
  C40. The statistics are the exact account of the notifications: after any sequence of acquire and
  release notifications since the last reset, with the mutex of the metrics free, every field is
  determined. The counts, the minimum, maximum, last and total interval and the two time stamps
  are those of the spells between an effective acquire and the next release (repeated acquires
  and unmatched releases start and end nothing); the error counters count the notifications that
  report a failure; and a refused acquisition starts a spell all the same, as the code has it.
  The log of the metrics has got one wake event for each effective acquire and release, in
  order, and nothing else.
\<close>

theorem wakelock_stats_account:
  assumes "length es < 18446744073709551615" and "\<not> log_locked m"
  shows "\<exists>m'. wl_updates es (reset_wakelock_stats t) m =
      Inr (stats_of t (length (filter acquire_refused es)) (length (filter release_refused es))
             (fold wl_step es ([], None)), m') \<and>
    adds_wakes (wl_wakes es ([], None)) m m'"
  using wl_events_account [of "([], None)" es m t 0 0] assms by (simp add: stats_reset)

definition demo_events :: "wl_event list" where
  "demo_events = [Acquired 10 BT_STATUS_SUCCESS, Acquired 11 BT_STATUS_FAIL, Released 30 BT_STATUS_PARM_INVALID]"

theorem wakelock_stats_account_witness:
  "\<exists>st' m'. wl_updates demo_events (reset_wakelock_stats 5) start_metrics = Inr (st', m') \<and>
     acquired_count st' = 1 \<and> released_count st' = 1 \<and> acquired_errors st' = 1 \<and> released_errors st' = 1 \<and>
     last_acquired_timestamp_ms st' = 10 \<and> last_released_timestamp_ms st' = 30 \<and>
     total_acquired_interval_ms st' = 20 \<and> last_reset_timestamp_ms st' = 5 \<and>
     map wake_event_time_millis (wake_event (current_log m')) = [Some 10, Some 30]"
proof -
  obtain m' where "wl_updates demo_events (reset_wakelock_stats 5) start_metrics =
      Inr (stats_of 5 1 1 ([(10, 30)], None), m')"
    "adds_wakes (wl_wakes demo_events ([], None)) start_metrics m'"
    using wakelock_stats_account [of demo_events start_metrics 5]
    by (auto simp: start_metrics_def demo_events_def simp del: wl_updates.simps)
  then show ?thesis
    by (auto simp: adds_wakes_def wake_event_of_def start_metrics_def current_log_def empty_log_def
        stats_of_def demo_events_def simp del: wl_updates.simps)
qed

text \<open>
  Acquiring: while the mutex of the metrics is free, \<open>wakelock_acquire\<close> returns; it answers true
  exactly when the system granted the lock (both files open and the write accepted, or the
  callout successful), and the module is initialised afterwards. A refused acquire counts as an
  error, but the statistics and the metrics still show the lock as held and start an interval.
\<close>

theorem wakelock_acquire_outcome:
  assumes "initialized s" and "\<not> is_acquired (wl_stats s)" and "\<not> log_locked (wl_metrics s)"
  shows "\<exists>granted s'. wakelock_acquire env s = Inr (granted, s') \<and>
    granted = (if is_native s then wake_lock_fd s \<and> wake_unlock_fd s \<and> write_answer env (int (length WAKE_LOCK_ID)) \<noteq> - 1
       else callout_status env = BT_STATUS_SUCCESS) \<and>
    initialized s' \<and> is_acquired (wl_stats s') \<and> acquired_count (wl_stats s') = acquired_count (wl_stats s) + 1 \<and>
    acquired_errors (wl_stats s') = acquired_errors (wl_stats s) + (if granted then 0 else 1) \<and>
    adds_wakes [wake_event_of WAKE_EVENT_ACQUIRED None (Some WAKE_LOCK_ID) (wl_now env)] (wl_metrics s) (wl_metrics s')"
proof -
  obtain m' where "metrics_wake_event WAKE_EVENT_ACQUIRED None (Some WAKE_LOCK_ID) (wl_now env) (wl_metrics s) = Inr m'"
    "adds_wakes [wake_event_of WAKE_EVENT_ACQUIRED None (Some WAKE_LOCK_ID) (wl_now env)] (wl_metrics s) m'"
    using metrics_wake_event_ok [OF assms(3)] by blast
  then show ?thesis using assms(1,2)
    by (auto simp: wakelock_acquire_def once_initialize_def wakelock_acquire_native_def
        update_wakelock_acquired_stats_def Let_def)
qed

definition demo_wakelock :: wakelock_sys where
  "demo_wakelock = \<lparr>is_native = True, wake_lock_path = PathDefault, wake_unlock_path = PathDefault,
     wake_lock_fd = False, wake_unlock_fd = True, locked_id_len = - 1, initialized = True,
     wl_stats = reset_wakelock_stats 0, wl_metrics = start_metrics, open_fds = 1\<rparr>"

definition demo_wl_env :: wakelock_env where
  "demo_wl_env = \<lparr>wl_reset_now = 6, wl_now = 7, open_lock_ok = True, open_unlock_ok = True, write_answer = (\<lambda>n. n),
     callout_status = BT_STATUS_SUCCESS\<rparr>"

theorem wakelock_acquire_outcome_witness:
  "\<exists>s'. wakelock_acquire demo_wl_env demo_wakelock = Inr (False, s') \<and> is_acquired (wl_stats s')"
  using wakelock_acquire_outcome [of demo_wakelock demo_wl_env]
  by (auto simp: demo_wakelock_def reset_wakelock_stats_def start_metrics_def)

text \<open>
  Cleaning up forgets the descriptors without closing them: after \<open>wakelock_cleanup\<close> the next
  native acquire that returns has opened both files again, and the process holds two
  descriptors more than before.
\<close>

theorem wakelock_cleanup_leaks:
  assumes "is_native s" and "open_lock_ok env" and "open_unlock_ok env"
    and "wakelock_acquire env (wakelock_cleanup s) = Inr (r, s')"
  shows "open_fds s' = open_fds s + 2"
  using assms
  by (auto simp: wakelock_cleanup_def wakelock_acquire_def once_initialize_def wakelock_initialize_def
      wakelock_initialize_native_def wakelock_acquire_native_def Let_def split: if_splits prod.splits)

theorem wakelock_cleanup_leaks_witness:
  "\<exists>r s'. wakelock_acquire demo_wl_env (wakelock_cleanup demo_wakelock) = Inr (r, s') \<and> open_fds s' = 3"
proof -
  obtain r s' where run: "wakelock_acquire demo_wl_env (wakelock_cleanup demo_wakelock) = Inr (r, s')"
    by (auto simp: wakelock_cleanup_def wakelock_acquire_def once_initialize_def wakelock_initialize_def
        wakelock_initialize_native_def wakelock_acquire_native_def update_wakelock_acquired_stats_def
        reset_wakelock_stats_def demo_wakelock_def demo_wl_env_def start_metrics_def metrics_ops Let_def)
  then show ?thesis using wakelock_cleanup_leaks [OF _ _ _ run] by (auto simp: demo_wakelock_def demo_wl_env_def)
qed

end
