(* ===== verification/AlarmWakelock.thy ===== *)
theory AlarmWakelock
  imports Alarm Wakelock
begin

text \<open>
  The alarm module (\<open>src/alarm.c\<close>) on the wake lock module (\<open>src/wakelock.c\<close>). In \<open>Alarm\<close> the answer of
  \<open>wakelock_acquire\<close> comes from the environment; here \<open>reschedule_root_alarm\<close>, the only function that
  calls the other module, runs on its model. The theory shows that \<open>Alarm\<close> abstracts from this faithfully,
  that the two modules stay in step (the wake lock is recorded as held exactly while the timer
  is set) as long as the system grants the lock, and that a refusal brings them out of step.
\<close>

section \<open>Rescheduling with the real wake lock\<close>

text \<open>\<open>wenv\<close> and \<open>renv\<close> are what the system answers to the acquisition and to the release.\<close>

definition root_timer_time_wl ::
  "alarm_env \<Rightarrow> wakelock_env \<Rightarrow> alarm_sys \<Rightarrow> wakelock_sys \<Rightarrow> (timespec \<times> alarm_sys \<times> wakelock_sys) res" where
  "root_timer_time_wl env wenv s w =
     (case alarms s of [] \<Rightarrow> Inr ((0, 0), s, w)
      | a # _ \<Rightarrow> rbind (deref (objs s) a) (\<lambda>next_alarm.
          let (t, s1) = now_ms env s in
          if sint (deadline next_alarm - t) < TIMER_INTERVAL_FOR_WAKELOCK_IN_MS then
            rbind (if \<not> timer_set s1 then wakelock_acquire wenv w else Inr (True, w)) (\<lambda>(ok, w1).
            let s2 = (if \<not> timer_set s1
                      then s1\<lparr>ticks := Suc (ticks s1), wakelocks := wakelocks s1 + (if ok then 1 else 0)\<rparr> else s1) in
            if \<not> ok then Inr ((0, 0), s2, w1)
            else Inr (to_timespec (deadline next_alarm), s2\<lparr>wakeup_at := END_OF_TIME\<rparr>, w1))
          else Inr ((0, 0), s1\<lparr>wakeup_at := to_timespec (deadline next_alarm)\<rparr>, w)))"

definition reschedule_root_alarm_wl ::
  "alarm_env \<Rightarrow> wakelock_env \<Rightarrow> wakelock_env \<Rightarrow> alarm_sys \<Rightarrow> wakelock_sys \<Rightarrow> (alarm_sys \<times> wakelock_sys) res" where
  "reschedule_root_alarm_wl env wenv renv s w =
     rbind (c_assert (made s)) (\<lambda>_.
     let timer_was_set = timer_set s in
     rbind (root_timer_time_wl env wenv s w) (\<lambda>(timer_time, s1, w1).
     let is_set = (fst timer_time \<noteq> 0 \<or> snd timer_time \<noteq> 0) in
     rbind (if timer_was_set \<and> \<not> is_set then rbind (wakelock_release renv w1) (\<lambda>(_, w2). Inr w2) else Inr w1) (\<lambda>w2.
     let s2 = s1\<lparr>timer_set := is_set, timer_at := timer_time,
                 wakelocks := wakelocks s1 - (if timer_was_set \<and> \<not> is_set then 1 else 0)\<rparr> in
     if is_set then
       Inr (s2\<lparr>ticks := Suc (ticks s2), expired := expired s2 + (if fired env (ticks s2) then 1 else 0)\<rparr>, w2)
     else Inr (s2, w2))))"

section \<open>The wake lock as the alarms use it\<close>

text \<open>What the system answers to an acquisition; a usable module: set up, and the metrics not blocked.\<close>

definition grants :: "wakelock_env \<Rightarrow> wakelock_sys \<Rightarrow> bool" where
  "grants env w \<longleftrightarrow> (if is_native w
     then wake_lock_fd w \<and> wake_unlock_fd w \<and> write_answer env (int (length WAKE_LOCK_ID)) \<noteq> - 1
     else callout_status env = BT_STATUS_SUCCESS)"

definition usable :: "wakelock_sys \<Rightarrow> bool" where
  "usable w \<longleftrightarrow> initialized w \<and> \<not> log_locked (wl_metrics w)"

lemma acquire_usable:
  assumes "usable w" and "\<not> is_acquired (wl_stats w)"
  shows "\<exists>w'. wakelock_acquire env w = Inr (grants env w, w') \<and> usable w' \<and> is_acquired (wl_stats w')"
  using wakelock_acquire_outcome [of w env] assms by (auto simp: usable_def grants_def adds_wakes_def)

lemma release_usable:
  assumes "usable w" and "is_acquired (wl_stats w)"
  shows "\<exists>r w'. wakelock_release env w = Inr (r, w') \<and> usable w' \<and> \<not> is_acquired (wl_stats w')"
proof -
  have "\<not> log_locked (wl_metrics w)" using assms(1) by (simp add: usable_def)
  then obtain m where "metrics_wake_event WAKE_EVENT_RELEASED None (Some WAKE_LOCK_ID) (wl_now env) (wl_metrics w) = Inr m"
    "adds_wakes [wake_event_of WAKE_EVENT_RELEASED None (Some WAKE_LOCK_ID) (wl_now env)] (wl_metrics w) m"
    using metrics_wake_event_ok by blast
  then show ?thesis using assms
    by (auto simp: wakelock_release_def once_initialize_def wakelock_release_native_def
        update_wakelock_released_stats_def Let_def usable_def adds_wakes_def)
qed

text \<open>Both modules agree on whether the lock is held.\<close>

definition in_step :: "alarm_sys \<Rightarrow> wakelock_sys \<Rightarrow> bool" where
  "in_step s w \<longleftrightarrow> usable w \<and> is_acquired (wl_stats w) = timer_set s"

text \<open>The environment of \<open>Alarm\<close> that gives the answer of the real module.\<close>

definition answers :: "bool \<Rightarrow> alarm_env \<Rightarrow> alarm_env" where
  "answers ok env = env\<lparr>acquired := \<lambda>_. ok\<rparr>"

text \<open>The first alarm is due so soon that the device has to stay awake for it.\<close>

definition needs_lock :: "alarm_env \<Rightarrow> alarm_sys \<Rightarrow> bool" where
  "needs_lock env s \<longleftrightarrow> \<not> timer_set s \<and> alarms s \<noteq> [] \<and>
     sint (dl (objs s) (hd (alarms s)) - clk env (ticks s)) < TIMER_INTERVAL_FOR_WAKELOCK_IN_MS"

lemma timespec_set: "(fst tt \<noteq> 0 \<or> snd tt \<noteq> 0) \<longleftrightarrow> tt \<noteq> ((0, 0) :: timespec)"
  by (cases tt) simp

lemma root_timer_time_wl_ok:
  assumes step: "in_step s w" and ok: "pending_ok (objs s) (alarms s)"
  shows "\<exists>tt s1 w1. root_timer_time_wl env wenv s w = Inr (tt, s1, w1) \<and>
    root_timer_time (answers (grants wenv w) env) s = Inr (tt, s1) \<and> timer_set s1 = timer_set s \<and> usable w1 \<and>
    is_acquired (wl_stats w1) = (timer_set s \<or> needs_lock env s) \<and>
    (tt \<noteq> (0, 0) \<longrightarrow> timer_set s \<or> needs_lock env s) \<and> (needs_lock env s \<longrightarrow> (tt \<noteq> (0, 0)) = grants wenv w)"
proof (cases "alarms s")
  case Nil
  then show ?thesis using step by (auto simp: root_timer_time_def root_timer_time_wl_def in_step_def needs_lock_def)
next
  case (Cons a r)
  then obtain al where al: "map_of (objs s) a = Some al" "dl (objs s) a = deadline al" "deadline al \<noteq> 0"
    using ok unfolding pending_ok_def dl_def by (cases "map_of (objs s) a") (auto simp del: map_of_None_iff simp: map_of_eq_None_iff)
  then have nz: "to_timespec (deadline al) \<noteq> (0, 0)" by (simp add: to_timespec_zero)
  have w: "usable w" "is_acquired (wl_stats w) = timer_set s" using step by (simp_all add: in_step_def)
  note defs = root_timer_time_def root_timer_time_wl_def needs_lock_def now_ms_def answers_def acquire_def
  show ?thesis
  proof (cases "timer_set s")
    case True
    then show ?thesis using Cons al nz w by (simp add: defs)
  next
    case False
    then obtain w1 where "wakelock_acquire wenv w = Inr (grants wenv w, w1)" "usable w1" "is_acquired (wl_stats w1)"
      using acquire_usable [of w wenv] w by auto
    then show ?thesis using Cons al nz w False
      by (cases "to_timespec (deadline al)"; cases "sint (deadline al - clk env (ticks s)) < TIMER_INTERVAL_FOR_WAKELOCK_IN_MS")
         (simp_all add: defs)
  qed
qed

section \<open>Properties\<close>

text \<open>
  C13. The alarms and the wake lock stay in step: when both modules agree on whether the lock is held,
  \<open>reschedule_root_alarm\<close> on the real wake lock returns, does to the alarms what \<open>Alarm\<close> says for the answer
  the system gives, and leaves the modules in agreement again - except when the lock was needed
  and refused: then, and only then, the wake lock module goes on recording a lock the alarms do
  not have.
\<close>

theorem alarm_wakelock_in_step:
  assumes "alarm_inv s" and "in_step s w"
  shows "\<exists>s' w'. reschedule_root_alarm_wl env wenv renv s w = Inr (s', w') \<and>
    reschedule_root_alarm (answers (grants wenv w) env) s = Inr s' \<and> usable w' \<and>
    (in_step s' w' \<longleftrightarrow> \<not> needs_lock env s \<or> grants wenv w)"
proof -
  obtain tt s1 w1 where run: "root_timer_time_wl env wenv s w = Inr (tt, s1, w1)"
    "root_timer_time (answers (grants wenv w) env) s = Inr (tt, s1)"
    and ts: "timer_set s1 = timer_set s" and w1: "usable w1" "is_acquired (wl_stats w1) = (timer_set s \<or> needs_lock env s)"
    and tt: "tt \<noteq> (0, 0) \<longrightarrow> timer_set s \<or> needs_lock env s" "needs_lock env s \<longrightarrow> (tt \<noteq> (0, 0)) = grants wenv w"
    using root_timer_time_wl_ok [OF assms(2) alarm_invD(1) [OF assms(1)], of env wenv] by blast
  have excl: "timer_set s \<longrightarrow> \<not> needs_lock env s" by (simp add: needs_lock_def)
  have made: "made s" by (rule alarm_inv_made [OF assms(1)])
  note defs = reschedule_root_alarm_wl_def reschedule_root_alarm_def timespec_set in_step_def Let_def answers_def
  show ?thesis
  proof (cases "timer_set s \<and> tt = (0, 0)")
    case True
    then obtain r w2 where "wakelock_release renv w1 = Inr (r, w2)" "usable w2" "\<not> is_acquired (wl_stats w2)"
      using release_usable [of w1 renv] w1 by auto
    then show ?thesis using run True made excl by (cases tt) (simp add: defs)
  next
    case False
    then show ?thesis using run made w1 tt excl by (cases tt) (auto simp: defs)
  qed
qed

text \<open>The lock is refused: the alarms have no timer, the wake lock is recorded as held.\<close>

theorem alarm_wakelock_in_step_witness:
  "\<exists>s' w'. reschedule_root_alarm_wl demo_env demo_wl_env demo_wl_env (demo_alarms\<lparr>timer_set := False, wakelocks := 0\<rparr>) demo_wakelock
      = Inr (s', w') \<and> \<not> in_step s' w'"
proof -
  let ?s = "demo_alarms\<lparr>timer_set := False, wakelocks := 0\<rparr>"
  have inv: "alarm_inv ?s" using demo_alarms_facts(1) by (simp add: alarm_inv_def lock_ok_def demo_alarms_def)
  have step: "in_step ?s demo_wakelock"
    by (simp add: in_step_def usable_def demo_wakelock_def reset_wakelock_stats_def start_metrics_def)
  have "needs_lock demo_env ?s" "\<not> grants demo_wl_env demo_wakelock"
    by (simp_all add: needs_lock_def demo_alarms_def demo_alarm_def demo_env_def dl_def TIMER_INTERVAL_FOR_WAKELOCK_IN_MS_def
        grants_def demo_wakelock_def)
  with alarm_wakelock_in_step [OF inv step, of demo_env demo_wl_env demo_wl_env] show ?thesis by blast
qed

end
