(* ===== verification/AllocTracker.thy ===== *)
theory AllocTracker
  imports HashMap
begin

text \<open>
  The allocation tracker (\<open>src/allocation_tracker.c\<close>) and the allocator on top of it
  (\<open>src/allocator.c\<close>).

  The C heap is a store of blocks of bytes; a pointer may point inside a block, and an access
  is in order when all its bytes lie in one block. The tracker keeps one \<open>allocation_t\<close> per
  block it handed out, in objects of their own that come from the untracked \<open>calloc\<close>, and finds
  them through the hash map of \<open>HashMap\<close>. What \<open>malloc\<close> and \<open>calloc\<close> answer is a parameter
  (\<open>alloc_env\<close>). The mutex only serialises the calls and is left out.
\<close>

section \<open>The C heap\<close>

type_synonym heap = "(ptr \<times> string) list"

text \<open>The \<open>n\<close> bytes from address \<open>a\<close> on lie in the block.\<close>

definition in_block :: "ptr \<Rightarrow> nat \<Rightarrow> ptr \<times> string \<Rightarrow> bool" where
  "in_block a n = (\<lambda>(b, bs). unat (a - b) + n \<le> length bs)"

definition splice_at :: "nat \<Rightarrow> 'a list \<Rightarrow> 'a list \<Rightarrow> 'a list" where
  "splice_at i xs bs = take i bs @ xs @ drop (i + length xs) bs"

definition mem_read :: "heap \<Rightarrow> ptr \<Rightarrow> nat \<Rightarrow> string res" where
  "mem_read h a n =
     (case List.find (in_block a n) h of None \<Rightarrow> Inl OutOfBounds
      | Some (b, bs) \<Rightarrow> Inr (take n (drop (unat (a - b)) bs)))"

text \<open>\<open>memcpy\<close> of the bytes \<open>xs\<close> to the address \<open>a\<close>.\<close>

definition mem_write :: "heap \<Rightarrow> ptr \<Rightarrow> string \<Rightarrow> heap res" where
  "mem_write h a xs =
     (if xs = [] then Inr h
      else case List.find (in_block a (length xs)) h of None \<Rightarrow> Inl OutOfBounds
      | Some (b, bs) \<Rightarrow> Inr (store_at b (splice_at (unat (a - b)) xs bs) h))"

text \<open>\<open>free\<close>: of null nothing, of the start of a block the block; anything else is undefined.\<close>

definition c_free :: "ptr \<Rightarrow> heap \<Rightarrow> heap res" where
  "c_free p h =
     (if p = NULL then Inr h
      else case map_of h p of None \<Rightarrow> Inl BadPointer | Some _ \<Rightarrow> Inr (release p h))"

section \<open>The tracker\<close>

record allocation_t =
  allocator_id :: uint8_t
  alloc_ptr :: ptr
  alloc_size :: size_t
  freed :: bool

type_synonym alloc_recs = "(ptr \<times> allocation_t) list"
type_synonym alloc_map = "(ptr, ptr, alloc_recs) hash_map_t"

record tracker =
  allocations :: "alloc_map option"
  recs :: alloc_recs
  canary_size :: size_t
  heap :: heap

record alloc_env =
  malloc_ret :: "size_t \<Rightarrow> heap \<Rightarrow> ptr"
  garbage :: "nat \<Rightarrow> char"
  rec_alloc :: alloc_fn
  bucket_list_ret :: ptr

definition allocation_hash_map_size :: size_t where
  "allocation_hash_map_size = 1024"

definition canary :: string where
  "canary = ''tinybird''"

text \<open>\<open>free\<close> as the hash map's data callback, on the tracker's own objects.\<close>

definition free_rec :: "ptr \<Rightarrow> alloc_recs \<Rightarrow> alloc_recs" where
  "free_rec p rs = release p rs"

definition allocation_tracker_init :: "ptr \<Rightarrow> ptr \<Rightarrow> alloc_fn \<Rightarrow> tracker \<Rightarrow> tracker res" where
  "allocation_tracker_init map_p bucket_p untracked_calloc s =
     (if allocations s \<noteq> None then Inr s
      else rbind (hash_map_new_internal map_p bucket_p allocation_hash_map_size hash_function_pointer
                    None (Some free_rec) None untracked_calloc) (\<lambda>mo.
        Inr (s\<lparr>canary_size := word_of_nat (length canary), allocations := mo\<rparr>)))"

definition allocation_tracker_uninit :: "tracker \<Rightarrow> tracker res" where
  "allocation_tracker_uninit s =
     (case allocations s of None \<Rightarrow> Inr s
      | Some m \<Rightarrow> rbind (hash_map_free (Some m) (recs s)) (\<lambda>rs.
          Inr (s\<lparr>recs := rs, allocations := None\<rparr>)))"

definition allocation_tracker_reset :: "tracker \<Rightarrow> tracker res" where
  "allocation_tracker_reset s =
     (case allocations s of None \<Rightarrow> Inr s
      | Some m \<Rightarrow> rbind (hash_map_clear m (recs s)) (\<lambda>(m1, rs).
          Inr (s\<lparr>recs := rs, allocations := Some m1\<rparr>)))"

definition allocation_entry_freed_checker ::
  "alloc_recs \<Rightarrow> (ptr, ptr) hash_map_entry_t \<Rightarrow> size_t \<Rightarrow> (bool \<times> size_t) res" where
  "allocation_entry_freed_checker rs entry context =
     rbind (deref rs (entry_data entry)) (\<lambda>allocation.
       Inr (True, if \<not> freed allocation then context + alloc_size allocation else context))"

definition allocation_tracker_expect_no_allocations :: "tracker \<Rightarrow> size_t res" where
  "allocation_tracker_expect_no_allocations s =
     (case allocations s of None \<Rightarrow> Inr 0
      | Some m \<Rightarrow> hash_map_foreach m (allocation_entry_freed_checker (recs s)) 0)"

text \<open>
  \<open>allocation_tracker_notify_alloc\<close>: the record of an address that is still known is reused
  after the assertion that it was freed; otherwise a new one is made and entered, the answer of
  \<open>hash_map_set\<close> being ignored.
\<close>

definition find_or_make_allocation :: "alloc_env \<Rightarrow> ptr \<Rightarrow> tracker \<Rightarrow> alloc_map \<Rightarrow> (ptr \<times> tracker) res" where
  "find_or_make_allocation env return_ptr s m =
     rbind (hash_map_get m return_ptr) (\<lambda>found.
     case found of
       Some a \<Rightarrow> rbind (deref (recs s) a) (\<lambda>r. rbind (c_assert (freed r)) (\<lambda>_. Inr (a, s)))
     | None \<Rightarrow>
         let a = rec_alloc env (live (recs s));
             rs = (if a = NULL then recs s
                   else store_at a \<lparr>allocator_id = 0, alloc_ptr = NULL, alloc_size = 0, freed = False\<rparr> (recs s))
         in rbind (hash_map_set (bucket_list_ret env) m return_ptr (if a = NULL then None else Some a) rs)
              (\<lambda>(ok, m1, rs1). Inr (a, s\<lparr>allocations := Some m1, recs := rs1\<rparr>)))"

definition allocation_tracker_notify_alloc ::
  "alloc_env \<Rightarrow> uint8_t \<Rightarrow> ptr \<Rightarrow> size_t \<Rightarrow> tracker \<Rightarrow> (ptr \<times> tracker) res" where
  "allocation_tracker_notify_alloc env aid ptr requested_size s =
     (case allocations s of None \<Rightarrow> Inr (ptr, s)
      | Some m \<Rightarrow>
          if ptr = NULL then Inr (ptr, s)
          else
            let return_ptr = ptr + canary_size s in
            rbind (find_or_make_allocation env return_ptr s m) (\<lambda>(a, s1).
            rbind (deref (recs s1) a) (\<lambda>_.
            let s2 = s1\<lparr>recs := store_at a \<lparr>allocator_id = aid, alloc_ptr = return_ptr,
                       alloc_size = requested_size, freed = False\<rparr> (recs s1)\<rparr> in
            rbind (mem_write (heap s2) (return_ptr - canary_size s2) canary) (\<lambda>h1.
            rbind (mem_write h1 (return_ptr + requested_size) canary) (\<lambda>h2.
              Inr (return_ptr, s2\<lparr>heap := h2\<rparr>))))))"

text \<open>The loop over the canary bytes, both ends in each round.\<close>

fun check_canaries :: "heap \<Rightarrow> ptr \<Rightarrow> ptr \<Rightarrow> string \<Rightarrow> unit res" where
  "check_canaries h beginning_canary end_canary [] = Inr ()"
| "check_canaries h beginning_canary end_canary (c # cs) =
     rbind (mem_read h beginning_canary 1) (\<lambda>x.
     rbind (c_assert (x = [c])) (\<lambda>_.
     rbind (mem_read h end_canary 1) (\<lambda>y.
     rbind (c_assert (y = [c])) (\<lambda>_.
       check_canaries h (beginning_canary + 1) (end_canary + 1) cs))))"

definition allocation_tracker_notify_free :: "uint8_t \<Rightarrow> ptr \<Rightarrow> tracker \<Rightarrow> (ptr \<times> tracker) res" where
  "allocation_tracker_notify_free aid ptr s =
     (case allocations s of None \<Rightarrow> Inr (ptr, s)
      | Some m \<Rightarrow>
          if ptr = NULL then Inr (ptr, s)
          else
            rbind (hash_map_get m ptr) (\<lambda>found.
            rbind (case found of None \<Rightarrow> Inl AssertFailed | Some a \<Rightarrow> Inr a) (\<lambda>a.
            rbind (deref (recs s) a) (\<lambda>r.
            rbind (c_assert (\<not> freed r)) (\<lambda>_.
            rbind (c_assert (allocator_id r = aid)) (\<lambda>_.
            let rs = store_at a (r\<lparr>freed := True\<rparr>) (recs s) in
            rbind (check_canaries (heap s) (ptr - canary_size s) (ptr + alloc_size r) canary) (\<lambda>_.
            rbind (hash_map_erase m ptr rs) (\<lambda>(ok, m1, rs1).
              Inr (ptr - canary_size s, s\<lparr>allocations := Some m1, recs := rs1\<rparr>)))))))))"

definition allocation_tracker_resize_for_canary :: "tracker \<Rightarrow> size_t \<Rightarrow> size_t" where
  "allocation_tracker_resize_for_canary s sz =
     (if allocations s = None then sz else sz + 2 * canary_size s)"

section \<open>The allocator\<close>

definition alloc_allocator_id :: uint8_t where
  "alloc_allocator_id = 42"

text \<open>\<open>malloc\<close> and \<open>calloc\<close> of the C library: null, or a new block.\<close>

definition c_malloc :: "alloc_env \<Rightarrow> size_t \<Rightarrow> tracker \<Rightarrow> ptr \<times> tracker" where
  "c_malloc env n s =
     (let p = malloc_ret env n (heap s) in
      if p = NULL then (NULL, s) else (p, s\<lparr>heap := (p, map (garbage env) [0..<unat n]) # heap s\<rparr>))"

definition c_calloc :: "alloc_env \<Rightarrow> size_t \<Rightarrow> tracker \<Rightarrow> ptr \<times> tracker" where
  "c_calloc env n s =
     (let p = malloc_ret env n (heap s) in
      if p = NULL then (NULL, s) else (p, s\<lparr>heap := (p, replicate (unat n) NUL) # heap s\<rparr>))"

definition osi_malloc :: "alloc_env \<Rightarrow> size_t \<Rightarrow> tracker \<Rightarrow> (ptr \<times> tracker) res" where
  "osi_malloc env sz s =
     (let real_size = allocation_tracker_resize_for_canary s sz; (p, s1) = c_malloc env real_size s in
      rbind (c_assert (p \<noteq> NULL)) (\<lambda>_.
        allocation_tracker_notify_alloc env alloc_allocator_id p sz s1))"

definition osi_calloc :: "alloc_env \<Rightarrow> size_t \<Rightarrow> tracker \<Rightarrow> (ptr \<times> tracker) res" where
  "osi_calloc env sz s =
     (let real_size = allocation_tracker_resize_for_canary s sz; (p, s1) = c_calloc env real_size s in
      rbind (c_assert (p \<noteq> NULL)) (\<lambda>_.
        allocation_tracker_notify_alloc env alloc_allocator_id p sz s1))"

text \<open>
  \<open>osi_strdup\<close> and \<open>osi_strndup\<close>: \<open>str\<close> is the array the argument points to; \<open>c_string str\<close> is
  what \<open>strlen\<close> measures.
\<close>

definition osi_strdup :: "alloc_env \<Rightarrow> string \<Rightarrow> tracker \<Rightarrow> (ptr \<times> tracker) res" where
  "osi_strdup env str s =
     (let sz = word_of_nat (length (c_string str)) + 1;
          real_size = allocation_tracker_resize_for_canary s sz; (p, s1) = c_malloc env real_size s in
      rbind (c_assert (p \<noteq> NULL)) (\<lambda>_.
      rbind (allocation_tracker_notify_alloc env alloc_allocator_id p sz s1) (\<lambda>(new_string, s2).
      if new_string = NULL then Inr (NULL, s2)
      else rbind (mem_write (heap s2) new_string (take (unat sz) str)) (\<lambda>h.
        Inr (new_string, s2\<lparr>heap := h\<rparr>)))))"

definition osi_strndup :: "alloc_env \<Rightarrow> string \<Rightarrow> size_t \<Rightarrow> tracker \<Rightarrow> (ptr \<times> tracker) res" where
  "osi_strndup env str len s =
     (let str_size = word_of_nat (length (c_string str));
          sz = (if len < str_size then len else str_size);
          real_size = allocation_tracker_resize_for_canary s (sz + 1); (p, s1) = c_malloc env real_size s in
      rbind (c_assert (p \<noteq> NULL)) (\<lambda>_.
      rbind (allocation_tracker_notify_alloc env alloc_allocator_id p (sz + 1) s1) (\<lambda>(new_string, s2).
      if new_string = NULL then Inr (NULL, s2)
      else
        rbind (mem_write (heap s2) new_string (take (unat sz) str)) (\<lambda>h1.
        rbind (mem_write h1 (new_string + sz) [NUL]) (\<lambda>h2.
        Inr (new_string, s2\<lparr>heap := h2\<rparr>))))))"

definition osi_free :: "ptr \<Rightarrow> tracker \<Rightarrow> tracker res" where
  "osi_free p s =
     rbind (allocation_tracker_notify_free alloc_allocator_id p s) (\<lambda>(q, s1).
     rbind (c_free q (heap s1)) (\<lambda>h. Inr (s1\<lparr>heap := h\<rparr>)))"

text \<open>\<open>osi_free_and_reset\<close>: \<open>p_ptr\<close> is null or the variable's value; the new value is returned.\<close>

definition osi_free_and_reset :: "ptr option \<Rightarrow> tracker \<Rightarrow> (ptr \<times> tracker) res" where
  "osi_free_and_reset p_ptr s =
     (case p_ptr of None \<Rightarrow> Inl AssertFailed
      | Some p \<Rightarrow> rbind (osi_free p s) (\<lambda>s1. Inr (NULL, s1)))"

section \<open>The heap: lemmas\<close>

text \<open>Blocks do not wrap around the address space, do not overlap, and start at real addresses.\<close>

definition apart :: "ptr \<times> string \<Rightarrow> ptr \<times> string \<Rightarrow> bool" where
  "apart x y \<longleftrightarrow> unat (fst x) + length (snd x) \<le> unat (fst y) \<or> unat (fst y) + length (snd y) \<le> unat (fst x)"

definition heap_ok :: "heap \<Rightarrow> bool" where
  "heap_ok h \<longleftrightarrow>
     distinct (live h) \<and> NULL \<notin> set (live h) \<and>
     (\<forall>x \<in> set h. unat (fst x) + length (snd x) \<le> 2 ^ 64) \<and>
     (\<forall>x \<in> set h. \<forall>y \<in> set h. fst x \<noteq> fst y \<longrightarrow> apart x y)"

text \<open>What the C library promises of \<open>malloc\<close>: null, or a block apart from all others.\<close>

definition malloc_law :: "alloc_env \<Rightarrow> heap \<Rightarrow> size_t \<Rightarrow> bool" where
  "malloc_law env h n \<longleftrightarrow>
     malloc_ret env n h \<noteq> NULL \<longrightarrow> heap_ok ((malloc_ret env n h, replicate (unat n) NUL) # h)"

lemma length_splice_at [simp]: "i + length xs \<le> length bs \<Longrightarrow> length (splice_at i xs bs) = length bs"
  by (simp add: splice_at_def)

lemma heap_ok_mem: "heap_ok h \<Longrightarrow> map_of h b = Some bs \<longleftrightarrow> (b, bs) \<in> set h"
  by (simp add: heap_ok_def map_of_eq_Some_iff)

lemma unat_minus_cases:
  fixes a b :: ptr
  shows "unat (a - b) = (if unat b \<le> unat a then unat a - unat b else 2 ^ 64 + unat a - unat b)"
proof -
  have "LENGTH(64) = 64" by simp
  then show ?thesis using unat_sub_if' [of a b] by (metis add.commute)
qed

lemma in_block_iff:
  assumes "unat b + length bs \<le> 2 ^ 64" and "0 < n"
  shows "in_block a n (b, bs) \<longleftrightarrow> unat b \<le> unat a \<and> unat a + n \<le> unat b + length bs"
  using assms unat64_less [of b] by (auto simp: in_block_def unat_minus_cases)

lemma unat_plus_offset:
  fixes b :: ptr
  assumes "unat b + i < 2 ^ 64"
  shows "unat (b + word_of_nat i) = unat b + i"
proof -
  have i: "unat (word_of_nat i :: ptr) = i" using assms by (intro unat_word_of_nat_id) simp
  show ?thesis using assms unat_add_lem [of b "word_of_nat i"] by (simp add: i)
qed

lemma find_in_block:
  assumes h: "heap_ok h" and b: "map_of h b = Some bs" and n: "0 < n" "i + n \<le> length bs"
  shows "List.find (in_block (b + word_of_nat i) n) h = Some (b, bs)"
proof -
  let ?a = "b + word_of_nat i"
  have size: "unat (fst x) + length (snd x) \<le> 2 ^ 64" if "x \<in> set h" for x
    using h that by (simp add: heap_ok_def)
  have mem: "(b, bs) \<in> set h" using b heap_ok_mem [OF h] by simp
  have ua: "unat ?a = unat b + i"
    using size [OF mem] n by (intro unat_plus_offset) simp
  have iff: "in_block ?a n x \<longleftrightarrow> unat (fst x) \<le> unat ?a \<and> unat ?a + n \<le> unat (fst x) + length (snd x)"
    if "x \<in> set h" for x
    using in_block_iff [of "fst x" "snd x" n ?a] size [OF that] n(1) by simp
  have "x = (b, bs)" if x: "x \<in> set h" "in_block ?a n x" for x
  proof -
    have "\<not> apart x (b, bs)" using iff [OF x(1)] x(2) ua n by (auto simp: apart_def)
    then have "fst x = b" using h x(1) mem by (auto simp: heap_ok_def)
    then show ?thesis using h x(1) mem heap_ok_mem [OF h] by (metis option.inject prod.collapse)
  qed
  moreover have "in_block ?a n (b, bs)" using iff [OF mem] ua n(2) by simp
  ultimately show ?thesis
    using find_unique [of h "in_block ?a n" "(b, bs)"] mem by metis
qed

lemma offset_back:
  assumes "heap_ok h" and "map_of h b = Some bs" and "i < length bs"
  shows "unat (b + word_of_nat i - b) = i"
proof -
  have "unat b + length bs \<le> 2 ^ 64" using assms(1,2) heap_ok_mem by (auto simp: heap_ok_def)
  then show ?thesis using assms(3) by (simp add: unat_word_of_nat_id)
qed

lemma mem_read_ok:
  assumes "heap_ok h" and "map_of h b = Some bs" and "0 < n" "i + n \<le> length bs"
  shows "mem_read h (b + word_of_nat i) n = Inr (take n (drop i bs))"
  using find_in_block [OF assms] offset_back [OF assms(1,2), of i] assms(3,4) by (simp add: mem_read_def)

lemma mem_write_ok:
  assumes "heap_ok h" and "map_of h b = Some bs" and "xs \<noteq> []" and "i + length xs \<le> length bs"
  shows "mem_write h (b + word_of_nat i) xs = Inr (store_at b (splice_at i xs bs) h)"
proof -
  have len: "0 < length xs" using assms(3) by simp
  have "i < length bs" using len assms(4) by linarith
  then show ?thesis
    using find_in_block [OF assms(1,2) len assms(4)] offset_back [OF assms(1,2), of i] assms(3)
    by (simp add: mem_write_def)
qed

lemma heap_ok_replace:
  assumes h: "heap_ok h" and b: "map_of h b = Some bs" and len: "length cs = length bs"
  shows "heap_ok (store_at b cs h)"
proof -
  have dist: "distinct (live (store_at b cs h))" using h by (simp add: heap_ok_def distinct_update)
  have old: "\<exists>ds. (fst x, ds) \<in> set h \<and> length ds = length (snd x)" if "x \<in> set (store_at b cs h)" for x
  proof (cases "fst x = b")
    case True
    have "map_of (store_at b cs h) (fst x) = Some (snd x)" using that dist by (intro map_of_is_SomeI) simp_all
    then have "snd x = cs" using True by simp
    then show ?thesis using True b len heap_ok_mem [OF h] by auto
  next
    case False
    have "map_of (store_at b cs h) (fst x) = Some (snd x)" using that dist by (intro map_of_is_SomeI) simp_all
    then have "map_of h (fst x) = Some (snd x)" using False by simp
    then show ?thesis using heap_ok_mem [OF h] by blast
  qed
  have "unat (fst x) + length (snd x) \<le> 2 ^ 64" if "x \<in> set (store_at b cs h)" for x
    using old [OF that] h unfolding heap_ok_def by (metis fst_conv snd_conv)
  moreover have "apart x y" if xy: "x \<in> set (store_at b cs h)" "y \<in> set (store_at b cs h)" "fst x \<noteq> fst y" for x y
  proof -
    obtain ds es where de: "(fst x, ds) \<in> set h" "length ds = length (snd x)"
      "(fst y, es) \<in> set h" "length es = length (snd y)"
      using old xy(1,2) by meson
    then have "apart (fst x, ds) (fst y, es)" using h xy(3) unfolding heap_ok_def by (metis fst_conv)
    then show ?thesis using de(2,4) by (simp add: apart_def)
  qed
  moreover have "NULL \<notin> set (live (store_at b cs h))"
    using h b by (auto simp: heap_ok_def dest: map_of_in_live)
  ultimately show ?thesis using dist by (simp add: heap_ok_def)
qed

lemma heap_ok_release: "heap_ok h \<Longrightarrow> heap_ok (release b h)"
  by (auto simp: heap_ok_def distinct_delete AList.delete_eq distinct_map inj_on_def)

lemma heap_ok_new_bytes:
  "heap_ok ((p, xs) # h) \<Longrightarrow> length ys = length xs \<Longrightarrow> heap_ok ((p, ys) # h)"
  using heap_ok_replace [of "(p, xs) # h" p xs ys] by simp

text \<open>The canary check succeeds exactly when both ends carry the canary, and fails otherwise.\<close>

lemma list_take_Suc_drop: "i < length bs \<Longrightarrow> take (Suc n) (drop i bs) = bs ! i # take n (drop (Suc i) bs)"
  by (simp add: Cons_nth_drop_Suc [symmetric])

lemma check_canaries_ok:
  assumes h: "heap_ok h" "map_of h b = Some bs"
    and "i + length cs \<le> length bs" and "j + length cs \<le> length bs"
  shows "check_canaries h (b + word_of_nat i) (b + word_of_nat j) cs =
    (if take (length cs) (drop i bs) = cs \<and> take (length cs) (drop j bs) = cs then Inr () else Inl AssertFailed)"
  using assms(3,4)
proof (induction cs arbitrary: i j)
  case (Cons c cs)
  have one: "mem_read h (b + word_of_nat k) (Suc 0) = Inr [bs ! k]" if "k < length bs" for k
    using mem_read_ok [OF h, of 1 k] that list_take_Suc_drop [OF that, of 0] by simp
  have ij: "i < length bs" "j < length bs" using Cons.prems by simp_all
  have add: "b + word_of_nat k + 1 = b + word_of_nat (Suc k)" for k by simp
  show ?case
    using Cons.IH [of "Suc i" "Suc j"] Cons.prems
    by (cases "bs ! i = c"; cases "bs ! j = c")
       (simp_all add: one [OF ij(1)] one [OF ij(2)] add list_take_Suc_drop [OF ij(1)] list_take_Suc_drop [OF ij(2)]
        del: of_nat_Suc)
qed simp

section \<open>The invariant of the tracker\<close>

text \<open>
  The tracker's bookkeeping: every key of the map leads to a record of its own that describes a
  block of the heap with room for both canaries around the tracked bytes.
\<close>

definition tracked_ok :: "tracker \<Rightarrow> ptr \<Rightarrow> allocation_t \<Rightarrow> bool" where
  "tracked_ok s k r \<longleftrightarrow>
     \<not> freed r \<and> alloc_ptr r = k \<and> k \<noteq> NULL \<and>
     (\<exists>bs. map_of (heap s) (k - 8) = Some bs \<and> length bs = unat (alloc_size r) + 16)"

definition tracking :: "tracker \<Rightarrow> alloc_map \<Rightarrow> bool" where
  "tracking s m \<longleftrightarrow>
     allocations s = Some m \<and> hm_good m \<and> keys_are_equal m = default_key_equality \<and>
     key_fn m = None \<and> data_fn m = Some free_rec \<and> canary_size s = 8 \<and> heap_ok (heap s) \<and>
     (\<forall>k a. hm_lookup m k = Some a \<longrightarrow> (\<exists>r. map_of (recs s) a = Some r \<and> tracked_ok s k r))"

text \<open>The abstract content: the tracked addresses with allocator and size.\<close>

definition live_allocs :: "tracker \<Rightarrow> ptr \<rightharpoonup> uint8_t \<times> size_t" where
  "live_allocs s k =
     (case allocations s of None \<Rightarrow> None
      | Some m \<Rightarrow> (case hm_lookup m k of None \<Rightarrow> None
         | Some a \<Rightarrow> map_option (\<lambda>r. (allocator_id r, alloc_size r)) (map_of (recs s) a)))"

text \<open>There is memory for one more record and one more entry.\<close>

definition tracker_room :: "alloc_env \<Rightarrow> tracker \<Rightarrow> alloc_map \<Rightarrow> bool" where
  "tracker_room env s m \<longleftrightarrow>
     fresh_alloc (rec_alloc env) \<and> rec_alloc env (live (recs s)) \<noteq> NULL \<and> hm_room (bucket_list_ret env) m"

lemma trackingD:
  assumes "tracking s m"
  shows "allocations s = Some m" "hm_good m" "hm_inv m" "hm_size_ok m"
    "keys_are_equal m = default_key_equality" "key_fn m = None" "data_fn m = Some free_rec"
    "canary_size s = 8" "heap_ok (heap s)"
  using assms by (simp_all add: tracking_def hm_good_def)

lemma tracking_lookup:
  assumes "tracking s m" and "hm_lookup m k = Some a"
  obtains r bs where "map_of (recs s) a = Some r" "\<not> freed r" "alloc_ptr r = k" "k \<noteq> NULL"
    "map_of (heap s) (k - 8) = Some bs" "length bs = unat (alloc_size r) + 16"
  using assms unfolding tracking_def tracked_ok_def by blast

lemma live_allocs_tracking:
  "tracking s m \<Longrightarrow> live_allocs s k = (case hm_lookup m k of None \<Rightarrow> None
     | Some a \<Rightarrow> map_option (\<lambda>r. (allocator_id r, alloc_size r)) (map_of (recs s) a))"
  by (simp add: live_allocs_def trackingD)

lemma live_allocs_None_iff:
  assumes "tracking s m"
  shows "live_allocs s k = None \<longleftrightarrow> hm_lookup m k = None"
proof (cases "hm_lookup m k")
  case (Some a)
  obtain r where "map_of (recs s) a = Some r" using tracking_lookup [OF assms Some] by metis
  then show ?thesis using Some by (simp add: live_allocs_tracking [OF assms])
qed (simp add: live_allocs_tracking [OF assms])

text \<open>Two keys never share a record.\<close>

lemma tracking_inj:
  assumes "tracking s m" and "hm_lookup m k = Some a" and "hm_lookup m k' = Some a"
  shows "k = k'"
  using assms by (metis option.inject tracking_lookup)

lemma canary_length [simp]: "length canary = 8" "canary \<noteq> []"
  by (simp_all add: canary_def)

lemma length_canary_eq: "length xs = 8 \<Longrightarrow> take 8 xs = xs"
  by simp

lemma find_or_make_new:
  assumes t: "tracking s m" and room: "tracker_room env s m" and new: "hm_lookup m k = None"
  shows "\<exists>a m'. find_or_make_allocation env k (s\<lparr>heap := h\<rparr>) m =
      Inr (a, s\<lparr>heap := h, allocations := Some m', recs := store_at a \<lparr>allocator_id = 0, alloc_ptr = NULL, alloc_size = 0, freed = False\<rparr> (recs s)\<rparr>) \<and>
    a \<notin> fst ` set (recs s) \<and> hm_good m' \<and> hm_same_cfg m m' \<and>
    (\<forall>k'. hm_lookup m' k' = (if k = k' then Some a else hm_lookup m k'))"
proof -
  note d = trackingD [OF t]
  let ?a = "rec_alloc env (live (recs s))"
  let ?rs = "store_at ?a \<lparr>allocator_id = 0, alloc_ptr = NULL, alloc_size = 0, freed = False\<rparr> (recs s)"
  have a: "?a \<noteq> NULL" "?a \<notin> fst ` set (recs s)"
    using room fresh_allocD [of "rec_alloc env" "live (recs s)"] by (simp_all add: tracker_room_def)
  obtain m' w' where set: "hash_map_set (bucket_list_ret env) m k (Some ?a) ?rs = Inr (True, m', w')"
    "hm_inv m'" "hm_size_ok m'" "hm_same_cfg m m'" "old_entry_freed m k ?rs w'"
    "\<forall>k'. hm_lookup m' k' = (if keys_are_equal m k k' then Some ?a else hm_lookup m k')"
    using hash_map_set_ok [OF d(3,4), of "bucket_list_ret env" k ?a ?rs] room
    by (auto simp: tracker_room_def hm_room_def)
  have "w' = ?rs" using set(5) new by (simp add: old_entry_freed_def)
  then have "find_or_make_allocation env k (s\<lparr>heap := h\<rparr>) m = Inr (?a, s\<lparr>heap := h, allocations := Some m', recs := ?rs\<rparr>)"
    using set(1) a(1) new by (simp add: find_or_make_allocation_def hash_map_get_ok [OF d(3)] Let_def)
  then show ?thesis using a(2) set(2-4,6) d(5) by (auto simp: hm_good_def default_key_equality_def)
qed

lemma tracking_new_block:
  assumes t: "tracking s m" and "q \<notin> fst ` set (heap s)"
  shows "hm_lookup m (q + 8) = None"
proof (rule ccontr)
  assume "hm_lookup m (q + 8) \<noteq> None"
  then obtain a where "hm_lookup m (q + 8) = Some a" by blast
  then show False using tracking_lookup [OF t] assms(2) by (metis add_diff_cancel_right' map_of_in_live)
qed

text \<open>Entering a new block: both canaries are written and the block is tracked.\<close>

lemma notify_alloc_ok:
  assumes t: "tracking s m" and room: "tracker_room env s m"
    and ok: "heap_ok ((q, bs) # heap s)" and len: "length bs = unat sz + 16"
  shows "\<exists>s' m'. allocation_tracker_notify_alloc env aid q sz (s\<lparr>heap := (q, bs) # heap s\<rparr>) = Inr (q + 8, s') \<and>
    tracking s' m' \<and> live_allocs s' = (live_allocs s)(q + 8 \<mapsto> (aid, sz)) \<and> live_allocs s (q + 8) = None \<and>
    q + 8 \<noteq> NULL \<and> heap s' = (q, canary @ take (unat sz) (drop 8 bs) @ canary) # heap s"
proof -
  note d = trackingD [OF t]
  have q: "q \<noteq> NULL" "q \<notin> fst ` set (heap s)" "unat q + (unat sz + 16) \<le> 2 ^ 64"
    using ok len by (auto simp: heap_ok_def)
  have new: "hm_lookup m (q + 8) = None" using tracking_new_block [OF t q(2)] .
  have "unat (q + word_of_nat 8) = unat q + 8" using q(3) by (intro unat_plus_offset) simp
  then have p: "q + 8 \<noteq> NULL" using unat_eq_zero [of "q + 8"] by simp
  let ?s = "s\<lparr>heap := (q, bs) # heap s\<rparr>"
  let ?r0 = "\<lparr>allocator_id = 0, alloc_ptr = NULL, alloc_size = 0, freed = False\<rparr>"
  obtain a m' where make: "find_or_make_allocation env (q + 8) ?s m =
      Inr (a, ?s\<lparr>allocations := Some m', recs := store_at a ?r0 (recs s)\<rparr>)"
    and a: "a \<notin> fst ` set (recs s)" and m': "hm_good m'" "hm_same_cfg m m'"
    and look: "\<And>k'. hm_lookup m' k' = (if q + 8 = k' then Some a else hm_lookup m k')"
    using find_or_make_new [OF t room new] by blast
  let ?b1 = "splice_at 0 canary bs"
  let ?b2 = "splice_at (8 + unat sz) canary ?b1"
  have w1: "mem_write ((q, bs) # heap s) q canary = Inr ((q, ?b1) # heap s)"
    using mem_write_ok [OF ok, of q bs canary 0] len by simp
  have ok1: "heap_ok ((q, ?b1) # heap s)" using heap_ok_new_bytes [OF ok] len by simp
  have w2: "mem_write ((q, ?b1) # heap s) (q + 8 + sz) canary = Inr ((q, ?b2) # heap s)"
    using mem_write_ok [OF ok1, of q ?b1 canary "8 + unat sz"] len by (simp add: add.assoc)
  have b2: "?b2 = canary @ take (unat sz) (drop 8 bs) @ canary"
    using len by (simp add: splice_at_def take_drop min_def)
  have ok2: "heap_ok ((q, ?b2) # heap s)" using heap_ok_new_bytes [OF ok] len by simp
  let ?r = "\<lparr>allocator_id = aid, alloc_ptr = q + 8, alloc_size = sz, freed = False\<rparr>"
  define s' where "s' = s\<lparr>allocations := Some m', recs := store_at a ?r (store_at a ?r0 (recs s)), heap := (q, ?b2) # heap s\<rparr>"
  have s': "map_of (recs s') = (map_of (recs s))(a \<mapsto> ?r)" "heap s' = (q, ?b2) # heap s"
    "allocations s' = Some m'" "canary_size s' = canary_size s"
    by (simp_all add: s'_def)
  have run: "allocation_tracker_notify_alloc env aid q sz ?s = Inr (q + 8, s')"
    using q(1) d(1,8) make w1 w2 by (simp add: allocation_tracker_notify_alloc_def Let_def s'_def)
  have keep: "map_of (recs s') b = map_of (recs s) b" if "hm_lookup m k = Some b" for b k
    using tracking_lookup [OF t that] a by (metis fun_upd_other map_of_in_live s'(1))
  have "\<exists>r. map_of (recs s') b = Some r \<and> tracked_ok s' k r" if "hm_lookup m' k = Some b" for k b
  proof (cases "k = q + 8")
    case True
    then show ?thesis using that look p len by (auto simp: tracked_ok_def s')
  next
    case False
    then have old: "hm_lookup m k = Some b" using that look by auto
    then obtain r bs' where "map_of (recs s) b = Some r" "\<not> freed r" "alloc_ptr r = k" "k \<noteq> NULL"
      "map_of (heap s) (k - 8) = Some bs'" "length bs' = unat (alloc_size r) + 16"
      using tracking_lookup [OF t] by metis
    moreover have "k - 8 \<noteq> q" using False by (metis diff_add_cancel)
    ultimately show ?thesis using keep [OF old] by (auto simp: tracked_ok_def s')
  qed
  then have t': "tracking s' m'"
    using m' d ok2 by (simp add: tracking_def hm_same_cfg_def s')
  have "live_allocs s' k = ((live_allocs s)(q + 8 \<mapsto> (aid, sz))) k" for k
    using look [of k] keep [of k]
    by (cases "k = q + 8"; cases "hm_lookup m k") (simp_all add: live_allocs_tracking [OF t'] live_allocs_tracking [OF t] s'(1))
  then have "live_allocs s' = (live_allocs s)(q + 8 \<mapsto> (aid, sz))" by blast
  moreover have "live_allocs s (q + 8) = None" using new live_allocs_None_iff [OF t] by simp
  moreover have "heap s' = (q, canary @ take (unat sz) (drop 8 bs) @ canary) # heap s" by (simp add: b2 s')
  ultimately show ?thesis using run t' p by blast
qed

text \<open>Freeing: the record goes away and the block is given back, unless an assertion fails.\<close>

lemma live_allocs_SomeE:
  assumes "tracking s m" and "live_allocs s p = Some (aid, sz)"
  obtains a r bs where "hm_lookup m p = Some a" "map_of (recs s) a = Some r" "\<not> freed r" "p \<noteq> NULL"
    "allocator_id r = aid" "alloc_size r = sz" "map_of (heap s) (p - 8) = Some bs" "length bs = unat sz + 16"
proof (cases "hm_lookup m p")
  case None
  then show ?thesis using assms by (simp add: live_allocs_tracking)
next
  case (Some a)
  obtain r bs where r: "map_of (recs s) a = Some r" "\<not> freed r" "alloc_ptr r = p" "p \<noteq> NULL"
    "map_of (heap s) (p - 8) = Some bs" "length bs = unat (alloc_size r) + 16"
    by (rule tracking_lookup [OF assms(1) Some])
  have "allocator_id r = aid" "alloc_size r = sz"
    using assms r(1) Some by (simp_all add: live_allocs_tracking)
  with r Some that show ?thesis by simp
qed

lemma erase_tracked:
  assumes t: "tracking s m" and a: "hm_lookup m p = Some a"
  shows "\<exists>m'. hash_map_erase m p w = Inr (True, m', release a w) \<and> hm_good m' \<and> hm_same_cfg m m' \<and>
    (\<forall>k. hm_lookup m' k = (if k = p then None else hm_lookup m k))"
proof -
  note d = trackingD [OF t]
  obtain e m' where e: "hash_map_erase m p w = Inr (True, m', run_entry_fns m e w)" "entry_data e = a"
    "hm_inv m'" "hm_size_ok m'" "hm_same_cfg m m'"
    "\<forall>k'. hm_lookup m' k' = (if keys_are_equal m p k' then None else hm_lookup m k')"
    using hash_map_erase_ok [OF d(3,4), of p w] a by auto
  have "run_entry_fns m e w = release a w"
    using d(6,7) e(2) by (simp add: run_entry_fns_def free_rec_def)
  with e d(5) show ?thesis by (auto simp: hm_good_def default_key_equality_def)
qed

lemma tracking_erased:
  assumes t: "tracking s m" and a: "hm_lookup m p = Some a"
    and m': "hm_good m'" "hm_same_cfg m m'" "\<And>k. hm_lookup m' k = (if k = p then None else hm_lookup m k)"
    and s': "allocations s' = Some m'" "recs s' = release a (store_at a r (recs s))"
      "heap s' = release (p - 8) (heap s)" "canary_size s' = canary_size s"
  shows "tracking s' m'" and "live_allocs s' = (live_allocs s)(p := None)"
proof -
  note d = trackingD [OF t]
  have keep: "map_of (recs s') b = map_of (recs s) b" if "hm_lookup m k = Some b" "k \<noteq> p" for b k
    using tracking_inj [OF t that(1), of p] a that by (auto simp: s')
  have "\<exists>r. map_of (recs s') b = Some r \<and> tracked_ok s' k r" if "hm_lookup m' k = Some b" for k b
  proof -
    have k: "hm_lookup m k = Some b" "k \<noteq> p" using that m'(3) by (auto split: if_splits)
    obtain r bs where "map_of (recs s) b = Some r" "\<not> freed r" "alloc_ptr r = k" "k \<noteq> NULL"
      "map_of (heap s) (k - 8) = Some bs" "length bs = unat (alloc_size r) + 16"
      by (rule tracking_lookup [OF t k(1)])
    then show ?thesis using keep [OF k] k(2) by (simp add: tracked_ok_def s'(3))
  qed
  then show t': "tracking s' m'"
    using m'(1,2) d heap_ok_release by (simp add: tracking_def hm_same_cfg_def s')
  have "live_allocs s' k = ((live_allocs s)(p := None)) k" for k
    using m'(3) [of k] keep [of k]
    by (cases "k = p"; cases "hm_lookup m k") (simp_all add: live_allocs_tracking [OF t'] live_allocs_tracking [OF t])
  then show "live_allocs s' = (live_allocs s)(p := None)" by blast
qed

lemma osi_free_tracked:
  assumes t: "tracking s m" and p: "live_allocs s p = Some (aid, sz)" and bs: "map_of (heap s) (p - 8) = Some bs"
  shows "if aid = alloc_allocator_id \<and> take 8 bs = canary \<and> drop (8 + unat sz) bs = canary
    then \<exists>s' m'. osi_free p s = Inr s' \<and> tracking s' m' \<and> live_allocs s' = (live_allocs s)(p := None) \<and>
      heap s' = release (p - 8) (heap s)
    else osi_free p s = Inl AssertFailed"
proof -
  note d = trackingD [OF t]
  obtain a r where a: "hm_lookup m p = Some a" "map_of (recs s) a = Some r" "\<not> freed r" "p \<noteq> NULL"
    "allocator_id r = aid" "alloc_size r = sz" and len: "length bs = unat sz + 16"
    using live_allocs_SomeE [OF t p] bs by (metis option.inject)
  have canaries: "check_canaries (heap s) (p - 8) (p + sz) canary =
      (if take 8 bs = canary \<and> drop (8 + unat sz) bs = canary then Inr () else Inl AssertFailed)"
    using check_canaries_ok [OF d(9) bs, of 0 canary "8 + unat sz"] len by (simp add: add.assoc)
  obtain m' where m': "hash_map_erase m p (store_at a (r\<lparr>freed := True\<rparr>) (recs s)) =
      Inr (True, m', release a (store_at a (r\<lparr>freed := True\<rparr>) (recs s)))" "hm_good m'" "hm_same_cfg m m'"
    "\<And>k. hm_lookup m' k = (if k = p then None else hm_lookup m k)"
    using erase_tracked [OF t a(1)] by blast
  have "p - 8 \<noteq> NULL" using bs d(9) by (auto simp: heap_ok_def dest: map_of_in_live)
  define s' where "s' = s\<lparr>allocations := Some m',
    recs := release a (store_at a (r\<lparr>freed := True\<rparr>) (recs s)), heap := release (p - 8) (heap s)\<rparr>"
  have run: "osi_free p s = (if aid = alloc_allocator_id \<and> take 8 bs = canary \<and> drop (8 + unat sz) bs = canary
      then Inr s' else Inl AssertFailed)"
    using a d(1,8) m'(1) bs \<open>p - 8 \<noteq> NULL\<close> canaries
    by (cases "aid = alloc_allocator_id")
       (simp_all add: osi_free_def allocation_tracker_notify_free_def hash_map_get_ok [OF d(3)] c_free_def s'_def Let_def)
  have "tracking s' m'" "live_allocs s' = (live_allocs s)(p := None)"
    by (rule tracking_erased [OF t a(1) m'(2-4)]; simp add: s'_def)+
  moreover have "heap s' = release (p - 8) (heap s)" by (simp add: s'_def)
  ultimately show ?thesis using run by auto
qed

lemma osi_free_untracked:
  assumes "tracking s m" and "live_allocs s p = None"
  shows "osi_free p s = (if p = NULL then Inr s else Inl AssertFailed)"
  using assms
  by (auto simp: osi_free_def allocation_tracker_notify_free_def trackingD hash_map_get_ok
      live_allocs_None_iff c_free_def)

text \<open>The C library's answer to a request with room for both canaries.\<close>

definition fresh_block :: "alloc_env \<Rightarrow> tracker \<Rightarrow> size_t \<Rightarrow> ptr \<Rightarrow> bool" where
  "fresh_block env s sz q \<longleftrightarrow>
     unat sz + 16 < 2 ^ 64 \<and> malloc_ret env (sz + 16) (heap s) = q \<and> q \<noteq> NULL \<and>
     malloc_law env (heap s) (sz + 16)"

lemma fresh_blockD:
  assumes "fresh_block env s sz q"
  shows "unat (sz + 16) = unat sz + 16" "malloc_ret env (sz + 16) (heap s) = q" "q \<noteq> NULL"
    and "length bs = unat sz + 16 \<Longrightarrow> heap_ok ((q, bs) # heap s)"
proof -
  show n: "unat (sz + 16) = unat sz + 16"
    using assms unat_add_lem [of sz 16] by (simp add: fresh_block_def)
  show q: "malloc_ret env (sz + 16) (heap s) = q" "q \<noteq> NULL"
    using assms by (simp_all add: fresh_block_def)
  have "heap_ok ((q, replicate (unat (sz + 16)) NUL) # heap s)"
    using assms q by (simp add: fresh_block_def malloc_law_def)
  from heap_ok_new_bytes [OF this] show "heap_ok ((q, bs) # heap s)" if "length bs = unat sz + 16"
    using n that by simp
qed

lemma malloc_notify:
  assumes t: "tracking s m" and room: "tracker_room env s m" and q: "fresh_block env s sz q"
  obtains s0 s1 m1 bs where "c_malloc env (allocation_tracker_resize_for_canary s sz) s = (q, s0)"
    "allocation_tracker_notify_alloc env alloc_allocator_id q sz s0 = Inr (q + 8, s1)" "tracking s1 m1"
    "live_allocs s1 = (live_allocs s)(q + 8 \<mapsto> (alloc_allocator_id, sz))" "live_allocs s (q + 8) = None"
    "q \<noteq> NULL" "q + 8 \<noteq> NULL" "length bs = unat sz" "heap s1 = (q, canary @ bs @ canary) # heap s"
proof -
  let ?bs = "map (garbage env) [0..<unat sz + 16]"
  let ?s0 = "s\<lparr>heap := (q, ?bs) # heap s\<rparr>"
  have len: "length ?bs = unat sz + 16" by simp
  have run: "c_malloc env (allocation_tracker_resize_for_canary s sz) s = (q, ?s0)"
    using fresh_blockD(1-3) [OF q] trackingD(1,8) [OF t]
    by (simp add: c_malloc_def allocation_tracker_resize_for_canary_def Let_def)
  have "length (take (unat sz) (drop 8 ?bs)) = unat sz" by simp
  with notify_alloc_ok [OF t room fresh_blockD(4) [OF q len] len, of alloc_allocator_id] run fresh_blockD(3) [OF q]
  show ?thesis by (elim exE conjE) (rule that; assumption)
qed

lemma osi_malloc_tracked:
  assumes t: "tracking s m" and room: "tracker_room env s m" and q: "fresh_block env s sz q"
  shows "\<exists>s' m' bs. osi_malloc env sz s = Inr (q + 8, s') \<and> tracking s' m' \<and>
    live_allocs s' = (live_allocs s)(q + 8 \<mapsto> (alloc_allocator_id, sz)) \<and> live_allocs s (q + 8) = None \<and>
    q + 8 \<noteq> NULL \<and> length bs = unat sz \<and> heap s' = (q, canary @ bs @ canary) # heap s"
  by (rule malloc_notify [OF assms]) (simp add: osi_malloc_def Let_def del: add_eq_0_iff, metis)

lemma osi_calloc_tracked:
  assumes t: "tracking s m" and room: "tracker_room env s m" and q: "fresh_block env s sz q"
  shows "\<exists>s' m'. osi_calloc env sz s = Inr (q + 8, s') \<and> tracking s' m' \<and>
    live_allocs s' = (live_allocs s)(q + 8 \<mapsto> (alloc_allocator_id, sz)) \<and> live_allocs s (q + 8) = None \<and>
    heap s' = (q, canary @ replicate (unat sz) NUL @ canary) # heap s"
proof -
  let ?bs = "replicate (unat sz + 16) NUL"
  have len: "length ?bs = unat sz + 16" by simp
  have run: "osi_calloc env sz s =
      allocation_tracker_notify_alloc env alloc_allocator_id q sz (s\<lparr>heap := (q, ?bs) # heap s\<rparr>)"
    using fresh_blockD(1-3) [OF q] trackingD(1,8) [OF t]
    by (simp add: osi_calloc_def c_calloc_def allocation_tracker_resize_for_canary_def Let_def)
  have zero: "take (unat sz) (drop 8 ?bs) = replicate (unat sz) NUL" by (simp add: min_def)
  from notify_alloc_ok [OF t room fresh_blockD(4) [OF q len] len, of alloc_allocator_id]
  show ?thesis unfolding run zero by (elim exE conjE) (intro exI conjI; assumption)
qed

text \<open>Writing inside the tracked bytes leaves the canaries alone.\<close>

lemma client_write:
  assumes ok: "heap_ok h" and h: "h = (q, canary @ bs @ canary) # h0" and i: "i + length xs \<le> length bs"
  shows "mem_write h (q + 8 + word_of_nat i) xs = Inr ((q, canary @ splice_at i xs bs @ canary) # h0)"
proof (cases "xs = []")
  case True
  then show ?thesis using h by (simp add: mem_write_def splice_at_def)
next
  case False
  have "splice_at (8 + i) xs (canary @ bs @ canary) = canary @ splice_at i xs bs @ canary"
    using i by (simp add: splice_at_def)
  moreover have "mem_write h (q + word_of_nat (8 + i)) xs =
      Inr (store_at q (splice_at (8 + i) xs (canary @ bs @ canary)) h)"
    using mem_write_ok [OF ok _ False, of q "canary @ bs @ canary" "8 + i"] h i by simp
  ultimately show ?thesis using h by (simp add: add.assoc)
qed

lemma tracking_heap_swap:
  assumes t: "tracking s m" and h: "heap_ok h" and same: "\<And>b bs. map_of (heap s) b = Some bs \<Longrightarrow>
    \<exists>cs. map_of h b = Some cs \<and> length cs = length bs"
  shows "tracking (s\<lparr>heap := h\<rparr>) m" and "live_allocs (s\<lparr>heap := h\<rparr>) = live_allocs s"
proof -
  have "\<exists>r. map_of (recs s) a = Some r \<and> tracked_ok (s\<lparr>heap := h\<rparr>) k r" if a: "hm_lookup m k = Some a" for k a
  proof -
    obtain r bs where "map_of (recs s) a = Some r" "\<not> freed r" "alloc_ptr r = k" "k \<noteq> NULL"
      "map_of (heap s) (k - 8) = Some bs" "length bs = unat (alloc_size r) + 16"
      by (rule tracking_lookup [OF t a])
    with same [of "k - 8" bs] show ?thesis by (auto simp: tracked_ok_def)
  qed
  then show "tracking (s\<lparr>heap := h\<rparr>) m" using trackingD [OF t] h by (simp add: tracking_def)
  show "live_allocs (s\<lparr>heap := h\<rparr>) = live_allocs s" by (simp add: live_allocs_def fun_eq_iff split: option.split)
qed

lemma tracking_client_bytes:
  assumes t: "tracking s m" and h: "heap s = (q, canary @ bs @ canary) # h0" and len: "length cs = length bs"
  shows "tracking (s\<lparr>heap := (q, canary @ cs @ canary) # h0\<rparr>) m"
    and "live_allocs (s\<lparr>heap := (q, canary @ cs @ canary) # h0\<rparr>) = live_allocs s"
proof -
  let ?h = "(q, canary @ cs @ canary) # h0"
  have ok: "heap_ok ?h"
    by (rule heap_ok_new_bytes [of q "canary @ bs @ canary" h0]) (use trackingD(9) [OF t] h len in simp_all)
  have same: "\<exists>cs. map_of ?h b = Some cs \<and> length cs = length ds" if "map_of (heap s) b = Some ds" for b ds
    using that h len by (cases "b = q") auto
  show "tracking (s\<lparr>heap := ?h\<rparr>) m" by (rule tracking_heap_swap(1) [OF t ok same])
  show "live_allocs (s\<lparr>heap := ?h\<rparr>) = live_allocs s" by (rule tracking_heap_swap(2) [OF t ok same])
qed

lemma osi_free_cycle:
  assumes t: "tracking s m" and heap: "heap s = (q, canary @ bs @ canary) # h0"
    and live: "live_allocs s = l(q + 8 \<mapsto> (alloc_allocator_id, sz))" "l (q + 8) = None" "length bs = unat sz"
  shows "\<exists>s' m'. osi_free (q + 8) s = Inr s' \<and> tracking s' m' \<and> live_allocs s' = l \<and> heap s' = h0 \<and>
    (q + 8 \<noteq> NULL \<longrightarrow> osi_free (q + 8) s' = Inl AssertFailed)"
proof -
  have "q \<notin> fst ` set h0" using trackingD(9) [OF t] heap by (simp add: heap_ok_def)
  then have rel: "release q (heap s) = h0" using heap by (simp add: AList.delete_idem)
  have "live_allocs s (q + 8) = Some (alloc_allocator_id, sz)" "map_of (heap s) (q + 8 - 8) = Some (canary @ bs @ canary)"
    using live heap by simp_all
  from osi_free_tracked [OF t this] obtain s' m' where s': "osi_free (q + 8) s = Inr s'" "tracking s' m'"
    "live_allocs s' = (live_allocs s)(q + 8 := None)" "heap s' = h0"
    using live(3) rel by auto
  have "l(q + 8 := None) = l" using live(2) by (rule fun_upd_idem)
  then have l: "live_allocs s' = l" using s'(3) live(1) by simp
  then have "osi_free (q + 8) s' = Inl AssertFailed" if "q + 8 \<noteq> NULL"
    using osi_free_untracked [OF s'(2), of "q + 8"] live(2) that by simp
  then show ?thesis using s' l by blast
qed

lemma expect_sum:
  "(\<And>e. e \<in> set es \<Longrightarrow> \<exists>r. map_of rs (entry_data e) = Some r \<and> \<not> freed r) \<Longrightarrow>
   foreach_entries (allocation_entry_freed_checker rs) es c =
     Inr (True, c + sum_list (map (\<lambda>e. alloc_size (the (map_of rs (entry_data e)))) es))"
proof (induction es arbitrary: c)
  case (Cons e es)
  from Cons.prems [of e] obtain r where "map_of rs (entry_data e) = Some r" "\<not> freed r" by auto
  with Cons.IH Cons.prems show ?case by (simp add: allocation_entry_freed_checker_def add.assoc)
qed simp

section \<open>Properties\<close>

text \<open>A freshly initialised tracker with a small arena, for evaluations.\<close>

definition demo_alloc_map :: alloc_map where
  "demo_alloc_map =
     \<lparr>bucket = replicate 1024 None, num_bucket = 1024, hash_size = 0,
      hash_fn = hash_function_pointer, key_fn = None, data_fn = Some free_rec,
      hm_allocator = arena_alloc [16, 32, 48], keys_are_equal = default_key_equality, entries = []\<rparr>"

definition demo_tracker :: tracker where
  "demo_tracker = \<lparr>allocations = Some demo_alloc_map, recs = [], canary_size = 8, heap = []\<rparr>"

definition demo_alloc_env :: alloc_env where
  "demo_alloc_env =
     \<lparr>malloc_ret = (\<lambda>n h. if h = [] then 4096 else NULL), garbage = (\<lambda>_. CHR ''x''),
      rec_alloc = arena_alloc [16, 32], bucket_list_ret = 64\<rparr>"

lemma demo_tracker_init:
  "allocation_tracker_init 16 32 (arena_alloc [16, 32, 48])
     \<lparr>allocations = None, recs = [], canary_size = 0, heap = []\<rparr> = Inr demo_tracker"
  by (simp add: allocation_tracker_init_def hash_map_new_internal_def allocation_hash_map_size_def
      demo_tracker_def demo_alloc_map_def canary_def)

lemma demo_tracking: "tracking demo_tracker demo_alloc_map"
proof -
  have "bucket_ok demo_alloc_map i" if "i < 1024" for i
    using that by (simp add: bucket_ok_def demo_alloc_map_def)
  then have "hm_good demo_alloc_map"
    by (simp add: hm_good_def hm_inv_def hm_size_ok_def demo_alloc_map_def key_laws_default)
  then show ?thesis
    by (simp add: tracking_def demo_tracker_def heap_ok_def hm_lookup_def) (simp add: demo_alloc_map_def)
qed

lemma demo_tracker_room: "tracker_room demo_alloc_env demo_tracker demo_alloc_map"
  using alloc_room_arena [of "[16, 32, 48]" 0]
  by (simp add: tracker_room_def demo_alloc_env_def demo_tracker_def demo_alloc_map_def hm_room_def)
     (simp add: arena_alloc_def)

lemma demo_fresh_block: "fresh_block demo_alloc_env demo_tracker 3 4096"
  by (simp add: fresh_block_def demo_alloc_env_def demo_tracker_def malloc_law_def heap_ok_def)

lemma demo_live_allocs: "live_allocs demo_tracker = (\<lambda>_. None)"
  by (simp add: live_allocs_def demo_tracker_def demo_alloc_map_def hm_lookup_def fun_eq_iff)

text \<open>
  C9. Allocating and freeing with the tracker, for sizes that do not wrap when the two canaries are
  added (the size plus 16 is below \<open>2^64\<close>, part of \<open>fresh_block\<close>): \<open>osi_malloc\<close> answers a new address that is then
  tracked with its size; after any write of the client inside the requested bytes, \<open>osi_free\<close>
  succeeds and brings heap and tracked addresses back to what they were; freeing the same
  address a second time fails the assertion.
\<close>

theorem osi_malloc_free_roundtrip:
  assumes "tracking s m" and "tracker_room env s m" and "fresh_block env s sz q"
  shows "\<exists>p s1 m1. osi_malloc env sz s = Inr (p, s1) \<and> p \<noteq> NULL \<and> tracking s1 m1 \<and>
    live_allocs s p = None \<and> live_allocs s1 = (live_allocs s)(p \<mapsto> (alloc_allocator_id, sz)) \<and>
    (\<forall>i xs. i + length xs \<le> unat sz \<longrightarrow>
       (\<exists>h s2 m2. mem_write (heap s1) (p + word_of_nat i) xs = Inr h \<and>
          osi_free p (s1\<lparr>heap := h\<rparr>) = Inr s2 \<and> tracking s2 m2 \<and>
          live_allocs s2 = live_allocs s \<and> heap s2 = heap s \<and> osi_free p s2 = Inl AssertFailed))"
proof -
  obtain s1 m1 bs where 1: "osi_malloc env sz s = Inr (q + 8, s1)" "tracking s1 m1"
    "live_allocs s1 = (live_allocs s)(q + 8 \<mapsto> (alloc_allocator_id, sz))" "live_allocs s (q + 8) = None"
    "q + 8 \<noteq> NULL" and bs: "length bs = unat sz" "heap s1 = (q, canary @ bs @ canary) # heap s"
    using osi_malloc_tracked [OF assms] by blast
  have "\<exists>h s2 m2. mem_write (heap s1) (q + 8 + word_of_nat i) xs = Inr h \<and>
          osi_free (q + 8) (s1\<lparr>heap := h\<rparr>) = Inr s2 \<and> tracking s2 m2 \<and>
          live_allocs s2 = live_allocs s \<and> heap s2 = heap s \<and> osi_free (q + 8) s2 = Inl AssertFailed"
    if i: "i + length xs \<le> unat sz" for i xs
  proof -
    let ?bs = "splice_at i xs bs"
    let ?h = "(q, canary @ ?bs @ canary) # heap s"
    have len: "length ?bs = unat sz" using i bs(1) by simp
    have w: "mem_write (heap s1) (q + 8 + word_of_nat i) xs = Inr ?h"
      using client_write [OF trackingD(9) [OF 1(2)] bs(2)] i bs(1) by simp
    note t = tracking_client_bytes(1) [OF 1(2) bs(2), of ?bs] and l = tracking_client_bytes(2) [OF 1(2) bs(2), of ?bs]
    obtain s2 m2 where "osi_free (q + 8) (s1\<lparr>heap := ?h\<rparr>) = Inr s2" "tracking s2 m2"
      "live_allocs s2 = live_allocs s" "heap s2 = heap s" "osi_free (q + 8) s2 = Inl AssertFailed"
      using osi_free_cycle [OF t, where q = q and bs = ?bs and l = "live_allocs s" and sz = sz and ?h0.0 = "heap s"]
        l 1(3,4,5) len bs(1) by auto
    with w show ?thesis by blast
  qed
  then show ?thesis using 1 by blast
qed

theorem osi_malloc_free_roundtrip_witness:
  "fresh_block demo_alloc_env demo_tracker 3 4096 \<and>
   (\<exists>p s1 h s2. osi_malloc demo_alloc_env 3 demo_tracker = Inr (p, s1) \<and>
      mem_write (heap s1) (p + word_of_nat 1) ''ab'' = Inr h \<and> osi_free p (s1\<lparr>heap := h\<rparr>) = Inr s2 \<and>
      heap s2 = [] \<and> osi_free p s2 = Inl AssertFailed)"
proof -
  have i: "1 + length ''ab'' \<le> unat (3 :: size_t)" by simp
  have h: "heap demo_tracker = []" by (simp add: demo_tracker_def)
  from osi_malloc_free_roundtrip [OF demo_tracking demo_tracker_room demo_fresh_block] show ?thesis
    using i h demo_fresh_block by metis
qed

text \<open>
  C31. What \<open>osi_free\<close> checks: null is ignored; an address that is not tracked (never handed out,
  or freed already), a foreign allocator, and any change of the eight bytes in front of or
  behind the tracked bytes stop the program; otherwise exactly this block and its record go
  away.
\<close>

theorem osi_free_checks:
  assumes "tracking s m"
  shows "case live_allocs s p of
      None \<Rightarrow> osi_free p s = (if p = NULL then Inr s else Inl AssertFailed)
    | Some (aid, sz) \<Rightarrow> \<exists>bs. map_of (heap s) (p - 8) = Some bs \<and> length bs = unat sz + 16 \<and>
       (if aid = alloc_allocator_id \<and> take 8 bs = canary \<and> drop (8 + unat sz) bs = canary
        then \<exists>s' m'. osi_free p s = Inr s' \<and> tracking s' m' \<and> live_allocs s' = (live_allocs s)(p := None) \<and>
          heap s' = release (p - 8) (heap s)
        else osi_free p s = Inl AssertFailed)"
proof (cases "live_allocs s p")
  case None
  then show ?thesis using osi_free_untracked [OF assms None] by simp
next
  case (Some x)
  obtain aid sz where x: "x = (aid, sz)" by (cases x)
  obtain bs where bs: "map_of (heap s) (p - 8) = Some bs" "length bs = unat sz + 16"
    using live_allocs_SomeE [OF assms] Some x by metis
  have "\<exists>bs. map_of (heap s) (p - 8) = Some bs \<and> length bs = unat sz + 16 \<and>
       (if aid = alloc_allocator_id \<and> take 8 bs = canary \<and> drop (8 + unat sz) bs = canary
        then \<exists>s' m'. osi_free p s = Inr s' \<and> tracking s' m' \<and> live_allocs s' = (live_allocs s)(p := None) \<and>
          heap s' = release (p - 8) (heap s)
        else osi_free p s = Inl AssertFailed)"
    by (rule exI [of _ bs], intro conjI bs osi_free_tracked [OF assms _ bs(1)]) (simp add: Some x)
  then show ?thesis using Some x by simp
qed

theorem osi_free_checks_witness:
  "tracking demo_tracker demo_alloc_map \<and> osi_free 4104 demo_tracker = Inl AssertFailed"
  using osi_free_checks [OF demo_tracking, of 4104] demo_tracking by (simp add: demo_live_allocs)

lemma sum_list_mset_eq: "mset xs = mset ys \<Longrightarrow> sum_list (map f xs) = sum_list (map f ys)"
  for f :: "'a \<Rightarrow> size_t"
  by (metis mset_map sum_mset_sum_list)

text \<open>
  The leak report: \<open>allocation_tracker_expect_no_allocations\<close> answers the sum of the sizes
  of all addresses that are tracked at this moment (modulo \<open>2\<^sup>6\<^sup>4\<close>); without leaks it is 0.
\<close>

theorem expect_no_allocations_sum:
  assumes "tracking s m"
  shows "allocation_tracker_expect_no_allocations s =
    Inr (\<Sum>k \<in> dom (live_allocs s). snd (the (live_allocs s k)))"
proof -
  note d = trackingD [OF assms]
  let ?f = "\<lambda>e. alloc_size (the (map_of (recs s) (entry_data e)))"
  let ?ks = "map (\<lambda>x. entry_key (snd x)) (entries m)"
  have dist: "distinct (live (entries m))" using d(3) by (simp add: hm_inv_def)
  have entry: "hm_lookup m (entry_key e) = Some (entry_data e)" if "(p, e) \<in> set (entries m)" for p e
    using hm_lookup_eqI [OF d(3), of p e "entry_key e"] that dist d(5)
    by (simp add: map_of_is_SomeI default_key_equality_def)
  have rec: "\<exists>r. map_of (recs s) (entry_data e) = Some r \<and> \<not> freed r" if "(p, e) \<in> set (entries m)" for p e
    using tracking_lookup [OF assms entry [OF that]] by metis
  have ents: "set (hm_content m) = snd ` set (entries m)"
    using mset_hm_content [OF d(3)] by (metis list.set_map set_mset_mset)
  have "allocation_tracker_expect_no_allocations s = Inr (sum_list (map ?f (hm_content m)))"
  proof -
    have "foreach_entries (allocation_entry_freed_checker (recs s)) (hm_content m) 0 =
        Inr (True, 0 + sum_list (map ?f (hm_content m)))"
      by (rule expect_sum) (use rec ents in auto)
    then show ?thesis
      using d(1) by (simp add: allocation_tracker_expect_no_allocations_def hash_map_foreach_ok [OF d(3)])
  qed
  also have "sum_list (map ?f (hm_content m)) = sum_list (map ?f (map snd (entries m)))"
    by (rule sum_list_mset_eq [OF mset_hm_content [OF d(3)]])
  also have "\<dots> = sum_list (map (\<lambda>k. snd (the (live_allocs s k))) ?ks)"
  proof -
    have "?f (snd x) = snd (the (live_allocs s (entry_key (snd x))))" if "x \<in> set (entries m)" for x
      using entry [of "fst x" "snd x"] rec [of "fst x" "snd x"] that by (auto simp: live_allocs_tracking [OF assms])
    then show ?thesis by (simp add: comp_def cong: map_cong)
  qed
  also have "\<dots> = (\<Sum>k \<in> set ?ks. snd (the (live_allocs s k)))"
  proof (rule sum_list_distinct_conv_sum_set)
    have "x = y" if "x \<in> set (entries m)" "y \<in> set (entries m)" "entry_key (snd x) = entry_key (snd y)" for x y
    proof -
      have "map_of (entries m) (fst x) = Some (snd x)" "map_of (entries m) (fst y) = Some (snd y)"
        using that(1,2) dist by (simp_all add: map_of_is_SomeI)
      with hm_inv_unique [OF d(3) this] that(3) d(5) show ?thesis
        by (auto simp: default_key_equality_def prod_eq_iff)
    qed
    then show "distinct ?ks" using dist by (simp add: distinct_map inj_on_def)
  qed
  also have "set ?ks = dom (live_allocs s)"
  proof -
    have "k \<in> set ?ks" if look: "hm_lookup m k \<noteq> None" for k
    proof -
      obtain p e where "map_of (entries m) p = Some e" "entry_key e = k"
        using look hm_lookup_None_iff [OF d(3), of k] d(5) by (auto simp: default_key_equality_def)
      then have "(p, e) \<in> set (entries m)" "entry_key (snd (p, e)) = k" by (simp_all add: map_of_SomeD)
      then show ?thesis by (metis (mono_tags, lifting) image_eqI list.set_map)
    qed
    moreover have "hm_lookup m k \<noteq> None" if "k \<in> set ?ks" for k using that entry by auto
    ultimately show ?thesis using live_allocs_None_iff [OF assms] by (intro set_eqI) (metis domIff)
  qed
  finally show ?thesis .
qed

theorem expect_no_allocations_sum_witness:
  "tracking demo_tracker demo_alloc_map \<and> allocation_tracker_expect_no_allocations demo_tracker = Inr 0"
  using expect_no_allocations_sum [OF demo_tracking] demo_tracking by (simp add: demo_live_allocs)

definition dup_size :: "string \<Rightarrow> size_t \<Rightarrow> size_t" where
  "dup_size str len = word_of_nat (min (unat len) (length (c_string str))) + 1"

lemma take_c_string: "k \<le> length (c_string str) \<Longrightarrow> take k str = take k (c_string str)"
  unfolding c_string_def
proof (induction str arbitrary: k)
  case (Cons c str)
  then show ?case by (cases k) (auto split: if_splits)
qed simp

lemma unat_dup_size:
  assumes "length (c_string str) + 17 < 2 ^ 64"
  shows "unat (dup_size str n) = min (unat n) (length (c_string str)) + 1"
proof -
  let ?k = "min (unat n) (length (c_string str))"
  have "unat (word_of_nat ?k :: size_t) = ?k" using assms by (intro unat_word_of_nat_id) simp
  then show ?thesis using assms unat_add_lem [of "word_of_nat ?k :: size_t" 1]
    by (simp add: dup_size_def min_def split: if_splits)
qed

lemma osi_strndup_ok:
  assumes t: "tracking s m" and room: "tracker_room env s m"
    and len: "length (c_string str) + 17 < 2 ^ 64" and q: "fresh_block env s (dup_size str n) q"
  shows "\<exists>s' m'. osi_strndup env str n s = Inr (q + 8, s') \<and> tracking s' m' \<and>
    live_allocs s' = (live_allocs s)(q + 8 \<mapsto> (alloc_allocator_id, dup_size str n)) \<and>
    heap s' = (q, canary @ (take (unat n) (c_string str) @ [NUL]) @ canary) # heap s"
proof -
  let ?k = "min (unat n) (length (c_string str))"
  let ?sz = "word_of_nat ?k :: size_t"
  have k: "unat ?sz = ?k" using len by (intro unat_word_of_nat_id) simp
  have slen: "unat (word_of_nat (length (c_string str)) :: size_t) = length (c_string str)"
    using len by (intro unat_word_of_nat_id) simp
  have sz: "(if n < word_of_nat (length (c_string str)) then n else word_of_nat (length (c_string str))) = ?sz"
    by (simp add: word_less_nat_alt slen min_def)
  have size: "?sz + 1 = dup_size str n" by (simp add: dup_size_def)
  obtain s0 s1 m1 mid where 1: "c_malloc env (allocation_tracker_resize_for_canary s (dup_size str n)) s = (q, s0)"
    "allocation_tracker_notify_alloc env alloc_allocator_id q (dup_size str n) s0 = Inr (q + 8, s1)" "tracking s1 m1"
    "live_allocs s1 = (live_allocs s)(q + 8 \<mapsto> (alloc_allocator_id, dup_size str n))"
    "q \<noteq> NULL" "q + 8 \<noteq> NULL" "length mid = unat (dup_size str n)" "heap s1 = (q, canary @ mid @ canary) # heap s"
    by (rule malloc_notify [OF t room q])
  let ?xs = "take ?k (c_string str)"
  have mid: "length mid = ?k + 1" using 1(7) unat_dup_size [OF len] by simp
  have xs: "take (unat ?sz) str = ?xs" "length ?xs = ?k" using take_c_string [of ?k str] k by simp_all
  let ?h1 = "(q, canary @ splice_at 0 ?xs mid @ canary) # heap s"
  have w1: "mem_write (heap s1) (q + 8) ?xs = Inr ?h1"
    using client_write [OF trackingD(9) [OF 1(3)] 1(8), of 0 ?xs] mid xs by simp
  have ok1: "heap_ok ?h1"
    using trackingD(9) [OF tracking_client_bytes(1) [OF 1(3,8), of "splice_at 0 ?xs mid"]] mid xs by simp
  have "splice_at ?k [NUL] (splice_at 0 ?xs mid) = ?xs @ [NUL]"
    using mid xs(2) by (simp add: splice_at_def)
  then have w2: "mem_write ?h1 (q + 8 + ?sz) [NUL] = Inr ((q, canary @ (?xs @ [NUL]) @ canary) # heap s)"
    using client_write [OF ok1 refl, of ?k "[NUL]"] mid xs by simp
  let ?s' = "s1\<lparr>heap := (q, canary @ (?xs @ [NUL]) @ canary) # heap s\<rparr>"
  have "osi_strndup env str n s = Inr (q + 8, ?s')"
    unfolding osi_strndup_def Let_def sz size xs(1)
    using 1(1,2,5,6) w1 w2 by (simp del: add_eq_0_iff)
  moreover have "?xs = take (unat n) (c_string str)" by (simp add: min_def)
  moreover note tracking_client_bytes [OF 1(3,8), of "?xs @ [NUL]"]
  ultimately show ?thesis using 1(4) mid xs(2) by (intro exI [of _ ?s'] exI [of _ m1]) simp
qed

lemma unat_SIZE_MAX: "unat SIZE_MAX = 18446744073709551615"
  by (simp add: unsigned_minus_1_eq_mask mask_eq_exp_minus_1)

lemma osi_strdup_ok:
  assumes t: "tracking s m" and room: "tracker_room env s m" and nul: "NUL \<in> set str"
    and len: "length (c_string str) + 17 < 2 ^ 64" and q: "fresh_block env s (dup_size str SIZE_MAX) q"
  shows "\<exists>s' m'. osi_strdup env str s = Inr (q + 8, s') \<and> tracking s' m' \<and>
    live_allocs s' = (live_allocs s)(q + 8 \<mapsto> (alloc_allocator_id, dup_size str SIZE_MAX)) \<and>
    heap s' = (q, canary @ (c_string str @ [NUL]) @ canary) # heap s"
proof -
  let ?n = "length (c_string str)"
  have min: "min (unat SIZE_MAX) ?n = ?n" using len by (simp add: min_def unat_SIZE_MAX)
  have size: "word_of_nat ?n + 1 = dup_size str SIZE_MAX" by (simp add: dup_size_def min)
  have usize: "unat (dup_size str SIZE_MAX) = ?n + 1" using unat_dup_size [OF len, of SIZE_MAX] min by simp
  obtain s0 s1 m1 mid where 1: "c_malloc env (allocation_tracker_resize_for_canary s (dup_size str SIZE_MAX)) s = (q, s0)"
    "allocation_tracker_notify_alloc env alloc_allocator_id q (dup_size str SIZE_MAX) s0 = Inr (q + 8, s1)" "tracking s1 m1"
    "live_allocs s1 = (live_allocs s)(q + 8 \<mapsto> (alloc_allocator_id, dup_size str SIZE_MAX))"
    "q \<noteq> NULL" "q + 8 \<noteq> NULL" "length mid = unat (dup_size str SIZE_MAX)" "heap s1 = (q, canary @ mid @ canary) # heap s"
    by (rule malloc_notify [OF t room q])
  obtain rest where str: "str = c_string str @ NUL # rest" by (rule c_string_split [OF nul])
  have "take (?n + 1) (c_string str @ NUL # rest) = c_string str @ [NUL]" by simp
  then have xs: "take (?n + 1) str = c_string str @ [NUL]" using str by simp
  have "splice_at 0 (c_string str @ [NUL]) mid = c_string str @ [NUL]"
    using 1(7) usize by (simp add: splice_at_def)
  then have w: "mem_write (heap s1) (q + 8) (c_string str @ [NUL]) =
      Inr ((q, canary @ (c_string str @ [NUL]) @ canary) # heap s)"
    using client_write [OF trackingD(9) [OF 1(3)] 1(8), of 0 "c_string str @ [NUL]"] 1(7) usize by simp
  let ?s' = "s1\<lparr>heap := (q, canary @ (c_string str @ [NUL]) @ canary) # heap s\<rparr>"
  have "osi_strdup env str s = Inr (q + 8, ?s')"
    unfolding osi_strdup_def Let_def size usize xs using 1(1,2,5,6) w by (simp del: add_eq_0_iff)
  moreover note tracking_client_bytes [OF 1(3,8), of "c_string str @ [NUL]"]
  ultimately show ?thesis using 1(4,7) usize by (intro exI [of _ ?s'] exI [of _ m1]) simp
qed

text \<open>
  String copies: \<open>osi_strndup\<close> answers a new tracked block with the first \<open>len\<close> characters of
  the string (all of them if it is shorter) and a terminating NUL; \<open>osi_strdup\<close> one with the
  whole string. Nothing else in the heap changes.
\<close>

theorem osi_strdup_correct:
  assumes "tracking s m" and "tracker_room env s m" and "NUL \<in> set str" and "length (c_string str) + 17 < 2 ^ 64"
  shows "(fresh_block env s (dup_size str n) q \<longrightarrow> (\<exists>s' m'. osi_strndup env str n s = Inr (q + 8, s') \<and> tracking s' m' \<and>
      live_allocs s' = (live_allocs s)(q + 8 \<mapsto> (alloc_allocator_id, dup_size str n)) \<and>
      heap s' = (q, canary @ (take (unat n) (c_string str) @ [NUL]) @ canary) # heap s)) \<and>
    (fresh_block env s (dup_size str SIZE_MAX) q \<longrightarrow> (\<exists>s' m'. osi_strdup env str s = Inr (q + 8, s') \<and> tracking s' m' \<and>
      live_allocs s' = (live_allocs s)(q + 8 \<mapsto> (alloc_allocator_id, dup_size str SIZE_MAX)) \<and>
      heap s' = (q, canary @ (c_string str @ [NUL]) @ canary) # heap s))"
  using osi_strndup_ok [OF assms(1,2,4)] osi_strdup_ok [OF assms] by blast

definition demo_string :: string where
  "demo_string = ''hello'' @ [NUL]"

lemma c_string_demo: "c_string demo_string = ''hello''"
  by (simp add: c_string_def demo_string_def)

theorem osi_strdup_correct_witness:
  "NUL \<in> set demo_string \<and> (\<exists>s'. osi_strndup demo_alloc_env demo_string 2 demo_tracker = Inr (4104, s') \<and>
     heap s' = [(4096, canary @ (''he'' @ [NUL]) @ canary)])"
proof -
  have size: "dup_size demo_string 2 = 3" by (simp add: dup_size_def c_string_demo)
  have nul: "NUL \<in> set demo_string" by (simp add: demo_string_def)
  have len: "length (c_string demo_string) + 17 < 2 ^ 64" by (simp add: c_string_demo)
  from osi_strdup_correct [OF demo_tracking demo_tracker_room nul len, of 2 4096] show ?thesis
    unfolding size using demo_fresh_block nul by (auto simp: c_string_demo demo_tracker_def)
qed

text \<open>
  Requests near the top of the address space: adding the canaries wraps around, so
  \<open>osi_malloc\<close> of \<open>2\<^sup>6\<^sup>4 - 8\<close> or more bytes gets a block of fewer than 16 bytes from the C library
  and reports success.
\<close>

theorem osi_malloc_wraps:
  assumes "tracking s m" and "tracker_room env s m" and "2 ^ 64 - 8 \<le> unat sz"
    and "malloc_ret env (sz + 16) (heap s) \<noteq> NULL" and "malloc_law env (heap s) (sz + 16)"
  shows "\<exists>p s' bs. osi_malloc env sz s = Inr (p, s') \<and> map_of (heap s') (p - 8) = Some bs \<and> length bs < 16"
proof -
  note t = assms(1) and d = trackingD [OF assms(1)]
  let ?q = "malloc_ret env (sz + 16) (heap s)"
  have bound: "unat sz < 2 ^ 64" using unat64_less [of sz] by simp
  have r: "unat (sz + 16) = unat sz + 16 - 2 ^ 64" "unat (8 + sz) = unat sz + 8 - 2 ^ 64"
    using assms(3) bound unat_plus_if' [of sz 16] unat_plus_if' [of 8 sz] by simp_all
  let ?bs = "map (garbage env) [0..<unat (sz + 16)]"
  have len: "length ?bs = unat (sz + 16)" by simp
  have "heap_ok ((?q, replicate (unat (sz + 16)) NUL) # heap s)" using assms(4,5) by (simp add: malloc_law_def)
  from heap_ok_new_bytes [OF this, of ?bs] have ok: "heap_ok ((?q, ?bs) # heap s)" by simp
  then have new: "hm_lookup m (?q + 8) = None" by (intro tracking_new_block [OF t]) (simp add: heap_ok_def)
  let ?s0 = "s\<lparr>heap := (?q, ?bs) # heap s\<rparr>"
  let ?b1 = "splice_at 0 canary ?bs"
  let ?b2 = "splice_at (unat (8 + sz)) canary ?b1"
  have fit: "0 + length canary \<le> length ?bs" "unat (8 + sz) + length canary \<le> length ?bs"
    unfolding len canary_length using r assms(3) bound by linarith+
  have w1: "mem_write ((?q, ?bs) # heap s) ?q canary = Inr ((?q, ?b1) # heap s)"
    using mem_write_ok [OF ok, of ?q ?bs canary 0] fit by simp
  have b1: "length ?b1 = length ?bs" using fit(1) by (rule length_splice_at)
  have "mem_write ((?q, ?b1) # heap s) (?q + word_of_nat (unat (8 + sz))) canary = Inr ((?q, ?b2) # heap s)"
    using mem_write_ok [OF heap_ok_new_bytes [OF ok b1], of ?q ?b1 canary "unat (8 + sz)"] fit(2) b1 by simp
  then have w2: "mem_write ((?q, ?b1) # heap s) (?q + 8 + sz) canary = Inr ((?q, ?b2) # heap s)"
    by (simp add: add.assoc)
  obtain s' where s': "allocation_tracker_notify_alloc env alloc_allocator_id ?q sz ?s0 = Inr (?q + 8, s')"
    "heap s' = (?q, ?b2) # heap s"
    using find_or_make_new [OF t assms(2) new, of "(?q, ?bs) # heap s"] w1 w2 d(1,8) assms(4)
    by (auto simp: allocation_tracker_notify_alloc_def Let_def)
  have "osi_malloc env sz s = Inr (?q + 8, s')"
    using s'(1) assms(4) d(1,8)
    by (simp add: osi_malloc_def c_malloc_def allocation_tracker_resize_for_canary_def Let_def)
  moreover have "length ?b2 < 16" using length_splice_at [of "unat (8 + sz)" canary ?b1] fit(2) b1 r(1) bound len by simp
  ultimately show ?thesis using s'(2) by (intro exI [of _ "?q + 8"] exI [of _ s'] exI [of _ ?b2]) simp
qed

theorem osi_malloc_wraps_witness:
  "\<exists>p s' bs. osi_malloc demo_alloc_env SIZE_MAX demo_tracker = Inr (p, s') \<and>
     map_of (heap s') (p - 8) = Some bs \<and> length bs < 16"
proof (rule osi_malloc_wraps [OF demo_tracking demo_tracker_room])
  show "malloc_law demo_alloc_env (heap demo_tracker) (SIZE_MAX + 16)"
    by (simp add: malloc_law_def demo_alloc_env_def demo_tracker_def heap_ok_def)
qed (simp_all add: unat_SIZE_MAX demo_alloc_env_def demo_tracker_def)

end
