(* ===== verification/Buffer.thy ===== *)
theory Buffer
  imports Prelude
begin

text \<open>
  The reference-counted buffers of \<open>src/buffer.c\<close>.

  A \<open>buffer_t\<close> is an object of a store. The flexible array \<open>data\<close> is present in roots only; a
  pointer into it is the address of the root and an offset. \<open>osi_calloc\<close> is a parameter that
  answers null or an unused address; it stops the program itself when there is no memory.
  Clients hold handles, the pointers they got and have not freed; \<open>buf_step\<close> is one call of a
  client that uses only its own handles.
\<close>

section \<open>The code\<close>

record buffer_t =
  root :: ptr
  refcount :: size_t
  buf_length :: size_t
  buf_data :: "uint8_t list"

type_synonym buffers = "(ptr \<times> buffer_t) list"

definition sizeof_buffer_t :: size_t where
  "sizeof_buffer_t = 24"

text \<open>\<open>osi_calloc\<close> with the assertion on its result.\<close>

definition calloc_buffer :: "alloc_fn \<Rightarrow> buffers \<Rightarrow> ptr res" where
  "calloc_buffer alloc st =
     (let p = alloc (live st) in rbind (c_assert (p \<noteq> NULL)) (\<lambda>_. Inr p))"

text \<open>
  \<open>buffer_new\<close>: the size of the request wraps around; with fewer than 24 bytes the first
  assignments are outside the block.
\<close>

definition buffer_new :: "alloc_fn \<Rightarrow> size_t \<Rightarrow> buffers \<Rightarrow> (ptr \<times> buffers) res" where
  "buffer_new alloc sz st =
     rbind (c_assert (sz > 0)) (\<lambda>_.
     rbind (calloc_buffer alloc st) (\<lambda>buffer.
     let bytes = unat (sizeof_buffer_t + sz) in
     if bytes < 24 then Inl OutOfBounds
     else Inr (buffer, store_at buffer \<lparr>root = buffer, refcount = 1, buf_length = sz,
                                      buf_data = replicate (bytes - 24) 0\<rparr> st)))"

definition buffer_new_slice :: "alloc_fn \<Rightarrow> ptr \<Rightarrow> size_t \<Rightarrow> buffers \<Rightarrow> (ptr \<times> buffers) res" where
  "buffer_new_slice alloc buf slice_size st =
     rbind (c_assert (buf \<noteq> NULL)) (\<lambda>_.
     rbind (c_assert (slice_size > 0)) (\<lambda>_.
     rbind (deref st buf) (\<lambda>b.
     rbind (c_assert (slice_size \<le> buf_length b)) (\<lambda>_.
     rbind (calloc_buffer alloc st) (\<lambda>ret.
     let st1 = store_at ret \<lparr>root = root b, refcount = SIZE_MAX, buf_length = slice_size, buf_data = []\<rparr> st in
     rbind (deref st1 (root b)) (\<lambda>r.
       Inr (ret, store_at (root b) (r\<lparr>refcount := refcount r + 1\<rparr>) st1)))))))"

definition buffer_new_ref :: "alloc_fn \<Rightarrow> ptr \<Rightarrow> buffers \<Rightarrow> (ptr \<times> buffers) res" where
  "buffer_new_ref alloc buf st =
     rbind (c_assert (buf \<noteq> NULL)) (\<lambda>_.
     rbind (deref st buf) (\<lambda>b. buffer_new_slice alloc buf (buf_length b) st))"

text \<open>\<open>osi_free\<close> of an object: it must be there.\<close>

definition free_buffer :: "ptr \<Rightarrow> buffers \<Rightarrow> buffers res" where
  "free_buffer p st = rbind (deref st p) (\<lambda>_. Inr (release p st))"

definition buffer_free :: "ptr \<Rightarrow> buffers \<Rightarrow> buffers res" where
  "buffer_free buffer st =
     (if buffer = NULL then Inr st
      else rbind (deref st buffer) (\<lambda>b.
        if root b \<noteq> buffer
        then rbind (deref st (root b)) (\<lambda>r.
          let n = refcount r - 1; st1 = store_at (root b) (r\<lparr>refcount := n\<rparr>) st in
          rbind (if n = 0 then free_buffer (root b) st1 else Inr st1) (\<lambda>st2. free_buffer buffer st2))
        else
          let n = refcount b - 1; st1 = store_at buffer (b\<lparr>refcount := n\<rparr>) st in
          if n = 0 then free_buffer buffer st1 else Inr st1))"

definition buffer_ptr :: "ptr \<Rightarrow> buffers \<Rightarrow> (ptr \<times> size_t) res" where
  "buffer_ptr buf st =
     rbind (c_assert (buf \<noteq> NULL)) (\<lambda>_.
     rbind (deref st buf) (\<lambda>b.
     rbind (deref st (root b)) (\<lambda>r. Inr (root b, buf_length r - buf_length b))))"

definition buffer_length :: "ptr \<Rightarrow> buffers \<Rightarrow> size_t res" where
  "buffer_length buf st =
     rbind (c_assert (buf \<noteq> NULL)) (\<lambda>_. rbind (deref st buf) (\<lambda>b. Inr (buf_length b)))"

section \<open>Clients and the invariant\<close>

text \<open>One call of a client; \<open>H\<close> is the set of handles it holds.\<close>

inductive buf_step :: "alloc_fn \<Rightarrow> buffers \<times> ptr set \<Rightarrow> buffers \<times> ptr set \<Rightarrow> bool" for alloc where
  new: "buffer_new alloc sz st = Inr (p, st') \<Longrightarrow> buf_step alloc (st, H) (st', insert p H)"
| slice: "h \<in> H \<Longrightarrow> buffer_new_slice alloc h n st = Inr (p, st') \<Longrightarrow> buf_step alloc (st, H) (st', insert p H)"
| new_ref: "h \<in> H \<Longrightarrow> buffer_new_ref alloc h st = Inr (p, st') \<Longrightarrow> buf_step alloc (st, H) (st', insert p H)"
| drop: "h \<in> H \<Longrightarrow> buffer_free h st = Inr st' \<Longrightarrow> buf_step alloc (st, H) (st', H - {h})"

inductive_cases buf_stepE: "buf_step alloc x y"

text \<open>The handles that keep a root alive.\<close>

definition holders :: "buffers \<Rightarrow> ptr set \<Rightarrow> ptr \<Rightarrow> ptr set" where
  "holders st H r = {h \<in> H. \<exists>b. map_of st h = Some b \<and> root b = r}"

definition buffer_ok :: "buffers \<Rightarrow> ptr set \<Rightarrow> ptr \<Rightarrow> buffer_t \<Rightarrow> bool" where
  "buffer_ok st H p b \<longleftrightarrow>
     (\<exists>r. map_of st (root b) = Some r \<and> root r = root b \<and> 0 < buf_length b \<and> buf_length b \<le> buf_length r \<and>
          length (buf_data r) = unat (buf_length r)) \<and>
     (root b \<noteq> p \<longrightarrow> p \<in> H) \<and>
     (root b = p \<longrightarrow> unat (refcount b) = card (holders st H p) \<and> refcount b \<noteq> 0)"

definition buf_inv :: "buffers \<Rightarrow> ptr set \<Rightarrow> bool" where
  "buf_inv st H \<longleftrightarrow>
     distinct (live st) \<and> NULL \<notin> set (live st) \<and> H \<subseteq> set (live st) \<and>
     (\<forall>p b. map_of st p = Some b \<longrightarrow> buffer_ok st H p b)"

lemma buf_invD:
  assumes "buf_inv st H" and "map_of st p = Some b"
  obtains r where "map_of st (root b) = Some r" "root r = root b" "0 < buf_length b" "buf_length b \<le> buf_length r"
    "length (buf_data r) = unat (buf_length r)" "root b \<noteq> p \<Longrightarrow> p \<in> H"
    "unat (refcount r) = card (holders st H (root b))" "refcount r \<noteq> 0" "p \<noteq> NULL"
proof -
  have b: "buffer_ok st H p b" using assms by (simp add: buf_inv_def)
  then obtain r where r: "map_of st (root b) = Some r" "root r = root b" "0 < buf_length b" "buf_length b \<le> buf_length r"
    "length (buf_data r) = unat (buf_length r)" by (auto simp: buffer_ok_def)
  then have "buffer_ok st H (root b) r" using assms(1) by (simp add: buf_inv_def)
  then have "unat (refcount r) = card (holders st H (root b))" "refcount r \<noteq> 0"
    using r(2) by (auto simp: buffer_ok_def)
  moreover have "p \<noteq> NULL" using assms by (auto simp: buf_inv_def dest: map_of_in_live)
  moreover have "root b \<noteq> p \<Longrightarrow> p \<in> H" using b by (simp add: buffer_ok_def)
  ultimately show ?thesis using r that by blast
qed

lemma root_of_root:
  assumes "buf_inv st H" and "map_of st x = Some c" and "map_of st (root c) = Some b"
  shows "root b = root c"
  using buf_invD [OF assms(1,2)] assms(3) by (metis option.inject)

lemma buf_inv_handle: "buf_inv st H \<Longrightarrow> h \<in> H \<Longrightarrow> \<exists>b. map_of st h = Some b"
  unfolding buf_inv_def by (metis list.set_map map_of_None_iff option.exhaust subsetD)

lemma finite_holders: "buf_inv st H \<Longrightarrow> finite (holders st H r)"
  unfolding buf_inv_def holders_def by (auto intro: finite_subset [of _ "set (live st)"])

text \<open>Only the size and the counter of the root and the other members of the family matter.\<close>

lemma card_holders_bound:
  assumes "distinct (live st)" and "NULL \<notin> set (live st)" and "H \<subseteq> set (live st)"
  shows "card (holders st H r) < 2 ^ 64"
proof -
  have "holders st H r \<subseteq> set (live st)" using assms(3) by (auto simp: holders_def)
  then have "card (holders st H r) \<le> card (set (live st))" by (intro card_mono) auto
  also have "\<dots> = length (live st)" using assms(1) by (rule distinct_card)
  also have "\<dots> < 2 ^ 64" by (rule length_distinct_ptrs [OF assms(1,2)])
  finally show ?thesis .
qed

lemma calloc_bufferE:
  assumes "calloc_buffer alloc st = Inr p" and "fresh_alloc alloc"
  shows "p \<noteq> NULL" and "p \<notin> fst ` set st" and "map_of st p = None"
  using assms fresh_allocD [of alloc "live st"] by (auto simp: calloc_buffer_def Let_def)

lemma buffer_new_inv:
  assumes inv: "buf_inv st H" and alloc: "fresh_alloc alloc" and run: "buffer_new alloc sz st = Inr (p, st')"
  shows "buf_inv st' (insert p H)"
proof -
  from run have p: "calloc_buffer alloc st = Inr p" and sz: "0 < sz" and n: "24 \<le> unat (sizeof_buffer_t + sz)"
    and st': "st' = store_at p \<lparr>root = p, refcount = 1, buf_length = sz,
        buf_data = replicate (unat (sizeof_buffer_t + sz) - 24) 0\<rparr> st"
    by (auto simp: buffer_new_def Let_def split: if_splits)
  note q = calloc_bufferE [OF p alloc]
  have len: "unat (sizeof_buffer_t + sz) - 24 = unat sz"
    using n unat64_less [of sz] unat_plus_if' [of 24 sz] by (auto simp: sizeof_buffer_t_def split: if_splits)
  have M: "map_of st' = (map_of st)(p \<mapsto> \<lparr>root = p, refcount = 1, buf_length = sz, buf_data = replicate (unat sz) 0\<rparr>)"
    unfolding st' len by simp
  have other: "root b \<noteq> p" if "map_of st x = Some b" for x b
    using buf_invD [OF inv that] q(3) by (metis option.distinct(1))
  have pH: "p \<notin> H" using inv q(2) by (auto simp: buf_inv_def)
  have hold: "holders st' (insert p H) r = (if r = p then {p} else holders st H r)" for r
    using other pH unfolding holders_def M by auto
  have "buffer_ok st' (insert p H) x b" if "map_of st' x = Some b" for x b
  proof (cases "x = p")
    case True
    then show ?thesis using that sz by (auto simp: buffer_ok_def M hold)
  next
    case False
    then have old: "map_of st x = Some b" using that M by simp
    then have "buffer_ok st H x b" using inv by (simp add: buf_inv_def)
    then show ?thesis using other [OF old] False by (auto simp: buffer_ok_def M hold)
  qed
  moreover have "distinct (live st')" "NULL \<notin> set (live st')" "insert p H \<subseteq> set (live st')"
    using inv q unfolding st' by (auto simp: buf_inv_def distinct_update)
  ultimately show ?thesis by (simp add: buf_inv_def)
qed

lemma buffer_new_slice_inv:
  assumes inv: "buf_inv st H" and alloc: "fresh_alloc alloc" and run: "buffer_new_slice alloc h n st = Inr (p, st')"
  shows "buf_inv st' (insert p H)"
proof -
  from run obtain b r where b: "map_of st h = Some b" "0 < n" "n \<le> buf_length b"
    and p: "calloc_buffer alloc st = Inr p"
    and r: "map_of (store_at p \<lparr>root = root b, refcount = SIZE_MAX, buf_length = n, buf_data = []\<rparr> st) (root b) = Some r"
    and st': "st' = store_at (root b) (r\<lparr>refcount := refcount r + 1\<rparr>)
        (store_at p \<lparr>root = root b, refcount = SIZE_MAX, buf_length = n, buf_data = []\<rparr> st)"
    by (auto simp: buffer_new_slice_def Let_def)
  note q = calloc_bufferE [OF p alloc]
  obtain r' where r': "map_of st (root b) = Some r'" "root r' = root b" "buf_length b \<le> buf_length r'"
    "length (buf_data r') = unat (buf_length r')"
    "unat (refcount r') = card (holders st H (root b))" "refcount r' \<noteq> 0"
    by (rule buf_invD [OF inv b(1)])
  have ne: "root b \<noteq> p" using r'(1) q(2) by (auto dest: map_of_in_live)
  then have rr: "r = r'" using r r'(1) by simp
  let ?s = "\<lparr>root = root b, refcount = SIZE_MAX, buf_length = n, buf_data = []\<rparr>"
  have M: "map_of st' = (map_of st)(p \<mapsto> ?s, root b \<mapsto> r'\<lparr>refcount := refcount r' + 1\<rparr>)"
    unfolding st' rr by simp
  have pH: "p \<notin> H" using inv q(2) by (auto simp: buf_inv_def)
  have other: "root c \<noteq> p" if "map_of st x = Some c" for x c
    using buf_invD [OF inv that] q(3) by (metis option.distinct(1))
  have hold: "holders st' (insert p H) x = (if x = root b then insert p (holders st H x) else holders st H x)" for x
    using pH ne r'(1,2) q(3) unfolding holders_def M by auto
  have shape: "distinct (live st')" "NULL \<notin> set (live st')" "insert p H \<subseteq> set (live st')"
    using inv q r'(1) unfolding st' by (auto simp: buf_inv_def distinct_update dest: map_of_in_live)
  have "p \<notin> holders st H (root b)" using pH by (simp add: holders_def)
  then have "card (holders st' (insert p H) (root b)) = Suc (unat (refcount r'))"
    using finite_holders [OF inv] r'(5) by (simp add: hold)
  then have count: "unat (refcount r' + 1) = card (holders st' (insert p H) (root b))" "refcount r' + 1 \<noteq> 0"
    using card_holders_bound [OF shape, of "root b"] unat_add_lem [of "refcount r'" 1] unat_eq_zero [of "refcount r' + 1"]
    by simp_all
  have "buffer_ok st' (insert p H) x c" if x: "map_of st' x = Some c" for x c
  proof (cases "x = root b")
    case True
    then have "c = r'\<lparr>refcount := refcount r' + 1\<rparr>" using x M by simp
    then show ?thesis using True r' count b(2,3) ne by (auto simp: buffer_ok_def M intro: less_le_trans)
  next
    case False
    show ?thesis
    proof (cases "x = p")
      case True
      then have "c = ?s" using x M False by simp
      then show ?thesis using True r' b(2,3) ne by (auto simp: buffer_ok_def M intro: order_trans)
    next
      case False2: False
      then have old: "map_of st x = Some c" using False x M by simp
      then have "buffer_ok st H x c" using inv by (simp add: buf_inv_def)
      then show ?thesis using other [OF old] False False2 r' by (auto simp: buffer_ok_def M hold)
    qed
  qed
  then show ?thesis using shape by (simp add: buf_inv_def)
qed

text \<open>
  Giving a handle back. Either it was the last one of its family, then root and handle go away;
  or the root stays with its counter decreased, and the handle goes away unless it is the root.
\<close>

lemma last_holder_gone:
  assumes inv: "buf_inv st H" and h: "h \<in> H" "map_of st h = Some b" and last: "holders st H (root b) = {h}"
    and M: "map_of st' = (map_of st)(root b := None, h := None)" and dist: "distinct (live st')"
  shows "buf_inv st' (H - {h})"
proof -
  have family: "x = h" if "map_of st x = Some c" "root c = root b" "x \<noteq> root b" for x c
  proof -
    have "x \<in> H" using inv that by (auto simp: buf_inv_def buffer_ok_def)
    then have "x \<in> holders st H (root b)" using that by (simp add: holders_def)
    then show ?thesis using last by simp
  qed
  have hold: "holders st' (H - {h}) x = holders st H x" if "x \<noteq> root b" for x
  proof -
    have "y \<noteq> h \<and> y \<noteq> root b" if "map_of st y = Some c" "root c = x" for y c
      using that \<open>x \<noteq> root b\<close> h(2) root_of_root [OF inv h(2)] by (metis option.inject)
    then show ?thesis unfolding holders_def M by auto
  qed
  have "buffer_ok st' (H - {h}) x c" if x: "map_of st' x = Some c" for x c
  proof -
    have xc: "x \<noteq> h" "x \<noteq> root b" "map_of st x = Some c" using x M by (auto split: if_splits)
    then have rc: "root c \<noteq> root b" using family by blast
    have "root c \<noteq> h"
    proof
      assume "root c = h"
      then have "root b = h" using root_of_root [OF inv xc(3)] h(2) by simp
      then show False using rc \<open>root c = h\<close> by simp
    qed
    moreover have "buffer_ok st H x c" using inv xc(3) by (simp add: buf_inv_def)
    ultimately show ?thesis using rc xc by (auto simp: buffer_ok_def M hold)
  qed
  moreover have dom: "set (live st') = set (live st) - {root b, h}"
    using M by (metis dom_fun_upd dom_map_of_conv_image_fst list.set_map Diff_insert insert_commute)
  moreover have "root b \<notin> H - {h}"
  proof
    assume "root b \<in> H - {h}"
    moreover obtain r where "map_of st (root b) = Some r" "root r = root b" by (rule buf_invD [OF inv h(2)])
    ultimately have "root b \<in> holders st H (root b)" "root b \<noteq> h" by (auto simp: holders_def)
    then show False using last by simp
  qed
  ultimately show ?thesis using inv dist by (auto simp: buf_inv_def)
qed

lemma holder_gone:
  assumes inv: "buf_inv st H" and h: "h \<in> H" "map_of st h = Some b" and r: "map_of st (root b) = Some r"
    and more: "refcount r - 1 \<noteq> 0"
    and M: "map_of st' = (if root b = h then map_of st else (map_of st)(h := None))(root b \<mapsto> r\<lparr>refcount := refcount r - 1\<rparr>)"
    and dist: "distinct (live st')"
  shows "buf_inv st' (H - {h})"
proof -
  obtain r' where r': "map_of st (root b) = Some r'" "root r' = root b" "0 < buf_length b" "buf_length b \<le> buf_length r'"
    "length (buf_data r') = unat (buf_length r')"
    "unat (refcount r') = card (holders st H (root b))" "refcount r' \<noteq> 0"
    by (rule buf_invD [OF inv h(2)])
  have rr: "r' = r" using r r'(1) by simp
  have hold: "holders st' (H - {h}) x = holders st H x - {h}" for x
    using h(2) r' rr unfolding holders_def M by (auto split: if_splits)
  have "h \<in> holders st H (root b)" using h by (simp add: holders_def)
  then have count: "unat (refcount r - 1) = card (holders st' (H - {h}) (root b))"
    using r'(6,7) rr by (simp add: hold unat_minus_one card_Diff_singleton)
  have other: "holders st H x - {h} = holders st H x" if "x \<noteq> root b" for x
    using that h(2) by (auto simp: holders_def)
  have "buffer_ok st' (H - {h}) x c" if x: "map_of st' x = Some c" for x c
  proof (cases "x = root b")
    case True
    then have "c = r\<lparr>refcount := refcount r - 1\<rparr>" using x M by simp
    then show ?thesis using True r' rr count more by (auto simp: buffer_ok_def M intro: less_le_trans)
  next
    case False
    then have xc: "x \<noteq> h" "map_of st x = Some c" using x M by (auto split: if_splits)
    have "root c \<noteq> h \<or> root b = h"
      using root_of_root [OF inv xc(2)] h(2) by auto
    moreover have "buffer_ok st H x c" using inv xc(2) by (simp add: buf_inv_def)
    ultimately show ?thesis using False xc r' rr by (auto simp: buffer_ok_def M hold other)
  qed
  moreover have dom: "set (live st') = set (live st) - (if root b = h then {} else {h})"
    using arg_cong [OF M, of dom] r by (auto simp: dom_map_of_conv_image_fst dest: map_of_in_live split: if_splits)
  ultimately show ?thesis using inv dist by (auto simp: buf_inv_def)
qed

lemma buffer_free_inv:
  assumes inv: "buf_inv st H" and h: "h \<in> H"
  shows "\<exists>st'. buffer_free h st = Inr st' \<and> buf_inv st' (H - {h})"
proof -
  obtain b where b: "map_of st h = Some b" using buf_inv_handle [OF assms] by blast
  obtain r where r: "map_of st (root b) = Some r" "root r = root b" 
    "unat (refcount r) = card (holders st H (root b))" "refcount r \<noteq> 0" "h \<noteq> NULL"
    by (rule buf_invD [OF inv b])
  have dist: "distinct (live st)" using inv by (simp add: buf_inv_def)
  have hh: "h \<in> holders st H (root b)" using h b by (simp add: holders_def)
  show ?thesis
  proof (cases "refcount r - 1 = 0")
    case True
    then have "unat (refcount r) = 1" by simp
    then have last: "holders st H (root b) = {h}" using r(3) hh by (metis card_1_singletonE singletonD)
    let ?st = "release h (release (root b) (store_at (root b) (r\<lparr>refcount := refcount r - 1\<rparr>) st))"
    have "buf_inv ?st (H - {h})"
      by (rule last_holder_gone [OF inv h b last]) (use dist in \<open>auto simp: distinct_delete distinct_update\<close>)
    moreover have "buffer_free h st = Inr ?st"
    proof (cases "root b = h")
      case True2: True
      then have "r = b" using r(1) b by simp
      then show ?thesis using True True2 r b
        by (simp add: buffer_free_def free_buffer_def Let_def AList.delete_idem)
    next
      case False
      then show ?thesis using True r b by (simp add: buffer_free_def free_buffer_def Let_def)
    qed
    ultimately show ?thesis by blast
  next
    case False
    let ?st0 = "store_at (root b) (r\<lparr>refcount := refcount r - 1\<rparr>) st"
    let ?st = "if root b = h then ?st0 else release h ?st0"
    have "buf_inv ?st (H - {h})"
      by (rule holder_gone [OF inv h b r(1) False]) (use dist in \<open>auto simp: distinct_delete distinct_update\<close>)
    moreover have "buffer_free h st = Inr ?st"
      using False r b by (auto simp: buffer_free_def free_buffer_def Let_def)
    ultimately show ?thesis by blast
  qed
qed

lemma buffer_new_ref_slice:
  "map_of st h = Some b \<Longrightarrow> h \<noteq> NULL \<Longrightarrow> buffer_new_ref alloc h st = buffer_new_slice alloc h (buf_length b) st"
  by (simp add: buffer_new_ref_def)

lemma buf_step_inv:
  assumes "buf_step alloc x y" and "fresh_alloc alloc" and "buf_inv (fst x) (snd x)"
  shows "buf_inv (fst y) (snd y)"
  using assms(1)
proof cases
  case (new sz st p st' H)
  then show ?thesis using buffer_new_inv assms by simp
next
  case (slice h H n st p st')
  then show ?thesis using buffer_new_slice_inv assms by simp
next
  case (new_ref h H st p st')
  then obtain b where "map_of st h = Some b" using buf_inv_handle [of st H h] assms(3) by auto
  then have "buffer_new_slice alloc h (buf_length b) st = Inr (p, st')"
    using new_ref(4) by (auto simp: buffer_new_ref_def)
  then show ?thesis using new_ref buffer_new_slice_inv assms by simp
next
  case (drop h H st st')
  then show ?thesis using buffer_free_inv [of st H h] assms(3) by auto
qed

lemma buf_run_inv:
  assumes "(buf_step alloc)\<^sup>*\<^sup>* ([], {}) (st, H)" and "fresh_alloc alloc"
  shows "buf_inv st H"
proof -
  have "buf_inv (fst y) (snd y)" if "(buf_step alloc)\<^sup>*\<^sup>* ([], {}) y" for y
    using that
  proof (induction rule: rtranclp_induct)
    case base
    then show ?case by (simp add: buf_inv_def)
  next
    case (step y z)
    then show ?case using buf_step_inv assms(2) by blast
  qed
  from this [OF assms(1)] show ?thesis by simp
qed

lemma buf_window:
  assumes inv: "buf_inv st H" and h: "map_of st h = Some b"
  shows "\<exists>r off. buffer_ptr h st = Inr (root b, off) \<and> buffer_length h st = Inr (buf_length b) \<and>
    map_of st (root b) = Some r \<and> unat off + unat (buf_length b) = length (buf_data r) \<and> 0 < buf_length b"
proof -
  obtain r where r: "map_of st (root b) = Some r" "buf_length b \<le> buf_length r" "0 < buf_length b"
    "length (buf_data r) = unat (buf_length r)" "h \<noteq> NULL"
    by (rule buf_invD [OF inv h])
  have "unat (buf_length r - buf_length b) + unat (buf_length b) = unat (buf_length r)"
    using r(2) by (simp add: unat_sub word_le_nat_alt)
  then show ?thesis using r h by (simp add: buffer_ptr_def buffer_length_def)
qed

lemma buf_inv_no_handles: "buf_inv st {} \<Longrightarrow> st = []"
proof (rule ccontr)
  assume inv: "buf_inv st {}" and "st \<noteq> []"
  then obtain p b where pb: "map_of st p = Some b" by (cases st) (auto, metis map_of_Cons_code(2))
  obtain r :: buffer_t where "unat (refcount r) = card (holders st {} (root b))" "refcount r \<noteq> 0"
    by (rule buf_invD [OF inv pb])
  then show False by (simp add: holders_def unat_eq_zero)
qed

section \<open>Properties\<close>

text \<open>
  C21. Buffers are neither freed too early nor leaked: whatever a client does with its own handles
  (new buffers, references, slices, frees in any order), every handle it still holds gives a
  non-empty window that lies inside the root's bytes and ends with them, and can be freed
  without touching freed memory; when it has given back all handles, no buffer object is left.
\<close>

theorem buffer_lifetime:
  assumes "(buf_step alloc)\<^sup>*\<^sup>* ([], {}) (st, H)" and "fresh_alloc alloc"
  shows "(\<forall>h \<in> H. \<exists>r rb off n st'. buffer_ptr h st = Inr (r, off) \<and> buffer_length h st = Inr n \<and> 0 < n \<and>
      map_of st r = Some rb \<and> unat off + unat n = length (buf_data rb) \<and>
      buffer_free h st = Inr st' \<and> buf_inv st' (H - {h})) \<and>
    (H = {} \<longrightarrow> st = [])"
proof -
  have inv: "buf_inv st H" by (rule buf_run_inv [OF assms])
  have "\<exists>r rb off n st'. buffer_ptr h st = Inr (r, off) \<and> buffer_length h st = Inr n \<and> 0 < n \<and>
      map_of st r = Some rb \<and> unat off + unat n = length (buf_data rb) \<and>
      buffer_free h st = Inr st' \<and> buf_inv st' (H - {h})" if "h \<in> H" for h
  proof -
    obtain b where b: "map_of st h = Some b" using buf_inv_handle [OF inv \<open>h \<in> H\<close>] by blast
    show ?thesis using buf_window [OF inv b] buffer_free_inv [OF inv \<open>h \<in> H\<close>] by blast
  qed
  then show ?thesis using buf_inv_no_handles inv by blast
qed

text \<open>A buffer of four bytes and a slice of its last two.\<close>

definition demo_buffers :: buffers where
  "demo_buffers =
     [(16, \<lparr>root = 16, refcount = 2, buf_length = 4, buf_data = [0, 0, 0, 0]\<rparr>),
      (32, \<lparr>root = 16, refcount = SIZE_MAX, buf_length = 2, buf_data = []\<rparr>)]"

lemma demo_buffers_run:
  "(buf_step (arena_alloc [16, 32, 48]))\<^sup>*\<^sup>* ([], {}) (demo_buffers, {32, 16})"
proof -
  let ?a = "arena_alloc [16, 32, 48]"
  let ?st = "[(16, \<lparr>root = 16, refcount = 1, buf_length = 4, buf_data = [0, 0, 0, 0]\<rparr>)]"
  have "replicate 4 0 = [0, 0, 0, 0 :: uint8_t]" by (simp add: numeral_eq_Suc)
  then have "buffer_new ?a 4 [] = Inr (16, ?st)"
    by (simp add: buffer_new_def calloc_buffer_def arena_alloc_def sizeof_buffer_t_def Let_def)
  then have "buf_step ?a ([], {}) (?st, insert 16 {})" by (rule buf_step.new)
  moreover have "buffer_new_slice ?a 16 2 ?st = Inr (32, demo_buffers)"
    by (simp add: buffer_new_slice_def calloc_buffer_def arena_alloc_def demo_buffers_def)
  then have "buf_step ?a (?st, insert 16 {}) (demo_buffers, insert 32 (insert 16 {}))"
    by (intro buf_step.slice) simp_all
  ultimately show ?thesis by (meson rtranclp.rtrancl_into_rtrancl rtranclp.rtrancl_refl)
qed

theorem buffer_lifetime_witness:
  "\<exists>st'. buffer_free 16 demo_buffers = Inr st' \<and> buf_inv st' {32}"
proof -
  have "{32, 16} - {16} = {32 :: ptr}" by auto
  with bspec [OF conjunct1 [OF buffer_lifetime [OF demo_buffers_run fresh_arena_alloc]], of 16]
  show ?thesis by auto
qed

text \<open>
  Slices alias: the slice of the last \<open>n\<close> bytes of a buffer (itself a root or a slice) has
  length \<open>n\<close> and points to the root's bytes where those last \<open>n\<close> bytes are; the windows of all
  other handles stay where they are. A reference is the slice of full length.
\<close>

theorem buffer_slice_alias:
  assumes "buf_inv st H" and "h \<in> H" and "fresh_alloc alloc" and "alloc (live st) \<noteq> NULL"
    and "buffer_length h st = Inr l" and "buffer_ptr h st = Inr (r, off)" and "0 < n" and "n \<le> l"
  shows "\<exists>p st'. buffer_new_slice alloc h n st = Inr (p, st') \<and> buf_inv st' (insert p H) \<and> p \<notin> H \<and>
    buffer_length p st' = Inr n \<and> buffer_ptr p st' = Inr (r, off + (l - n)) \<and>
    (\<forall>x \<in> H. buffer_ptr x st' = buffer_ptr x st \<and> buffer_length x st' = buffer_length x st) \<and>
    buffer_new_ref alloc h st = buffer_new_slice alloc h l st"
proof -
  note inv = assms(1)
  obtain b where b: "map_of st h = Some b" using buf_inv_handle [OF assms(1,2)] by blast
  obtain rb where rb: "map_of st (root b) = Some rb" "root rb = root b" "h \<noteq> NULL" by (rule buf_invD [OF inv b])
  have l: "l = buf_length b" using assms(5) b rb by (simp add: buffer_length_def)
  have r: "r = root b" "off = buf_length rb - l" using assms(6) b rb l by (simp_all add: buffer_ptr_def)
  let ?p = "alloc (live st)"
  have p: "?p \<noteq> NULL" "?p \<notin> fst ` set st" "calloc_buffer alloc st = Inr ?p"
    using assms(4) fresh_allocD [OF assms(3,4)] by (simp_all add: calloc_buffer_def Let_def)
  have ne: "root b \<noteq> ?p" using rb(1) p(2) by (auto dest: map_of_in_live)
  let ?s = "\<lparr>root = root b, refcount = SIZE_MAX, buf_length = n, buf_data = []\<rparr>"
  let ?st = "store_at (root b) (rb\<lparr>refcount := refcount rb + 1\<rparr>) (store_at ?p ?s st)"
  have run: "buffer_new_slice alloc h n st = Inr (?p, ?st)"
    using assms(7,8) b rb l p ne by (simp add: buffer_new_slice_def Let_def)
  have "buffer_ptr x ?st = buffer_ptr x st \<and> buffer_length x ?st = buffer_length x st" if x: "x \<in> H" for x
  proof -
    obtain c where c: "map_of st x = Some c" using buf_inv_handle [OF inv x] by blast
    obtain rc where rc: "map_of st (root c) = Some rc" "x \<noteq> NULL" by (rule buf_invD [OF inv c])
    have "x \<noteq> ?p" "root c \<noteq> ?p" using c rc(1) p(2) by (auto dest: map_of_in_live)
    then show ?thesis using c rc rb by (auto simp: buffer_ptr_def buffer_length_def)
  qed
  moreover have "?p \<notin> H" using inv p(2) by (auto simp: buf_inv_def)
  moreover have "buffer_length ?p ?st = Inr n" "buffer_ptr ?p ?st = Inr (r, off + (l - n))"
    using p ne rb r by (simp_all add: buffer_length_def buffer_ptr_def)
  ultimately show ?thesis
    using run buffer_new_slice_inv [OF inv assms(3) run] buffer_new_ref_slice [OF b rb(3)] l by blast
qed

theorem buffer_slice_alias_witness:
  "buf_inv demo_buffers {32, 16} \<and> (\<exists>p st'. buffer_new_slice (arena_alloc [16, 32, 48]) 32 1 demo_buffers = Inr (p, st') \<and>
     buffer_ptr p st' = Inr (16, 3))"
proof -
  have inv: "buf_inv demo_buffers {32, 16}" by (rule buf_run_inv [OF demo_buffers_run fresh_arena_alloc])
  have "arena_alloc [16, 32, 48] (live demo_buffers) \<noteq> NULL" "buffer_length 32 demo_buffers = Inr 2"
    "buffer_ptr 32 demo_buffers = Inr (16, 2)"
    by (simp_all add: demo_buffers_def arena_alloc_def buffer_length_def buffer_ptr_def)
  from buffer_slice_alias [OF inv _ fresh_arena_alloc this, of 1] inv show ?thesis by auto
qed

end
