(* ===== verification/Reactor.thy ===== *)
theory Reactor
  imports Prelude
begin

unbundle bit_operations_syntax

text \<open>
  The event loop of \<open>src/reactor.c\<close>.

  A reactor is its two descriptors, the invalidation list, two flags, the objects registered with
  it and the interest set the kernel keeps for its epoll descriptor (file descriptor, data
  pointer, event mask). The descriptor of the stop event is the entry with the null data pointer
  and is kept apart as a counter. Functions are pointers; what a callback does to the reactor is
  a sequence of calls of the interface (\<open>reactor_op\<close>), and every call of a callback is logged.

  Locks: \<open>list_lock\<close> makes the accesses to the invalidation list atomic, and an object's lock is
  held during its callbacks, so a \<open>reactor_unregister\<close> or \<open>reactor_change_registration\<close> of another
  thread for that object finishes before or after them. What other threads do therefore takes
  effect between two events of a batch: \<open>other_ops\<close> gives the calls they make there, depending on the
  state they see. The thread of the loop itself calls with the lock of the object whose callback
  it runs held (\<open>self\<close>); the lock is not recursive, so a callback that changes the registration of
  its own object waits for ever (\<open>Blocks\<close>). The interleaving of the locks is in \<open>ReactorThreads\<close>.
\<close>

section \<open>The data\<close>

datatype reactor_status_t = REACTOR_STATUS_STOP | REACTOR_STATUS_ERROR | REACTOR_STATUS_DONE

type_synonym fd = int

abbreviation INVALID_FD :: fd where
  "INVALID_FD \<equiv> -1"

record reactor_object_t =
  obj_fd :: fd
  obj_context :: ptr
  read_ready :: ptr
  write_ready :: ptr

record reactor_t =
  epoll_set :: "(fd \<times> ptr \<times> uint32_t) list"
  event_count :: nat
  invalidation_list :: "ptr list"
  is_running :: bool
  object_removed :: bool
  objects :: "(ptr \<times> reactor_object_t) list"
  calls :: "(ptr \<times> ptr) list"

definition EPOLLIN :: uint32_t where "EPOLLIN = 0x1"
definition EPOLLOUT :: uint32_t where "EPOLLOUT = 0x4"
definition EPOLLERR :: uint32_t where "EPOLLERR = 0x8"
definition EPOLLHUP :: uint32_t where "EPOLLHUP = 0x10"
definition EPOLLRDHUP :: uint32_t where "EPOLLRDHUP = 0x2000"

datatype reactor_op =
    OpRegister fd ptr ptr ptr
  | OpChange ptr ptr ptr
  | OpUnregister ptr
  | OpStop

text \<open>
  The environment: \<open>osi_calloc\<close>, whether the kernel accepts a new descriptor, what a callback does
  (function, context and the state it is called in), and what other threads do before an event.
\<close>

record reactor_env =
  obj_alloc :: alloc_fn
  ctl_accepts :: "fd \<Rightarrow> bool"
  callback_ops :: "ptr \<Rightarrow> ptr \<Rightarrow> reactor_t \<Rightarrow> reactor_op list"
  other_ops :: "nat \<Rightarrow> reactor_t \<Rightarrow> reactor_op list"

section \<open>Creation\<close>

datatype reactor_resource = ReactorMem | EpollFd | EventFd | InvalidationList

record reactor_new_env =
  epoll_create_ok :: bool
  eventfd_ok :: bool
  list_ok :: bool
  ctl_ok :: bool

text \<open>\<open>reactor_free\<close>: closing a descriptor that was never opened and freeing a null list do nothing.\<close>

definition reactor_free :: "reactor_resource list \<Rightarrow> reactor_resource list" where
  "reactor_free held =
     removeAll ReactorMem (removeAll EpollFd (removeAll EventFd (removeAll InvalidationList held)))"

definition new_reactor :: reactor_t where
  "new_reactor = \<lparr>epoll_set = [], event_count = 0, invalidation_list = [], is_running = False,
     object_removed = False, objects = [], calls = []\<rparr>"

definition reactor_new :: "reactor_new_env \<Rightarrow> reactor_t option \<times> reactor_resource list" where
  "reactor_new env =
     (let h0 = [ReactorMem] in
      if \<not> epoll_create_ok env then (None, reactor_free h0)
      else let h1 = EpollFd # h0 in
      if \<not> eventfd_ok env then (None, reactor_free h1)
      else let h2 = EventFd # h1 in
      if \<not> list_ok env then (None, reactor_free h2)
      else let h3 = InvalidationList # h2 in
      if \<not> ctl_ok env then (None, reactor_free h3)
      else (Some new_reactor, h3))"

section \<open>Registration\<close>

definition registration_events :: "ptr \<Rightarrow> ptr \<Rightarrow> uint32_t" where
  "registration_events rd wr =
     (if rd \<noteq> NULL then EPOLLIN OR EPOLLRDHUP else 0) OR (if wr \<noteq> NULL then EPOLLOUT else 0)"

text \<open>\<open>EPOLL_CTL_ADD\<close> fails when the descriptor is in the set already.\<close>

definition reactor_register ::
  "reactor_env \<Rightarrow> fd \<Rightarrow> ptr \<Rightarrow> ptr \<Rightarrow> ptr \<Rightarrow> reactor_t \<Rightarrow> (ptr \<times> reactor_t) res" where
  "reactor_register env f ctx rd wr s =
     rbind (c_assert (f \<noteq> INVALID_FD)) (\<lambda>_.
     let p = obj_alloc env (live (objects s)) in
     rbind (c_assert (p \<noteq> NULL)) (\<lambda>_.
     let s1 = s\<lparr>objects := store_at p \<lparr>obj_fd = f, obj_context = ctx, read_ready = rd, write_ready = wr\<rparr> (objects s)\<rparr> in
     if ctl_accepts env f \<and> map_of (epoll_set s1) f = None
     then Inr (p, s1\<lparr>epoll_set := AList.update f (p, registration_events rd wr) (epoll_set s1)\<rparr>)
     else Inr (NULL, s1\<lparr>objects := release p (objects s1)\<rparr>)))"

text \<open>
  \<open>self\<close> is the object whose lock the calling thread holds: on the thread of the loop the object
  whose callback is running, on other threads none. The lock of the object is taken after
  \<open>epoll_ctl\<close>; a thread that holds it already never gets it.
\<close>

definition reactor_change_registration ::
  "ptr option \<Rightarrow> ptr \<Rightarrow> ptr \<Rightarrow> ptr \<Rightarrow> reactor_t \<Rightarrow> (bool \<times> reactor_t) res" where
  "reactor_change_registration self obj rd wr s =
     rbind (c_assert (obj \<noteq> NULL)) (\<lambda>_.
     rbind (deref (objects s) obj) (\<lambda>r.
     if map_of (epoll_set s) (obj_fd r) = None then Inr (False, s)
     else if self = Some obj then Inl Blocks
     else Inr (True, s\<lparr>epoll_set := AList.update (obj_fd r) (obj, registration_events rd wr) (epoll_set s),
                       objects := store_at obj (r\<lparr>read_ready := rd, write_ready := wr\<rparr>) (objects s)\<rparr>)))"

text \<open>\<open>reactor_unregister\<close>; \<open>on_run_thread\<close> is \<open>pthread_equal(pthread_self(), run_thread)\<close>.\<close>

definition reactor_unregister :: "bool \<Rightarrow> ptr \<Rightarrow> reactor_t \<Rightarrow> reactor_t res" where
  "reactor_unregister on_run_thread obj s =
     rbind (c_assert (obj \<noteq> NULL)) (\<lambda>_.
     rbind (deref (objects s) obj) (\<lambda>r.
     let s1 = s\<lparr>epoll_set := AList.delete (obj_fd r) (epoll_set s)\<rparr> in
     if is_running s1 \<and> on_run_thread then Inr (s1\<lparr>object_removed := True\<rparr>)
     else Inr (s1\<lparr>invalidation_list := invalidation_list s1 @ [obj], objects := release obj (objects s1)\<rparr>)))"

definition reactor_stop :: "reactor_t \<Rightarrow> reactor_t" where
  "reactor_stop s = s\<lparr>event_count := event_count s + 1\<rparr>"

section \<open>The loop\<close>

text \<open>One call of the interface; \<open>self\<close> as above, it is there exactly on the thread of the loop.\<close>

definition exec_op :: "reactor_env \<Rightarrow> ptr option \<Rightarrow> reactor_op \<Rightarrow> reactor_t \<Rightarrow> reactor_t res" where
  "exec_op env self x s =
     (case x of
        OpRegister f ctx rd wr \<Rightarrow> rbind (reactor_register env f ctx rd wr s) (\<lambda>(_, s1). Inr s1)
      | OpChange obj rd wr \<Rightarrow> rbind (reactor_change_registration self obj rd wr s) (\<lambda>(_, s1). Inr s1)
      | OpUnregister obj \<Rightarrow> reactor_unregister (self \<noteq> None) obj s
      | OpStop \<Rightarrow> Inr (reactor_stop s))"

fun exec_ops :: "reactor_env \<Rightarrow> ptr option \<Rightarrow> reactor_op list \<Rightarrow> reactor_t \<Rightarrow> reactor_t res" where
  "exec_ops env self [] s = Inr s"
| "exec_ops env self (x # xs) s = rbind (exec_op env self x s) (exec_ops env self xs)"

text \<open>Calling a function of an object with its context, the lock of the object held.\<close>

definition call_ready :: "reactor_env \<Rightarrow> ptr \<Rightarrow> ptr \<Rightarrow> ptr \<Rightarrow> reactor_t \<Rightarrow> reactor_t res" where
  "call_ready env object f ctx s =
     (let s1 = s\<lparr>calls := calls s @ [(f, ctx)]\<rparr> in exec_ops env (Some object) (callback_ops env f ctx s1) s1)"

text \<open>One event whose object is not in the invalidation list.\<close>

definition dispatch_object :: "reactor_env \<Rightarrow> ptr \<Rightarrow> uint32_t \<Rightarrow> reactor_t \<Rightarrow> reactor_t res" where
  "dispatch_object env object events s =
     rbind (deref (objects s) object) (\<lambda>r.
     let s1 = s\<lparr>object_removed := False\<rparr> in
     rbind (if events AND (EPOLLIN OR EPOLLHUP OR EPOLLRDHUP OR EPOLLERR) \<noteq> 0 \<and> read_ready r \<noteq> NULL
            then call_ready env object (read_ready r) (obj_context r) s1 else Inr s1) (\<lambda>s2.
     rbind (deref (objects s2) object) (\<lambda>r2.
     rbind (if \<not> object_removed s2 \<and> events AND EPOLLOUT \<noteq> 0 \<and> write_ready r2 \<noteq> NULL
            then call_ready env object (write_ready r2) (obj_context r2) s2 else Inr s2) (\<lambda>s3.
     rbind (deref (objects s3) object) (\<lambda>_.
       Inr (if object_removed s3 then s3\<lparr>objects := release object (objects s3)\<rparr> else s3))))))"

text \<open>The events of one \<open>epoll_wait\<close>; the status is there when the loop has to return.\<close>

fun run_events ::
  "reactor_env \<Rightarrow> nat \<Rightarrow> (ptr \<times> uint32_t) list \<Rightarrow> reactor_t \<Rightarrow> (reactor_status_t option \<times> reactor_t) res" where
  "run_events env j [] s = Inr (None, s)"
| "run_events env j ((object, events) # rest) s =
     rbind (exec_ops env None (other_ops env j s) s) (\<lambda>s1.
     if object = NULL
     then Inr (Some REACTOR_STATUS_STOP, s1\<lparr>event_count := 0, is_running := False\<rparr>)
     else if object \<in> set (invalidation_list s1) then run_events env (Suc j) rest s1
     else rbind (dispatch_object env object events s1) (run_events env (Suc j) rest))"

datatype wait_result = Interrupted | WaitError | Events "(ptr \<times> uint32_t) list"

text \<open>\<open>do ... while (ret == -1 && errno == EINTR)\<close> over the coming results of \<open>epoll_wait\<close>.\<close>

fun epoll_wait_loop :: "wait_result list \<Rightarrow> (wait_result \<times> wait_result list) option" where
  "epoll_wait_loop [] = None"
| "epoll_wait_loop (w # ws) = (if w = Interrupted then epoll_wait_loop ws else Some (w, ws))"

lemma epoll_wait_loop_length: "epoll_wait_loop ws = Some (w, ws') \<Longrightarrow> length ws' < length ws"
  by (induction ws) (auto split: if_splits)

text \<open>
  The iterations that are left: \<open>None\<close> for \<open>iterations == 0\<close>. When no result of \<open>epoll_wait\<close> is to
  come the thread stays blocked there.
\<close>

function reactor_loop ::
  "reactor_env \<Rightarrow> nat option \<Rightarrow> wait_result list \<Rightarrow> reactor_t \<Rightarrow> (reactor_status_t \<times> reactor_t) res" where
  "reactor_loop env its ws s =
     (if its = Some 0 then Inr (REACTOR_STATUS_DONE, s\<lparr>is_running := False\<rparr>)
      else
        let s1 = s\<lparr>invalidation_list := []\<rparr> in
        case epoll_wait_loop ws of
          None \<Rightarrow> Inl Blocks
        | Some (w, ws') \<Rightarrow>
            (case w of
               Events evs \<Rightarrow>
                 rbind (run_events env 0 evs s1) (\<lambda>(status, s2).
                 case status of Some st \<Rightarrow> Inr (st, s2)
                 | None \<Rightarrow> reactor_loop env (map_option (\<lambda>n. n - 1) its) ws' s2)
             | _ \<Rightarrow> Inr (REACTOR_STATUS_ERROR, s1\<lparr>is_running := False\<rparr>)))"
  by pat_completeness auto
termination
  by (relation "measure (\<lambda>(env, its, ws, s). length ws)") (auto dest: epoll_wait_loop_length)

declare reactor_loop.simps [simp del]

definition run_reactor ::
  "reactor_env \<Rightarrow> nat \<Rightarrow> wait_result list \<Rightarrow> reactor_t \<Rightarrow> (reactor_status_t \<times> reactor_t) res" where
  "run_reactor env iterations ws s =
     reactor_loop env (if iterations = 0 then None else Some iterations) ws (s\<lparr>is_running := True\<rparr>)"

definition reactor_start :: "reactor_env \<Rightarrow> wait_result list \<Rightarrow> reactor_t \<Rightarrow> (reactor_status_t \<times> reactor_t) res" where
  "reactor_start env ws s = run_reactor env 0 ws s"

definition reactor_run_once :: "reactor_env \<Rightarrow> wait_result list \<Rightarrow> reactor_t \<Rightarrow> (reactor_status_t \<times> reactor_t) res" where
  "reactor_run_once env ws s = run_reactor env 1 ws s"

section \<open>The invariant\<close>

text \<open>The kernel's interest set points to live objects, each under its own descriptor.\<close>

definition reg_ok :: "reactor_t \<Rightarrow> bool" where
  "reg_ok s \<longleftrightarrow>
     NULL \<notin> set (live (objects s)) \<and>
     (\<forall>f p ev. map_of (epoll_set s) f = Some (p, ev) \<longrightarrow> (\<exists>r. map_of (objects s) p = Some r \<and> obj_fd r = f))"

lemma reg_okI:
  "NULL \<notin> fst ` set (objects s) \<Longrightarrow>
   (\<And>f p ev. map_of (epoll_set s) f = Some (p, ev) \<Longrightarrow> \<exists>r. map_of (objects s) p = Some r \<and> obj_fd r = f) \<Longrightarrow> reg_ok s"
  by (simp add: reg_ok_def)

lemma reg_okD:
  assumes "reg_ok s" and "map_of (epoll_set s) f = Some (p, ev)"
  obtains r where "map_of (objects s) p = Some r" "obj_fd r = f"
  using assms unfolding reg_ok_def by blast

lemma reg_ok_null: "reg_ok s \<Longrightarrow> NULL \<notin> fst ` set (objects s)"
  by (simp add: reg_ok_def)

lemma map_of_update_any [simp]: "map_of (AList.update k v al) = (map_of al)(k \<mapsto> v)"
  by (simp add: update_conv')

lemma map_of_delete_any [simp]: "map_of (AList.delete k al) = (map_of al)(k := None)"
  by (simp add: delete_conv')

lemma registerE:
  assumes "reactor_register env f ctx rd wr s = Inr (q, s')" and "fresh_alloc (obj_alloc env)"
  obtains p r where "p \<noteq> NULL" "p \<notin> fst ` set (objects s)" "obj_fd r = f"
    "(q = p \<and> s' = s\<lparr>objects := store_at p r (objects s), epoll_set := AList.update f (p, registration_events rd wr) (epoll_set s)\<rparr>) \<or>
     (q = NULL \<and> s' = s\<lparr>objects := release p (store_at p r (objects s))\<rparr>)"
proof -
  let ?p = "obj_alloc env (live (objects s))"
  let ?r = "\<lparr>obj_fd = f, obj_context = ctx, read_ready = rd, write_ready = wr\<rparr>"
  have p: "?p \<noteq> NULL" using assms(1) by (auto simp: reactor_register_def Let_def)
  then have "?p \<notin> fst ` set (objects s)" using fresh_allocD [OF assms(2) p] by simp
  moreover have "(q = ?p \<and> s' = s\<lparr>objects := store_at ?p ?r (objects s), epoll_set := AList.update f (?p, registration_events rd wr) (epoll_set s)\<rparr>) \<or>
     (q = NULL \<and> s' = s\<lparr>objects := release ?p (store_at ?p ?r (objects s))\<rparr>)"
    using assms(1) by (auto simp: reactor_register_def Let_def split: if_splits)
  ultimately show ?thesis using p that [of ?p ?r] by simp
qed

text \<open>
  A registration is harmless for everything that is there: the objects stay and the interest
  set gains at most an entry for the new object.
\<close>

lemma register_step:
  assumes run: "reactor_register env f ctx rd wr s = Inr (q, s')" and fresh: "fresh_alloc (obj_alloc env)" and ok: "reg_ok s"
  shows "reg_ok s'" "is_running s' = is_running s" "object_removed s' = object_removed s"
    "invalidation_list s' = invalidation_list s" "fst ` set (objects s) \<subseteq> fst ` set (objects s')"
    "\<And>g p ev. p \<in> fst ` set (objects s) \<Longrightarrow> map_of (epoll_set s') g = Some (p, ev) \<Longrightarrow> map_of (epoll_set s) g = Some (p, ev)"
proof -
  obtain p r where p: "p \<noteq> NULL" "p \<notin> fst ` set (objects s)" "obj_fd r = f"
    and s': "(q = p \<and> s' = s\<lparr>objects := store_at p r (objects s), epoll_set := AList.update f (p, registration_events rd wr) (epoll_set s)\<rparr>) \<or>
     (q = NULL \<and> s' = s\<lparr>objects := release p (store_at p r (objects s))\<rparr>)"
    by (rule registerE [OF run fresh])
  have objs: "map_of (objects s) x = Some c \<Longrightarrow> x \<noteq> p" for x c using p(2) by (auto dest: map_of_in_live)
  show "reg_ok s'"
  proof (rule reg_okI)
    show "NULL \<notin> fst ` set (objects s')" using s' p(1) reg_ok_null [OF ok] by (elim disjE) simp_all
    fix g x ev assume "map_of (epoll_set s') g = Some (x, ev)"
    then consider "x = p" "g = f" "s' = s\<lparr>objects := store_at p r (objects s), epoll_set := AList.update f (p, registration_events rd wr) (epoll_set s)\<rparr>"
      | "map_of (epoll_set s) g = Some (x, ev)"
      using s' by (auto split: if_splits)
    then show "\<exists>r. map_of (objects s') x = Some r \<and> obj_fd r = g"
    proof cases
      case 1
      then show ?thesis using p(3) by simp
    next
      case 2
      then obtain c where "map_of (objects s) x = Some c" "obj_fd c = g" by (rule reg_okD [OF ok])
      then show ?thesis using s' objs by auto
    qed
  qed
  show "is_running s' = is_running s" "object_removed s' = object_removed s" "invalidation_list s' = invalidation_list s"
    using s' by auto
  show "fst ` set (objects s) \<subseteq> fst ` set (objects s')" using s' p(2) by (elim disjE) (simp_all add: subset_insertI)
  show "map_of (epoll_set s') g = Some (x, ev) \<Longrightarrow> map_of (epoll_set s) g = Some (x, ev)"
    if mem: "x \<in> fst ` set (objects s)" for g x ev
  proof -
    have "x \<noteq> p" using mem p(2) by blast
    then show "map_of (epoll_set s') g = Some (x, ev) \<Longrightarrow> map_of (epoll_set s) g = Some (x, ev)"
      using s' by (auto split: if_splits)
  qed
qed

lemma change_step:
  assumes run: "reactor_change_registration self obj rd wr s = Inr (b, s')" and ok: "reg_ok s"
  shows "reg_ok s'" "is_running s' = is_running s" "object_removed s' = object_removed s"
    "invalidation_list s' = invalidation_list s" "fst ` set (objects s') = fst ` set (objects s)"
    "\<And>g p ev. p \<noteq> obj \<Longrightarrow> map_of (epoll_set s') g = Some (p, ev) \<Longrightarrow> map_of (epoll_set s) g = Some (p, ev)"
proof -
  obtain r where r: "map_of (objects s) obj = Some r"
    and s': "s' = s \<or> s' = s\<lparr>epoll_set := AList.update (obj_fd r) (obj, registration_events rd wr) (epoll_set s),
                       objects := store_at obj (r\<lparr>read_ready := rd, write_ready := wr\<rparr>) (objects s)\<rparr>"
    using run by (auto simp: reactor_change_registration_def split: if_splits)
  have mem: "obj \<in> fst ` set (objects s)" using r by (rule map_of_in_live)
  then show live: "fst ` set (objects s') = fst ` set (objects s)"
    using s' by (elim disjE) (simp_all add: insert_absorb)
  show "reg_ok s'"
  proof (rule reg_okI)
    show "NULL \<notin> fst ` set (objects s')" using live reg_ok_null [OF ok] by simp
    fix g x ev assume "map_of (epoll_set s') g = Some (x, ev)"
    then consider "x = obj" "g = obj_fd r" | "map_of (epoll_set s) g = Some (x, ev)"
      using s' by (auto split: if_splits)
    then obtain c where "map_of (objects s) x = Some c" "obj_fd c = g"
      using r by cases (auto elim: reg_okD [OF ok])
    then show "\<exists>r. map_of (objects s') x = Some r \<and> obj_fd r = g"
      using s' r by auto
  qed
  show "is_running s' = is_running s" "object_removed s' = object_removed s" "invalidation_list s' = invalidation_list s"
    using s' by auto
  show "map_of (epoll_set s') g = Some (p, ev) \<Longrightarrow> map_of (epoll_set s) g = Some (p, ev)" if "p \<noteq> obj" for g p ev
    using s' that by (auto split: if_splits)
qed

lemma unregister_step:
  assumes run: "reactor_unregister rt obj s = Inr s'" and ok: "reg_ok s"
  shows "reg_ok s'" "is_running s' = is_running s" "\<And>g ev. map_of (epoll_set s') g \<noteq> Some (obj, ev)"
    "if is_running s \<and> rt
     then object_removed s' \<and> objects s' = objects s \<and> invalidation_list s' = invalidation_list s
     else object_removed s' = object_removed s \<and> invalidation_list s' = invalidation_list s @ [obj] \<and>
       objects s' = release obj (objects s)"
proof -
  obtain r where r: "map_of (objects s) obj = Some r"
    and s': "s' = (let s1 = s\<lparr>epoll_set := AList.delete (obj_fd r) (epoll_set s)\<rparr> in
     if is_running s1 \<and> rt then s1\<lparr>object_removed := True\<rparr>
     else s1\<lparr>invalidation_list := invalidation_list s1 @ [obj], objects := release obj (objects s1)\<rparr>)"
    using run by (auto simp: reactor_unregister_def Let_def split: if_splits)
  have only: "map_of (epoll_set s) g = Some (obj, ev) \<Longrightarrow> g = obj_fd r" for g ev
    using r by (auto elim: reg_okD [OF ok])
  show none: "map_of (epoll_set s') g \<noteq> Some (obj, ev)" for g ev
    using only s' by (auto simp: Let_def split: if_splits)
  have sub: "map_of (epoll_set s') g = Some (p, ev) \<Longrightarrow> map_of (epoll_set s) g = Some (p, ev) \<and> p \<noteq> obj" for g p ev
    using none [of g ev] s' by (auto simp: Let_def split: if_splits)
  show "is_running s' = is_running s" using s' by (simp add: Let_def)
  show fields: "if is_running s \<and> rt
     then object_removed s' \<and> objects s' = objects s \<and> invalidation_list s' = invalidation_list s
     else object_removed s' = object_removed s \<and> invalidation_list s' = invalidation_list s @ [obj] \<and>
       objects s' = release obj (objects s)"
    using s' by (simp add: Let_def)
  have objs: "map_of (objects s') p = map_of (objects s) p" if "p \<noteq> obj" for p
    using fields that by (auto split: if_splits)
  have "\<exists>r. map_of (objects s') p = Some r \<and> obj_fd r = g" if "map_of (epoll_set s') g = Some (p, ev)" for g p ev
    using sub [OF that] objs by (auto elim: reg_okD [OF ok])
  moreover have "NULL \<notin> set (live (objects s'))" using fields ok by (auto simp: reg_ok_def split: if_splits)
  ultimately show "reg_ok s'" by (simp add: reg_ok_def)
qed

section \<open>Well-behaved clients\<close>

text \<open>
  What other threads do: any calls that are legal in the state they see. What a callback of the
  object \<open>ob\<close> does on the loop's thread: legal calls, of which an unregistration concerns \<open>ob\<close>
  itself, comes once, and is the last use of \<open>ob\<close>, and a change of a registration concerns another
  object (for its own object the callback would wait for ever).
\<close>

fun own_ops :: "ptr \<Rightarrow> bool \<Rightarrow> reactor_op list \<Rightarrow> bool" where
  "own_ops ob removed [] = True"
| "own_ops ob removed (OpUnregister x # xs) = (x = ob \<and> \<not> removed \<and> own_ops ob True xs)"
| "own_ops ob removed (OpChange x rd wr # xs) = (x \<noteq> ob \<and> own_ops ob removed xs)"
| "own_ops ob removed (OpRegister f c rd wr # xs) = own_ops ob removed xs"
| "own_ops ob removed (OpStop # xs) = own_ops ob removed xs"

definition others_legal :: "reactor_env \<Rightarrow> bool" where
  "others_legal env \<longleftrightarrow> (\<forall>j s. reg_ok s \<longrightarrow> (\<exists>s'. exec_ops env None (other_ops env j s) s = Inr s'))"

definition callbacks_legal :: "reactor_env \<Rightarrow> bool" where
  "callbacks_legal env \<longleftrightarrow>
     (\<forall>s ob r f. reg_ok s \<longrightarrow> is_running s \<longrightarrow> map_of (objects s) ob = Some r \<longrightarrow> f \<in> {read_ready r, write_ready r} \<longrightarrow>
        own_ops ob False (callback_ops env f (obj_context r) s) \<and>
        (\<exists>s'. exec_ops env (Some ob) (callback_ops env f (obj_context r) s) s = Inr s'))"

definition reactor_laws :: "reactor_env \<Rightarrow> bool" where
  "reactor_laws env \<longleftrightarrow> fresh_alloc (obj_alloc env) \<and> others_legal env \<and> callbacks_legal env"

lemma other_step:
  assumes "exec_op env None x s = Inr s'" and "fresh_alloc (obj_alloc env)" and "reg_ok s"
  shows "reg_ok s' \<and> is_running s' = is_running s \<and> set (invalidation_list s) \<subseteq> set (invalidation_list s') \<and>
    fst ` set (objects s) \<subseteq> fst ` set (objects s') \<union> set (invalidation_list s')"
proof (cases x)
  case (OpRegister f c rd wr)
  then obtain q where "reactor_register env f c rd wr s = Inr (q, s')" using assms(1) by (auto simp: exec_op_def)
  from register_step [OF this assms(2,3)] show ?thesis by auto
next
  case (OpChange ob rd wr)
  then obtain b where "reactor_change_registration None ob rd wr s = Inr (b, s')" using assms(1) by (auto simp: exec_op_def)
  from change_step [OF this assms(3)] show ?thesis by auto
next
  case (OpUnregister ob)
  then have "reactor_unregister False ob s = Inr s'" using assms(1) by (simp add: exec_op_def)
  note u = unregister_step [OF this assms(3)]
  then have "fst ` set (objects s') = fst ` set (objects s) - {ob}" by simp
  then show ?thesis using u by auto
next
  case OpStop
  then have "s' = reactor_stop s" using assms(1) by (simp add: exec_op_def)
  then show ?thesis using assms(3) by (simp add: reactor_stop_def reg_ok_def)
qed

lemma other_steps:
  assumes "exec_ops env None xs s = Inr s'" and "fresh_alloc (obj_alloc env)" and "reg_ok s"
  shows "reg_ok s' \<and> is_running s' = is_running s \<and> set (invalidation_list s) \<subseteq> set (invalidation_list s') \<and>
    fst ` set (objects s) \<subseteq> fst ` set (objects s') \<union> set (invalidation_list s')"
  using assms(1,3)
proof (induction xs arbitrary: s)
  case (Cons x xs)
  then obtain s1 where s1: "exec_op env None x s = Inr s1" "exec_ops env None xs s1 = Inr s'" by auto
  note one = other_step [OF s1(1) assms(2) Cons.prems(2)]
  note two = Cons.IH [OF s1(2) conjunct1 [OF one]]
  show ?case using one two by (intro conjI) (simp_all, blast+)
qed simp

text \<open>While a callback of \<open>ob\<close> runs.\<close>

definition in_callback :: "ptr \<Rightarrow> reactor_t \<Rightarrow> bool" where
  "in_callback ob s \<longleftrightarrow>
     reg_ok s \<and> is_running s \<and> ob \<in> fst ` set (objects s) \<and>
     (object_removed s \<longrightarrow> (\<forall>f ev. map_of (epoll_set s) f \<noteq> Some (ob, ev)))"

lemma callback_steps:
  assumes "exec_ops env (Some ob) xs s = Inr s'" and "fresh_alloc (obj_alloc env)" and "in_callback ob s"
    and "own_ops ob (object_removed s) xs"
  shows "in_callback ob s' \<and> invalidation_list s' = invalidation_list s \<and>
    fst ` set (objects s) \<subseteq> fst ` set (objects s') \<and>
    (object_removed s' \<longleftrightarrow> object_removed s \<or> OpUnregister ob \<in> set xs)"
  using assms(1,3,4)
proof (induction xs arbitrary: s)
  case (Cons x xs)
  then obtain s1 where s1: "exec_op env (Some ob) x s = Inr s1" "exec_ops env (Some ob) xs s1 = Inr s'" by auto
  have ok: "reg_ok s" and run: "is_running s" and ob: "ob \<in> fst ` set (objects s)"
    using Cons.prems(2) by (simp_all add: in_callback_def)
  have one: "in_callback ob s1 \<and> invalidation_list s1 = invalidation_list s \<and>
      fst ` set (objects s) \<subseteq> fst ` set (objects s1) \<and> own_ops ob (object_removed s1) xs \<and>
      (object_removed s1 \<longleftrightarrow> object_removed s \<or> x = OpUnregister ob)"
  proof (cases x)
    case (OpRegister f c rd wr)
    then obtain q where "reactor_register env f c rd wr s = Inr (q, s1)" using s1(1) by (auto simp: exec_op_def)
    note r = register_step [OF this assms(2) ok]
    show ?thesis using r(1-5) r(6) [OF ob] ob run Cons.prems(2,3) OpRegister unfolding in_callback_def by auto
  next
    case (OpChange y rd wr)
    then obtain b where "reactor_change_registration (Some ob) y rd wr s = Inr (b, s1)" using s1(1) by (auto simp: exec_op_def)
    note r = change_step [OF this ok]
    show ?thesis using r(1-5) r(6) [of ob] ob run Cons.prems(2,3) OpChange unfolding in_callback_def by auto
  next
    case (OpUnregister y)
    then have "reactor_unregister True y s = Inr s1" using s1(1) by (simp add: exec_op_def)
    note r = unregister_step [OF this ok]
    show ?thesis using r ob run Cons.prems(2,3) OpUnregister unfolding in_callback_def by auto
  next
    case OpStop
    then have "s1 = reactor_stop s" using s1(1) by (simp add: exec_op_def)
    then show ?thesis using Cons.prems(2,3) OpStop by (simp add: in_callback_def reactor_stop_def reg_ok_def)
  qed
  have two: "in_callback ob s' \<and> invalidation_list s' = invalidation_list s1 \<and>
      fst ` set (objects s1) \<subseteq> fst ` set (objects s') \<and>
      (object_removed s' \<longleftrightarrow> object_removed s1 \<or> OpUnregister ob \<in> set xs)"
    using Cons.IH [OF s1(2)] one by blast
  show ?case using one two by auto
qed simp

lemma callbacks_legalD:
  assumes "callbacks_legal env" and "reg_ok s" and "is_running s" and "map_of (objects s) ob = Some r"
    and "f \<in> {read_ready r, write_ready r}"
  shows "own_ops ob False (callback_ops env f (obj_context r) s)"
    and "\<exists>s'. exec_ops env (Some ob) (callback_ops env f (obj_context r) s) s = Inr s'"
  using assms unfolding callbacks_legal_def by blast+

lemma call_ready_ok:
  assumes laws: "reactor_laws env" and cb: "in_callback ob s" "\<not> object_removed s"
    and r: "map_of (objects s) ob = Some r" "f \<in> {read_ready r, write_ready r}"
  shows "\<exists>s'. call_ready env ob f (obj_context r) s = Inr s' \<and> in_callback ob s' \<and>
    invalidation_list s' = invalidation_list s \<and> fst ` set (objects s) \<subseteq> fst ` set (objects s')"
proof -
  let ?s = "s\<lparr>calls := calls s @ [(f, obj_context r)]\<rparr>"
  have cb': "in_callback ob ?s" using cb(1) by (simp add: in_callback_def reg_ok_def)
  have legal: "callbacks_legal env" "reg_ok ?s" "is_running ?s" "map_of (objects ?s) ob = Some r"
    using laws cb' r(1) by (simp_all add: reactor_laws_def in_callback_def)
  note own = callbacks_legalD(1) [OF legal r(2)]
  obtain s' where s': "exec_ops env (Some ob) (callback_ops env f (obj_context r) ?s) ?s = Inr s'"
    using callbacks_legalD(2) [OF legal r(2)] by blast
  have "fresh_alloc (obj_alloc env)" using laws by (simp add: reactor_laws_def)
  from callback_steps [OF s' this cb'] own cb(2) s' show ?thesis
    by (simp add: call_ready_def Let_def)
qed

lemma maybe_call_ok:
  assumes "reactor_laws env" and "in_callback ob s" and "b \<Longrightarrow> \<not> object_removed s"
    and "map_of (objects s) ob = Some r" "f \<in> {read_ready r, write_ready r}"
  obtains s' where "(if b then call_ready env ob f (obj_context r) s else Inr s) = Inr s'" "in_callback ob s'"
    "invalidation_list s' = invalidation_list s" "fst ` set (objects s) \<subseteq> fst ` set (objects s')"
proof (cases b)
  case True
  then show ?thesis using call_ready_ok [OF assms(1,2) assms(3) [OF True] assms(4,5)] that by auto
next
  case False
  then show ?thesis using assms(2) that [of s] by simp
qed

lemma in_callback_deref:
  assumes "in_callback ob s"
  obtains r where "map_of (objects s) ob = Some r"
  using assms unfolding in_callback_def by (metis map_of_None_iff not_None_eq)

lemma dispatch_object_ok:
  assumes laws: "reactor_laws env" and ok: "reg_ok s" "is_running s" and ob: "ob \<in> fst ` set (objects s)"
  shows "\<exists>s'. dispatch_object env ob ev s = Inr s' \<and> reg_ok s' \<and> is_running s' \<and>
    invalidation_list s' = invalidation_list s \<and> fst ` set (objects s) - {ob} \<subseteq> fst ` set (objects s')"
proof -
  let ?s1 = "s\<lparr>object_removed := False\<rparr>"
  have c1: "in_callback ob ?s1" using ok ob by (simp add: in_callback_def reg_ok_def)
  then obtain r where r: "map_of (objects ?s1) ob = Some r" by (rule in_callback_deref)
  obtain s2 where s2: "(if ev AND (EPOLLIN OR EPOLLHUP OR EPOLLRDHUP OR EPOLLERR) \<noteq> 0 \<and> read_ready r \<noteq> NULL
      then call_ready env ob (read_ready r) (obj_context r) ?s1 else Inr ?s1) = Inr s2"
    "in_callback ob s2" "invalidation_list s2 = invalidation_list s" "fst ` set (objects s) \<subseteq> fst ` set (objects s2)"
    by (rule maybe_call_ok [OF laws c1 _ r, where f = "read_ready r" and
          b = "ev AND (EPOLLIN OR EPOLLHUP OR EPOLLRDHUP OR EPOLLERR) \<noteq> 0 \<and> read_ready r \<noteq> NULL"]) auto
  obtain r2 where r2: "map_of (objects s2) ob = Some r2" using s2(2) by (rule in_callback_deref)
  obtain s3 where s3: "(if \<not> object_removed s2 \<and> ev AND EPOLLOUT \<noteq> 0 \<and> write_ready r2 \<noteq> NULL
      then call_ready env ob (write_ready r2) (obj_context r2) s2 else Inr s2) = Inr s3"
    "in_callback ob s3" "invalidation_list s3 = invalidation_list s2" "fst ` set (objects s2) \<subseteq> fst ` set (objects s3)"
    by (rule maybe_call_ok [OF laws s2(2) _ r2, where f = "write_ready r2" and
          b = "\<not> object_removed s2 \<and> ev AND EPOLLOUT \<noteq> 0 \<and> write_ready r2 \<noteq> NULL"]) auto
  obtain r3 where r3: "map_of (objects s3) ob = Some r3" using s3(2) by (rule in_callback_deref)
  let ?s' = "if object_removed s3 then s3\<lparr>objects := release ob (objects s3)\<rparr> else s3"
  have "dispatch_object env ob ev s = Inr ?s'"
    unfolding dispatch_object_def Let_def using r r2 r3 s2(1) s3(1) by simp
  moreover have "reg_ok ?s'"
  proof (cases "object_removed s3")
    case True
    show ?thesis
    proof (rule reg_okI)
      show "NULL \<notin> fst ` set (objects ?s')" using True s3(2) reg_ok_null by (simp add: in_callback_def)
      fix g x e assume "map_of (epoll_set ?s') g = Some (x, e)"
      then have e: "map_of (epoll_set s3) g = Some (x, e)" using True by simp
      then have "x \<noteq> ob" using s3(2) True by (auto simp: in_callback_def)
      moreover obtain c where "map_of (objects s3) x = Some c" "obj_fd c = g"
        using reg_okD [OF _ e] s3(2) by (auto simp: in_callback_def)
      ultimately show "\<exists>r. map_of (objects ?s') x = Some r \<and> obj_fd r = g" using True by simp
    qed
  qed (use s3(2) in \<open>simp add: in_callback_def\<close>)
  moreover have "is_running ?s'" "invalidation_list ?s' = invalidation_list s"
    using s3(2,3) s2(3) by (simp_all add: in_callback_def)
  moreover have "fst ` set (objects s) - {ob} \<subseteq> fst ` set (objects ?s')"
    using s2(4) s3(4) by (cases "object_removed s3") auto
  ultimately show ?thesis by blast
qed

text \<open>
  The events of a batch come from the interest set: no object twice, and each was live when
  \<open>epoll_wait\<close> returned, so at any later moment it is live or in the invalidation list.
\<close>

definition batch_ok :: "(ptr \<times> uint32_t) list \<Rightarrow> reactor_t \<Rightarrow> bool" where
  "batch_ok evs s \<longleftrightarrow>
     distinct (filter (\<lambda>p. p \<noteq> NULL) (map fst evs)) \<and>
     (\<forall>p \<in> set (map fst evs). p = NULL \<or> p \<in> fst ` set (objects s) \<or> p \<in> set (invalidation_list s))"

lemma run_events_ok:
  assumes "reactor_laws env" and "reg_ok s" and "is_running s" and "batch_ok evs s"
  shows "\<exists>status s'. run_events env j evs s = Inr (status, s') \<and> reg_ok s' \<and>
    status \<in> {None, Some REACTOR_STATUS_STOP} \<and> (is_running s' \<longleftrightarrow> status = None)"
  using assms(2-4)
proof (induction evs arbitrary: j s)
  case (Cons e evs)
  obtain ob ev where e: "e = (ob, ev)" by (cases e)
  have fresh: "fresh_alloc (obj_alloc env)" and "others_legal env" using assms(1) by (simp_all add: reactor_laws_def)
  then obtain s1 where s1: "exec_ops env None (other_ops env j s) s = Inr s1"
    using Cons.prems(1) unfolding others_legal_def by blast
  note one = other_steps [OF s1 fresh Cons.prems(1)]
  have tail: "batch_ok evs s'" if "invalidation_list s' = invalidation_list s1"
    "fst ` set (objects s1) - {ob} \<subseteq> fst ` set (objects s')" "ob \<noteq> NULL" for s'
  proof -
    have "p = NULL \<or> p \<in> fst ` set (objects s') \<or> p \<in> set (invalidation_list s')" if p: "p \<in> set (map fst evs)" for p
    proof -
      have "p = NULL \<or> p \<in> fst ` set (objects s) \<or> p \<in> set (invalidation_list s)"
        using Cons.prems(3) p e by (auto simp: batch_ok_def)
      moreover have "p \<noteq> ob \<or> p = NULL" using Cons.prems(3) p e \<open>ob \<noteq> NULL\<close> by (auto simp: batch_ok_def)
      moreover have "p \<in> fst ` set (objects s1) \<or> p \<in> set (invalidation_list s1)"
        if "p \<in> fst ` set (objects s) \<or> p \<in> set (invalidation_list s)"
        using that one by blast
      moreover have "p \<in> fst ` set (objects s')" if "p \<in> fst ` set (objects s1)" "p \<noteq> ob"
        using that \<open>fst ` set (objects s1) - {ob} \<subseteq> _\<close> by blast
      ultimately show ?thesis using \<open>invalidation_list s' = _\<close> by metis
    qed
    moreover have "distinct (filter (\<lambda>p. p \<noteq> NULL) (map fst evs))"
      using Cons.prems(3) by (auto simp: batch_ok_def split: if_splits)
    ultimately show ?thesis by (simp add: batch_ok_def)
  qed
  consider "ob = NULL" | "ob \<noteq> NULL" "ob \<in> set (invalidation_list s1)"
    | "ob \<noteq> NULL" "ob \<notin> set (invalidation_list s1)" "ob \<in> fst ` set (objects s1)"
  proof -
    have "ob = NULL \<or> ob \<in> fst ` set (objects s) \<or> ob \<in> set (invalidation_list s)"
      using Cons.prems(3) e by (simp add: batch_ok_def)
    then have "ob = NULL \<or> ob \<in> fst ` set (objects s1) \<or> ob \<in> set (invalidation_list s1)" using one by blast
    then show ?thesis using that by blast
  qed
  then show ?case
  proof cases
    case 1
    then show ?thesis using e s1 one by (simp add: reg_ok_def)
  next
    case 2
    have "batch_ok evs s1" by (rule tail) (use 2 in auto)
    with Cons.IH [of s1 "Suc j"] one Cons.prems(2) show ?thesis using 2 e s1 by simp
  next
    case 3
    obtain s2 where s2: "dispatch_object env ob ev s1 = Inr s2" "reg_ok s2" "is_running s2"
      "invalidation_list s2 = invalidation_list s1" "fst ` set (objects s1) - {ob} \<subseteq> fst ` set (objects s2)"
      using dispatch_object_ok [OF assms(1), of s1 ob ev] one Cons.prems(2) 3 by blast
    have "batch_ok evs s2" by (rule tail) (use 3 s2 in auto)
    with Cons.IH [of s2 "Suc j"] s2 show ?thesis using 3 e s1 by simp
  qed
qed simp

section \<open>Properties\<close>

lemma epoll_wait_loop_interrupted: "w \<noteq> Interrupted \<Longrightarrow> epoll_wait_loop (replicate n Interrupted @ w # ws) = Some (w, ws)"
  by (induction n) auto

text \<open>
  Two objects, of which the first unregisters itself in its callback while another thread
  unregisters the second before its event is handled.
\<close>

definition demo_reactor :: reactor_t where
  "demo_reactor = \<lparr>epoll_set = [(3, 16, 0x2001), (4, 32, 0x2001)], event_count = 0, invalidation_list = [],
     is_running = False, object_removed = False,
     objects = [(16, \<lparr>obj_fd = 3, obj_context = 16, read_ready = 7, write_ready = NULL\<rparr>),
                (32, \<lparr>obj_fd = 4, obj_context = 32, read_ready = 8, write_ready = NULL\<rparr>)],
     calls = []\<rparr>"

definition demo_reactor_env :: reactor_env where
  "demo_reactor_env = \<lparr>obj_alloc = arena_alloc [16, 32, 48], ctl_accepts = (\<lambda>_. True),
     callback_ops = (\<lambda>f ctx s. if f = 7 \<and> ctx \<noteq> NULL \<and> ctx \<in> set (live (objects s)) \<and>
         (\<forall>x \<in> set (objects s). obj_context (snd x) = ctx \<longrightarrow> fst x = ctx) then [OpUnregister ctx] else []),
     other_ops = (\<lambda>j s. if j = 1 \<and> 32 \<in> set (live (objects s)) then [OpUnregister 32] else [])\<rparr>"

lemma unregister_live:
  assumes "p \<noteq> NULL" and "p \<in> fst ` set (objects s)"
  shows "\<exists>s'. reactor_unregister rt p s = Inr s'"
proof -
  obtain r where "map_of (objects s) p = Some r" using assms(2) by (metis map_of_None_iff not_None_eq)
  then show ?thesis using assms(1) by (simp add: reactor_unregister_def Let_def)
qed

lemma demo_reactor_laws: "reactor_laws demo_reactor_env"
proof -
  have "others_legal demo_reactor_env"
    using unregister_live [of 32] by (auto simp: others_legal_def demo_reactor_env_def exec_op_def)
  moreover have "callbacks_legal demo_reactor_env"
    unfolding callbacks_legal_def
  proof (intro allI impI)
    fix s :: reactor_t and ob f and r :: reactor_object_t assume r: "map_of (objects s) ob = Some r"
    let ?xs = "callback_ops demo_reactor_env f (obj_context r) s"
    have mem: "(ob, r) \<in> set (objects s)" using r by (rule map_of_SomeD)
    show "own_ops ob False ?xs \<and> (\<exists>s'. exec_ops demo_reactor_env (Some ob) ?xs s = Inr s')"
    proof (cases "?xs = []")
      case False
      then have c: "?xs = [OpUnregister (obj_context r)]" "obj_context r \<noteq> NULL" "obj_context r \<in> fst ` set (objects s)"
        "\<forall>x \<in> set (objects s). obj_context (snd x) = obj_context r \<longrightarrow> fst x = obj_context r"
        by (simp_all add: demo_reactor_env_def split: if_splits)
      have "obj_context r = ob" using bspec [OF c(4) mem] by simp
      then show ?thesis using c(1-3) unregister_live [of ob s True] by (auto simp: exec_op_def)
    qed simp
  qed
  ultimately show ?thesis by (simp add: reactor_laws_def) (simp add: demo_reactor_env_def)
qed

text \<open>
  C8. No use of a freed object: with clients that make legal calls (callbacks on the loop's thread
  unregister at most their own object and change the registration of other objects only; other
  threads register, change and unregister anything between two events), one round of the reactor over any batch of events returns: every object it touches
  is live, also when objects of the batch are unregistered before their event is handled; and
  afterwards the kernel's interest set still points to live objects only.
\<close>

theorem reactor_round_safe:
  assumes "reactor_laws env" and "reg_ok s" and "batch_ok evs (s\<lparr>invalidation_list := []\<rparr>)"
  shows "\<exists>status s'. reactor_run_once env (replicate n Interrupted @ Events evs # ws) s = Inr (status, s') \<and>
    reg_ok s' \<and> \<not> is_running s' \<and>
    status \<in> {REACTOR_STATUS_DONE, REACTOR_STATUS_STOP}"
proof -
  let ?s = "s\<lparr>is_running := True, invalidation_list := []\<rparr>"
  have "reg_ok ?s" "is_running ?s" "batch_ok evs ?s" using assms(2,3) by (simp_all add: reg_ok_def batch_ok_def)
  from run_events_ok [OF assms(1) this, of 0] obtain status s' where
    run: "run_events env 0 evs ?s = Inr (status, s')" "reg_ok s'" "status \<in> {None, Some REACTOR_STATUS_STOP}"
      "is_running s' \<longleftrightarrow> status = None"
    by blast
  have "reactor_run_once env (replicate n Interrupted @ Events evs # ws) s =
      (case status of Some st \<Rightarrow> Inr (st, s') | None \<Rightarrow> Inr (REACTOR_STATUS_DONE, s'\<lparr>is_running := False\<rparr>))"
    using run(1)
    by (simp add: reactor_run_once_def run_reactor_def reactor_loop.simps [of _ "Some (Suc 0)"]
        reactor_loop.simps [of _ "Some 0"] epoll_wait_loop_interrupted Let_def split: option.split)
  then show ?thesis using run(2-4) by (auto simp: reg_ok_def)
qed

theorem reactor_round_safe_witness:
  "reactor_laws demo_reactor_env \<and>
   (\<exists>status s'. reactor_run_once demo_reactor_env [Interrupted, Events [(16, EPOLLIN), (32, EPOLLIN)]] demo_reactor =
      Inr (status, s') \<and> reg_ok s')"
proof -
  have ok: "reg_ok demo_reactor"
    by (rule reg_okI) (auto simp: demo_reactor_def split: if_splits)
  have batch: "batch_ok [(16, EPOLLIN), (32, EPOLLIN)] (demo_reactor\<lparr>invalidation_list := []\<rparr>)"
    by (simp add: batch_ok_def demo_reactor_def)
  from reactor_round_safe [OF demo_reactor_laws ok batch, of 1 "[]"] demo_reactor_laws show ?thesis by auto
qed

text \<open>
  Changing the own registration in a callback: the loop holds the lock of the object during the
  callback and \<open>reactor_change_registration\<close> takes it again, so the loop never comes back.
\<close>

theorem reactor_self_change_deadlock:
  assumes "map_of (objects s) ob = Some r" and "ob \<noteq> NULL" and "map_of (epoll_set s) (obj_fd r) = Some (ob, m)"
    and "read_ready r \<noteq> NULL" and "ev AND (EPOLLIN OR EPOLLHUP OR EPOLLRDHUP OR EPOLLERR) \<noteq> 0"
    and "\<forall>s. callback_ops env (read_ready r) (obj_context r) s = OpChange ob rd wr # xs"
  shows "dispatch_object env ob ev s = Inl Blocks"
  using assms
  by (simp add: dispatch_object_def call_ready_def exec_op_def reactor_change_registration_def Let_def
      del: map_of_None_iff)

theorem reactor_self_change_deadlock_witness:
  "dispatch_object (demo_reactor_env\<lparr>callback_ops := \<lambda>_ _ _. [OpChange 16 7 8]\<rparr>) 16 EPOLLIN demo_reactor = Inl Blocks"
proof (rule reactor_self_change_deadlock)
  show "EPOLLIN AND (EPOLLIN OR EPOLLHUP OR EPOLLRDHUP OR EPOLLERR) \<noteq> 0"
    by (simp add: EPOLLIN_def EPOLLHUP_def EPOLLRDHUP_def EPOLLERR_def)
  show "map_of (objects demo_reactor) 16 = Some \<lparr>obj_fd = 3, obj_context = 16, read_ready = 7, write_ready = NULL\<rparr>"
    by (simp add: demo_reactor_def)
qed (simp_all add: demo_reactor_def)

text \<open>What the callbacks of one event are.\<close>

definition event_calls :: "reactor_t \<Rightarrow> ptr \<times> uint32_t \<Rightarrow> (ptr \<times> ptr) list" where
  "event_calls s e =
     (case map_of (objects s) (fst e) of None \<Rightarrow> []
      | Some r \<Rightarrow>
          (if snd e AND (EPOLLIN OR EPOLLHUP OR EPOLLRDHUP OR EPOLLERR) \<noteq> 0 \<and> read_ready r \<noteq> NULL
           then [(read_ready r, obj_context r)] else []) @
          (if snd e AND EPOLLOUT \<noteq> 0 \<and> write_ready r \<noteq> NULL then [(write_ready r, obj_context r)] else []))"

definition quiet :: "reactor_env \<Rightarrow> bool" where
  "quiet env \<longleftrightarrow> (\<forall>f ctx s. callback_ops env f ctx s = []) \<and> (\<forall>j s. other_ops env j s = [])"

lemma event_calls_cong: "objects s' = objects s \<Longrightarrow> event_calls s' = event_calls s"
  by (simp add: event_calls_def fun_eq_iff)

lemma dispatch_quiet:
  assumes "quiet env" and "p \<in> fst ` set (objects s)"
  shows "dispatch_object env p ev s = Inr (s\<lparr>object_removed := False, calls := calls s @ event_calls s (p, ev)\<rparr>)"
proof -
  obtain r where "map_of (objects s) p = Some r" using assms(2) by (metis map_of_None_iff not_None_eq)
  then show ?thesis using assms(1) by (simp add: dispatch_object_def event_calls_def call_ready_def quiet_def Let_def)
qed

text \<open>
  Dispatching: with callbacks that leave the reactor alone, the events of a batch up to the
  stop event are handled in order: for every object that is not invalidated, its read function
  is called for input, hang-up or error, then its write function for output, each with the
  object's context; nothing behind a stop event is handled, the stop counter is reset and the
  status is STOP.
\<close>

theorem reactor_dispatch_order:
  assumes "quiet env" and "batch_ok evs s"
  shows "\<exists>s'. run_events env j evs s =
      Inr (if NULL \<in> fst ` set evs then Some REACTOR_STATUS_STOP else None, s') \<and>
    calls s' = calls s @ concat (map (event_calls s)
      (filter (\<lambda>e. fst e \<notin> set (invalidation_list s)) (takeWhile (\<lambda>e. fst e \<noteq> NULL) evs))) \<and>
    objects s' = objects s \<and> epoll_set s' = epoll_set s \<and>
    (NULL \<in> fst ` set evs \<longrightarrow> event_count s' = 0 \<and> \<not> is_running s')"
  using assms(2)
proof (induction evs arbitrary: j s)
  case (Cons e evs)
  obtain p ev where e: "e = (p, ev)" by (cases e)
  have others: "other_ops env j s = []" using assms(1) by (simp add: quiet_def)
  have tail: "batch_ok evs s" using Cons.prems by (auto simp: batch_ok_def split: if_splits)
  consider "p = NULL" | "p \<noteq> NULL" "p \<in> set (invalidation_list s)"
    | "p \<noteq> NULL" "p \<notin> set (invalidation_list s)" "p \<in> fst ` set (objects s)"
    using Cons.prems e by (auto simp: batch_ok_def)
  then show ?case
  proof cases
    case 1
    then show ?thesis using e others by simp
  next
    case 2
    then show ?thesis using e others Cons.IH [OF tail, of "Suc j"] by simp
  next
    case 3
    let ?s = "s\<lparr>object_removed := False, calls := calls s @ event_calls s (p, ev)\<rparr>"
    have "batch_ok evs ?s" using tail by (simp add: batch_ok_def)
    from Cons.IH [OF this, of "Suc j"] show ?thesis
      using 3 e others dispatch_quiet [OF assms(1) 3(3)] by (simp add: event_calls_cong [of ?s s])
  qed
qed simp

theorem reactor_dispatch_order_witness:
  "\<exists>s'. run_events (demo_reactor_env\<lparr>callback_ops := \<lambda>_ _ _. [], other_ops := \<lambda>_ _. []\<rparr>) 0
      [(32, EPOLLIN), (NULL, EPOLLIN), (16, EPOLLIN)] demo_reactor = Inr (Some REACTOR_STATUS_STOP, s') \<and>
    calls s' = [(8, 32)]"
proof -
  have quiet: "quiet (demo_reactor_env\<lparr>callback_ops := \<lambda>_ _ _. [], other_ops := \<lambda>_ _. []\<rparr>)" by (simp add: quiet_def)
  have batch: "batch_ok [(32, EPOLLIN), (NULL, EPOLLIN), (16, EPOLLIN)] demo_reactor"
    by (simp add: batch_ok_def demo_reactor_def)
  have "EPOLLIN AND (EPOLLIN OR EPOLLHUP OR EPOLLRDHUP OR EPOLLERR) \<noteq> 0" "EPOLLIN AND EPOLLOUT = 0"
    by (simp_all add: EPOLLIN_def EPOLLHUP_def EPOLLRDHUP_def EPOLLERR_def EPOLLOUT_def)
  then have "event_calls demo_reactor (32, EPOLLIN) = [(8, 32)]"
    by (simp add: event_calls_def demo_reactor_def)
  with reactor_dispatch_order [OF quiet batch, of 0] show ?thesis
    by (auto simp: demo_reactor_def)
qed

text \<open>
  C38. Unregistering another object on the loop's thread: the flag \<open>object_removed\<close> does not say which
  object was removed. When a callback of one object unregisters a different one, the loop frees
  the object whose callback ran, which is still registered with the kernel, and the other one is
  never freed.
\<close>

theorem reactor_unregister_other_object:
  assumes "reg_ok s" and "is_running s" and "map_of (objects s) ob = Some r" and "map_of (objects s) x = Some r'"
    and "x \<noteq> ob" and "map_of (epoll_set s) (obj_fd r) = Some (ob, m)" and "read_ready r \<noteq> NULL" and "obj_fd r' \<noteq> obj_fd r"
    and "ev AND (EPOLLIN OR EPOLLHUP OR EPOLLRDHUP OR EPOLLERR) \<noteq> 0"
    and "\<forall>s. callback_ops env (read_ready r) (obj_context r) s = [OpUnregister x]"
  shows "\<exists>s'. dispatch_object env ob ev s = Inr s' \<and> ob \<notin> fst ` set (objects s') \<and>
    map_of (epoll_set s') (obj_fd r) = Some (ob, m) \<and> x \<in> fst ` set (objects s') \<and>
    map_of (epoll_set s') (obj_fd r') = None \<and> \<not> reg_ok s'"
proof -
  have x: "x \<noteq> NULL" "x \<in> fst ` set (objects s)" using assms(1,4) reg_ok_null map_of_in_live by metis+
  let ?s2 = "s\<lparr>object_removed := True, calls := calls s @ [(read_ready r, obj_context r)],
     epoll_set := AList.delete (obj_fd r') (epoll_set s)\<rparr>"
  let ?s' = "?s2\<lparr>objects := release ob (objects s)\<rparr>"
  have run: "dispatch_object env ob ev s = Inr ?s'"
    using assms(2,3,4,7,9,10) x(1)
    by (simp add: dispatch_object_def call_ready_def exec_op_def reactor_unregister_def Let_def)
  have still: "map_of (epoll_set ?s') (obj_fd r) = Some (ob, m)" using assms(6,8) by simp
  have "\<not> reg_ok ?s'"
  proof
    assume "reg_ok ?s'"
    from reg_okD [OF this still] show False by auto
  qed
  then show ?thesis using run still x(2) assms(5) by (intro exI [of _ ?s']) simp
qed

theorem reactor_unregister_other_object_witness:
  "\<exists>s'. dispatch_object (demo_reactor_env\<lparr>callback_ops := \<lambda>_ _ _. [OpUnregister 32]\<rparr>) 16 EPOLLIN
      (demo_reactor\<lparr>is_running := True\<rparr>) = Inr s' \<and> 16 \<notin> fst ` set (objects s') \<and> 32 \<in> fst ` set (objects s') \<and> \<not> reg_ok s'"
proof -
  let ?s = "demo_reactor\<lparr>is_running := True\<rparr>"
  let ?r = "\<lparr>obj_fd = 3, obj_context = 16, read_ready = 7, write_ready = NULL\<rparr>"
  let ?r' = "\<lparr>obj_fd = 4, obj_context = 32, read_ready = 8, write_ready = NULL\<rparr>"
  have ok: "reg_ok ?s" by (rule reg_okI) (auto simp: demo_reactor_def split: if_splits)
  have ev: "EPOLLIN AND (EPOLLIN OR EPOLLHUP OR EPOLLRDHUP OR EPOLLERR) \<noteq> 0"
    by (simp add: EPOLLIN_def EPOLLHUP_def EPOLLRDHUP_def EPOLLERR_def)
  have facts: "is_running ?s" "map_of (objects ?s) 16 = Some ?r" "map_of (objects ?s) 32 = Some ?r'" "(32 :: ptr) \<noteq> 16"
    "map_of (epoll_set ?s) (obj_fd ?r) = Some (16, 0x2001)" "read_ready ?r \<noteq> NULL" "obj_fd ?r' \<noteq> obj_fd ?r"
    by (simp_all add: demo_reactor_def)
  show ?thesis
    using reactor_unregister_other_object [OF ok facts ev, of "demo_reactor_env\<lparr>callback_ops := \<lambda>_ _ _. [OpUnregister 32]\<rparr>"]
    by auto
qed

end
