(* ===== verification/ReactorThreads.thy ===== *)
theory ReactorThreads
  imports Reactor Steps
begin

unbundle bit_operations_syntax

text \<open>
  The event loop of \<open>src/reactor.c\<close> and other threads that register, change and unregister objects
  while it runs. The locks are explicit, with the thread that holds them: \<open>list_lock\<close>, around every
  access to the invalidation list, which the loop keeps from the test of the list until it holds the
  lock of the object; and the lock of each object, which the loop keeps during the callbacks,
  \<open>reactor_change_registration\<close> takes to write the callbacks and \<open>reactor_unregister\<close> takes before it
  frees the object. One step is one system call, one lock operation, or one access to the shared data.
  The allocation of \<open>reactor_register\<close> goes with its \<open>epoll_ctl\<close>: before it no other thread
  knows the object.

  A callback may unregister its own object, or change its registration. The second is a deadlock in the
  code, and it is here: the loop waits for a lock it holds itself (\<open>LStuck\<close>). What callbacks do to
  other objects is in the theory of the reactor, not here.

  The theory proves the argument in the comment of \<open>reactor_unregister\<close>: once it has had the lock
  of the object, the loop has no reference to it that it will follow; nothing is used after it
  was freed, although events of freed objects may still be in the batch and addresses may be
  used again. It also shows who waits for whom: apart from the callback that changes its own
  registration there is no deadlock.

  Clients act on an object only while it is registered, one thread at a time for each object.
  That the loop stops needs no step: a run may end anywhere.
\<close>

section \<open>The system\<close>

type_synonym events = "(ptr \<times> uint32_t) list"

text \<open>Where the loop is in \<open>run_reactor\<close>: the object and mask of the current event, and the events left.\<close>

datatype loop_pc =
    LTop | LClear | LCleared | LWait | LEvents events
  | LCheck ptr uint32_t events | LSkip events | LGrab ptr uint32_t events | LTaken ptr uint32_t events | LReady ptr uint32_t events
  | LStuck ptr | LRead ptr uint32_t events | LWrite ptr uint32_t events | LUnlock ptr events | LFree ptr events

text \<open>Where another thread is: in \<open>reactor_unregister\<close> or in \<open>reactor_change_registration\<close> of an object.\<close>

datatype client_pc =
    Resting
  | UDel ptr | UList ptr | UAppend ptr | UListUnlock ptr | ULock ptr | UUnlock ptr | UFree ptr
  | CMod ptr ptr ptr | CLock ptr ptr ptr | CSet ptr ptr ptr | CUnlock ptr

datatype holder = LoopThread | Client nat

record reactor_world =
  shared :: reactor_t
  lpc :: loop_pc
  clients :: "nat \<Rightarrow> client_pc"
  list_lock :: "holder option"
  obj_lock :: "ptr \<Rightarrow> holder option"
  used_freed :: bool

definition registered :: "reactor_t \<Rightarrow> ptr set" where
  "registered s = {p. \<exists>f ev. map_of (epoll_set s) f = Some (p, ev)}"

fun target :: "client_pc \<Rightarrow> ptr option" where
  "target Resting = None"
| "target (UDel p) = Some p" | "target (UList p) = Some p" | "target (UAppend p) = Some p" | "target (UListUnlock p) = Some p"
| "target (ULock p) = Some p" | "target (UUnlock p) = Some p" | "target (UFree p) = Some p"
| "target (CMod p rd wr) = Some p" | "target (CLock p rd wr) = Some p" | "target (CSet p rd wr) = Some p" | "target (CUnlock p) = Some p"

definition targeted :: "reactor_world \<Rightarrow> ptr \<Rightarrow> bool" where
  "targeted x p \<longleftrightarrow> (\<exists>i. target (clients x i) = Some p)"

definition go :: "nat \<Rightarrow> client_pc \<Rightarrow> reactor_world \<Rightarrow> reactor_world" where
  "go i c x = x\<lparr>clients := (clients x)(i := c)\<rparr>"

text \<open>Every access to an object: \<open>y\<close> is the state after it.\<close>

definition touch :: "ptr \<Rightarrow> reactor_world \<Rightarrow> (reactor_object_t \<Rightarrow> reactor_world) \<Rightarrow> reactor_world" where
  "touch p x y = (case map_of (objects (shared x)) p of None \<Rightarrow> x\<lparr>used_freed := True\<rparr> | Some r \<Rightarrow> y r)"

definition wants_read :: "uint32_t \<Rightarrow> reactor_object_t \<Rightarrow> bool" where
  "wants_read events r \<longleftrightarrow> events AND (EPOLLIN OR EPOLLHUP OR EPOLLRDHUP OR EPOLLERR) \<noteq> 0 \<and> read_ready r \<noteq> NULL"

definition wants_write :: "uint32_t \<Rightarrow> reactor_object_t \<Rightarrow> bool" where
  "wants_write events r \<longleftrightarrow> events AND EPOLLOUT \<noteq> 0 \<and> write_ready r \<noteq> NULL"

definition log_call :: "ptr \<Rightarrow> ptr \<Rightarrow> reactor_t \<Rightarrow> reactor_t" where
  "log_call f ctx s = s\<lparr>calls := calls s @ [(f, ctx)]\<rparr>"

text \<open>
  A callback \<open>f\<close> of the object \<open>p\<close>; \<open>own\<close> says whether it unregisters its object, which happens on
  the thread of the loop.
\<close>

definition run_callback :: "bool \<Rightarrow> ptr \<Rightarrow> ptr \<Rightarrow> reactor_object_t \<Rightarrow> reactor_t \<Rightarrow> reactor_t" where
  "run_callback own p f r s =
     (let s1 = log_call f (obj_context r) s in
      if own then (case reactor_unregister True p s1 of Inl _ \<Rightarrow> s1 | Inr s2 \<Rightarrow> s2) else s1)"

text \<open>The \<open>epoll_ctl\<close> of \<open>reactor_change_registration\<close>, when it succeeds.\<close>

definition change_events :: "ptr \<Rightarrow> reactor_object_t \<Rightarrow> ptr \<Rightarrow> ptr \<Rightarrow> reactor_t \<Rightarrow> reactor_t" where
  "change_events p r rd wr s = s\<lparr>epoll_set := AList.update (obj_fd r) (p, registration_events rd wr) (epoll_set s)\<rparr>"

text \<open>
  In \<open>l_stuck\<close> a callback changes the registration of its own object: the \<open>epoll_ctl\<close> is done, then the
  thread waits for the lock of the object, which it holds.
\<close>

inductive loop_step :: "reactor_world \<Rightarrow> reactor_world \<Rightarrow> bool" where
  l_top: "lpc x = LTop \<Longrightarrow> list_lock x = None \<Longrightarrow> loop_step x (x\<lparr>lpc := LClear, list_lock := Some LoopThread\<rparr>)"
| l_clear: "lpc x = LClear \<Longrightarrow> loop_step x (x\<lparr>lpc := LCleared, shared := (shared x)\<lparr>invalidation_list := []\<rparr>\<rparr>)"
| l_cleared: "lpc x = LCleared \<Longrightarrow> loop_step x (x\<lparr>lpc := LWait, list_lock := None\<rparr>)"
| l_wait: "lpc x = LWait \<Longrightarrow> evs \<noteq> [] \<Longrightarrow> distinct (map fst evs) \<Longrightarrow> fst ` set evs \<subseteq> registered (shared x) \<Longrightarrow>
    loop_step x (x\<lparr>lpc := LEvents evs\<rparr>)"
| l_next: "lpc x = LEvents [] \<Longrightarrow> loop_step x (x\<lparr>lpc := LTop\<rparr>)"
| l_lock: "lpc x = LEvents ((p, e) # r) \<Longrightarrow> list_lock x = None \<Longrightarrow>
    loop_step x (x\<lparr>lpc := LCheck p e r, list_lock := Some LoopThread\<rparr>)"
| l_found: "lpc x = LCheck p e r \<Longrightarrow> p \<in> set (invalidation_list (shared x)) \<Longrightarrow> loop_step x (x\<lparr>lpc := LSkip r\<rparr>)"
| l_skip: "lpc x = LSkip r \<Longrightarrow> loop_step x (x\<lparr>lpc := LEvents r, list_lock := None\<rparr>)"
| l_test: "lpc x = LCheck p e r \<Longrightarrow> p \<notin> set (invalidation_list (shared x)) \<Longrightarrow> loop_step x (x\<lparr>lpc := LGrab p e r\<rparr>)"
| l_grab: "lpc x = LGrab p e r \<Longrightarrow> obj_lock x p = None \<Longrightarrow>
    loop_step x (touch p x (\<lambda>_. x\<lparr>lpc := LTaken p e r, obj_lock := (obj_lock x)(p := Some LoopThread)\<rparr>))"
| l_drop: "lpc x = LTaken p e r \<Longrightarrow> loop_step x (x\<lparr>lpc := LReady p e r, list_lock := None\<rparr>)"
| l_ready: "lpc x = LReady p e r \<Longrightarrow> loop_step x (x\<lparr>lpc := LRead p e r, shared := (shared x)\<lparr>object_removed := False\<rparr>\<rparr>)"
| l_read: "lpc x = LRead p e r \<Longrightarrow> own \<longrightarrow> \<not> targeted x p \<and> p \<in> registered (shared x) \<Longrightarrow>
    loop_step x (touch p x (\<lambda>ob. x\<lparr>lpc := LWrite p e r,
      shared := if wants_read e ob then run_callback own p (read_ready ob) ob (shared x) else shared x\<rparr>))"
| l_write: "lpc x = LWrite p e r \<Longrightarrow> own \<longrightarrow> \<not> targeted x p \<and> p \<in> registered (shared x) \<Longrightarrow>
    loop_step x (touch p x (\<lambda>ob. x\<lparr>lpc := LUnlock p r,
      shared := if \<not> object_removed (shared x) \<and> wants_write e ob
        then run_callback own p (write_ready ob) ob (shared x) else shared x\<rparr>))"
| l_stuck: "lpc x = LRead p e r \<and> wants_read e ob \<and> f = read_ready ob \<or>
      lpc x = LWrite p e r \<and> \<not> object_removed (shared x) \<and> wants_write e ob \<and> f = write_ready ob \<Longrightarrow>
    map_of (objects (shared x)) p = Some ob \<Longrightarrow> \<not> targeted x p \<and> p \<in> registered (shared x) \<Longrightarrow>
    loop_step x (x\<lparr>lpc := LStuck p, shared := change_events p ob rd wr (log_call f (obj_context ob) (shared x))\<rparr>)"
| l_unlock: "lpc x = LUnlock p r \<Longrightarrow>
    loop_step x (touch p x (\<lambda>_. x\<lparr>lpc := if object_removed (shared x) then LFree p r else LEvents r,
      obj_lock := (obj_lock x)(p := None)\<rparr>))"
| l_free: "lpc x = LFree p r \<Longrightarrow>
    loop_step x (touch p x (\<lambda>_. x\<lparr>lpc := LEvents r, shared := (shared x)\<lparr>objects := release p (objects (shared x))\<rparr>\<rparr>))"

inductive client_step :: "reactor_env \<Rightarrow> nat \<Rightarrow> reactor_world \<Rightarrow> reactor_world \<Rightarrow> bool" for env i where
  c_register: "clients x i = Resting \<Longrightarrow> reactor_register env f ctx rd wr (shared x) = Inr (p, s) \<Longrightarrow>
    client_step env i x (x\<lparr>shared := s\<rparr>)"
| u_begin: "clients x i = Resting \<Longrightarrow> p \<in> registered (shared x) \<Longrightarrow> \<not> targeted x p \<Longrightarrow> client_step env i x (go i (UDel p) x)"
| u_del: "clients x i = UDel p \<Longrightarrow>
    client_step env i x (touch p x (\<lambda>r. go i (UList p)
      (x\<lparr>shared := (shared x)\<lparr>epoll_set := AList.delete (obj_fd r) (epoll_set (shared x))\<rparr>\<rparr>)))"
| u_list: "clients x i = UList p \<Longrightarrow> list_lock x = None \<Longrightarrow> client_step env i x (go i (UAppend p) (x\<lparr>list_lock := Some (Client i)\<rparr>))"
| u_append: "clients x i = UAppend p \<Longrightarrow>
    client_step env i x (go i (UListUnlock p)
      (x\<lparr>shared := (shared x)\<lparr>invalidation_list := invalidation_list (shared x) @ [p]\<rparr>\<rparr>))"
| u_list_unlock: "clients x i = UListUnlock p \<Longrightarrow> client_step env i x (go i (ULock p) (x\<lparr>list_lock := None\<rparr>))"
| u_lock: "clients x i = ULock p \<Longrightarrow> obj_lock x p = None \<Longrightarrow>
    client_step env i x (touch p x (\<lambda>_. go i (UUnlock p) (x\<lparr>obj_lock := (obj_lock x)(p := Some (Client i))\<rparr>)))"
| u_unlock: "clients x i = UUnlock p \<Longrightarrow>
    client_step env i x (touch p x (\<lambda>_. go i (UFree p) (x\<lparr>obj_lock := (obj_lock x)(p := None)\<rparr>)))"
| u_free: "clients x i = UFree p \<Longrightarrow>
    client_step env i x (touch p x (\<lambda>_. go i Resting
      (x\<lparr>shared := (shared x)\<lparr>objects := release p (objects (shared x))\<rparr>\<rparr>)))"
| c_begin: "clients x i = Resting \<Longrightarrow> p \<in> registered (shared x) \<Longrightarrow> \<not> targeted x p \<Longrightarrow>
    client_step env i x (go i (CMod p rd wr) x)"
| c_mod: "clients x i = CMod p rd wr \<Longrightarrow>
    client_step env i x (touch p x (\<lambda>r.
      if map_of (epoll_set (shared x)) (obj_fd r) = None then go i Resting x
      else go i (CLock p rd wr) (x\<lparr>shared := change_events p r rd wr (shared x)\<rparr>)))"
| c_mod_fails: "clients x i = CMod p rd wr \<Longrightarrow> client_step env i x (touch p x (\<lambda>_. go i Resting x))"
| c_lock: "clients x i = CLock p rd wr \<Longrightarrow> obj_lock x p = None \<Longrightarrow>
    client_step env i x (touch p x (\<lambda>_. go i (CSet p rd wr) (x\<lparr>obj_lock := (obj_lock x)(p := Some (Client i))\<rparr>)))"
| c_unlock: "clients x i = CUnlock p \<Longrightarrow>
    client_step env i x (touch p x (\<lambda>_. go i Resting (x\<lparr>obj_lock := (obj_lock x)(p := None)\<rparr>)))"
| c_set: "clients x i = CSet p rd wr \<Longrightarrow>
    client_step env i x (touch p x (\<lambda>r. go i (CUnlock p) (x\<lparr>shared := (shared x)\<lparr>objects :=
      store_at p (r\<lparr>read_ready := rd, write_ready := wr\<rparr>) (objects (shared x))\<rparr>\<rparr>)))"

definition reactor_step :: "reactor_env \<Rightarrow> reactor_world \<Rightarrow> reactor_world \<Rightarrow> bool" where
  "reactor_step env x y \<longleftrightarrow> loop_step x y \<or> (\<exists>i. client_step env i x y)"

text \<open>A reactor that starts to run, with the objects that were registered before.\<close>

definition reactor_start_world :: "reactor_t \<Rightarrow> reactor_world" where
  "reactor_start_world s = \<lparr>shared = s\<lparr>is_running := True\<rparr>, lpc = LTop, clients = \<lambda>_. Resting, list_lock = None,
     obj_lock = \<lambda>_. None, used_freed = False\<rparr>"

section \<open>The invariant\<close>

fun gone :: "client_pc \<Rightarrow> ptr option" where
  "gone (UList p) = Some p" | "gone (UAppend p) = Some p" | "gone (UListUnlock p) = Some p" | "gone (ULock p) = Some p" | "gone (UUnlock p) = Some p" | "gone (UFree p) = Some p"
| "gone _ = None"

fun past :: "client_pc \<Rightarrow> ptr option" where
  "past (UListUnlock p) = Some p" | "past (ULock p) = Some p" | "past (UUnlock p) = Some p" | "past (UFree p) = Some p"
| "past _ = None"

text \<open>The locks a client holds: of an object, and of the list.\<close>

fun client_obj :: "client_pc \<Rightarrow> ptr option" where
  "client_obj (UUnlock p) = Some p" | "client_obj (CSet p rd wr) = Some p" | "client_obj (CUnlock p) = Some p"
| "client_obj _ = None"

fun client_list :: "client_pc \<Rightarrow> bool" where
  "client_list (UAppend p) = True" | "client_list (UListUnlock p) = True"
| "client_list _ = False"

text \<open>The object whose lock the loop holds; the one it is about to lock; the one it has to free.\<close>

fun held_obj :: "loop_pc \<Rightarrow> ptr option" where
  "held_obj (LTaken p e r) = Some p" | "held_obj (LReady p e r) = Some p" | "held_obj (LStuck p) = Some p" | "held_obj (LRead p e r) = Some p"
| "held_obj (LWrite p e r) = Some p" | "held_obj (LUnlock p r) = Some p"
| "held_obj _ = None"

fun grabbing :: "loop_pc \<Rightarrow> ptr option" where
  "grabbing (LGrab p e r) = Some p"
| "grabbing _ = None"

fun removed_obj :: "bool \<Rightarrow> loop_pc \<Rightarrow> ptr option" where
  "removed_obj rm (LRead p e r) = (if rm then Some p else None)"
| "removed_obj rm (LWrite p e r) = (if rm then Some p else None)"
| "removed_obj rm (LUnlock p r) = (if rm then Some p else None)"
| "removed_obj rm (LFree p r) = Some p"
| "removed_obj rm _ = None"

fun pend :: "loop_pc \<Rightarrow> ptr list" where
  "pend (LEvents es) = map fst es" | "pend (LCheck p e r) = p # map fst r" | "pend (LGrab p e r) = map fst r"
| "pend (LSkip r) = map fst r" | "pend (LTaken p e r) = map fst r" | "pend (LReady p e r) = map fst r" | "pend (LRead p e r) = map fst r" | "pend (LWrite p e r) = map fst r"
| "pend (LUnlock p r) = map fst r" | "pend (LFree p r) = map fst r"
| "pend _ = []"

fun in_hand :: "loop_pc \<Rightarrow> ptr option" where
  "in_hand (LGrab p e r) = Some p" | "in_hand (LTaken p e r) = Some p" | "in_hand (LReady p e r) = Some p" | "in_hand (LStuck p) = Some p" | "in_hand (LRead p e r) = Some p"
| "in_hand (LWrite p e r) = Some p" | "in_hand (LUnlock p r) = Some p" | "in_hand (LFree p r) = Some p"
| "in_hand _ = None"

fun holds_list :: "loop_pc \<Rightarrow> bool" where
  "holds_list LClear = True" | "holds_list LCleared = True" | "holds_list (LSkip r) = True"
| "holds_list (LCheck p e r) = True" | "holds_list (LGrab p e r) = True" | "holds_list (LTaken p e r) = True"
| "holds_list _ = False"

text \<open>
  The invariant in terms of the addresses that are live (\<open>L\<close>), registered (\<open>R\<close>) and in the
  invalidation list (\<open>I\<close>). The last clause is the heart of the matter: an event still to be
  dispatched is in the list, or its object is live and no thread has got past the list with it.
\<close>

definition clients_ok :: "ptr set \<Rightarrow> ptr set \<Rightarrow> (nat \<Rightarrow> client_pc) \<Rightarrow> bool" where
  "clients_ok L R pc \<longleftrightarrow>
     (\<forall>i p. target (pc i) = Some p \<longrightarrow> p \<in> L \<and> (gone (pc i) = Some p \<longleftrightarrow> p \<notin> R)) \<and>
     (\<forall>i j p. target (pc i) = Some p \<longrightarrow> target (pc j) = Some p \<longrightarrow> i = j)"

definition mutexes_ok :: "holder option \<Rightarrow> loop_pc \<Rightarrow> (ptr \<Rightarrow> holder option) \<Rightarrow> (nat \<Rightarrow> client_pc) \<Rightarrow> bool" where
  "mutexes_ok ll l ol pc \<longleftrightarrow>
     (\<forall>p i. ol p = Some (Client i) \<longleftrightarrow> client_obj (pc i) = Some p) \<and>
     (\<forall>p. ol p = Some LoopThread \<longleftrightarrow> held_obj l = Some p) \<and>
     (\<forall>i. ll = Some (Client i) \<longleftrightarrow> client_list (pc i)) \<and> (ll = Some LoopThread \<longleftrightarrow> holds_list l)"

definition loop_ok :: "ptr set \<Rightarrow> ptr set \<Rightarrow> ptr set \<Rightarrow> bool \<Rightarrow> loop_pc \<Rightarrow> (nat \<Rightarrow> client_pc) \<Rightarrow> bool" where
  "loop_ok L R I rm l pc \<longleftrightarrow>
     (\<forall>p. held_obj l = Some p \<longrightarrow> p \<in> L \<and> (\<forall>i. pc i \<noteq> UFree p)) \<and>
     (\<forall>p. grabbing l = Some p \<longrightarrow> p \<in> L \<and> (\<forall>i. past (pc i) \<noteq> Some p)) \<and>
     (\<forall>p. removed_obj rm l = Some p \<longrightarrow> p \<in> L \<and> p \<notin> R \<and> (\<forall>i. target (pc i) \<noteq> Some p)) \<and>
     distinct (pend l) \<and> (\<forall>p. in_hand l = Some p \<longrightarrow> p \<notin> set (pend l)) \<and>
     (\<forall>p \<in> set (pend l). p \<in> I \<or> p \<in> L \<and> (\<forall>i. past (pc i) \<noteq> Some p))"

definition lives :: "reactor_t \<Rightarrow> ptr set" where
  "lives s = fst ` set (objects s)"

definition threads_ok :: "reactor_world \<Rightarrow> bool" where
  "threads_ok x \<longleftrightarrow> reg_ok (shared x) \<and> is_running (shared x) \<and> \<not> used_freed x \<and>
     clients_ok (lives (shared x)) (registered (shared x)) (clients x) \<and>
     mutexes_ok (list_lock x) (lpc x) (obj_lock x) (clients x) \<and>
     loop_ok (lives (shared x)) (registered (shared x)) (set (invalidation_list (shared x)))
       (object_removed (shared x)) (lpc x) (clients x)"

lemma pc_subset: "gone c = Some p \<Longrightarrow> target c = Some p" "past c = Some p \<Longrightarrow> gone c = Some p"
  by (cases c; simp)+

lemma registered_live:
  assumes "reg_ok s"
  shows "registered s \<subseteq> lives s"
proof
  fix p
  assume "p \<in> registered s"
  then obtain f ev where "map_of (epoll_set s) f = Some (p, ev)" by (auto simp: registered_def)
  then obtain r where "map_of (objects s) p = Some r" by (rule reg_okD [OF assms])
  then show "p \<in> lives s" by (simp add: lives_def map_of_in_live)
qed

lemma touch_live:
  assumes "p \<in> lives (shared x)"
  obtains r where "map_of (objects (shared x)) p = Some r" "\<And>y. touch p x y = y r"
proof -
  obtain r where "map_of (objects (shared x)) p = Some r"
    using assms by (cases "map_of (objects (shared x)) p") (auto simp: lives_def map_of_eq_None_iff)
  then show thesis using that by (simp add: touch_def)
qed

section \<open>How the invariant survives a change\<close>

text \<open>One client moves on.\<close>

lemma clients_okI:
  assumes "\<And>i p. target (pc i) = Some p \<Longrightarrow> p \<in> L" and "\<And>i p. target (pc i) = Some p \<Longrightarrow> gone (pc i) = Some p \<longleftrightarrow> p \<notin> R"
    and "\<And>i j p. target (pc i) = Some p \<Longrightarrow> target (pc j) = Some p \<Longrightarrow> i = j"
  shows "clients_ok L R pc"
  using assms by (simp add: clients_ok_def)

lemma clients_okD:
  assumes "clients_ok L R pc" and "target (pc i) = Some p"
  shows "p \<in> L" "gone (pc i) = Some p \<longleftrightarrow> p \<notin> R" "target (pc j) = Some p \<Longrightarrow> i = j"
  using assms unfolding clients_ok_def by blast+

lemma clients_ok_go:
  assumes ok: "clients_ok L R pc" and c: "target c = None \<or> target c = target (pc i) \<and> gone c = gone (pc i)"
  shows "clients_ok L R (pc(i := c))"
proof (rule clients_okI)
  fix k p
  assume "target ((pc(i := c)) k) = Some p"
  then have old: "target (pc k) = Some p" "gone ((pc(i := c)) k) = gone (pc k)" using c by (auto split: if_splits)
  show "p \<in> L" "gone ((pc(i := c)) k) = Some p \<longleftrightarrow> p \<notin> R" using clients_okD(1,2) [OF ok old(1)] old(2) by simp_all
  show "k = j" if "target ((pc(i := c)) j) = Some p" for j
    using that clients_okD(3) [OF ok old(1)] c by (auto split: if_splits)
qed

lemma clients_ok_begin:
  assumes ok: "clients_ok L R pc" and c: "target c = Some p" "gone c = None" and p: "p \<in> L" "p \<in> R" "\<And>j. target (pc j) \<noteq> Some p"
  shows "clients_ok L R (pc(i := c))"
  by (rule clients_okI) (use c p clients_okD [OF ok] in \<open>auto split: if_splits\<close>)

lemma clients_ok_del:
  assumes ok: "clients_ok L R pc" and c: "target (pc i) = Some p" "target c = Some p" "gone c = Some p"
  shows "clients_ok L (R - {p}) (pc(i := c))"
proof (rule clients_okI)
  fix k q
  assume q: "target ((pc(i := c)) k) = Some q"
  then have old: "target (pc k) = Some q" using c by (auto split: if_splits)
  note D = clients_okD [OF ok old]
  show "q \<in> L" by (rule D(1))
  have other: "k \<noteq> i \<Longrightarrow> q \<noteq> p" using D(3) [of i] c(1) by blast
  show "gone ((pc(i := c)) k) = Some q \<longleftrightarrow> q \<notin> R - {p}"
  proof (cases "k = i")
    case True
    then show ?thesis using q c by simp
  next
    case False
    then show ?thesis using D(2) other by simp
  qed
  show "k = j" if "target ((pc(i := c)) j) = Some q" for j using that D(3) c by (auto split: if_splits)
qed

lemma mutexes_ok_go:
  assumes "mutexes_ok ll l ol pc" and "client_obj c = client_obj (pc i)" and "client_list c = client_list (pc i)"
  shows "mutexes_ok ll l ol (pc(i := c))"
  using assms by (simp add: mutexes_ok_def)

lemma loop_ok_go:
  assumes "loop_ok L R I rm l pc" and "\<And>p. c = UFree p \<Longrightarrow> held_obj l \<noteq> Some p"
    and "\<And>p. target c = Some p \<Longrightarrow> target (pc i) = Some p \<or> removed_obj rm l \<noteq> Some p"
    and "\<And>p. past c = Some p \<Longrightarrow> past (pc i) = Some p \<or> grabbing l \<noteq> Some p \<and> (p \<in> set (pend l) \<longrightarrow> p \<in> I)"
  shows "loop_ok L R I rm l (pc(i := c))"
  using assms unfolding loop_ok_def fun_upd_apply by (auto split: if_splits)

text \<open>The sets change.\<close>

lemma clients_ok_less: "clients_ok L R pc \<Longrightarrow> (\<And>i. target (pc i) \<noteq> Some p) \<Longrightarrow> clients_ok L (R - {p}) pc"
  unfolding clients_ok_def by blast

lemma loop_ok_less: "loop_ok L R I rm l pc \<Longrightarrow> R' \<subseteq> R \<Longrightarrow> I \<subseteq> I' \<Longrightarrow> loop_ok L R' I' rm l pc"
  unfolding loop_ok_def by blast

lemma clients_ok_free: "clients_ok L R pc \<Longrightarrow> (\<And>i. target (pc i) \<noteq> Some p) \<Longrightarrow> clients_ok (L - {p}) R pc"
  unfolding clients_ok_def by blast

lemma loop_ok_free:
  assumes "loop_ok L R I rm l pc" and "held_obj l \<noteq> Some p" and "grabbing l \<noteq> Some p" and "removed_obj rm l \<noteq> Some p"
    and "p \<in> set (pend l) \<longrightarrow> p \<in> I"
  shows "loop_ok (L - {p}) R I rm l pc"
  using assms unfolding loop_ok_def by blast

lemma clients_ok_new: "clients_ok L R pc \<Longrightarrow> p \<notin> L \<Longrightarrow> clients_ok (insert p L) (insert p R) pc"
  unfolding clients_ok_def by blast

lemma loop_ok_new:
  assumes "loop_ok L R I rm l pc" and "p \<notin> L" and "R' \<subseteq> insert p R"
  shows "loop_ok (insert p L) R' I rm l pc"
  using assms unfolding loop_ok_def by blast

section \<open>What the operations do to the sets\<close>

lemma registeredI: "map_of (epoll_set s) f = Some (p, ev) \<Longrightarrow> p \<in> registered s"
  by (auto simp: registered_def)

text \<open>The objects that are registered under another descriptor.\<close>

definition elsewhere :: "fd \<Rightarrow> reactor_t \<Rightarrow> ptr set" where
  "elsewhere f s = {p. \<exists>g ev. g \<noteq> f \<and> map_of (epoll_set s) g = Some (p, ev)}"

lemma registered_update: "registered (s\<lparr>epoll_set := AList.update f (p, m) (epoll_set s)\<rparr>) = insert p (elsewhere f s)"
proof (rule set_eqI)
  fix q
  have "(\<exists>g ev. (if g = f then Some (p, m) else map_of (epoll_set s) g) = Some (q, ev)) \<longleftrightarrow> q = p \<or> q \<in> elsewhere f s"
    unfolding elsewhere_def mem_Collect_eq by (metis option.inject prod.inject)
  then show "q \<in> registered (s\<lparr>epoll_set := AList.update f (p, m) (epoll_set s)\<rparr>) \<longleftrightarrow> q \<in> insert p (elsewhere f s)"
    by (simp add: registered_def fun_upd_def)
qed

lemma registered_delete: "registered (s\<lparr>epoll_set := AList.delete f (epoll_set s)\<rparr>) = elsewhere f s"
  unfolding registered_def elsewhere_def by (auto simp: fun_upd_def split: if_splits)

lemma elsewhere_unused:
  assumes "map_of (epoll_set s) f = None"
  shows "elsewhere f s = registered s"
proof -
  have "(\<exists>g ev. g \<noteq> f \<and> map_of (epoll_set s) g = Some (q, ev)) \<longleftrightarrow> (\<exists>g ev. map_of (epoll_set s) g = Some (q, ev))" for q
    using assms by (metis option.distinct(1))
  then show ?thesis by (simp add: elsewhere_def registered_def)
qed

lemma register_views:
  assumes run: "reactor_register env f ctx rd wr s = Inr (q, s')" and fresh: "fresh_alloc (obj_alloc env)"
  obtains (kept) "lives s' = lives s" "registered s' = registered s"
  | (new) p where "p \<notin> lives s" "lives s' = insert p (lives s)" "registered s' = insert p (registered s)"
proof -
  let ?p = "obj_alloc env (live (objects s))"
  let ?r = "\<lparr>obj_fd = f, obj_context = ctx, read_ready = rd, write_ready = wr\<rparr>"
  have p: "?p \<noteq> NULL" using run by (auto simp: reactor_register_def Let_def)
  then have dead: "?p \<notin> lives s" using fresh_allocD [OF fresh p] by (simp add: lives_def)
  show thesis
  proof (cases "ctl_accepts env f \<and> map_of (epoll_set s) f = None")
    case True
    then have s': "s' = s\<lparr>objects := store_at ?p ?r (objects s), epoll_set := AList.update f (?p, registration_events rd wr) (epoll_set s)\<rparr>"
      using run p by (auto simp: reactor_register_def Let_def)
    have "elsewhere f s = registered s" using True by (intro elsewhere_unused) blast
    then have "registered s' = insert ?p (registered s)" 
      using registered_update [where s = "s\<lparr>objects := store_at ?p ?r (objects s)\<rparr>"] s' by (simp add: elsewhere_def)
    then show thesis using dead s' by (intro new [of ?p]) (simp_all add: lives_def)
  next
    case False
    then have "s' = s\<lparr>objects := release ?p (store_at ?p ?r (objects s))\<rparr>"
      using run p by (auto simp: reactor_register_def Let_def split: if_splits)
    then show thesis using dead by (intro kept) (simp_all add: lives_def registered_def)
  qed
qed

lemma epoll_unique:
  assumes "reg_ok s" and "map_of (objects s) p = Some r" and "map_of (epoll_set s) f = Some (p, ev)"
  shows "f = obj_fd r"
proof -
  obtain r' where "map_of (objects s) p = Some r'" "obj_fd r' = f" by (rule reg_okD [OF assms(1,3)])
  then show ?thesis using assms(2) by simp
qed

lemma registered_fd:
  assumes ok: "reg_ok s" and r: "map_of (objects s) p = Some r" and p: "p \<in> registered s"
  shows "\<exists>e. map_of (epoll_set s) (obj_fd r) = Some (p, e)" "elsewhere (obj_fd r) s = registered s - {p}"
proof -
  obtain f e where f: "map_of (epoll_set s) f = Some (p, e)" using p by (auto simp: registered_def)
  then have e: "map_of (epoll_set s) (obj_fd r) = Some (p, e)" using epoll_unique [OF ok r f] by simp
  then show "\<exists>e. map_of (epoll_set s) (obj_fd r) = Some (p, e)" by blast
  show "elsewhere (obj_fd r) s = registered s - {p}"
  proof (intro set_eqI iffI)
    fix q
    assume "q \<in> elsewhere (obj_fd r) s"
    then obtain g ev where g: "g \<noteq> obj_fd r" "map_of (epoll_set s) g = Some (q, ev)" by (auto simp: elsewhere_def)
    then have "q \<noteq> p" using epoll_unique [OF ok r] by blast
    then show "q \<in> registered s - {p}" using registeredI [OF g(2)] by simp
  next
    fix q
    assume "q \<in> registered s - {p}"
    then obtain g ev where g: "map_of (epoll_set s) g = Some (q, ev)" "q \<noteq> p" by (auto simp: registered_def)
    then have "g \<noteq> obj_fd r" using e by (metis option.inject prod.inject)
    then show "q \<in> elsewhere (obj_fd r) s" using g(1) by (auto simp: elsewhere_def)
  qed
qed

lemma del_views:
  assumes ok: "reg_ok s" and r: "map_of (objects s) p = Some r" and s': "s' = s\<lparr>epoll_set := AList.delete (obj_fd r) (epoll_set s)\<rparr>"
    and p: "p \<in> registered s"
  shows "registered s' = registered s - {p}" "reg_ok s'"
proof -
  show "registered s' = registered s - {p}" unfolding s' registered_delete by (rule registered_fd(2) [OF ok r p])
  show "reg_ok s'" unfolding s'
  proof (rule reg_okI)
    show "NULL \<notin> fst ` set (objects (s\<lparr>epoll_set := AList.delete (obj_fd r) (epoll_set s)\<rparr>))" using reg_ok_null [OF ok] by simp
    fix f q e
    assume "map_of (epoll_set (s\<lparr>epoll_set := AList.delete (obj_fd r) (epoll_set s)\<rparr>)) f = Some (q, e)"
    then have "map_of (epoll_set s) f = Some (q, e)" by (simp split: if_splits)
    then obtain r' where "map_of (objects s) q = Some r'" "obj_fd r' = f" by (rule reg_okD [OF ok])
    then show "\<exists>r'. map_of (objects (s\<lparr>epoll_set := AList.delete (obj_fd r) (epoll_set s)\<rparr>)) q = Some r' \<and> obj_fd r' = f" by simp
  qed
qed

lemma mod_views:
  assumes ok: "reg_ok s" and r: "map_of (objects s) p = Some r" and p: "p \<in> registered s"
    and s': "s' = s\<lparr>epoll_set := AList.update (obj_fd r) (p, m) (epoll_set s)\<rparr>"
  shows "registered s' = registered s" "reg_ok s'"
proof -
  show "registered s' = registered s" unfolding s' registered_update registered_fd(2) [OF ok r p] using p by blast
  show "reg_ok s'" unfolding s'
  proof (rule reg_okI)
    show "NULL \<notin> fst ` set (objects (s\<lparr>epoll_set := AList.update (obj_fd r) (p, m) (epoll_set s)\<rparr>))" using reg_ok_null [OF ok] by simp
    fix f q e
    assume a: "map_of (epoll_set (s\<lparr>epoll_set := AList.update (obj_fd r) (p, m) (epoll_set s)\<rparr>)) f = Some (q, e)"
    show "\<exists>r'. map_of (objects (s\<lparr>epoll_set := AList.update (obj_fd r) (p, m) (epoll_set s)\<rparr>)) q = Some r' \<and> obj_fd r' = f"
    proof (cases "f = obj_fd r")
      case True
      then show ?thesis using a r by simp
    next
      case False
      then have "map_of (epoll_set s) f = Some (q, e)" using a by simp
      then obtain r' where "map_of (objects s) q = Some r'" "obj_fd r' = f" by (rule reg_okD [OF ok])
      then show ?thesis by simp
    qed
  qed
qed

lemma reg_ok_objects:
  assumes ok: "reg_ok s" and "NULL \<notin> lives s'" and "epoll_set s' = epoll_set s"
    and same: "\<And>q r. q \<in> registered s \<Longrightarrow> map_of (objects s) q = Some r \<Longrightarrow> \<exists>r'. map_of (objects s') q = Some r' \<and> obj_fd r' = obj_fd r"
  shows "reg_ok s'"
proof (rule reg_okI)
  show "NULL \<notin> fst ` set (objects s')" using assms(2) by (simp add: lives_def)
  fix f q e
  assume "map_of (epoll_set s') f = Some (q, e)"
  then have q: "map_of (epoll_set s) f = Some (q, e)" using assms(3) by simp
  then obtain r where "map_of (objects s) q = Some r" "obj_fd r = f" by (rule reg_okD [OF ok])
  then show "\<exists>r. map_of (objects s') q = Some r \<and> obj_fd r = f" using same [OF registeredI [OF q]] by auto
qed

lemma free_views:
  assumes "reg_ok s" and "p \<notin> registered s"
  shows "reg_ok (s\<lparr>objects := release p (objects s)\<rparr>)" "lives (s\<lparr>objects := release p (objects s)\<rparr>) = lives s - {p}"
    "registered (s\<lparr>objects := release p (objects s)\<rparr>) = registered s"
proof -
  show "reg_ok (s\<lparr>objects := release p (objects s)\<rparr>)"
    by (rule reg_ok_objects [OF assms(1)]) (use assms(2) reg_ok_null [OF assms(1)] in \<open>auto simp: lives_def\<close>)
qed (simp_all add: lives_def registered_def)

lemma set_views:
  assumes "reg_ok s" and "map_of (objects s) p = Some r" and "obj_fd r' = obj_fd r"
  shows "reg_ok (s\<lparr>objects := store_at p r' (objects s)\<rparr>)" "lives (s\<lparr>objects := store_at p r' (objects s)\<rparr>) = lives s"
    "registered (s\<lparr>objects := store_at p r' (objects s)\<rparr>) = registered s"
proof -
  have p: "p \<in> fst ` set (objects s)" using assms(2) by (rule map_of_in_live)
  then show "lives (s\<lparr>objects := store_at p r' (objects s)\<rparr>) = lives s" by (auto simp: lives_def)
  show "reg_ok (s\<lparr>objects := store_at p r' (objects s)\<rparr>)"
    by (rule reg_ok_objects [OF assms(1)]) (use assms p reg_ok_null [OF assms(1)] in \<open>auto simp: lives_def\<close>)
qed (simp add: registered_def)

section \<open>The clients keep the invariant\<close>

lemma mutexes_okD:
  assumes "mutexes_ok ll l ol pc"
  shows "ol p = Some (Client i) \<longleftrightarrow> client_obj (pc i) = Some p" "ol p = Some LoopThread \<longleftrightarrow> held_obj l = Some p"
    "ll = Some (Client i) \<longleftrightarrow> client_list (pc i)" "ll = Some LoopThread \<longleftrightarrow> holds_list l"
  using assms by (simp_all add: mutexes_ok_def)

lemma mutexes_ok_lock:
  assumes ok: "mutexes_ok ll l ol pc" and free: "ol p = None"
    and c: "client_obj (pc i) = None" "client_obj c = Some p" "client_list c = client_list (pc i)"
  shows "mutexes_ok ll l (ol(p := Some (Client i))) (pc(i := c))"
proof -
  have "client_obj (pc j) \<noteq> Some p" for j using mutexes_okD(1) [OF ok, of p j] free by simp
  moreover have "held_obj l \<noteq> Some p" using mutexes_okD(2) [OF ok, of p] free by simp
  moreover have "ol q \<noteq> Some (Client i)" for q using mutexes_okD(1) [OF ok, of q i] c(1) by simp
  ultimately show ?thesis using ok c by (auto simp: mutexes_ok_def)
qed

lemma mutexes_ok_unlock:
  assumes ok: "mutexes_ok ll l ol pc"
    and c: "client_obj (pc i) = Some p" "client_obj c = None" "client_list c = client_list (pc i)"
  shows "mutexes_ok ll l (ol(p := None)) (pc(i := c))" "held_obj l \<noteq> Some p"
proof -
  have p: "ol p = Some (Client i)" using mutexes_okD(1) [OF ok] c(1) by simp
  have other: "client_obj (pc j) \<noteq> Some p" if "j \<noteq> i" for j using mutexes_okD(1) [OF ok, of p j] p that by auto
  show held: "held_obj l \<noteq> Some p" using mutexes_okD(2) [OF ok, of p] p by simp
  have "ol q = Some (Client i) \<longleftrightarrow> q = p" for q using mutexes_okD(1) [OF ok, of q i] c(1) by auto
  then show "mutexes_ok ll l (ol(p := None)) (pc(i := c))" using ok held other c by (auto simp: mutexes_ok_def)
qed

lemma mutexes_ok_list:
  assumes ok: "mutexes_ok ll l ol pc" and c: "client_obj c = client_obj (pc i)"
  shows "ll = None \<Longrightarrow> client_list c \<Longrightarrow> mutexes_ok (Some (Client i)) l ol (pc(i := c))"
    and "client_list (pc i) \<Longrightarrow> \<not> client_list c \<Longrightarrow> mutexes_ok None l ol (pc(i := c))"
proof -
  show "mutexes_ok (Some (Client i)) l ol (pc(i := c))" if "ll = None" "client_list c"
    using ok c that by (auto simp: mutexes_ok_def)
  show "mutexes_ok None l ol (pc(i := c))" if "client_list (pc i)" "\<not> client_list c"
  proof -
    have "ll = Some (Client i)" using ok that(1) by (simp add: mutexes_ok_def)
    then show ?thesis using ok c that by (auto simp: mutexes_ok_def)
  qed
qed

lemma loop_okD:
  assumes "loop_ok L R I rm l pc"
  shows "held_obj l = Some p \<Longrightarrow> p \<in> L" "held_obj l = Some p \<Longrightarrow> pc i \<noteq> UFree p"
    "grabbing l = Some p \<Longrightarrow> p \<in> L" "grabbing l = Some p \<Longrightarrow> past (pc i) \<noteq> Some p"
    "removed_obj rm l = Some p \<Longrightarrow> p \<in> L \<and> p \<notin> R \<and> target (pc i) \<noteq> Some p"
    "distinct (pend l)" "in_hand l = Some p \<Longrightarrow> p \<notin> set (pend l)"
    "p \<in> set (pend l) \<Longrightarrow> p \<in> I \<or> p \<in> L \<and> past (pc i) \<noteq> Some p"
  using assms unfolding loop_ok_def by blast+

lemma threads_okD:
  assumes "threads_ok x"
  shows "reg_ok (shared x)" "is_running (shared x)" "\<not> used_freed x"
    "clients_ok (lives (shared x)) (registered (shared x)) (clients x)"
    "mutexes_ok (list_lock x) (lpc x) (obj_lock x) (clients x)"
    "loop_ok (lives (shared x)) (registered (shared x)) (set (invalidation_list (shared x)))
       (object_removed (shared x)) (lpc x) (clients x)"
  using assms by (simp_all add: threads_ok_def)

text \<open>Beginning an operation, and getting on with one without changing the shared data.\<close>

lemma begin_ok:
  assumes ok: "threads_ok x" and "clients x i = Resting" and p: "p \<in> registered (shared x)" "\<not> targeted x p"
    and c: "target c = Some p" "gone c = None" "client_obj c = None"
  shows "threads_ok (go i c x)"
proof -
  have "past c = None" "\<And>q. c \<noteq> UFree q" "\<not> client_list c" using c(2) by (cases c; simp)+
  moreover have "p \<in> lives (shared x)" using p(1) registered_live ok by (auto simp: threads_ok_def)
  moreover have "target (clients x j) \<noteq> Some p" for j using p(2) by (auto simp: targeted_def)
  moreover have "removed_obj (object_removed (shared x)) (lpc x) \<noteq> Some p"
    using p(1) ok loop_okD(5) unfolding threads_ok_def by blast
  ultimately have "clients_ok (lives (shared x)) (registered (shared x)) ((clients x)(i := c))"
    "mutexes_ok (list_lock x) (lpc x) (obj_lock x) ((clients x)(i := c))"
    "loop_ok (lives (shared x)) (registered (shared x)) (set (invalidation_list (shared x)))
       (object_removed (shared x)) (lpc x) ((clients x)(i := c))"
    using c p(1) assms(2)
    by (auto intro!: clients_ok_begin [OF threads_okD(4) [OF ok]] mutexes_ok_go [OF threads_okD(5) [OF ok]]
        loop_ok_go [OF threads_okD(6) [OF ok]])
  then show ?thesis using threads_okD(1-3) [OF ok] by (simp add: threads_ok_def go_def)
qed

lemma client_move_ok:
  assumes ok: "threads_ok x" and mu: "mutexes_ok ll (lpc x) ol ((clients x)(i := c))"
    and c: "target c = None \<or> target c = target (clients x i) \<and> gone c = gone (clients x i)"
    and past: "past c = None \<or> past c = past (clients x i)" and "\<And>p. c = UFree p \<Longrightarrow> held_obj (lpc x) \<noteq> Some p"
  shows "threads_ok (go i c (x\<lparr>list_lock := ll, obj_lock := ol\<rparr>))"
proof -
  have "clients_ok (lives (shared x)) (registered (shared x)) ((clients x)(i := c))"
    by (rule clients_ok_go [OF threads_okD(4) [OF ok] c])
  moreover have "loop_ok (lives (shared x)) (registered (shared x)) (set (invalidation_list (shared x)))
       (object_removed (shared x)) (lpc x) ((clients x)(i := c))"
    by (rule loop_ok_go [OF threads_okD(6) [OF ok]]) (use c past assms(5) in auto)
  ultimately show ?thesis using mu threads_okD(1-3) [OF ok] by (simp add: threads_ok_def go_def)
qed

lemma rest_ok:
  assumes "threads_ok x" and "client_obj (clients x i) = None" and "\<not> client_list (clients x i)"
  shows "threads_ok (go i Resting x)"
  using client_move_ok [OF assms(1) mutexes_ok_go [OF threads_okD(5) [OF assms(1)]], of Resting i] assms(2,3) by simp

text \<open>Freeing an object nobody can reach.\<close>

lemma free_ok:
  assumes ok: "threads_ok x" and "p \<notin> registered (shared x)" and "\<not> targeted x p"
    and "held_obj (lpc x) \<noteq> Some p" "grabbing (lpc x) \<noteq> Some p" "removed_obj (object_removed (shared x)) (lpc x) \<noteq> Some p"
    and "p \<in> set (pend (lpc x)) \<longrightarrow> p \<in> set (invalidation_list (shared x))"
  shows "threads_ok (x\<lparr>shared := (shared x)\<lparr>objects := release p (objects (shared x))\<rparr>\<rparr>)"
proof -
  have "target (clients x i) \<noteq> Some p" for i using assms(3) by (auto simp: targeted_def)
  then show ?thesis using ok assms(2-)
    by (simp add: threads_ok_def free_views clients_ok_free loop_ok_free)
qed

lemma register_ok:
  assumes ok: "threads_ok x" and run: "reactor_register env f ctx rd wr (shared x) = Inr (p, s)"
    and fresh: "fresh_alloc (obj_alloc env)"
  shows "threads_ok (x\<lparr>shared := s\<rparr>)"
proof -
  have reg: "reg_ok (shared x)" using ok by (simp add: threads_ok_def)
  note st = register_step(1-4) [OF run fresh reg]
  show ?thesis
  proof (rule register_views [OF run fresh])
    assume "lives s = lives (shared x)" "registered s = registered (shared x)"
    then show ?thesis using ok st by (simp add: threads_ok_def)
  next
    fix q
    assume new: "q \<notin> lives (shared x)" "lives s = insert q (lives (shared x))" "registered s = insert q (registered (shared x))"
    have cl: "clients_ok (lives s) (registered s) (clients x)"
      unfolding new(2,3) using ok new(1) by (intro clients_ok_new) (simp_all add: threads_ok_def)
    have lp: "loop_ok (lives s) (registered s) (set (invalidation_list (shared x))) (object_removed (shared x)) (lpc x) (clients x)"
      unfolding new(2,3) by (rule loop_ok_new [OF threads_okD(6) [OF ok] new(1)]) simp
    show ?thesis using ok st cl lp by (simp add: threads_ok_def)
  qed
qed

lemma del_ok:
  assumes ok: "threads_ok x" and c: "clients x i = UDel p" and r: "map_of (objects (shared x)) p = Some r"
  shows "threads_ok (go i (UList p) (x\<lparr>shared := (shared x)\<lparr>epoll_set := AList.delete (obj_fd r) (epoll_set (shared x))\<rparr>\<rparr>))"
    (is "threads_ok (go i _ (x\<lparr>shared := ?s\<rparr>))")
proof -
  have p: "p \<in> registered (shared x)" using clients_okD(2) [OF threads_okD(4) [OF ok], of i p] c by simp
  note v = del_views [OF threads_okD(1) [OF ok] r refl p]
  have same: "lives ?s = lives (shared x)" by (simp add: lives_def)
  have "clients_ok (lives ?s) (registered ?s) ((clients x)(i := UList p))"
    unfolding same v(1) by (rule clients_ok_del [OF threads_okD(4) [OF ok]]) (use c in simp_all)
  moreover have "mutexes_ok (list_lock x) (lpc x) (obj_lock x) ((clients x)(i := UList p))"
    by (rule mutexes_ok_go [OF threads_okD(5) [OF ok]]) (use c in simp_all)
  moreover have "loop_ok (lives ?s) (registered ?s) (set (invalidation_list (shared x)))
      (object_removed (shared x)) (lpc x) ((clients x)(i := UList p))"
    unfolding same v(1)
    by (rule loop_ok_go [OF loop_ok_less [OF threads_okD(6) [OF ok] Diff_subset subset_refl]]) (use c in simp_all)
  ultimately show ?thesis using v(2) threads_okD(2,3) [OF ok] by (simp add: threads_ok_def go_def)
qed

lemma append_ok:
  assumes ok: "threads_ok x" and c: "clients x i = UAppend p"
  shows "threads_ok (go i (UListUnlock p) (x\<lparr>shared := (shared x)\<lparr>invalidation_list := invalidation_list (shared x) @ [p]\<rparr>\<rparr>))"
proof -
  have "list_lock x = Some (Client i)" using mutexes_okD(3) [OF threads_okD(5) [OF ok], of i] c by simp
  then have grab: "grabbing (lpc x) = None" using mutexes_okD(4) [OF threads_okD(5) [OF ok]] by (cases "lpc x") simp_all
  have "clients_ok (lives (shared x)) (registered (shared x)) ((clients x)(i := UListUnlock p))"
    by (rule clients_ok_go [OF threads_okD(4) [OF ok]]) (use c in simp)
  moreover have "mutexes_ok (list_lock x) (lpc x) (obj_lock x) ((clients x)(i := UListUnlock p))"
    by (rule mutexes_ok_go [OF threads_okD(5) [OF ok]]) (use c in simp_all)
  moreover have "loop_ok (lives (shared x)) (registered (shared x)) (insert p (set (invalidation_list (shared x))))
      (object_removed (shared x)) (lpc x) ((clients x)(i := UListUnlock p))"
    by (rule loop_ok_go [OF loop_ok_less [OF threads_okD(6) [OF ok] subset_refl subset_insertI]]) (use c grab in simp_all)
  ultimately show ?thesis using threads_okD(1-3) [OF ok]
    by (simp add: threads_ok_def go_def reg_ok_def lives_def registered_def)
qed

text \<open>The lock operations of a client.\<close>

lemma list_lock_ok:
  assumes ok: "threads_ok x"
  shows "clients x i = UList p \<Longrightarrow> list_lock x = None \<Longrightarrow> threads_ok (go i (UAppend p) (x\<lparr>list_lock := Some (Client i)\<rparr>))"
    and "clients x i = UListUnlock p \<Longrightarrow> threads_ok (go i (ULock p) (x\<lparr>list_lock := None\<rparr>))"
  using client_move_ok [OF ok mutexes_ok_list(1) [OF threads_okD(5) [OF ok]], of "UAppend p" i]
    client_move_ok [OF ok mutexes_ok_list(2) [OF threads_okD(5) [OF ok]], of "ULock p" i] by simp_all

lemma obj_lock_ok:
  assumes ok: "threads_ok x" and "obj_lock x p = None"
    and "clients x i = ULock p \<and> c = UUnlock p \<or> clients x i = CLock p rd wr \<and> c = CSet p rd wr"
  shows "threads_ok (go i c (x\<lparr>obj_lock := (obj_lock x)(p := Some (Client i))\<rparr>))"
  using client_move_ok [OF ok mutexes_ok_lock [OF threads_okD(5) [OF ok] assms(2)], of i c] assms(3) by auto

lemma obj_unlock_ok:
  assumes ok: "threads_ok x" and c: "clients x i = UUnlock p \<and> c = UFree p \<or> clients x i = CUnlock p \<and> c = Resting"
  shows "threads_ok (go i c (x\<lparr>obj_lock := (obj_lock x)(p := None)\<rparr>))"
proof -
  have "client_obj (clients x i) = Some p" "client_obj c = None" "client_list c = client_list (clients x i)" using c by auto
  note m = mutexes_ok_unlock [OF threads_okD(5) [OF ok] this]
  show ?thesis using client_move_ok [OF ok m(1)] m(2) c by auto
qed

lemma unregister_free_ok:
  assumes ok: "threads_ok x" and c: "clients x i = UFree p"
  shows "threads_ok (go i Resting (x\<lparr>shared := (shared x)\<lparr>objects := release p (objects (shared x))\<rparr>\<rparr>))"
proof -
  let ?y = "go i Resting x"
  have y: "threads_ok ?y" using rest_ok [OF ok] c by simp
  note cl = clients_okD [OF threads_okD(4) [OF ok], of i p] and lo = loop_okD [OF threads_okD(6) [OF ok]]
  have "p \<notin> registered (shared x)" using cl(2) c by simp
  moreover have "\<not> targeted ?y p"
  proof
    assume "targeted ?y p"
    then obtain j where "target (((clients x)(i := Resting)) j) = Some p" by (auto simp: targeted_def go_def)
    then show False using cl(3) [of j] c by (simp split: if_splits)
  qed
  moreover have "held_obj (lpc x) \<noteq> Some p" using lo(2) [of p i] c by auto
  moreover have "grabbing (lpc x) \<noteq> Some p" using lo(4) [of p i] c by auto
  moreover have "removed_obj (object_removed (shared x)) (lpc x) \<noteq> Some p" using lo(5) [of p i] c by auto
  moreover have "p \<in> set (pend (lpc x)) \<longrightarrow> p \<in> set (invalidation_list (shared x))" using lo(8) [of p i] c by auto
  ultimately have "threads_ok (?y\<lparr>shared := (shared ?y)\<lparr>objects := release p (objects (shared ?y))\<rparr>\<rparr>)"
    by (intro free_ok [OF y]) (simp_all add: go_def)
  moreover have "?y\<lparr>shared := (shared ?y)\<lparr>objects := release p (objects (shared ?y))\<rparr>\<rparr> =
      go i Resting (x\<lparr>shared := (shared x)\<lparr>objects := release p (objects (shared x))\<rparr>\<rparr>)"
    by (cases x) (simp add: go_def)
  ultimately show ?thesis by simp
qed

lemma change_ok:
  assumes ok: "threads_ok x" and r: "map_of (objects (shared x)) p = Some r"
  shows "clients x i = CMod p rd wr \<Longrightarrow> threads_ok (go i (CLock p rd wr) (x\<lparr>shared := change_events p r rd wr (shared x)\<rparr>))" (is "?c \<Longrightarrow> ?mod")
    and "clients x i = CSet p rd wr \<Longrightarrow> threads_ok (go i (CUnlock p) (x\<lparr>shared := (shared x)\<lparr>objects :=
      store_at p (r\<lparr>read_ready := rd, write_ready := wr\<rparr>) (objects (shared x))\<rparr>\<rparr>))" (is "?d \<Longrightarrow> ?set")
proof -
  show ?mod if ?c
  proof -
    have p: "p \<in> registered (shared x)" using clients_okD(2) [OF threads_okD(4) [OF ok], of i p] that by simp
    note v = mod_views [OF threads_okD(1) [OF ok] r p refl, of "registration_events rd wr"]
    have "threads_ok (go i (CLock p rd wr) x)"
      using client_move_ok [OF ok mutexes_ok_go [OF threads_okD(5) [OF ok]], of "CLock p rd wr" i] that by simp
    then show ?mod using v by (simp add: threads_ok_def go_def change_events_def lives_def)
  qed
  show ?set if ?d
  proof -
    have y: "threads_ok (go i (CUnlock p) x)"
      using client_move_ok [OF ok mutexes_ok_go [OF threads_okD(5) [OF ok]], of "CUnlock p" i] that by simp
    have "obj_fd (r\<lparr>read_ready := rd, write_ready := wr\<rparr>) = obj_fd r" by simp
    note v = set_views [OF threads_okD(1) [OF ok] r this]
    show ?set using v y by (simp add: threads_ok_def go_def)
  qed
qed

lemma client_step_ok:
  assumes ok: "threads_ok x" and step: "client_step env i x y" and fresh: "fresh_alloc (obj_alloc env)"
  shows "threads_ok y"
proof -
  have live: "\<exists>r. map_of (objects (shared x)) p = Some r \<and> (\<forall>y. touch p x y = y r)" if "target (clients x i) = Some p" for p
    using clients_okD(1) [OF threads_okD(4) [OF ok] that] by (rule touch_live) blast
  have here: "map_of (epoll_set (shared x)) (obj_fd r) \<noteq> None" if "clients x i = CMod p rd wr" "map_of (objects (shared x)) p = Some r" for p rd wr r
    using registered_fd(1) [OF threads_okD(1) [OF ok] that(2)] clients_okD(2) [OF threads_okD(4) [OF ok], of i p] that(1) by (auto simp del: map_of_None_iff)
  from step show ?thesis
  proof cases
    case (c_register f ctx rd wr p s)
    then show ?thesis using register_ok [OF ok _ fresh] by simp
  next
    case (u_begin p)
    then show ?thesis using begin_ok [OF ok, of i p "UDel p"] by simp
  next
    case (u_del p)
    then show ?thesis using live [of p] del_ok [OF ok u_del(2)] by auto
  next
    case (u_list p)
    then show ?thesis using list_lock_ok(1) [OF ok u_list(2,3)] by simp
  next
    case (u_append p)
    then show ?thesis using append_ok [OF ok u_append(2)] by simp
  next
    case (u_list_unlock p)
    then show ?thesis using list_lock_ok(2) [OF ok u_list_unlock(2)] by simp
  next
    case (u_lock p)
    then show ?thesis using live [of p] obj_lock_ok [OF ok u_lock(3), of i "UUnlock p"] by auto
  next
    case (u_unlock p)
    then show ?thesis using live [of p] obj_unlock_ok [OF ok, of i p "UFree p"] by auto
  next
    case (u_free p)
    then show ?thesis using live [of p] unregister_free_ok [OF ok u_free(2)] by auto
  next
    case (c_begin p rd wr)
    then show ?thesis using begin_ok [OF ok, of i p "CMod p rd wr"] by simp
  next
    case (c_mod p rd wr)
    then obtain r where r: "map_of (objects (shared x)) p = Some r" "\<forall>y. touch p x y = y r" using live [of p] by auto
    then show ?thesis using c_mod(1) here [OF c_mod(2) r(1)] change_ok(1) [OF ok r(1) c_mod(2)] by (simp del: map_of_None_iff)
  next
    case (c_mod_fails p rd wr)
    then show ?thesis using live [of p] rest_ok [OF ok, of i] by auto
  next
    case (c_lock p rd wr)
    then show ?thesis using live [of p] obj_lock_ok [OF ok c_lock(3), of i "CSet p rd wr"] by auto
  next
    case (c_unlock p)
    then show ?thesis using live [of p] obj_unlock_ok [OF ok, of i p Resting] by auto
  next
    case (c_set p rd wr)
    then show ?thesis using live [of p] change_ok(2) [OF ok _ c_set(2)] by auto
  qed
qed

section \<open>The loop keeps the invariant\<close>

lemma mutexes_ok_loop:
  assumes ok: "mutexes_ok ll l ol pc" and h: "held_obj l' = held_obj l"
  shows "holds_list l' = holds_list l \<Longrightarrow> mutexes_ok ll l' ol pc"
    and "ll = None \<Longrightarrow> holds_list l' \<Longrightarrow> mutexes_ok (Some LoopThread) l' ol pc"
    and "holds_list l \<Longrightarrow> \<not> holds_list l' \<Longrightarrow> mutexes_ok None l' ol pc"
proof -
  show "mutexes_ok ll l' ol pc" if "holds_list l' = holds_list l" using ok h that by (simp add: mutexes_ok_def)
  show "mutexes_ok (Some LoopThread) l' ol pc" if "ll = None" "holds_list l'" using ok h that by (auto simp: mutexes_ok_def)
  show "mutexes_ok None l' ol pc" if "holds_list l" "\<not> holds_list l'"
  proof -
    have "ll = Some LoopThread" using ok that(1) by (simp add: mutexes_ok_def)
    then show ?thesis using ok h that(2) by (auto simp: mutexes_ok_def)
  qed
qed

text \<open>The loop goes on to the next place with the object it has, or to the rest of the batch.\<close>

lemma loop_move_ok:
  assumes ok: "threads_ok x" and mu: "mutexes_ok ll l (obj_lock x) (clients x)"
    and lo: "loop_ok (lives (shared x)) (registered (shared x)) (set (invalidation_list (shared x))) (object_removed (shared x)) l (clients x)"
  shows "threads_ok (x\<lparr>lpc := l, list_lock := ll\<rparr>)"
  using threads_okD(1-4) [OF ok] mu lo by (simp add: threads_ok_def)

lemma loop_go_ok:
  assumes ok: "threads_ok x" and h: "held_obj l = held_obj (lpc x)" "holds_list l = holds_list (lpc x)"
    and lo: "loop_ok (lives (shared x)) (registered (shared x)) (set (invalidation_list (shared x))) (object_removed (shared x)) l (clients x)"
  shows "threads_ok (x\<lparr>lpc := l\<rparr>)"
  using loop_move_ok [OF ok mutexes_ok_loop(1) [OF threads_okD(5) [OF ok] h] lo] by simp

lemma wait_ok:
  assumes ok: "threads_ok x" and "distinct (map fst evs)" and reg: "fst ` set evs \<subseteq> registered (shared x)"
  shows "loop_ok (lives (shared x)) (registered (shared x)) I rm (LEvents evs) (clients x)"
proof -
  have "p \<in> lives (shared x) \<and> past (clients x i) \<noteq> Some p" if "p \<in> fst ` set evs" for p i
  proof
    show "p \<in> lives (shared x)" using that reg registered_live [OF threads_okD(1) [OF ok]] by blast
    show "past (clients x i) \<noteq> Some p"
    proof
      assume "past (clients x i) = Some p"
      then have "gone (clients x i) = Some p" "target (clients x i) = Some p" using pc_subset by blast+
      then have "p \<notin> registered (shared x)" using clients_okD(2) [OF threads_okD(4) [OF ok]] by blast
      then show False using that reg by blast
    qed
  qed
  then show ?thesis using assms(2) by (simp add: loop_ok_def)
qed

lemma run_callback_views:
  assumes ok: "threads_ok x" and r: "map_of (objects (shared x)) p = Some r" and own: "own \<longrightarrow> p \<in> registered (shared x)"
    and s'_def: "s' = run_callback own p f r (shared x)"
  shows "reg_ok s'" "is_running s'" "lives s' = lives (shared x)" "invalidation_list s' = invalidation_list (shared x)"
    "registered s' = (if own then registered (shared x) - {p} else registered (shared x))"
    "object_removed s' = (own \<or> object_removed (shared x))"
proof -
  let ?s = "log_call f (obj_context r) (shared x)"
  have s: "reg_ok ?s" "map_of (objects ?s) p = Some r" "is_running ?s" "lives ?s = lives (shared x)"
    "registered ?s = registered (shared x)" "invalidation_list ?s = invalidation_list (shared x)"
    "object_removed ?s = object_removed (shared x)"
    using threads_okD(1,2) [OF ok] r by (simp_all add: log_call_def reg_ok_def lives_def registered_def)
  have "p \<noteq> NULL" using reg_ok_null [OF threads_okD(1) [OF ok]] r by (auto dest: map_of_in_live)
  then have un: "reactor_unregister True p ?s = Inr (?s\<lparr>epoll_set := AList.delete (obj_fd r) (epoll_set ?s), object_removed := True\<rparr>)"
    using s(2,3) by (simp add: reactor_unregister_def Let_def)
  have "reg_ok s' \<and> is_running s' \<and> lives s' = lives (shared x) \<and> invalidation_list s' = invalidation_list (shared x) \<and>
    registered s' = (if own then registered (shared x) - {p} else registered (shared x)) \<and>
    object_removed s' = (own \<or> object_removed (shared x))"
  proof (cases own)
    case True
    then have s': "s' = ?s\<lparr>epoll_set := AList.delete (obj_fd r) (epoll_set ?s), object_removed := True\<rparr>"
      unfolding s'_def run_callback_def using un by (simp add: Let_def)
    have "p \<in> registered ?s" using own True s(5) by simp
    note v = del_views [OF s(1,2) refl this]
    show ?thesis using v s True unfolding s' by (simp add: reg_ok_def lives_def registered_def)
  next
    case False
    then have "s' = ?s" unfolding s'_def run_callback_def by (simp add: Let_def)
    then show ?thesis using s False by simp
  qed
  then show "reg_ok s'" "is_running s'" "lives s' = lives (shared x)" "invalidation_list s' = invalidation_list (shared x)"
    "registered s' = (if own then registered (shared x) - {p} else registered (shared x))"
    "object_removed s' = (own \<or> object_removed (shared x))" by blast+
qed

text \<open>One round with a callback: from \<open>LRead\<close> to \<open>LWrite\<close>, or from \<open>LWrite\<close> to \<open>LUnlock\<close>.\<close>

lemma callback_step_ok:
  assumes ok: "threads_ok x" and r: "map_of (objects (shared x)) p = Some ob"
    and own: "own \<longrightarrow> \<not> targeted x p \<and> p \<in> registered (shared x)"
    and l: "lpc x = LRead p e evs \<and> l = LWrite p e evs \<or> lpc x = LWrite p e evs \<and> l = LUnlock p evs"
  shows "threads_ok (x\<lparr>lpc := l, shared := if b then run_callback own p f ob (shared x) else shared x\<rparr>)"
proof -
  have p: "p \<in> lives (shared x)" using map_of_in_live [OF r] by (simp add: lives_def)
  have "threads_ok (x\<lparr>lpc := l, shared := run_callback own' p f ob (shared x)\<rparr>)" if own': "own' \<longrightarrow> own" for own'
  proof -
    let ?s = "run_callback own' p f ob (shared x)"
    have "own' \<longrightarrow> p \<in> registered (shared x)" using own own' by blast
    note v = run_callback_views [OF ok r this refl, of f]
    have nt: "own' \<Longrightarrow> target (clients x i) \<noteq> Some p" for i using own own' by (auto simp: targeted_def)
    note lo = threads_okD(6) [OF ok]
    have same: "held_obj l = held_obj (lpc x)" "holds_list l = holds_list (lpc x)" "pend l = pend (lpc x)" "in_hand l = in_hand (lpc x)"
      "grabbing l = grabbing (lpc x)" "held_obj l = Some p" "removed_obj rm l = (if rm then Some p else None)"
      "removed_obj rm (lpc x) = (if rm then Some p else None)" for rm using l by auto
    have "clients_ok (lives ?s) (registered ?s) (clients x)"
      unfolding v(3,5) using threads_okD(4) [OF ok] nt by (simp add: clients_ok_less)
    moreover have "mutexes_ok (list_lock x) l (obj_lock x) (clients x)"
      using threads_okD(5) [OF ok] same(1,2) by (simp add: mutexes_ok_def)
    moreover have "loop_ok (lives ?s) (registered ?s) (set (invalidation_list ?s)) (object_removed ?s) l (clients x)"
      using lo nt p unfolding loop_ok_def same v(3-6) by (auto split: if_splits)
    ultimately show ?thesis using v(1,2) threads_okD(3) [OF ok] by (simp add: threads_ok_def)
  qed
  note run = this
  have "threads_ok (x\<lparr>lpc := l\<rparr>)"
  proof -
    have "held_obj l = held_obj (lpc x)" "holds_list l = holds_list (lpc x)" "pend l = pend (lpc x)" "in_hand l = in_hand (lpc x)"
      "grabbing l = grabbing (lpc x)" "removed_obj rm l = removed_obj rm (lpc x)" for rm using l by auto
    then show ?thesis using ok by (simp add: threads_ok_def mutexes_ok_def loop_ok_def)
  qed
  then show ?thesis using run [of own] by simp
qed

lemma stuck_ok:
  assumes ok: "threads_ok x" and ob: "map_of (objects (shared x)) p = Some ob" and l: "lpc x = LRead p e r \<or> lpc x = LWrite p e r"
    and p: "p \<in> registered (shared x)"
  shows "threads_ok (x\<lparr>lpc := LStuck p, shared := change_events p ob rd wr (log_call f ctx (shared x))\<rparr>)"
proof -
  have ob': "map_of (objects (log_call f ctx (shared x))) p = Some ob" using ob by (simp add: log_call_def)
  have reg: "reg_ok (log_call f ctx (shared x))" using threads_okD(1) [OF ok] by (simp add: reg_ok_def log_call_def)
  have "p \<in> registered (log_call f ctx (shared x))" using p by (simp add: registered_def log_call_def)
  note v = mod_views [OF reg ob' this refl, of "registration_events rd wr"]
  have "threads_ok (x\<lparr>lpc := LStuck p\<rparr>)"
    using l threads_okD(6) [OF ok] by (intro loop_go_ok [OF ok]) (auto simp: loop_ok_def)
  moreover have "registered (log_call f ctx (shared x)) = registered (shared x)" by (simp add: registered_def log_call_def)
  ultimately show ?thesis using v by (simp add: threads_ok_def change_events_def lives_def log_call_def)
qed

lemma loop_step_ok:
  assumes ok: "threads_ok x" and step: "loop_step x y"
  shows "threads_ok y"
proof -
  note lo = threads_okD(6) [OF ok] and mu = threads_okD(5) [OF ok]
  have live: "\<exists>r. map_of (objects (shared x)) p = Some r \<and> (\<forall>y. touch p x y = y r)" if "p \<in> lives (shared x)" for p
    using that by (rule touch_live) blast
  from step show ?thesis
  proof cases
    case l_top
    then show ?thesis using loop_move_ok [OF ok mutexes_ok_loop(2) [OF mu], of LClear] lo by (simp add: loop_ok_def)
  next
    case l_clear
    then show ?thesis using threads_okD(1-4) [OF ok] mutexes_ok_loop(1) [OF mu, of LCleared]
      by (simp add: threads_ok_def loop_ok_def reg_ok_def lives_def registered_def)
  next
    case l_cleared
    then show ?thesis using loop_move_ok [OF ok mutexes_ok_loop(3) [OF mu], of LWait] lo by (simp add: loop_ok_def)
  next
    case (l_wait evs)
    then show ?thesis using loop_go_ok [OF ok _ _ wait_ok [OF ok l_wait(4,5)]] by simp
  next
    case l_next
    then show ?thesis using loop_go_ok [OF ok, of LTop] lo by (simp add: loop_ok_def)
  next
    case (l_lock p e r)
    then show ?thesis using loop_move_ok [OF ok mutexes_ok_loop(2) [OF mu], of "LCheck p e r"] lo by (simp add: loop_ok_def)
  next
    case (l_found p e r)
    then show ?thesis using loop_go_ok [OF ok, of "LSkip r"] lo by (simp add: loop_ok_def)
  next
    case (l_skip r)
    then show ?thesis using loop_move_ok [OF ok mutexes_ok_loop(3) [OF mu], of "LEvents r"] lo by (simp add: loop_ok_def)
  next
    case (l_test p e r)
    then show ?thesis using loop_go_ok [OF ok, of "LGrab p e r"] lo by (simp add: loop_ok_def)
  next
    case (l_grab p e r)
    have "pc \<noteq> UFree p" if "past pc \<noteq> Some p" for pc using that by auto
    moreover have "client_obj (clients x i) \<noteq> Some p" for i using mutexes_okD(1) [OF mu, of p i] l_grab(3) by simp
    moreover obtain ob where "touch p x (\<lambda>_. x\<lparr>lpc := LTaken p e r, obj_lock := (obj_lock x)(p := Some LoopThread)\<rparr>) =
        x\<lparr>lpc := LTaken p e r, obj_lock := (obj_lock x)(p := Some LoopThread)\<rparr>"
      using live [of p] loop_okD(3) [OF lo, of p] l_grab(2) by auto
    ultimately show ?thesis using ok l_grab by (auto simp: threads_ok_def loop_ok_def mutexes_ok_def)
  next
    case (l_drop p e r)
    then show ?thesis using loop_move_ok [OF ok mutexes_ok_loop(3) [OF mu], of "LReady p e r"] lo by (simp add: loop_ok_def)
  next
    case (l_ready p e r)
    then show ?thesis using ok by (simp add: threads_ok_def loop_ok_def mutexes_ok_def reg_ok_def lives_def registered_def)
  next
    case (l_stuck p e r ob f rd wr)
    then show ?thesis using stuck_ok [OF ok l_stuck(3), of e r] by auto
  next
    case (l_read p e r own)
    then have "p \<in> lives (shared x)" using loop_okD(1) [OF lo] by simp
    then obtain ob where "map_of (objects (shared x)) p = Some ob" "\<forall>y. touch p x y = y ob" using live by blast
    then show ?thesis using l_read callback_step_ok [OF ok _ l_read(3)] by simp
  next
    case (l_write p e r own)
    then have "p \<in> lives (shared x)" using loop_okD(1) [OF lo] by simp
    then obtain ob where "map_of (objects (shared x)) p = Some ob" "\<forall>y. touch p x y = y ob" using live by blast
    then show ?thesis using l_write callback_step_ok [OF ok _ l_write(3)] by simp
  next
    case (l_unlock p r)
    then have "p \<in> lives (shared x)" using loop_okD(1) [OF lo] by simp
    then obtain ob where ob: "\<forall>y. touch p x y = y ob" using live by blast
    have "obj_lock x p = Some LoopThread" using mutexes_okD(2) [OF mu, of p] l_unlock(2) by simp
    then have "client_obj (clients x i) \<noteq> Some p" for i using mutexes_okD(1) [OF mu, of p i] by simp
    then show ?thesis using ok ob l_unlock by (auto simp: threads_ok_def loop_ok_def mutexes_ok_def)
  next
    case (l_free p r)
    let ?y = "x\<lparr>lpc := LEvents r\<rparr>"
    have rem: "p \<in> lives (shared x)" "p \<notin> registered (shared x)" "\<not> targeted x p"
      using loop_okD(5) [OF lo, of p] l_free(2) by (auto simp: targeted_def)
    have y: "threads_ok ?y" using ok l_free(2) by (simp add: threads_ok_def loop_ok_def mutexes_ok_def)
    have "p \<notin> set (pend (lpc ?y))" using loop_okD(7) [OF lo, of p] l_free(2) by simp
    then have "threads_ok (?y\<lparr>shared := (shared ?y)\<lparr>objects := release p (objects (shared ?y))\<rparr>\<rparr>)"
      by (intro free_ok [OF y]) (use rem in \<open>simp_all add: targeted_def\<close>)
    moreover obtain ob where "\<forall>y. touch p x y = y ob" using live [OF rem(1)] by blast
    ultimately show ?thesis using l_free(1) by simp
  qed
qed

interpretation rs: step_system "reactor_step env" "\<lambda>x. fresh_alloc (obj_alloc env) \<longrightarrow> threads_ok x" for env
  by unfold_locales (unfold reactor_step_def, blast intro: loop_step_ok client_step_ok)

lemma reactor_start_world_ok: "reg_ok s \<Longrightarrow> threads_ok (reactor_start_world s)"
  by (simp add: threads_ok_def reactor_start_world_def reg_ok_def clients_ok_def mutexes_ok_def loop_ok_def)

lemma reactor_reach_ok:
  assumes "fresh_alloc (obj_alloc env)" and "reg_ok s" and "(reactor_step env)\<^sup>*\<^sup>* (reactor_start_world s) x"
  shows "threads_ok x"
  using rs.steps_inv [OF assms(3)] reactor_start_world_ok [OF assms(2)] assms(1) by blast

section \<open>Properties\<close>

text \<open>
  C7. Unregistering while the loop runs: in every interleaving of the loop with threads that register,
  change and unregister objects, no freed object is ever accessed; an object the loop has in hand
  is live; and when \<open>reactor_unregister\<close> has had the lock of its object and is about to free it, the
  loop does not hold the object, and an event of it that is still in the batch will be skipped.
\<close>

theorem reactor_threads_safe:
  assumes "fresh_alloc (obj_alloc env)" and "reg_ok s" and "(reactor_step env)\<^sup>*\<^sup>* (reactor_start_world s) x"
  shows "\<not> used_freed x \<and> (\<forall>p. in_hand (lpc x) = Some p \<longrightarrow> p \<in> lives (shared x)) \<and>
    (\<forall>i p. clients x i = UFree p \<longrightarrow> in_hand (lpc x) \<noteq> Some p \<and>
      (p \<in> set (pend (lpc x)) \<longrightarrow> p \<in> set (invalidation_list (shared x))))"
proof -
  have ok: "threads_ok x" by (rule reactor_reach_ok [OF assms])
  note lo = loop_okD [OF threads_okD(6) [OF ok]]
  have hand: "in_hand l = Some p \<Longrightarrow> held_obj l = Some p \<or> grabbing l = Some p \<or> removed_obj rm l = Some p" for l p rm
    by (cases l) simp_all
  have "p \<in> lives (shared x)" if "in_hand (lpc x) = Some p" for p using hand [OF that] lo(1,3,5) by blast
  moreover have "in_hand (lpc x) \<noteq> Some p" if c: "clients x i = UFree p" for i p
  proof
    assume "in_hand (lpc x) = Some p"
    then show False using hand [of "lpc x" p] lo(2) [of p i] lo(4) [of p i] lo(5) [of p i] c by auto
  qed
  moreover have "p \<in> set (invalidation_list (shared x))" if "clients x i = UFree p" "p \<in> set (pend (lpc x))" for i p
    using lo(8) [OF that(2), of i] that(1) by simp
  ultimately show ?thesis using threads_okD(3) [OF ok] by blast
qed

text \<open>An object is unregistered while its event is in the batch.\<close>

definition one_object :: reactor_t where
  "one_object = new_reactor\<lparr>epoll_set := [(5, 16, EPOLLIN)],
     objects := [(16, \<lparr>obj_fd = 5, obj_context = 1, read_ready = 2, write_ready = NULL\<rparr>)]\<rparr>"

definition plain_env :: reactor_env where
  "plain_env = \<lparr>obj_alloc = arena_alloc [32], ctl_accepts = \<lambda>_. True, callback_ops = \<lambda>_ _ _. [], other_ops = \<lambda>_ _. []\<rparr>"

lemma one_object_ok: "reg_ok one_object" "fresh_alloc (obj_alloc plain_env)"
  by (simp_all add: reg_ok_def one_object_def plain_env_def)

text \<open>The states of the runs: the place of the loop, the interest set, the invalidation list, client 0, the locks.\<close>

definition moment :: "loop_pc \<Rightarrow> (fd \<times> ptr \<times> uint32_t) list \<Rightarrow> ptr list \<Rightarrow> client_pc \<Rightarrow> holder option \<Rightarrow> (ptr \<Rightarrow> holder option) \<Rightarrow> reactor_world" where
  "moment l E I c ll ol = \<lparr>shared = one_object\<lparr>is_running := True, epoll_set := E, invalidation_list := I\<rparr>, lpc = l,
     clients = (\<lambda>_. Resting)(0 := c), list_lock = ll, obj_lock = ol, used_freed = False\<rparr>"

lemmas moment_defs = moment_def one_object_def new_reactor_def registered_def go_def targeted_def touch_def

lemma run_loop: "loop_step x y \<Longrightarrow> (reactor_step env)\<^sup>*\<^sup>* y z \<Longrightarrow> (reactor_step env)\<^sup>*\<^sup>* x z"
  by (rule converse_rtranclp_into_rtranclp) (simp_all add: reactor_step_def)

lemma run_client: "client_step env i x y \<Longrightarrow> (reactor_step env)\<^sup>*\<^sup>* y z \<Longrightarrow> (reactor_step env)\<^sup>*\<^sup>* x z"
  by (rule converse_rtranclp_into_rtranclp) (auto simp: reactor_step_def)

text \<open>The loop gets the event of the object; it dispatches it; a client unregisters the object up to its lock.\<close>

lemma batch_run:
  "(reactor_step plain_env)\<^sup>*\<^sup>* (reactor_start_world one_object)
     (moment (LEvents [(16, EPOLLIN)]) [(5, 16, EPOLLIN)] [] Resting None (\<lambda>_. None))"
proof -
  let ?m = "\<lambda>l ll. moment l [(5, 16, EPOLLIN)] [] Resting ll (\<lambda>_. None)"
  have "loop_step (?m LTop None) (?m LClear (Some LoopThread))"
    using loop_step.l_top [of "?m LTop None"] by (simp add: moment_defs)
  moreover have "loop_step (?m LClear (Some LoopThread)) (?m LCleared (Some LoopThread))"
    using loop_step.l_clear [of "?m LClear (Some LoopThread)"] by (simp add: moment_defs)
  moreover have "loop_step (?m LCleared (Some LoopThread)) (?m LWait None)"
    using loop_step.l_cleared [of "?m LCleared (Some LoopThread)"] by (simp add: moment_defs)
  moreover have "loop_step (?m LWait None) (?m (LEvents [(16, EPOLLIN)]) None)"
    using loop_step.l_wait [of "?m LWait None" "[(16, EPOLLIN)]"] by (simp add: moment_defs)
  ultimately have "(reactor_step plain_env)\<^sup>*\<^sup>* (?m LTop None) (?m (LEvents [(16, EPOLLIN)]) None)"
    by (meson run_loop rtranclp.rtrancl_refl)
  moreover have "reactor_start_world one_object = ?m LTop None"
    by (simp add: reactor_start_world_def moment_def one_object_def new_reactor_def fun_upd_idem)
  ultimately show ?thesis by simp
qed

lemma taken_run:
  "(reactor_step plain_env)\<^sup>*\<^sup>* (reactor_start_world one_object)
     (moment (LRead 16 EPOLLIN []) [(5, 16, EPOLLIN)] [] Resting None ((\<lambda>_. None)(16 := Some LoopThread)))"
proof -
  let ?m = "\<lambda>l ll. moment l [(5, 16, EPOLLIN)] [] Resting ll (\<lambda>_. None)"
    and ?h = "\<lambda>l ll. moment l [(5, 16, EPOLLIN)] [] Resting ll ((\<lambda>_. None)(16 := Some LoopThread))"
  have "loop_step (?m (LEvents [(16, EPOLLIN)]) None) (?m (LCheck 16 EPOLLIN []) (Some LoopThread))"
    using loop_step.l_lock [of "?m (LEvents [(16, EPOLLIN)]) None"] by (simp add: moment_defs)
  moreover have "loop_step (?m (LCheck 16 EPOLLIN []) (Some LoopThread)) (?m (LGrab 16 EPOLLIN []) (Some LoopThread))"
    using loop_step.l_test [of "?m (LCheck 16 EPOLLIN []) (Some LoopThread)"] by (simp add: moment_defs)
  moreover have "loop_step (?m (LGrab 16 EPOLLIN []) (Some LoopThread)) (?h (LTaken 16 EPOLLIN []) (Some LoopThread))"
    using loop_step.l_grab [of "?m (LGrab 16 EPOLLIN []) (Some LoopThread)"] by (simp add: moment_defs)
  moreover have "loop_step (?h (LTaken 16 EPOLLIN []) (Some LoopThread)) (?h (LReady 16 EPOLLIN []) None)"
    using loop_step.l_drop [of "?h (LTaken 16 EPOLLIN []) (Some LoopThread)"] by (simp add: moment_defs)
  moreover have "loop_step (?h (LReady 16 EPOLLIN []) None) (?h (LRead 16 EPOLLIN []) None)"
    using loop_step.l_ready [of "?h (LReady 16 EPOLLIN []) None"] by (simp add: moment_defs)
  ultimately have "(reactor_step plain_env)\<^sup>*\<^sup>* (?m (LEvents [(16, EPOLLIN)]) None) (?h (LRead 16 EPOLLIN []) None)"
    by (meson run_loop rtranclp.rtrancl_refl)
  then show ?thesis by (rule rtranclp_trans [OF batch_run])
qed

lemma unregister_run:
  "(reactor_step plain_env)\<^sup>*\<^sup>* (moment l [(5, 16, EPOLLIN)] [] Resting None ol) (moment l [] [16] (ULock 16) None ol)"
proof -
  let ?m = "\<lambda>E I c ll. moment l E I c ll ol" and ?e = "[(5, 16, EPOLLIN)]" and ?c = "Some (Client 0)"
  have "client_step plain_env 0 (?m ?e [] Resting None) (?m ?e [] (UDel 16) None)"
    using client_step.u_begin [of "?m ?e [] Resting None" 0 16 plain_env] by (simp add: moment_defs)
  moreover have "client_step plain_env 0 (?m ?e [] (UDel 16) None) (?m [] [] (UList 16) None)"
    using client_step.u_del [of "?m ?e [] (UDel 16) None" 0 16 plain_env] by (simp add: moment_defs)
  moreover have "client_step plain_env 0 (?m [] [] (UList 16) None) (?m [] [] (UAppend 16) ?c)"
    using client_step.u_list [of "?m [] [] (UList 16) None" 0 16 plain_env] by (simp add: moment_defs)
  moreover have "client_step plain_env 0 (?m [] [] (UAppend 16) ?c) (?m [] [16] (UListUnlock 16) ?c)"
    using client_step.u_append [of "?m [] [] (UAppend 16) ?c" 0 16 plain_env] by (simp add: moment_defs)
  moreover have "client_step plain_env 0 (?m [] [16] (UListUnlock 16) ?c) (?m [] [16] (ULock 16) None)"
    using client_step.u_list_unlock [of "?m [] [16] (UListUnlock 16) ?c" 0 16 plain_env] by (simp add: moment_defs)
  ultimately show ?thesis by (meson run_client rtranclp.rtrancl_refl)
qed

lemma one_object_run:
  "\<exists>x. (reactor_step plain_env)\<^sup>*\<^sup>* (reactor_start_world one_object) x \<and> clients x 0 = UFree 16 \<and> lpc x = LEvents [(16, EPOLLIN)]"
proof -
  let ?m = "\<lambda>c ol. moment (LEvents [(16, EPOLLIN)]) [] [16] c None ol" and ?h = "(\<lambda>_. None)(16 := Some (Client 0))"
  have "client_step plain_env 0 (?m (ULock 16) (\<lambda>_. None)) (?m (UUnlock 16) ?h)"
    using client_step.u_lock [of "?m (ULock 16) (\<lambda>_. None)" 0 16 plain_env] by (simp add: moment_defs)
  moreover have "client_step plain_env 0 (?m (UUnlock 16) ?h) (?m (UFree 16) (\<lambda>_. None))"
    using client_step.u_unlock [of "?m (UUnlock 16) ?h" 0 16 plain_env] by (simp add: moment_defs fun_upd_def cong: if_cong)
  ultimately have "(reactor_step plain_env)\<^sup>*\<^sup>* (?m (ULock 16) (\<lambda>_. None)) (?m (UFree 16) (\<lambda>_. None))"
    by (meson run_client rtranclp.rtrancl_refl)
  then have "(reactor_step plain_env)\<^sup>*\<^sup>* (reactor_start_world one_object) (?m (UFree 16) (\<lambda>_. None))"
    by (rule rtranclp_trans [OF rtranclp_trans [OF batch_run unregister_run]])
  then show ?thesis by (intro exI [of _ "?m (UFree 16) (\<lambda>_. None)"]) (simp add: moment_def)
qed

theorem reactor_threads_safe_witness:
  "\<exists>x :: reactor_world. clients x 0 = UFree 16 \<and> 16 \<in> set (pend (lpc x)) \<and> 16 \<in> set (invalidation_list (shared x)) \<and> \<not> used_freed x"
proof -
  obtain x where x: "(reactor_step plain_env)\<^sup>*\<^sup>* (reactor_start_world one_object) x" "clients x 0 = UFree 16" "lpc x = LEvents [(16, EPOLLIN)]"
    using one_object_run by blast
  from reactor_threads_safe [OF one_object_ok(2,1) x(1)] x(2,3) show ?thesis by (intro exI [of _ x]) auto
qed

section \<open>Who waits for whom\<close>

text \<open>The holder of the lock a thread needs for its next step, when it is taken.\<close>

fun waits_for :: "reactor_world \<Rightarrow> holder \<Rightarrow> holder option" where
  "waits_for x LoopThread = (case lpc x of LTop \<Rightarrow> list_lock x | LEvents (ev # r) \<Rightarrow> list_lock x
     | LGrab p e r \<Rightarrow> obj_lock x p | LStuck p \<Rightarrow> obj_lock x p | _ \<Rightarrow> None)"
| "waits_for x (Client i) = (case clients x i of UList p \<Rightarrow> list_lock x
     | ULock p \<Rightarrow> obj_lock x p | CLock p rd wr \<Rightarrow> obj_lock x p | _ \<Rightarrow> None)"

fun movable :: "reactor_env \<Rightarrow> reactor_world \<Rightarrow> holder \<Rightarrow> bool" where
  "movable env x LoopThread = (\<exists>y. loop_step x y)"
| "movable env x (Client i) = (\<exists>y. client_step env i x y)"

lemma loop_moves_or_waits: "movable env x LoopThread \<or> lpc x = LWait \<or> (\<exists>h. waits_for x LoopThread = Some h) \<or> (\<exists>p. lpc x = LStuck p)"
proof (cases "lpc x")
  case (LEvents es)
  then show ?thesis by (cases es; cases "list_lock x") (auto intro: loop_step.l_next loop_step.l_lock)
next
  case (LCheck p e r)
  then show ?thesis using loop_step.l_found [OF LCheck] loop_step.l_test [OF LCheck] by auto
next
  case (LGrab p e r)
  then show ?thesis by (cases "obj_lock x p") (auto intro: loop_step.l_grab)
next
  case LTop
  then show ?thesis by (cases "list_lock x") (auto intro: loop_step.l_top)
next
  case (LRead p e r)
  then show ?thesis using loop_step.l_read [of x p e r False] by auto
next
  case (LWrite p e r)
  then show ?thesis using loop_step.l_write [of x p e r False] by auto
qed (auto intro: loop_step.intros)

lemma client_moves_or_waits: "clients x i = Resting \<or> movable env x (Client i) \<or> (\<exists>h. waits_for x (Client i) = Some h)"
proof (cases "clients x i")
  case (UList p)
  then show ?thesis by (cases "list_lock x") (auto intro: client_step.u_list)
next
  case (ULock p)
  then show ?thesis by (cases "obj_lock x p") (auto intro: client_step.u_lock)
next
  case (CLock p rd wr)
  then show ?thesis by (cases "obj_lock x p") (auto intro: client_step.c_lock)
qed (auto intro: client_step.intros)

lemma client_holder_moves: "client_list (clients x i) \<or> client_obj (clients x i) = Some p \<Longrightarrow> movable env x (Client i)"
  by (cases "clients x i") (auto intro: client_step.intros)

text \<open>The holder of a lock can move, or it is the loop with the list in hand, which waits for a client that can.\<close>

lemma loop_holder_moves:
  assumes mu: "mutexes_ok (list_lock x) (lpc x) (obj_lock x) (clients x)" and stuck: "\<And>p. lpc x \<noteq> LStuck p"
    and h: "holds_list (lpc x) \<or> held_obj (lpc x) = Some q"
  shows "movable env x LoopThread \<or> (\<exists>g. waits_for x LoopThread = Some g \<and> movable env x g)"
proof (cases "movable env x LoopThread")
  case False
  then obtain g where g: "waits_for x LoopThread = Some g" using loop_moves_or_waits [of env x] stuck h by auto
  then obtain p e r where l: "lpc x = LGrab p e r" "obj_lock x p = Some g" using h stuck by (cases "lpc x") auto
  then obtain i where "g = Client i" using mutexes_okD(2) [OF mu, of p] by (cases g) auto
  then have "client_obj (clients x i) = Some p" using mutexes_okD(1) [OF mu, of p i] l(2) by simp
  then have "movable env x g" unfolding \<open>g = Client i\<close> by (intro client_holder_moves) blast
  then show ?thesis using g by blast
qed blast

lemma lock_holder:
  assumes mu: "mutexes_ok (list_lock x) (lpc x) (obj_lock x) (clients x)" and w: "waits_for x t = Some h"
  shows "case h of LoopThread \<Rightarrow> holds_list (lpc x) \<or> (\<exists>p. held_obj (lpc x) = Some p)
    | Client i \<Rightarrow> client_list (clients x i) \<or> (\<exists>p. client_obj (clients x i) = Some p)"
proof -
  have "list_lock x = Some h \<or> (\<exists>p. obj_lock x p = Some h)"
  proof (cases t)
    case LoopThread
    then show ?thesis using w by (auto split: loop_pc.splits list.splits)
  next
    case (Client i)
    then show ?thesis using w by (auto split: client_pc.splits)
  qed
  then show ?thesis
  proof (cases h)
    case LoopThread
    then show ?thesis using mutexes_okD(2,4) [OF mu] \<open>list_lock x = Some h \<or> _\<close> by auto
  next
    case (Client i)
    then show ?thesis using mutexes_okD(1,3) [OF mu] \<open>list_lock x = Some h \<or> _\<close> by auto
  qed
qed

lemma stuck_stays: "(reactor_step env)\<^sup>*\<^sup>* x y \<Longrightarrow> lpc x = LStuck p \<Longrightarrow> lpc y = LStuck p"
proof (induction rule: rtranclp_induct)
  case (step y z)
  then show ?case by (auto simp: reactor_step_def go_def touch_def elim!: loop_step.cases client_step.cases split: option.splits)
qed

text \<open>
  C15. Who waits, and for whom. The loop can go on unless it waits for events or for a lock another
  thread holds; a thread inside \<open>reactor_unregister\<close> or \<open>reactor_change_registration\<close> can go on unless
  it waits for a lock. As long as no callback has changed the registration of its own object there is
  no deadlock: whoever a thread waits for can go on, or is the loop, which waits for one that can go on.
  After such a callback the loop never moves again.
\<close>

theorem reactor_threads_progress:
  assumes "fresh_alloc (obj_alloc env)" and "reg_ok s" and "(reactor_step env)\<^sup>*\<^sup>* (reactor_start_world s) x"
  shows "(movable env x LoopThread \<or> lpc x = LWait \<or> (\<exists>h. waits_for x LoopThread = Some h)) \<and>
    (\<forall>i. clients x i = Resting \<or> movable env x (Client i) \<or> (\<exists>h. waits_for x (Client i) = Some h)) \<and>
    ((\<forall>p. lpc x \<noteq> LStuck p) \<longrightarrow> (\<forall>t h. waits_for x t = Some h \<longrightarrow>
      movable env x h \<or> h = LoopThread \<and> (\<exists>g. waits_for x h = Some g \<and> movable env x g))) \<and>
    (\<forall>p y. lpc x = LStuck p \<longrightarrow> (reactor_step env)\<^sup>*\<^sup>* x y \<longrightarrow> \<not> movable env y LoopThread)"
proof (intro conjI allI impI)
  have mu: "mutexes_ok (list_lock x) (lpc x) (obj_lock x) (clients x)" by (rule threads_okD(5) [OF reactor_reach_ok [OF assms]])
  show "movable env x LoopThread \<or> lpc x = LWait \<or> (\<exists>h. waits_for x LoopThread = Some h)"
  proof (cases "\<exists>p. lpc x = LStuck p")
    case True
    then obtain p where p: "lpc x = LStuck p" by blast
    then show ?thesis using mutexes_okD(2) [OF mu, of p] by simp
  qed (use loop_moves_or_waits [of env x] in blast)
  show "clients x i = Resting \<or> movable env x (Client i) \<or> (\<exists>h. waits_for x (Client i) = Some h)" for i
    by (rule client_moves_or_waits)
  show "movable env x h \<or> h = LoopThread \<and> (\<exists>g. waits_for x h = Some g \<and> movable env x g)"
    if stuck: "\<forall>p. lpc x \<noteq> LStuck p" and w: "waits_for x t = Some h" for t h
  proof (cases h)
    case LoopThread
    then show ?thesis using loop_holder_moves [OF mu, of _ env] stuck lock_holder [OF mu w] by auto
  next
    case (Client i)
    then show ?thesis using client_holder_moves [of x i _ env] lock_holder [OF mu w] by auto
  qed
  show "\<not> movable env y LoopThread" if "lpc x = LStuck p" "(reactor_step env)\<^sup>*\<^sup>* x y" for p y
    using stuck_stays [OF that(2,1)] by (auto elim: loop_step.cases)
qed

theorem reactor_threads_progress_witness:
  "\<exists>x y. (reactor_step plain_env)\<^sup>*\<^sup>* (reactor_start_world one_object) x \<and> waits_for x (Client 0) = Some LoopThread \<and>
     lpc x = LRead 16 EPOLLIN [] \<and> movable plain_env x LoopThread \<and>
     (reactor_step plain_env)\<^sup>*\<^sup>* (reactor_start_world one_object) y \<and> lpc y = LStuck 16 \<and> \<not> movable plain_env y LoopThread"
proof -
  let ?h = "(\<lambda>_. None)(16 := Some LoopThread)"
  let ?x = "moment (LRead 16 EPOLLIN []) [] [16] (ULock 16) None ?h"
    and ?d = "moment (LRead 16 EPOLLIN []) [(5, 16, EPOLLIN)] [] Resting None ?h"
  have x: "(reactor_step plain_env)\<^sup>*\<^sup>* (reactor_start_world one_object) ?x"
    by (rule rtranclp_trans [OF taken_run unregister_run])
  have l: "lpc ?x = LRead 16 EPOLLIN []" "waits_for ?x (Client 0) = Some LoopThread" "waits_for ?x LoopThread = None"
    by (simp_all add: moment_def)
  then have move: "movable plain_env ?x LoopThread"
    using reactor_threads_progress [OF one_object_ok(2,1) x] by (auto simp del: movable.simps waits_for.simps)
  let ?o = "\<lparr>obj_fd = 5, obj_context = 1, read_ready = 2, write_ready = NULL\<rparr>"
  have d: "lpc ?d = LRead 16 EPOLLIN [] \<and> wants_read EPOLLIN ?o \<and> 2 = read_ready ?o" "map_of (objects (shared ?d)) 16 = Some ?o"
    by (simp_all add: moment_def one_object_def wants_read_def EPOLLIN_def EPOLLHUP_def EPOLLRDHUP_def EPOLLERR_def)
  have "16 \<in> registered (shared ?d)" by (rule registeredI [of _ 5 _ EPOLLIN]) (simp add: moment_def one_object_def)
  then have r: "\<not> targeted ?d 16 \<and> 16 \<in> registered (shared ?d)" by (simp add: targeted_def moment_def)
  obtain y where step: "loop_step ?d y" "lpc y = LStuck 16" using loop_step.l_stuck [OF disjI1 [OF d(1)] d(2) r, of NULL NULL] by auto
  then have y: "(reactor_step plain_env)\<^sup>*\<^sup>* (reactor_start_world one_object) y"
    by (intro rtranclp.rtrancl_into_rtrancl [OF taken_run]) (simp add: reactor_step_def)
  have "\<not> movable plain_env y LoopThread"
    using reactor_threads_progress [OF one_object_ok(2,1) y] step(2) by (blast intro: rtranclp.rtrancl_refl)
  then show ?thesis using x l move y step(2) by blast
qed

end
