(* ===== verification/EagerReader.thy ===== *)
theory EagerReader
  imports FixedQueue
begin

text \<open>
  The eager reader of \<open>src/eager_reader.c\<close>: a thread reads from a descriptor into buffers that wait
  in a \<open>fixed_queue_t\<close>, and an \<open>eventfd\<close> counts the bytes that are available to the consumer.

  The buffers are objects of a store; the queue is the one of \<open>FixedQueue\<close>. What \<open>read\<close> delivers and
  what the allocator answers are arguments. \<open>inbound_data_waiting\<close> enqueues a buffer before it
  counts its bytes, so a run of the two sides in either order is a sequence of the steps below.
\<close>

section \<open>The code\<close>

record data_buffer_t =
  db_length :: size_t
  db_offset :: size_t
  db_data :: "uint8_t list"

record eager_reader_t =
  bytes_available :: uint64_t
  buffer_size :: size_t
  er_buffers :: fixed_queue_t
  current_buffer :: ptr
  inbound_read_object :: ptr
  outbound_registration :: ptr
  outbound_read_ready :: ptr
  outbound_context :: ptr
  er_store :: "(ptr \<times> data_buffer_t) list"

text \<open>
  \<open>eager_reader_new\<close>: the answers of the calls it makes. The result of \<open>reactor_register\<close> is stored
  without a look at it.
\<close>

datatype er_resource = ReaderMem | AvailableFd | BufferQueue | ReadThread

record er_new_env =
  er_eventfd_ok :: bool
  er_queue :: "fixed_queue_t option"
  er_thread_ok :: bool
  er_register :: ptr

definition eager_reader_free_resources :: "er_resource list \<Rightarrow> er_resource list" where
  "eager_reader_free_resources held =
     removeAll ReaderMem (removeAll AvailableFd (removeAll BufferQueue (removeAll ReadThread held)))"

definition eager_reader_new ::
  "er_new_env \<Rightarrow> int \<Rightarrow> size_t \<Rightarrow> size_t \<Rightarrow> string \<Rightarrow> (eager_reader_t option \<times> er_resource list) res" where
  "eager_reader_new env fd_to_read bsize max_buffer_count thread_name =
     rbind (c_assert (fd_to_read \<noteq> -1)) (\<lambda>_.
     rbind (c_assert (bsize > 0)) (\<lambda>_.
     rbind (c_assert (max_buffer_count > 0)) (\<lambda>_.
     rbind (c_assert (thread_name \<noteq> [])) (\<lambda>_.
     let h0 = [ReaderMem] in
     if \<not> er_eventfd_ok env then Inr (None, eager_reader_free_resources h0)
     else let h1 = AvailableFd # h0 in
     case er_queue env of None \<Rightarrow> Inr (None, eager_reader_free_resources h1)
     | Some q \<Rightarrow> let h2 = BufferQueue # h1 in
     if \<not> er_thread_ok env then Inr (None, eager_reader_free_resources h2)
     else Inr (Some \<lparr>bytes_available = 0, buffer_size = bsize, er_buffers = q, current_buffer = NULL,
                     inbound_read_object = er_register env, outbound_registration = NULL,
                     outbound_read_ready = NULL, outbound_context = NULL, er_store = []\<rparr>, ReadThread # h2)))))"

definition eager_reader_unregister :: "eager_reader_t \<Rightarrow> reactor_call list \<times> eager_reader_t" where
  "eager_reader_unregister s =
     (if outbound_registration s \<noteq> NULL
      then ([CallUnregister (outbound_registration s)], s\<lparr>outbound_registration := NULL\<rparr>) else ([], s))"

text \<open>\<open>obj\<close> is what \<open>reactor_register\<close> answers.\<close>

definition eager_reader_register ::
  "ptr \<Rightarrow> ptr \<Rightarrow> ptr \<Rightarrow> eager_reader_t \<Rightarrow> (reactor_call list \<times> eager_reader_t) res" where
  "eager_reader_register obj read_cb ctx s =
     rbind (c_assert (read_cb \<noteq> NULL)) (\<lambda>_.
     let (calls, s1) = eager_reader_unregister s in
     Inr (calls @ [CallRegister obj],
          s1\<lparr>outbound_read_ready := read_cb, outbound_context := ctx, outbound_registration := obj\<rparr>))"

text \<open>\<open>reader->allocator->free\<close> of a buffer.\<close>

definition free_data_buffer :: "ptr \<Rightarrow> (ptr \<times> data_buffer_t) list \<Rightarrow> (ptr \<times> data_buffer_t) list" where
  "free_data_buffer p st = release p st"

text \<open>\<open>eager_reader_free\<close>: the calls to reactors, and the buffers that are still allocated afterwards.\<close>

definition eager_reader_free ::
  "eager_reader_t option \<Rightarrow> (reactor_call list \<times> (ptr \<times> data_buffer_t) list) res" where
  "eager_reader_free r =
     (case r of None \<Rightarrow> Inr ([], [])
      | Some s0 \<Rightarrow>
          let (calls, s) = eager_reader_unregister s0;
              calls1 = (if inbound_read_object s \<noteq> NULL then [CallUnregister (inbound_read_object s)] else []);
              st = (if current_buffer s \<noteq> NULL then free_data_buffer (current_buffer s) (er_store s) else er_store s)
          in rbind (fixed_queue_free (Some (er_buffers s)) (Some free_data_buffer) st) (\<lambda>(calls2, st1).
             Inr (calls @ calls1 @ calls2, st1)))"

text \<open>\<open>select\<close> with a zero timeout: the descriptor is readable when its counter is not 0.\<close>

definition has_byte :: "eager_reader_t \<Rightarrow> bool" where
  "has_byte s \<longleftrightarrow> bytes_available s \<noteq> 0"

text \<open>\<open>eventfd_write\<close>: the counter stays below its largest value, or the writer waits.\<close>

definition count_bytes :: "uint64_t \<Rightarrow> eager_reader_t \<Rightarrow> eager_reader_t res" where
  "count_bytes n s =
     (if unat (bytes_available s) + unat n \<le> 18446744073709551614
      then Inr (s\<lparr>bytes_available := bytes_available s + n\<rparr>) else Inl Blocks)"

text \<open>
  The copying loop; every round takes a byte or drops a buffer, so \<open>fuel\<close> is the number of bytes
  plus the number of queued buffers plus one.
\<close>

fun read_loop :: "nat \<Rightarrow> size_t \<Rightarrow> size_t \<Rightarrow> uint8_t list \<Rightarrow> eager_reader_t \<Rightarrow> (uint8_t list \<times> size_t \<times> eager_reader_t) res" where
  "read_loop fuel bytes_consumed max_size out s =
     (if \<not> bytes_consumed < max_size then Inr (out, bytes_consumed, s)
      else case fuel of 0 \<Rightarrow> Inl Diverges
      | Suc k \<Rightarrow>
        rbind (if current_buffer s = NULL
               then rbind (fixed_queue_dequeue (er_buffers s)) (\<lambda>(p, q). Inr (s\<lparr>current_buffer := p, er_buffers := q\<rparr>))
               else Inr s) (\<lambda>s1.
        rbind (deref (er_store s1) (current_buffer s1)) (\<lambda>b.
        let avail = db_length b - db_offset b;
            bytes_to_copy = (if avail > max_size - bytes_consumed then max_size - bytes_consumed else avail) in
        if unat (db_offset b) + unat bytes_to_copy > length (db_data b) then Inl OutOfBounds
        else
          let out1 = out @ take (unat bytes_to_copy) (drop (unat (db_offset b)) (db_data b));
              b1 = b\<lparr>db_offset := db_offset b + bytes_to_copy\<rparr>;
              s2 = (if db_offset b1 \<ge> db_length b1
                    then s1\<lparr>er_store := free_data_buffer (current_buffer s1) (er_store s1), current_buffer := NULL\<rparr>
                    else s1\<lparr>er_store := store_at (current_buffer s1) b1 (er_store s1)\<rparr>)
          in read_loop k (bytes_consumed + bytes_to_copy) max_size out1 s2)))"

declare read_loop.simps [simp del]

text \<open>
  \<open>read_ok\<close> and \<open>write_ok\<close> say whether \<open>eventfd_read\<close> and \<open>eventfd_write\<close> succeed; a failing read gives up,
  a failing write is only logged, so the bytes that are left are no longer counted.
\<close>

definition eager_reader_read_io ::
  "bool \<Rightarrow> bool \<Rightarrow> size_t \<Rightarrow> eager_reader_t \<Rightarrow> (uint8_t list \<times> size_t \<times> eager_reader_t) res" where
  "eager_reader_read_io read_ok write_ok max_size s =
     (if \<not> has_byte s then Inr ([], 0, s)
      else if \<not> read_ok then Inr ([], 0, s)
      else
        let available = bytes_available s; s1 = s\<lparr>bytes_available := 0\<rparr>;
            max1 = (if max_size > available then available else max_size);
            fuel = unat max1 + length (fq_content (er_buffers s1)) + 1
        in rbind (read_loop fuel 0 max1 [] s1) (\<lambda>(out, bytes_consumed, s2).
           rbind (if write_ok then count_bytes (available - bytes_consumed) s2 else Inr s2) (\<lambda>s3.
             Inr (out, bytes_consumed, s3))))"

text \<open>The read with calls that succeed.\<close>

definition eager_reader_read :: "size_t \<Rightarrow> eager_reader_t \<Rightarrow> (uint8_t list \<times> size_t \<times> eager_reader_t) res" where
  "eager_reader_read = eager_reader_read_io True True"

text \<open>
  \<open>inbound_data_waiting\<close>: \<open>input\<close> is what \<open>read\<close> stored (\<open>None\<close> for an error); its length goes
  through an \<open>int\<close>.
\<close>

definition inbound_data_waiting ::
  "alloc_fn \<Rightarrow> uint8_t list option \<Rightarrow> eager_reader_t \<Rightarrow> eager_reader_t res" where
  "inbound_data_waiting alloc input s =
     (let buffer = alloc (live (er_store s)) in
      if buffer = NULL then Inr s
      else
        let bytes_read = (case input of None \<Rightarrow> -1 | Some bs \<Rightarrow> sint (word_of_nat (length bs) :: 32 word)) in
        if bytes_read > 0
        then
          let b = \<lparr>db_length = word_of_int bytes_read, db_offset = 0, db_data = the input\<rparr> in
          rbind (fixed_queue_enqueue (er_buffers s) buffer) (\<lambda>q.
            count_bytes (word_of_int bytes_read) (s\<lparr>er_store := store_at buffer b (er_store s), er_buffers := q\<rparr>))
        else Inr s)"

text \<open>\<open>internal_outbound_read_ready\<close> calls the consumer's function with the reader and its context.\<close>

definition internal_outbound_read_ready :: "eager_reader_t \<Rightarrow> (ptr \<times> ptr) res" where
  "internal_outbound_read_ready s =
     (if outbound_read_ready s = NULL then Inl BadPointer else Inr (outbound_read_ready s, outbound_context s))"

section \<open>The bytes in the reader and the invariant\<close>

definition unread :: "data_buffer_t \<Rightarrow> uint8_t list" where
  "unread b = drop (unat (db_offset b)) (db_data b)"

fun buffer_ptrs :: "eager_reader_t \<Rightarrow> ptr list" where
  "buffer_ptrs s = (if current_buffer s = NULL then [] else [current_buffer s]) @ fq_content (er_buffers s)"

declare buffer_ptrs.simps [simp del]

definition pending :: "eager_reader_t \<Rightarrow> uint8_t list" where
  "pending s = concat (map (\<lambda>p. unread (the (map_of (er_store s) p))) (buffer_ptrs s))"

definition data_buffer_ok :: "data_buffer_t \<Rightarrow> bool" where
  "data_buffer_ok b \<longleftrightarrow> db_offset b < db_length b \<and> unat (db_length b) = length (db_data b)"

definition er_bufs_ok :: "eager_reader_t \<Rightarrow> bool" where
  "er_bufs_ok s \<longleftrightarrow>
     fq_inv (er_buffers s) \<and> distinct (buffer_ptrs s) \<and> distinct (live (er_store s)) \<and>
     set (live (er_store s)) = set (buffer_ptrs s) \<and>
     (\<forall>p b. map_of (er_store s) p = Some b \<longrightarrow> data_buffer_ok b)"

definition er_inv :: "eager_reader_t \<Rightarrow> bool" where
  "er_inv s \<longleftrightarrow>
     er_bufs_ok s \<and> unat (bytes_available s) = length (pending s) \<and> length (pending s) \<le> 18446744073709551614"

lemma er_bufs_okD:
  assumes "er_bufs_ok s"
  shows "fq_inv (er_buffers s)" "distinct (buffer_ptrs s)" "distinct (live (er_store s))"
    "fst ` set (er_store s) = set (buffer_ptrs s)" "map_of (er_store s) p = Some b \<Longrightarrow> data_buffer_ok b"
  using assms by (auto simp: er_bufs_ok_def)

lemma buffer_in_store:
  assumes "er_bufs_ok s" and "p \<in> set (buffer_ptrs s)"
  obtains b where "map_of (er_store s) p = Some b" "data_buffer_ok b"
  using er_bufs_okD(4,5) [OF assms(1)] assms(2) by (metis map_of_None_iff not_None_eq)

lemma counter_irrelevant [simp]:
  "er_bufs_ok (s\<lparr>bytes_available := n\<rparr>) = er_bufs_ok s" "pending (s\<lparr>bytes_available := n\<rparr>) = pending s"
  by (simp_all add: er_bufs_ok_def pending_def buffer_ptrs.simps)

lemma length_unread: "data_buffer_ok b \<Longrightarrow> length (unread b) = unat (db_length b) - unat (db_offset b)"
  by (simp add: unread_def data_buffer_ok_def)

lemma unread_nonempty: "data_buffer_ok b \<Longrightarrow> unread b \<noteq> []"
  using length_unread [of b] by (auto simp: data_buffer_ok_def word_less_nat_alt)

text \<open>The first step of a round: there is a current buffer afterwards, and the bytes are the same.\<close>

definition fetch_buffer :: "eager_reader_t \<Rightarrow> eager_reader_t res" where
  "fetch_buffer s =
     (if current_buffer s = NULL
      then rbind (fixed_queue_dequeue (er_buffers s)) (\<lambda>(p, q). Inr (s\<lparr>current_buffer := p, er_buffers := q\<rparr>))
      else Inr s)"

lemma fetch_buffer_ok:
  assumes ok: "er_bufs_ok s" and bytes: "pending s \<noteq> []"
  obtains s1 b where "fetch_buffer s = Inr s1" "er_bufs_ok s1" "current_buffer s1 \<noteq> NULL"
    "map_of (er_store s1) (current_buffer s1) = Some b" "data_buffer_ok b" "pending s1 = pending s"
    "bytes_available s1 = bytes_available s"
proof (cases "current_buffer s = NULL")
  case False
  then have "current_buffer s \<in> set (buffer_ptrs s)" by (simp add: buffer_ptrs.simps)
  then obtain b where "map_of (er_store s) (current_buffer s) = Some b" "data_buffer_ok b"
    by (rule buffer_in_store [OF ok])
  then show ?thesis using that [of s b] False ok by (simp add: fetch_buffer_def)
next
  case True
  then have ptrs: "buffer_ptrs s = fq_content (er_buffers s)" by (simp add: buffer_ptrs.simps)
  have "fq_content (er_buffers s) \<noteq> []" using bytes ptrs by (auto simp: pending_def)
  then obtain p ps where c: "fq_content (er_buffers s) = p # ps" by (cases "fq_content (er_buffers s)") auto
  obtain q where q: "fixed_queue_dequeue (er_buffers s) = Inr (p, q)" "fq_inv q" "fq_content q = ps"
    using bq.dequeue_first [OF er_bufs_okD(1) [OF ok] c] by blast
  have p: "p \<noteq> NULL" using bq.content_nonnull [OF er_bufs_okD(1) [OF ok]] c by auto
  let ?s = "s\<lparr>current_buffer := p, er_buffers := q\<rparr>"
  have same: "buffer_ptrs ?s = buffer_ptrs s" using p q(3) ptrs c by (simp add: buffer_ptrs.simps)
  have ok1: "er_bufs_ok ?s" using ok q(2) unfolding er_bufs_ok_def same by simp
  have "p \<in> set (buffer_ptrs s)" using ptrs c by simp
  then obtain b where "map_of (er_store s) p = Some b" "data_buffer_ok b" by (rule buffer_in_store [OF ok])
  moreover have "pending ?s = pending s" unfolding pending_def same by simp
  ultimately show ?thesis using that [of ?s b] True q(1) p ok1 by (simp add: fetch_buffer_def)
qed

text \<open>The rest of a round: \<open>k\<close> bytes are taken from the current buffer.\<close>

definition advance_buffer :: "size_t \<Rightarrow> data_buffer_t \<Rightarrow> eager_reader_t \<Rightarrow> eager_reader_t" where
  "advance_buffer k b s =
     (let b1 = b\<lparr>db_offset := db_offset b + k\<rparr> in
      if db_offset b1 \<ge> db_length b1
      then s\<lparr>er_store := free_data_buffer (current_buffer s) (er_store s), current_buffer := NULL\<rparr>
      else s\<lparr>er_store := store_at (current_buffer s) b1 (er_store s)\<rparr>)"

lemma advance_buffer_ok:
  assumes ok: "er_bufs_ok s" and cur: "current_buffer s \<noteq> NULL" "map_of (er_store s) (current_buffer s) = Some b"
    and k: "unat k \<le> length (unread b)"
  shows "er_bufs_ok (advance_buffer k b s)" and "pending (advance_buffer k b s) = drop (unat k) (pending s)"
    and "bytes_available (advance_buffer k b s) = bytes_available s"
proof -
  let ?c = "current_buffer s" and ?rest = "fq_content (er_buffers s)"
  have b: "data_buffer_ok b" using er_bufs_okD(5) [OF ok cur(2)] .
  have ptrs: "buffer_ptrs s = ?c # ?rest" using cur by (simp add: buffer_ptrs.simps)
  have dist: "?c \<notin> set ?rest" "distinct ?rest" using er_bufs_okD(2) [OF ok] ptrs by simp_all
  have len: "length (unread b) = unat (db_length b) - unat (db_offset b)" by (rule length_unread [OF b])
  have "unat (db_offset b) < unat (db_length b)" using b by (simp add: data_buffer_ok_def word_less_nat_alt)
  then have "unat (db_offset b) + unat k < 2 ^ 64" using k len unat64_less [of "db_length b"] by simp
  then have off: "unat (db_offset b + k) = unat (db_offset b) + unat k"
    using unat_add_lem [of "db_offset b" k] by simp
  have pend: "pending s = unread b @ concat (map (\<lambda>p. unread (the (map_of (er_store s) p))) ?rest)"
    using cur ptrs by (simp add: pending_def)
  have shrink: "drop (unat (db_offset b + k)) (db_data b) = drop (unat k) (unread b)"
    using off by (simp add: unread_def add.commute)
  have empty: "db_length b \<le> db_offset b + k \<longleftrightarrow> unat k = length (unread b)"
    using off len k b by (auto simp: word_le_nat_alt data_buffer_ok_def word_less_nat_alt)
  show "bytes_available (advance_buffer k b s) = bytes_available s" by (simp add: advance_buffer_def Let_def)
  show "er_bufs_ok (advance_buffer k b s)"
  proof (cases "unat k = length (unread b)")
    case True
    then have run: "advance_buffer k b s = s\<lparr>er_store := release ?c (er_store s), current_buffer := NULL\<rparr>"
      using empty by (simp add: advance_buffer_def free_data_buffer_def)
    have "fst ` set (release ?c (er_store s)) = set ?rest"
      using er_bufs_okD(4) [OF ok] ptrs dist(1) by simp
    then show ?thesis unfolding run using ok dist
      by (auto simp: er_bufs_ok_def buffer_ptrs.simps distinct_delete split: if_splits)
  next
    case False
    then have run: "advance_buffer k b s = s\<lparr>er_store := store_at ?c (b\<lparr>db_offset := db_offset b + k\<rparr>) (er_store s)\<rparr>"
      using empty by (simp add: advance_buffer_def)
    have live: "fst ` set (store_at ?c (b\<lparr>db_offset := db_offset b + k\<rparr>) (er_store s)) = set (buffer_ptrs s)"
      using er_bufs_okD(4) [OF ok] ptrs by auto
    have "data_buffer_ok (b\<lparr>db_offset := db_offset b + k\<rparr>)"
      using b False empty by (simp add: data_buffer_ok_def not_le)
    then show ?thesis unfolding run using ok live
      by (auto simp: er_bufs_ok_def buffer_ptrs.simps distinct_update split: if_splits)
  qed
  have others: "concat (map (\<lambda>p. unread (the (map_of (er_store (advance_buffer k b s)) p))) ?rest) =
      concat (map (\<lambda>p. unread (the (map_of (er_store s) p))) ?rest)"
  proof -
    have "map_of (er_store (advance_buffer k b s)) p = map_of (er_store s) p" if "p \<in> set ?rest" for p
      using dist(1) that by (auto simp: advance_buffer_def free_data_buffer_def Let_def)
    then show ?thesis by (simp cong: map_cong)
  qed
  show "pending (advance_buffer k b s) = drop (unat k) (pending s)"
  proof (cases "unat k = length (unread b)")
    case True
    then have "buffer_ptrs (advance_buffer k b s) = ?rest"
      using empty by (simp add: advance_buffer_def buffer_ptrs.simps)
    then show ?thesis using others pend True by (simp add: pending_def)
  next
    case False
    then have "buffer_ptrs (advance_buffer k b s) = ?c # ?rest"
      "map_of (er_store (advance_buffer k b s)) ?c = Some (b\<lparr>db_offset := db_offset b + k\<rparr>)"
      using empty cur by (simp_all add: advance_buffer_def buffer_ptrs.simps)
    then have "pending (advance_buffer k b s) = unread (b\<lparr>db_offset := db_offset b + k\<rparr>) @
        concat (map (\<lambda>p. unread (the (map_of (er_store s) p))) ?rest)"
      using others by (simp add: pending_def)
    then show ?thesis using pend shrink k by (simp add: unread_def)
  qed
qed

lemma read_loop_step:
  assumes "consumed < mx" and "fetch_buffer s = Inr s1" and "map_of (er_store s1) (current_buffer s1) = Some b"
    and "data_buffer_ok b"
    and k: "k = (if db_length b - db_offset b > mx - consumed then mx - consumed else db_length b - db_offset b)"
  shows "read_loop (Suc n) consumed mx out s =
     read_loop n (consumed + k) mx (out @ take (unat k) (unread b)) (advance_buffer k b s1)"
proof -
  have b: "unat (db_offset b) < unat (db_length b)" "unat (db_length b) = length (db_data b)"
    using assms(4) by (simp_all add: data_buffer_ok_def word_less_nat_alt)
  have "unat (db_length b - db_offset b) = unat (db_length b) - unat (db_offset b)"
    using b(1) by (intro unat_sub) (simp add: word_le_nat_alt)
  moreover have "unat k \<le> unat (db_length b - db_offset b)"
    by (auto simp: k word_less_nat_alt)
  ultimately have "unat (db_offset b) + unat k \<le> length (db_data b)" using b by simp
  then show ?thesis
    using assms(1-3)
    by (subst read_loop.simps)
       (simp add: fetch_buffer_def [symmetric] k [symmetric] advance_buffer_def unread_def Let_def not_less)
qed

lemma read_loop_ok:
  assumes "er_bufs_ok s" and "consumed \<le> mx" and "unat mx - unat consumed \<le> length (pending s)"
    and "unat mx - unat consumed \<le> fuel"
  shows "\<exists>s'. read_loop fuel consumed mx out s = Inr (out @ take (unat mx - unat consumed) (pending s), mx, s') \<and>
    er_bufs_ok s' \<and> pending s' = drop (unat mx - unat consumed) (pending s) \<and> bytes_available s' = bytes_available s"
  using assms
proof (induction fuel arbitrary: consumed out s rule: less_induct)
  case (less fuel)
  show ?case
  proof (cases "consumed < mx")
    case False
    then have "consumed = mx" using less.prems(2) by simp
    then show ?thesis using less.prems(1) by (subst read_loop.simps) simp
  next
    case True
    let ?n = "unat mx - unat consumed"
    have n: "0 < ?n" using True by (simp add: word_less_nat_alt)
    then obtain f where f: "fuel = Suc f" using less.prems(4) by (cases fuel) auto
    have "pending s \<noteq> []" using n less.prems(3) by auto
    then obtain s1 b where s1: "fetch_buffer s = Inr s1" "er_bufs_ok s1" "current_buffer s1 \<noteq> NULL"
      "map_of (er_store s1) (current_buffer s1) = Some b" "data_buffer_ok b" "pending s1 = pending s"
      "bytes_available s1 = bytes_available s"
      by (rule fetch_buffer_ok [OF less.prems(1)])
    define k where "k = (if db_length b - db_offset b > mx - consumed then mx - consumed else db_length b - db_offset b)"
    have sub: "unat (mx - consumed) = ?n" using less.prems(2) by (rule unat_sub)
    have "db_offset b \<le> db_length b" using s1(5) by (simp add: data_buffer_ok_def less_imp_le)
    then have av: "unat (db_length b - db_offset b) = length (unread b)"
      using length_unread [OF s1(5)] unat_sub by metis
    have k: "unat k = min ?n (length (unread b))" by (simp add: k_def word_less_nat_alt sub av min_def)
    have pos: "0 < unat k" using k n unread_nonempty [OF s1(5)] by simp
    have "unat consumed + unat k < 2 ^ 64"
      using k less.prems(2) unat64_less [of mx] by (simp add: word_le_nat_alt min_def split: if_splits)
    then have cons: "unat (consumed + k) = unat consumed + unat k" using unat_add_lem [of consumed k] by simp
    let ?s2 = "advance_buffer k b s1"
    have "unat k \<le> length (unread b)" using k by simp
    note adv = advance_buffer_ok [OF s1(2,3,4) this]
    have step: "read_loop fuel consumed mx out s = read_loop f (consumed + k) mx (out @ take (unat k) (unread b)) ?s2"
      unfolding f by (rule read_loop_step [OF True s1(1,4,5) k_def])
    have rest: "unat mx - unat (consumed + k) = ?n - unat k" using cons by simp
    have "take (unat k) (unread b) = take (unat k) (pending s)"
    proof -
      have "pending s1 = unread b @ concat (map (\<lambda>p. unread (the (map_of (er_store s1) p))) (fq_content (er_buffers s1)))"
        using s1(3,4) by (simp add: pending_def buffer_ptrs.simps)
      then show ?thesis using k s1(6) by simp
    qed
    moreover have "\<exists>s'. read_loop f (consumed + k) mx (out @ take (unat k) (unread b)) ?s2 =
        Inr ((out @ take (unat k) (unread b)) @ take (unat mx - unat (consumed + k)) (pending ?s2), mx, s') \<and>
      er_bufs_ok s' \<and> pending s' = drop (unat mx - unat (consumed + k)) (pending ?s2) \<and> bytes_available s' = bytes_available ?s2"
    proof (rule less.IH)
      show "f < fuel" using f by simp
      show "consumed + k \<le> mx" using cons k less.prems(2) by (simp add: word_le_nat_alt)
      show "unat mx - unat (consumed + k) \<le> length (pending ?s2)"
        using rest adv(2) s1(6) less.prems(3) by simp
      show "unat mx - unat (consumed + k) \<le> f" using rest pos less.prems(4) f by simp
    qed (rule adv(1))
    moreover have kn: "unat k + (?n - unat k) = ?n" using k by simp
    then have "take (unat k) xs @ take (?n - unat k) (drop (unat k) xs) = take ?n xs" for xs :: "uint8_t list"
      by (metis take_add)
    moreover have "drop (?n - unat k) (drop (unat k) xs) = drop ?n xs" for xs :: "uint8_t list"
      using kn by (metis add.commute drop_drop)
    ultimately show ?thesis unfolding step rest adv(2,3) s1(6,7) by simp
  qed
qed

lemma eager_reader_read_io_ok:
  assumes inv: "er_inv s"
  shows "\<exists>s'. eager_reader_read_io True write_ok n s =
      Inr (take (unat n) (pending s), word_of_nat (min (unat n) (length (pending s))), s') \<and>
    er_bufs_ok s' \<and> pending s' = drop (unat n) (pending s) \<and> (if write_ok then er_inv s' else bytes_available s' = 0)"
proof (cases "bytes_available s = 0")
  case True
  then have "pending s = []" using inv by (simp add: er_inv_def)
  then show ?thesis using True inv by (simp add: eager_reader_read_io_def has_byte_def er_inv_def)
next
  case False
  have av: "unat (bytes_available s) = length (pending s)" and ok: "er_bufs_ok s" using inv by (simp_all add: er_inv_def)
  let ?s1 = "s\<lparr>bytes_available := 0\<rparr>"
  let ?m = "if n > bytes_available s then bytes_available s else n"
  have m: "unat ?m = min (unat n) (length (pending s))" using av by (simp add: word_less_nat_alt min_def)
  obtain s2 where s2: "read_loop (unat ?m + length (fq_content (er_buffers s)) + 1) 0 ?m [] ?s1 =
      Inr (take (unat ?m) (pending s), ?m, s2)" "er_bufs_ok s2" "pending s2 = drop (unat ?m) (pending s)" "bytes_available s2 = 0"
    using read_loop_ok [of ?s1 0 ?m "unat ?m + length (fq_content (er_buffers s)) + 1" "[]"] ok m by auto
  have le: "?m \<le> bytes_available s" by (simp add: not_less)
  have left: "unat (bytes_available s - ?m) = length (pending s2)"
    using unat_sub [OF le] av s2(3) by simp
  moreover have small: "length (pending s2) \<le> 18446744073709551614" using inv s2(3) by (auto simp: er_inv_def)
  ultimately have count: "count_bytes (bytes_available s - ?m) s2 = Inr (s2\<lparr>bytes_available := bytes_available s - ?m\<rparr>)"
    using s2(4) by (simp add: count_bytes_def)
  let ?s' = "if write_ok then s2\<lparr>bytes_available := bytes_available s - ?m\<rparr> else s2"
  have "eager_reader_read_io True write_ok n s = Inr (take (unat ?m) (pending s), ?m, ?s')"
    using False s2(1) count unfolding eager_reader_read_io_def has_byte_def Let_def by simp
  moreover have "take (unat ?m) (pending s) = take (unat n) (pending s)" "drop (unat ?m) (pending s) = drop (unat n) (pending s)"
    using m by (simp_all add: min_def)
  moreover have "?m = word_of_nat (min (unat n) (length (pending s)))"
    using arg_cong [OF m, of "word_of_nat :: nat \<Rightarrow> size_t"] by simp
  moreover have "if write_ok then er_inv ?s' else bytes_available ?s' = 0" using s2(2,4) left small by (simp add: er_inv_def)
  moreover have "er_bufs_ok ?s'" "pending ?s' = pending s2" using s2(2) by simp_all
  ultimately show ?thesis using s2(3) by (intro exI [of _ ?s']) simp
qed

lemma eager_reader_read_ok:
  assumes "er_inv s"
  shows "\<exists>s'. eager_reader_read n s = Inr (take (unat n) (pending s), word_of_nat (min (unat n) (length (pending s))), s') \<and>
    er_inv s' \<and> pending s' = drop (unat n) (pending s)"
  using eager_reader_read_io_ok [OF assms, of True n] by (auto simp: eager_reader_read_def)

text \<open>When the calls fail: nothing happens, or the bytes that are left are hidden until more arrive.\<close>

lemma eager_reader_read_no_count: "eager_reader_read_io False write_ok n s = Inr ([], 0, s)"
  by (simp add: eager_reader_read_io_def)

lemma eager_reader_read_uncounted:
  assumes "er_inv s" and "unat n < length (pending s)"
  shows "\<exists>s'. eager_reader_read_io True False n s = Inr (take (unat n) (pending s), n, s') \<and>
    pending s' = drop (unat n) (pending s) \<and> pending s' \<noteq> [] \<and> eager_reader_read k s' = Inr ([], 0, s')"
proof -
  obtain s' where s': "eager_reader_read_io True False n s = Inr (take (unat n) (pending s), n, s')"
    "pending s' = drop (unat n) (pending s)" "bytes_available s' = 0"
    using eager_reader_read_io_ok [OF assms(1), of False n] assms(2) by (auto simp: min_def)
  then show ?thesis using assms(2) by (auto simp: eager_reader_read_def eager_reader_read_io_def has_byte_def)
qed

lemma sint_small:
  assumes "n < 2 ^ 31"
  shows "sint (word_of_nat n :: 32 word) = int n"
  using assms by (simp add: signed_of_nat signed_take_bit_int_eq_self)

lemma inbound_data_ok:
  assumes inv: "er_inv s" and bs: "0 < length bs" "length bs < 2 ^ 31" and alloc: "fresh_alloc alloc" "alloc (live (er_store s)) \<noteq> NULL"
    and room: "length (pending s) + length bs \<le> 18446744073709551614" "\<not> fq_full (er_buffers s)"
  shows "\<exists>s'. inbound_data_waiting alloc (Some bs) s = Inr s' \<and> er_inv s' \<and> pending s' = pending s @ bs"
proof -
  let ?p = "alloc (live (er_store s))"
  have ok: "er_bufs_ok s" and av: "unat (bytes_available s) = length (pending s)" using inv by (simp_all add: er_inv_def)
  have p: "?p \<notin> fst ` set (er_store s)" using fresh_allocD [OF alloc] by simp
  then have pnew: "?p \<notin> set (buffer_ptrs s)" using er_bufs_okD(4) [OF ok] by simp
  let ?b = "\<lparr>db_length = word_of_int (int (length bs)), db_offset = 0, db_data = bs\<rparr>"
  have len: "unat (word_of_int (int (length bs)) :: size_t) = length bs"
    using bs(2) unat_word_of_nat_id [of "length bs"] by simp
  have b: "data_buffer_ok ?b" "unread ?b = bs" using len bs(1) by (simp_all add: data_buffer_ok_def unread_def word_less_nat_alt)
  obtain q where q: "fixed_queue_enqueue (er_buffers s) ?p = Inr q" "fq_inv q" "fq_content q = fq_content (er_buffers s) @ [?p]"
    using bq.enqueue_room [OF er_bufs_okD(1) [OF ok] alloc(2) room(2)] by blast
  let ?s1 = "s\<lparr>er_store := store_at ?p ?b (er_store s), er_buffers := q\<rparr>"
  let ?s' = "?s1\<lparr>bytes_available := bytes_available s + word_of_int (int (length bs))\<rparr>"
  have ptrs: "buffer_ptrs ?s1 = buffer_ptrs s @ [?p]" using q(3) by (simp add: buffer_ptrs.simps)
  have live: "fst ` set (er_store ?s1) = set (buffer_ptrs ?s1)" using er_bufs_okD(4) [OF ok] ptrs by auto
  have each: "data_buffer_ok c" if "map_of (er_store ?s1) x = Some c" for x c
    using that b(1) er_bufs_okD(5) [OF ok, of x c] by (simp split: if_splits)
  have dist: "distinct (buffer_ptrs ?s1)" unfolding ptrs using er_bufs_okD(2) [OF ok] pnew by simp
  have ok1: "er_bufs_ok ?s1"
    unfolding er_bufs_ok_def using q(2) dist live each er_bufs_okD(3) [OF ok] by (simp add: distinct_update)
  have "unread (the (map_of (er_store ?s1) x)) = unread (the (map_of (er_store s) x))" if "x \<in> set (buffer_ptrs s)" for x
    using that pnew by auto
  then have pend: "pending ?s1 = pending s @ bs"
    unfolding pending_def ptrs using b(2) by (simp cong: map_cong)
  have count: "unat (bytes_available s + word_of_int (int (length bs))) = length (pending s) + length bs"
    using room(1) av len unat_add_lem [of "bytes_available s" "word_of_int (int (length bs))"] by simp
  have "inbound_data_waiting alloc (Some bs) s = Inr ?s'"
    using alloc(2) q(1) bs av len room(1) sint_small [OF bs(2)]
    by (simp add: inbound_data_waiting_def count_bytes_def Let_def)
  moreover have "er_inv ?s'" using ok1 pend count room(1) by (simp add: er_inv_def)
  ultimately show ?thesis using pend by (intro exI [of _ ?s']) simp
qed

section \<open>The reader as a first-in first-out stream\<close>

text \<open>
  A step of the reading thread that delivers bytes (it waits while the queue is full, and leaves
  the bytes where they are when there is no memory), and a read of the consumer.
\<close>

datatype er_op = Inbound "uint8_t list" | Read size_t

fun er_exec :: "alloc_fn \<Rightarrow> er_op \<Rightarrow> eager_reader_t \<Rightarrow> (uint8_t list \<times> uint8_t list \<times> eager_reader_t) res" where
  "er_exec alloc (Inbound bs) s =
     (if fq_full (er_buffers s) \<or> alloc (live (er_store s)) = NULL \<or> length (pending s) + length bs > 18446744073709551614
      then Inr ([], [], s)
      else rbind (inbound_data_waiting alloc (Some bs) s) (\<lambda>s1. Inr (bs, [], s1)))"
| "er_exec alloc (Read n) s = rbind (eager_reader_read n s) (\<lambda>(out, _, s1). Inr ([], out, s1))"

fun er_op_ok :: "er_op \<Rightarrow> eager_reader_t \<Rightarrow> bool" where
  "er_op_ok (Inbound bs) s \<longleftrightarrow> 0 < length bs \<and> length bs < 2 ^ 31"
| "er_op_ok (Read n) s \<longleftrightarrow> True"

lemma er_exec_ok:
  assumes inv: "er_inv s" and ok: "er_op_ok x s" and alloc: "fresh_alloc alloc"
  shows "\<exists>ins outs s'. er_exec alloc x s = Inr (ins, outs, s') \<and> er_inv s' \<and> pending s @ ins = outs @ pending s'"
proof (cases x)
  case (Inbound bs)
  show ?thesis
  proof (cases "fq_full (er_buffers s) \<or> alloc (live (er_store s)) = NULL \<or> length (pending s) + length bs > 18446744073709551614")
    case True
    then show ?thesis using inv Inbound by simp
  next
    case False
    then obtain s' where "inbound_data_waiting alloc (Some bs) s = Inr s'" "er_inv s'" "pending s' = pending s @ bs"
      using inbound_data_ok [OF inv _ _ alloc, of bs] ok Inbound by auto
    then show ?thesis using False Inbound by (auto simp del: rbind_eq_Inr)
  qed
next
  case (Read n)
  obtain s' where "eager_reader_read n s = Inr (take (unat n) (pending s), word_of_nat (min (unat n) (length (pending s))), s')"
    "er_inv s'" "pending s' = drop (unat n) (pending s)"
    using eager_reader_read_ok [OF inv] by blast
  then show ?thesis using Read by (simp del: rbind_eq_Inr)
qed

lemma er_op_ok_any: "er_op_ok x s \<Longrightarrow> er_op_ok x s'"
  by (cases x) simp_all

text \<open>The allocator's law is part of the reader's invariant for the contract.\<close>

interpretation er: fifo "\<lambda>s. er_inv s \<and> fresh_alloc alloc" pending er_op_ok "er_exec alloc" for alloc
  by unfold_locales (use er_exec_ok er_op_ok_any in blast)+

section \<open>Properties\<close>

definition demo_reader :: eager_reader_t where
  "demo_reader = \<lparr>bytes_available = 0, buffer_size = 4, er_buffers = demo_queue, current_buffer = NULL,
     inbound_read_object = 7, outbound_registration = NULL, outbound_read_ready = NULL, outbound_context = NULL, er_store = []\<rparr>"

lemma demo_reader_inv: "er_inv demo_reader"
  using demo_queue_facts by (simp add: er_inv_def er_bufs_ok_def pending_def buffer_ptrs.simps demo_reader_def)

lemma demo_reader_pending: "pending demo_reader = []"
  using demo_queue_facts by (simp add: pending_def buffer_ptrs.simps demo_reader_def)

text \<open>
  C22. The reader loses, repeats and reorders nothing: for every sequence of deliveries by the reading
  thread and reads by the consumer, the bytes delivered are the bytes handed out followed by
  those still waiting; no read waits or leaves its buffers.
\<close>

theorem eager_reader_stream:
  assumes "er_inv s" and "fresh_alloc alloc" and "\<forall>x \<in> set xs. er_op_ok x s"
  shows "\<exists>ins outs s'. run_ops (er_exec alloc) xs s = Inr (ins, outs, s') \<and> er_inv s' \<and>
    pending s @ ins = outs @ pending s'"
  using er.stream_order [of s alloc xs] assms by blast

theorem eager_reader_stream_witness:
  "er_inv demo_reader \<and> (\<exists>ins outs s'. run_ops (er_exec (arena_alloc [16, 32])) [Inbound [1, 2, 3], Read 2] demo_reader =
     Inr (ins, outs, s') \<and> ins = outs @ pending s')"
  using eager_reader_stream [OF demo_reader_inv fresh_arena_alloc, of "[Inbound [1, 2, 3], Read 2]" "[16, 32]"]
    demo_reader_inv demo_reader_pending by (auto simp del: run_ops.simps)

text \<open>
  One read: \<open>eager_reader_read\<close> answers at once with the oldest bytes, as many as asked for or as
  there are; it takes exactly these out and keeps the count of the rest.
\<close>

theorem eager_reader_read_correct:
  assumes "er_inv s"
  shows "\<exists>s'. eager_reader_read n s = Inr (take (unat n) (pending s), word_of_nat (min (unat n) (length (pending s))), s') \<and>
    er_inv s' \<and> pending s' = drop (unat n) (pending s)"
  by (rule eager_reader_read_ok [OF assms])

theorem eager_reader_read_correct_witness:
  "er_inv demo_reader \<and> (\<exists>s'. eager_reader_read 5 demo_reader = Inr ([], 0, s'))"
  using eager_reader_read_correct [OF demo_reader_inv, of 5] demo_reader_inv by (auto simp: demo_reader_pending)

lemma fold_release_live: "fst ` set (fold free_data_buffer ps st) = fst ` set st - set ps"
  by (induction ps arbitrary: st) (auto simp: free_data_buffer_def)

text \<open>
  Freeing a reader gives back every buffer, the current one and those in the queue, exactly
  once, and takes both registrations back.
\<close>

theorem eager_reader_free_releases:
  assumes "er_inv s"
  shows "\<exists>calls. eager_reader_free (Some s) = Inr (calls, []) \<and>
    (outbound_registration s \<noteq> NULL \<longrightarrow> CallUnregister (outbound_registration s) \<in> set calls) \<and>
    (inbound_read_object s \<noteq> NULL \<longrightarrow> CallUnregister (inbound_read_object s) \<in> set calls)"
proof -
  have ok: "er_bufs_ok s" using assms by (simp add: er_inv_def)
  obtain calls s1 where un: "eager_reader_unregister s = (calls, s1)" by (cases "eager_reader_unregister s")
  then have s1: "er_buffers s1 = er_buffers s" "current_buffer s1 = current_buffer s" "er_store s1 = er_store s"
    "inbound_read_object s1 = inbound_read_object s"
    and calls: "outbound_registration s \<noteq> NULL \<Longrightarrow> CallUnregister (outbound_registration s) \<in> set calls"
    by (auto simp: eager_reader_unregister_def split: if_splits)
  let ?st = "if current_buffer s \<noteq> NULL then free_data_buffer (current_buffer s) (er_store s) else er_store s"
  let ?rest = "fold free_data_buffer (fq_content (er_buffers s)) ?st"
  have free: "fixed_queue_free (Some (er_buffers s)) (Some free_data_buffer) ?st =
      Inr (fst (fixed_queue_unregister_dequeue (er_buffers s)), ?rest)"
    by (rule fixed_queue_free_ok [OF er_bufs_okD(1) [OF ok]])
  have "fst ` set ?st = set (fq_content (er_buffers s))"
    using er_bufs_okD(2,4) [OF ok] by (auto simp: free_data_buffer_def buffer_ptrs.simps split: if_splits)
  then have gone: "?rest = []" using fold_release_live [of "fq_content (er_buffers s)" ?st] by simp
  let ?calls = "calls @ (if inbound_read_object s \<noteq> NULL then [CallUnregister (inbound_read_object s)] else []) @
     fst (fixed_queue_unregister_dequeue (er_buffers s))"
  have "eager_reader_free (Some s) = Inr (?calls, [])"
    unfolding eager_reader_free_def option.case un Let_def prod.case s1 free gone rbind_Inr by simp
  then show ?thesis using calls by (intro exI [of _ ?calls]) simp
qed

theorem eager_reader_free_releases_witness:
  "er_inv demo_reader \<and> (\<exists>calls. eager_reader_free (Some demo_reader) = Inr (calls, []) \<and> CallUnregister 7 \<in> set calls)"
  using eager_reader_free_releases [OF demo_reader_inv] demo_reader_inv by (auto simp: demo_reader_def)

end
