(* ===== verification/Thread.thy ===== *)
theory Thread
  imports FixedQueue
begin

text \<open>
  Threads with a work queue (\<open>src/thread.c\<close>) and futures (\<open>src/future.c\<close>).

  A thread is its flag, its name, its work queue (the one of \<open>FixedQueue\<close>), the work items that are
  allocated, and the logs of the jobs that were posted to it and of those it ran. What a work
  function does to its own thread is to post further items; which ones is a parameter. What
  happens while the reactor of the thread runs is a sequence of events, given to \<open>run_thread\<close>: other
  threads post items, and the reactor calls \<open>work_queue_read_cb\<close>. A post by another thread comes
  between two items; after the reactor has been stopped only the items themselves post.
\<close>

section \<open>Threads\<close>

record work_item_t =
  func :: ptr
  work_context :: ptr

record thread_t =
  is_joined :: bool
  name :: string
  stop_requests :: nat
  work_queue :: fixed_queue_t
  work_items :: "(ptr \<times> work_item_t) list"
  posted :: "(ptr \<times> ptr) list"
  executed :: "(ptr \<times> ptr) list"

record thread_env =
  item_alloc :: alloc_fn
  posts :: "ptr \<Rightarrow> ptr \<Rightarrow> (ptr \<times> ptr) list"

definition THREAD_NAME_MAX :: nat where
  "THREAD_NAME_MAX = 16"

definition DEFAULT_WORK_QUEUE_CAPACITY :: size_t where
  "DEFAULT_WORK_QUEUE_CAPACITY = 128"

text \<open>
  \<open>thread_new_sized\<close>: the answers of the calls it makes; \<open>fixed_queue_new\<close> is given with the capacity.
  What is held afterwards: the error path frees the queue, the reactor and the memory, but a
  pthread that was created is not joined.
\<close>

datatype thread_resource = ThreadMem | ThreadReactor | ThreadQueue | StartSem | PThread

record thread_new_env =
  reactor_ok :: bool
  new_queue :: "size_t \<Rightarrow> fixed_queue_t option"
  start_sem_ok :: bool
  prctl_ok :: bool

definition thread_new_error :: "thread_resource list \<Rightarrow> thread_resource list" where
  "thread_new_error held = removeAll ThreadMem (removeAll ThreadReactor (removeAll ThreadQueue held))"

definition thread_new_sized ::
  "thread_new_env \<Rightarrow> string option \<Rightarrow> size_t \<Rightarrow> (thread_t option \<times> thread_resource list) res" where
  "thread_new_sized env nm work_queue_capacity =
     rbind (case nm of None \<Rightarrow> Inl AssertFailed | Some n \<Rightarrow> Inr n) (\<lambda>n.
     rbind (c_assert (work_queue_capacity \<noteq> 0)) (\<lambda>_.
     let h0 = [ThreadMem] in
     if \<not> reactor_ok env then Inr (None, thread_new_error h0)
     else let h1 = ThreadReactor # h0 in
     case new_queue env work_queue_capacity of None \<Rightarrow> Inr (None, thread_new_error h1)
     | Some q \<Rightarrow> let h2 = ThreadQueue # h1 in
     if \<not> start_sem_ok env then Inr (None, thread_new_error h2)
     else let h3 = PThread # StartSem # h2; h4 = removeAll StartSem h3 in
     if \<not> prctl_ok env then Inr (None, thread_new_error h4)
     else Inr (Some \<lparr>is_joined = False, name = take THREAD_NAME_MAX (c_string n), stop_requests = 0,
                     work_queue = q, work_items = [], posted = [], executed = []\<rparr>, h4)))"

definition thread_new :: "thread_new_env \<Rightarrow> string option \<Rightarrow> (thread_t option \<times> thread_resource list) res" where
  "thread_new env nm = thread_new_sized env nm DEFAULT_WORK_QUEUE_CAPACITY"

definition thread_post :: "thread_env \<Rightarrow> ptr \<Rightarrow> ptr \<Rightarrow> thread_t \<Rightarrow> (bool \<times> thread_t) res" where
  "thread_post env f ctx s =
     rbind (c_assert (f \<noteq> NULL)) (\<lambda>_.
     let item = item_alloc env (live (work_items s)) in
     rbind (c_assert (item \<noteq> NULL)) (\<lambda>_.
     let s1 = s\<lparr>work_items := store_at item \<lparr>func = f, work_context = ctx\<rparr> (work_items s)\<rparr> in
     rbind (fixed_queue_enqueue (work_queue s1) item) (\<lambda>q.
       Inr (True, s1\<lparr>work_queue := q, posted := posted s1 @ [(f, ctx)]\<rparr>))))"

definition thread_stop :: "thread_t \<Rightarrow> thread_t" where
  "thread_stop s = s\<lparr>stop_requests := stop_requests s + 1\<rparr>"

text \<open>\<open>thread_join\<close> waits only once; the boolean tells whether \<open>pthread_join\<close> was called.\<close>

definition thread_join :: "thread_t \<Rightarrow> bool \<times> thread_t" where
  "thread_join s = (if \<not> is_joined s then (True, s\<lparr>is_joined := True\<rparr>) else (False, s))"

definition free_item :: "ptr \<Rightarrow> (ptr \<times> work_item_t) list \<Rightarrow> (ptr \<times> work_item_t) list" where
  "free_item p items = release p items"

text \<open>\<open>thread_free\<close>: the items that are still allocated afterwards.\<close>

definition thread_free :: "thread_t option \<Rightarrow> (ptr \<times> work_item_t) list res" where
  "thread_free t =
     (case t of None \<Rightarrow> Inr []
      | Some s0 \<Rightarrow>
          let s = snd (thread_join (thread_stop s0)) in
          rbind (fixed_queue_free (Some (work_queue s)) (Some free_item) (work_items s)) (\<lambda>(_, items). Inr items))"

definition thread_set_priority :: "thread_t option \<Rightarrow> int \<Rightarrow> bool" where
  "thread_set_priority t setpriority_rc =
     (case t of None \<Rightarrow> False | Some _ \<Rightarrow> \<not> setpriority_rc < 0)"

text \<open>\<open>item->func(item->context)\<close>: it is logged, and posts what it posts.\<close>

fun post_all :: "thread_env \<Rightarrow> (ptr \<times> ptr) list \<Rightarrow> thread_t \<Rightarrow> thread_t res" where
  "post_all env [] s = Inr s"
| "post_all env ((f, ctx) # ps) s = rbind (thread_post env f ctx s) (\<lambda>(_, s1). post_all env ps s1)"

definition run_item :: "thread_env \<Rightarrow> ptr \<Rightarrow> thread_t \<Rightarrow> thread_t res" where
  "run_item env item s =
     rbind (deref (work_items s) item) (\<lambda>i.
     rbind (post_all env (posts env (func i) (work_context i)) (s\<lparr>executed := executed s @ [(func i, work_context i)]\<rparr>)) (\<lambda>s1.
     rbind (deref (work_items s1) item) (\<lambda>_.
       Inr (s1\<lparr>work_items := free_item item (work_items s1)\<rparr>))))"

definition work_queue_read_cb :: "thread_env \<Rightarrow> thread_t \<Rightarrow> thread_t res" where
  "work_queue_read_cb env s =
     rbind (fixed_queue_dequeue (work_queue s)) (\<lambda>(item, q). run_item env item (s\<lparr>work_queue := q\<rparr>))"

text \<open>
  The loop at the end of \<open>run_thread\<close>; \<open>item\<close> was dequeued before, \<open>n\<close> is the number of rounds left
  until \<open>count\<close> exceeds the capacity.
\<close>

fun drain_loop :: "thread_env \<Rightarrow> nat \<Rightarrow> ptr \<Rightarrow> thread_t \<Rightarrow> thread_t res" where
  "drain_loop env 0 item s = Inr s"
| "drain_loop env (Suc n) item s =
     (if item = NULL then Inr s
      else rbind (run_item env item s) (\<lambda>s1.
           rbind (fixed_queue_try_dequeue (work_queue s1)) (\<lambda>(next_item, q).
             drain_loop env n next_item (s1\<lparr>work_queue := q\<rparr>))))"

text \<open>The time of \<open>reactor_start\<close>: posts by other threads and calls of the callback, in any order.\<close>

datatype thread_event = PostEvent ptr ptr | ServeEvent

fun serve :: "thread_env \<Rightarrow> thread_event list \<Rightarrow> thread_t \<Rightarrow> thread_t res" where
  "serve env [] s = Inr s"
| "serve env (PostEvent f ctx # es) s = rbind (thread_post env f ctx s) (\<lambda>(_, s1). serve env es s1)"
| "serve env (ServeEvent # es) s = rbind (work_queue_read_cb env s) (serve env es)"

definition drain_rounds :: "thread_t \<Rightarrow> nat" where
  "drain_rounds s = unat (fixed_queue_capacity (work_queue s)) + 1"

text \<open>
  \<open>named\<close> and \<open>registered\<close> say whether \<open>prctl\<close> and \<open>reactor_register\<close> succeed. The answer of the latter is
  not looked at: without a registration the callback is never called, and when the reactor has
  been stopped the assertion of \<open>reactor_unregister\<close> fails on the null pointer.
\<close>

definition run_thread :: "thread_env \<Rightarrow> bool \<Rightarrow> bool \<Rightarrow> thread_event list \<Rightarrow> thread_t \<Rightarrow> (bool \<times> thread_t) res" where
  "run_thread env named registered events s =
     (if \<not> named then Inr (False, s)
      else
        rbind (serve env (if registered then events else filter (\<lambda>e. e \<noteq> ServeEvent) events) s) (\<lambda>s1.
        rbind (c_assert registered) (\<lambda>_.
        rbind (fixed_queue_try_dequeue (work_queue s1)) (\<lambda>(item, q).
        rbind (drain_loop env (drain_rounds s1) item (s1\<lparr>work_queue := q\<rparr>)) (\<lambda>s2. Inr (True, s2))))))"

section \<open>Futures\<close>

record future_t =
  ready_can_be_called :: bool
  fut_semaphore :: "semaphore_t option"
  fut_result :: ptr

definition future_new :: "bool \<Rightarrow> future_t option" where
  "future_new got_fd =
     (case semaphore_new got_fd 0 of None \<Rightarrow> None
      | Some sem \<Rightarrow> Some \<lparr>ready_can_be_called = True, fut_semaphore = Some sem, fut_result = NULL\<rparr>)"

definition future_new_immediate :: "ptr \<Rightarrow> future_t" where
  "future_new_immediate v = \<lparr>ready_can_be_called = False, fut_semaphore = None, fut_result = v\<rparr>"

definition future_ready :: "ptr \<Rightarrow> future_t option \<Rightarrow> future_t res" where
  "future_ready v fut =
     (case fut of None \<Rightarrow> Inl AssertFailed
      | Some f \<Rightarrow>
          rbind (c_assert (ready_can_be_called f)) (\<lambda>_.
          rbind (case fut_semaphore f of None \<Rightarrow> Inl BadPointer | Some sem \<Rightarrow> semaphore_post sem) (\<lambda>sem.
            Inr (f\<lparr>ready_can_be_called := False, fut_result := v, fut_semaphore := Some sem\<rparr>))))"

text \<open>\<open>future_await\<close> frees the future.\<close>

definition future_await :: "future_t option \<Rightarrow> ptr res" where
  "future_await fut =
     (case fut of None \<Rightarrow> Inl AssertFailed
      | Some f \<Rightarrow>
          rbind (case fut_semaphore f of None \<Rightarrow> Inr None | Some sem \<Rightarrow> rbind (semaphore_wait sem) (\<lambda>s. Inr (Some s))) (\<lambda>_.
            Inr (fut_result f)))"

section \<open>The invariant of a thread\<close>

text \<open>
  Every queued pointer is an allocated item and nothing else is allocated; \<open>extra\<close> are items that
  are out of the queue at this moment.
\<close>

definition work_ok :: "ptr list \<Rightarrow> thread_t \<Rightarrow> bool" where
  "work_ok extra s \<longleftrightarrow>
     fq_inv (work_queue s) \<and> distinct (extra @ fq_content (work_queue s)) \<and>
     distinct (live (work_items s)) \<and> set (live (work_items s)) = set (extra @ fq_content (work_queue s))"

definition job :: "thread_t \<Rightarrow> ptr \<Rightarrow> ptr \<times> ptr" where
  "job s p = (case map_of (work_items s) p of None \<Rightarrow> (NULL, NULL) | Some i \<Rightarrow> (func i, work_context i))"

definition jobs :: "thread_t \<Rightarrow> (ptr \<times> ptr) list" where
  "jobs s = map (job s) (fq_content (work_queue s))"

lemma work_okD:
  assumes "work_ok extra s"
  shows "fq_inv (work_queue s)" "distinct (extra @ fq_content (work_queue s))" "distinct (live (work_items s))"
    "fst ` set (work_items s) = set (extra @ fq_content (work_queue s))"
  using assms by (simp_all add: work_ok_def)

lemma work_item_live:
  assumes "work_ok extra s" and "p \<in> set (extra @ fq_content (work_queue s))"
  obtains i where "map_of (work_items s) p = Some i"
  using work_okD(4) [OF assms(1)] assms(2) by (metis map_of_None_iff not_None_eq)

text \<open>Freeing an item that is out of the queue changes no queued job.\<close>

lemma free_item_ok:
  assumes ok: "work_ok (p # extra) s"
  shows "work_ok extra (s\<lparr>work_items := free_item p (work_items s)\<rparr>)"
    and "jobs (s\<lparr>work_items := free_item p (work_items s)\<rparr>) = jobs s"
proof -
  note d = work_okD [OF ok]
  have "fst ` set (release p (work_items s)) = set (extra @ fq_content (work_queue s))" using d(2,4) by auto
  then show "work_ok extra (s\<lparr>work_items := free_item p (work_items s)\<rparr>)"
    using d by (simp add: work_ok_def free_item_def distinct_delete)
  have "job (s\<lparr>work_items := free_item p (work_items s)\<rparr>) x = job s x" if "x \<in> set (fq_content (work_queue s))" for x
    using that d(2) by (auto simp: job_def free_item_def)
  then show "jobs (s\<lparr>work_items := free_item p (work_items s)\<rparr>) = jobs s" by (simp add: jobs_def)
qed

text \<open>Running an item that posts nothing.\<close>

lemma run_item_quiet:
  assumes ok: "work_ok (p # extra) s" and quiet: "posts env (fst (job s p)) (snd (job s p)) = []"
  shows "\<exists>s'. run_item env p s = Inr s' \<and> work_ok extra s' \<and> work_queue s' = work_queue s \<and>
    jobs s' = jobs s \<and> executed s' = executed s @ [job s p] \<and> posted s' = posted s"
proof -
  obtain i where i: "map_of (work_items s) p = Some i" by (rule work_item_live [OF ok]) auto
  let ?s = "s\<lparr>executed := executed s @ [job s p]\<rparr>"
  have "work_ok (p # extra) ?s" "jobs ?s = jobs s" using ok by (simp_all add: work_ok_def jobs_def job_def)
  with free_item_ok [of p extra ?s] show ?thesis
    using i quiet by (simp add: run_item_def job_def)
qed

text \<open>Taking the first item out of the queue.\<close>

lemma take_out_ok:
  assumes ok: "work_ok [] s" and c: "fq_content (work_queue s) = p # ps"
  obtains q where "fixed_queue_dequeue (work_queue s) = Inr (p, q)" "fixed_queue_try_dequeue (work_queue s) = Inr (p, q)"
    "work_ok [p] (s\<lparr>work_queue := q\<rparr>)" "fq_content q = ps" "p \<noteq> NULL"
    "jobs (s\<lparr>work_queue := q\<rparr>) = tl (jobs s)" "job (s\<lparr>work_queue := q\<rparr>) p = hd (jobs s)" "fq_capacity q = fq_capacity (work_queue s)"
proof -
  note d = work_okD [OF ok]
  from fixed_queue_dequeue_ok [OF d(1)] c obtain q where
    q: "fixed_queue_dequeue (work_queue s) = Inr (p, q)" "fixed_queue_try_dequeue (work_queue s) = Inr (p, q)"
      "fq_inv q" "fq_content q = ps" "fq_capacity q = fq_capacity (work_queue s)"
    by auto
  have "work_ok [p] (s\<lparr>work_queue := q\<rparr>)" using ok c q(3,4) by (simp add: work_ok_def)
  moreover have "p \<noteq> NULL" using bq.content_nonnull [OF d(1)] c by auto
  moreover have "job (s\<lparr>work_queue := q\<rparr>) = job s" by (simp add: job_def fun_eq_iff)
  ultimately show ?thesis using that [of q] q c by (simp add: jobs_def)
qed

definition quiet_jobs :: "thread_env \<Rightarrow> thread_t \<Rightarrow> bool" where
  "quiet_jobs env s \<longleftrightarrow> (\<forall>j \<in> set (jobs s). posts env (fst j) (snd j) = [])"

lemma drain_ok:
  assumes "work_ok [p] s" and "quiet_jobs env s" and "posts env (fst (job s p)) (snd (job s p)) = []" and "p \<noteq> NULL"
    and "length (jobs s) < n"
  shows "\<exists>s'. drain_loop env n p s = Inr s' \<and> work_ok [] s' \<and> executed s' = executed s @ job s p # jobs s \<and>
    fq_content (work_queue s') = [] \<and> posted s' = posted s"
  using assms
proof (induction n arbitrary: p s)
  case (Suc n)
  obtain s1 where s1: "run_item env p s = Inr s1" "work_ok [] s1" "work_queue s1 = work_queue s"
    "jobs s1 = jobs s" "executed s1 = executed s @ [job s p]" "posted s1 = posted s"
    using run_item_quiet [OF Suc.prems(1,3)] by blast
  show ?case
  proof (cases "fq_content (work_queue s1)")
    case Nil
    then have "fixed_queue_try_dequeue (work_queue s1) = Inr (NULL, work_queue s1)"
      using bq.dequeue_empty [OF work_okD(1) [OF s1(2)]] by blast
    moreover have "drain_loop env n NULL s1 = Inr s1" by (cases n) simp_all
    moreover have "jobs s = []" using Nil s1(3) by (simp add: jobs_def)
    ultimately have "drain_loop env (Suc n) p s = Inr s1" using s1(1) Suc.prems(4) by simp
    then show ?thesis using s1(2,5,6) Nil \<open>jobs s = []\<close> by simp
  next
    case (Cons x xs)
    obtain q where q: "fixed_queue_try_dequeue (work_queue s1) = Inr (x, q)" "work_ok [x] (s1\<lparr>work_queue := q\<rparr>)" "x \<noteq> NULL"
      "jobs (s1\<lparr>work_queue := q\<rparr>) = tl (jobs s1)" "job (s1\<lparr>work_queue := q\<rparr>) x = hd (jobs s1)"
      by (rule take_out_ok [OF s1(2) Cons])
    obtain j js where j: "jobs s = j # js" using Cons s1(3) by (simp add: jobs_def)
    have "quiet_jobs env (s1\<lparr>work_queue := q\<rparr>)" "posts env (fst j) (snd j) = []"
      using Suc.prems(2) q(4) s1(4) j by (simp_all add: quiet_jobs_def)
    with Suc.IH [OF q(2)] obtain s' where "drain_loop env n x (s1\<lparr>work_queue := q\<rparr>) = Inr s'" "work_ok [] s'"
      "executed s' = executed s1 @ j # js" "fq_content (work_queue s') = []" "posted s' = posted s1"
      using q(3,4,5) s1(4) j Suc.prems(5) by auto
    then show ?thesis using s1(1,5,6) q(1) j Suc.prems(4) by simp
  qed
qed simp

lemma thread_post_ok:
  assumes ok: "work_ok extra s" and f: "f \<noteq> NULL" and alloc: "fresh_alloc (item_alloc env)" "item_alloc env (live (work_items s)) \<noteq> NULL"
    and room: "\<not> fq_full (work_queue s)"
  shows "\<exists>s'. thread_post env f ctx s = Inr (True, s') \<and> work_ok extra s' \<and> jobs s' = jobs s @ [(f, ctx)] \<and>
    executed s' = executed s \<and> posted s' = posted s @ [(f, ctx)] \<and>
    fq_capacity (work_queue s') = fq_capacity (work_queue s) \<and>
    (\<forall>x \<in> set extra. map_of (work_items s') x = map_of (work_items s) x) \<and>
    fq_content (work_queue s') = fq_content (work_queue s) @ [item_alloc env (live (work_items s))]"
proof -
  note d = work_okD [OF ok]
  let ?p = "item_alloc env (live (work_items s))"
  have p: "?p \<notin> set (extra @ fq_content (work_queue s))" using fresh_allocD [OF alloc] d(4) by simp
  from fixed_queue_enqueue_ok [OF d(1) alloc(2)] room obtain q where
    q: "fixed_queue_enqueue (work_queue s) ?p = Inr q" "fq_inv q" "fq_content q = fq_content (work_queue s) @ [?p]"
      "fq_capacity q = fq_capacity (work_queue s)"
    by auto
  let ?s = "s\<lparr>work_items := store_at ?p \<lparr>func = f, work_context = ctx\<rparr> (work_items s), work_queue := q,
      posted := posted s @ [(f, ctx)]\<rparr>"
  have "thread_post env f ctx s = Inr (True, ?s)" using f alloc(2) q(1) by (simp add: thread_post_def Let_def)
  moreover have "work_ok extra ?s"
  proof -
    have "fst ` set (work_items ?s) = set (extra @ fq_content (work_queue ?s))" using d(4) q(3) by simp
    then show ?thesis using d(2,3) p q(2,3) by (simp add: work_ok_def distinct_update)
  qed
  moreover have "jobs ?s = jobs s @ [(f, ctx)]"
  proof -
    have "job ?s x = job s x" if "x \<in> set (fq_content (work_queue s))" for x
      using that p by (auto simp: job_def)
    then show ?thesis using q(3) by (simp add: jobs_def) (simp add: job_def)
  qed
  moreover have "\<forall>x \<in> set extra. map_of (work_items ?s) x = map_of (work_items s) x" using p by auto
  ultimately show ?thesis using q(3,4) by (intro exI [of _ ?s]) simp
qed

text \<open>
  Running with posts. The jobs that were posted are those that were run and those in the queue; a
  step either keeps this or waits (\<open>Blocks\<close>) on a full or empty queue.
\<close>

definition calls_ok :: "thread_env \<Rightarrow> bool" where
  "calls_ok env \<longleftrightarrow> fresh_alloc (item_alloc env) \<and> (\<forall>f ctx. \<forall>(g, d) \<in> set (posts env f ctx). g \<noteq> NULL)"

definition memory_ok :: "thread_env \<Rightarrow> thread_t \<Rightarrow> bool" where
  "memory_ok env s \<longleftrightarrow> alloc_room (item_alloc env) (fq_places (work_queue s) + 1)"

definition same_queue :: "thread_t \<Rightarrow> thread_t \<Rightarrow> bool" where
  "same_queue s s' \<longleftrightarrow> fq_capacity (work_queue s') = fq_capacity (work_queue s)"

lemma memory_ok_same: "same_queue s s' \<Longrightarrow> memory_ok env s' = memory_ok env s"
  by (simp add: memory_ok_def same_queue_def fq_places_def)

lemma thread_post_total:
  assumes ok: "work_ok extra s" "length extra \<le> 1" and env: "calls_ok env" "memory_ok env s" and f: "f \<noteq> NULL"
    and hist: "posted s = executed s @ jobs s"
  shows "thread_post env f ctx s = Inl Blocks \<or>
    (\<exists>s'. thread_post env f ctx s = Inr (True, s') \<and> work_ok extra s' \<and> executed s' = executed s \<and>
      posted s' = executed s' @ jobs s' \<and> same_queue s s' \<and>
      (\<forall>x \<in> set extra. map_of (work_items s') x = map_of (work_items s) x))"
proof -
  note d = work_okD [OF ok(1)]
  have "length (live (work_items s)) = card (set (extra @ fq_content (work_queue s)))"
    using distinct_card [OF d(3)] d(4) by simp
  also have "\<dots> \<le> fq_places (work_queue s) + 1"
    using card_length [of "extra @ fq_content (work_queue s)"] ok(2) d(1) by (simp add: fq_inv_def)
  finally have nn: "item_alloc env (live (work_items s)) \<noteq> NULL"
    using env(2) by (simp add: memory_ok_def alloc_room_def)
  show ?thesis
  proof (cases "fq_full (work_queue s)")
    case True
    with fixed_queue_enqueue_ok [OF d(1) nn] have "fixed_queue_enqueue (work_queue s) (item_alloc env (live (work_items s))) = Inl Blocks"
      by simp
    then show ?thesis using nn f by (simp add: thread_post_def Let_def)
  next
    case False
    from thread_post_ok [OF ok(1) f _ nn this, of ctx] env(1) hist show ?thesis
      by (auto simp: calls_ok_def same_queue_def)
  qed
qed

lemma post_all_total:
  assumes "work_ok extra s" "length extra \<le> 1" and "calls_ok env" "memory_ok env s" and "\<forall>(g, d) \<in> set ps. g \<noteq> NULL"
    and "posted s = executed s @ jobs s"
  shows "post_all env ps s = Inl Blocks \<or>
    (\<exists>s'. post_all env ps s = Inr s' \<and> work_ok extra s' \<and> executed s' = executed s \<and>
      posted s' = executed s' @ jobs s' \<and> same_queue s s' \<and>
      (\<forall>x \<in> set extra. map_of (work_items s') x = map_of (work_items s) x))"
  using assms(1,4-6)
proof (induction ps arbitrary: s)
  case Nil
  then show ?case by (simp add: same_queue_def)
next
  case (Cons gd ps)
  obtain g d where gd: "gd = (g, d)" by (cases gd)
  have g: "g \<noteq> NULL" using Cons.prems(3) gd by simp
  from thread_post_total [OF Cons.prems(1) assms(2,3) Cons.prems(2) g Cons.prems(4), of d] show ?case
  proof (elim disjE exE conjE)
    fix s1 assume s1: "thread_post env g d s = Inr (True, s1)" "work_ok extra s1" "executed s1 = executed s"
      "posted s1 = executed s1 @ jobs s1" "same_queue s s1" "\<forall>x \<in> set extra. map_of (work_items s1) x = map_of (work_items s) x"
    have "\<forall>(g, d) \<in> set ps. g \<noteq> NULL" using Cons.prems(3) by simp
    from Cons.IH [OF s1(2) _ this s1(4)] Cons.prems(2) memory_ok_same [OF s1(5)] s1 gd show ?thesis
      by (auto simp: same_queue_def)
  qed (simp add: gd)
qed

lemma run_item_total:
  assumes ok: "work_ok [p] s" and env: "calls_ok env" "memory_ok env s" and hist: "posted s = executed s @ job s p # jobs s"
  shows "run_item env p s = Inl Blocks \<or>
    (\<exists>s'. run_item env p s = Inr s' \<and> work_ok [] s' \<and> posted s' = executed s' @ jobs s' \<and> same_queue s s')"
proof -
  obtain i where i: "map_of (work_items s) p = Some i" by (rule work_item_live [OF ok]) auto
  let ?s = "s\<lparr>executed := executed s @ [(func i, work_context i)]\<rparr>"
  have jobs: "jobs ?s = jobs s" "job s p = (func i, work_context i)" using i by (simp_all add: jobs_def job_def)
  have "work_ok [p] ?s" "memory_ok env ?s" using ok env(2) by (simp_all add: work_ok_def memory_ok_def)
  moreover have "\<forall>(g, d) \<in> set (posts env (func i) (work_context i)). g \<noteq> NULL" using env(1) by (simp add: calls_ok_def)
  moreover have "posted ?s = executed ?s @ jobs ?s" using hist jobs by simp
  ultimately have "post_all env (posts env (func i) (work_context i)) ?s = Inl Blocks \<or>
      (\<exists>s'. post_all env (posts env (func i) (work_context i)) ?s = Inr s' \<and> work_ok [p] s' \<and> executed s' = executed ?s \<and>
        posted s' = executed s' @ jobs s' \<and> same_queue ?s s' \<and>
        (\<forall>x \<in> set [p]. map_of (work_items s') x = map_of (work_items ?s) x))"
    using post_all_total [of "[p]" ?s env] env(1) by simp
  then show ?thesis
  proof (elim disjE exE conjE)
    fix s1 assume s1: "post_all env (posts env (func i) (work_context i)) ?s = Inr s1" "work_ok [p] s1"
      "posted s1 = executed s1 @ jobs s1" "same_queue ?s s1" "\<forall>x \<in> set [p]. map_of (work_items s1) x = map_of (work_items ?s) x"
    have "run_item env p s = Inr (s1\<lparr>work_items := free_item p (work_items s1)\<rparr>)"
      using i s1(1,5) by (simp add: run_item_def)
    then show ?thesis using free_item_ok [OF s1(2)] s1(3,4) by (simp add: same_queue_def)
  qed (simp add: run_item_def i)
qed

lemma work_queue_read_cb_total:
  assumes ok: "work_ok [] s" and env: "calls_ok env" "memory_ok env s" and hist: "posted s = executed s @ jobs s"
  shows "work_queue_read_cb env s = Inl Blocks \<or>
    (\<exists>s'. work_queue_read_cb env s = Inr s' \<and> work_ok [] s' \<and> posted s' = executed s' @ jobs s' \<and> same_queue s s')"
proof (cases "fq_content (work_queue s)")
  case Nil
  then have "fixed_queue_dequeue (work_queue s) = Inl Blocks"
    using bq.dequeue_empty [OF work_okD(1) [OF ok]] by blast
  then show ?thesis by (simp add: work_queue_read_cb_def)
next
  case (Cons p ps)
  obtain q where q: "fixed_queue_dequeue (work_queue s) = Inr (p, q)" "work_ok [p] (s\<lparr>work_queue := q\<rparr>)"
    "jobs (s\<lparr>work_queue := q\<rparr>) = tl (jobs s)" "job (s\<lparr>work_queue := q\<rparr>) p = hd (jobs s)" "fq_capacity q = fq_capacity (work_queue s)"
    by (rule take_out_ok [OF ok Cons])
  have "jobs s \<noteq> []" using Cons by (simp add: jobs_def)
  then have "posted (s\<lparr>work_queue := q\<rparr>) = executed (s\<lparr>work_queue := q\<rparr>) @ job (s\<lparr>work_queue := q\<rparr>) p # jobs (s\<lparr>work_queue := q\<rparr>)"
    using hist q(3,4) by simp
  moreover have "memory_ok env (s\<lparr>work_queue := q\<rparr>)" using env(2) q(5) by (simp add: memory_ok_def fq_places_def)
  ultimately show ?thesis
    using run_item_total [OF q(2) env(1)] q(1,5) by (auto simp: work_queue_read_cb_def same_queue_def)
qed

lemma serve_total:
  assumes "work_ok [] s" and "calls_ok env" "memory_ok env s" and "posted s = executed s @ jobs s"
    and "\<forall>f ctx. PostEvent f ctx \<in> set events \<longrightarrow> f \<noteq> NULL"
  shows "serve env events s = Inl Blocks \<or>
    (\<exists>s'. serve env events s = Inr s' \<and> work_ok [] s' \<and> posted s' = executed s' @ jobs s')"
  using assms(1,3-5)
proof (induction events arbitrary: s)
  case (Cons e events)
  have step: "serve env (e # events) s = Inl Blocks \<or>
      (\<exists>s1. serve env (e # events) s = serve env events s1 \<and> work_ok [] s1 \<and> posted s1 = executed s1 @ jobs s1 \<and> same_queue s s1)"
  proof (cases e)
    case (PostEvent f ctx)
    with thread_post_total [OF Cons.prems(1) _ assms(2) Cons.prems(2) _ Cons.prems(3), of f ctx] Cons.prems(4)
    show ?thesis by auto
  next
    case ServeEvent
    with work_queue_read_cb_total [OF Cons.prems(1) assms(2) Cons.prems(2,3)] show ?thesis by auto
  qed
  show ?case
    using step
  proof (elim disjE exE conjE)
    fix s1 assume s1: "serve env (e # events) s = serve env events s1" "work_ok [] s1" "posted s1 = executed s1 @ jobs s1" "same_queue s s1"
    have "memory_ok env s1" using memory_ok_same [OF s1(4)] Cons.prems(2) by simp
    moreover have "\<forall>f ctx. PostEvent f ctx \<in> set events \<longrightarrow> f \<noteq> NULL" using Cons.prems(4) by simp
    ultimately show ?thesis using Cons.IH [OF s1(2) _ s1(3)] unfolding s1(1) by blast
  qed simp
qed simp

text \<open>An item that posts itself again.\<close>

lemma run_item_repost:
  assumes ok: "work_ok [p] s" and empty: "fq_content (work_queue s) = []" and places: "0 < fq_places (work_queue s)"
    and job: "job s p = (f, ctx)" "f \<noteq> NULL" "posts env f ctx = [(f, ctx)]"
    and alloc: "fresh_alloc (item_alloc env)" "alloc_room (item_alloc env) 1"
  shows "\<exists>s'. run_item env p s = Inr s' \<and> work_ok [] s' \<and> jobs s' = [(f, ctx)] \<and>
    executed s' = executed s @ [(f, ctx)] \<and> fq_capacity (work_queue s') = fq_capacity (work_queue s)"
proof -
  obtain i where i: "map_of (work_items s) p = Some i" by (rule work_item_live [OF ok]) auto
  then have fi: "func i = f" "work_context i = ctx" using job(1) by (simp_all add: job_def)
  let ?s = "s\<lparr>executed := executed s @ [(f, ctx)]\<rparr>"
  have ok1: "work_ok [p] ?s" "jobs ?s = []" using ok empty by (simp_all add: work_ok_def jobs_def)
  have "length (live (work_items s)) = card (set (live (work_items s)))"
    using distinct_card [OF work_okD(3) [OF ok]] by simp
  also have "\<dots> = 1" using work_okD(4) [OF ok] empty by simp
  finally have nn: "item_alloc env (live (work_items ?s)) \<noteq> NULL" using alloc(2) by (simp add: alloc_room_def)
  have room: "\<not> fq_full (work_queue ?s)" using empty places by (simp add: fq_full_def)
  obtain s1 where s1: "thread_post env f ctx ?s = Inr (True, s1)" "work_ok [p] s1" "jobs s1 = [(f, ctx)]"
    "executed s1 = executed s @ [(f, ctx)]" "fq_capacity (work_queue s1) = fq_capacity (work_queue s)"
    "map_of (work_items s1) p = Some i"
    using thread_post_ok [OF ok1(1) job(2) alloc(1) nn room, of ctx] ok1(2) i by auto
  have "run_item env p s = Inr (s1\<lparr>work_items := free_item p (work_items s1)\<rparr>)"
    using i fi job(3) s1(1,6) by (simp add: run_item_def)
  then show ?thesis using free_item_ok [OF s1(2)] s1(3-5) by simp
qed

lemma drain_repost:
  assumes "work_ok [p] s" and "fq_content (work_queue s) = []" and "0 < fq_places (work_queue s)" and "p \<noteq> NULL"
    and "job s p = (f, ctx)" "f \<noteq> NULL" "posts env f ctx = [(f, ctx)]"
    and "fresh_alloc (item_alloc env)" "alloc_room (item_alloc env) 1"
  shows "\<exists>s' x. drain_loop env n p s = Inr s' \<and> work_ok [x] s' \<and> fq_content (work_queue s') = [] \<and>
    executed s' = executed s @ replicate n (f, ctx)"
  using assms(1-5)
proof (induction n arbitrary: p s)
  case 0
  then show ?case by auto
next
  case (Suc n)
  obtain s1 where s1: "run_item env p s = Inr s1" "work_ok [] s1" "jobs s1 = [(f, ctx)]"
    "executed s1 = executed s @ [(f, ctx)]" "fq_capacity (work_queue s1) = fq_capacity (work_queue s)"
    using run_item_repost [OF Suc.prems(1-3,5) assms(6-9)] by blast
  obtain x where c: "fq_content (work_queue s1) = [x]" using s1(3) by (cases "fq_content (work_queue s1)") (auto simp: jobs_def)
  obtain q where q: "fixed_queue_try_dequeue (work_queue s1) = Inr (x, q)" "work_ok [x] (s1\<lparr>work_queue := q\<rparr>)" "x \<noteq> NULL"
    "fq_content q = []" "job (s1\<lparr>work_queue := q\<rparr>) x = hd (jobs s1)" "fq_capacity q = fq_capacity (work_queue s1)"
    by (rule take_out_ok [OF s1(2) c])
  have "0 < fq_places q" using Suc.prems(3) q(6) s1(5) by (simp add: fq_places_def)
  with Suc.IH [OF q(2)] obtain s' y where "drain_loop env n x (s1\<lparr>work_queue := q\<rparr>) = Inr s'" "work_ok [y] s'"
    "fq_content (work_queue s') = []" "executed s' = executed s1 @ replicate n (f, ctx)"
    using q(3-5) s1(3) by auto
  then show ?case using s1(1,4) q(1) Suc.prems(4) by auto
qed

section \<open>Properties\<close>

lemma jobs_le_capacity:
  assumes "work_ok extra s"
  shows "length (jobs s) \<le> unat (fixed_queue_capacity (work_queue s))"
proof -
  have "length (jobs s) \<le> fq_places (work_queue s)" using work_okD(1) [OF assms] by (simp add: fq_inv_def jobs_def)
  also have "\<dots> = unat (fq_capacity (work_queue s)) mod 2 ^ 32"
    by (simp add: fq_places_def unsigned_ucast_eq take_bit_eq_mod)
  also have "\<dots> \<le> unat (fq_capacity (work_queue s))" by simp
  finally show ?thesis by (simp add: fixed_queue_capacity_def)
qed

text \<open>A thread with one item in its queue of two places.\<close>

definition demo_thread_env :: thread_env where
  "demo_thread_env = \<lparr>item_alloc = arena_alloc [16, 32, 48, 64], posts = (\<lambda>f ctx. if f = 9 then [(9, ctx)] else [])\<rparr>"

definition demo_thread :: "ptr \<Rightarrow> thread_t" where
  "demo_thread f = snd (projr (thread_post demo_thread_env f 5
     \<lparr>is_joined = False, name = ''worker'', stop_requests = 0, work_queue = demo_queue, work_items = [], posted = [], executed = []\<rparr>))"

lemma demo_thread_facts:
  assumes "f \<noteq> NULL"
  shows "work_ok [] (demo_thread f)" "jobs (demo_thread f) = [(f, 5)]" "executed (demo_thread f) = []"
    "fq_capacity (work_queue (demo_thread f)) = 2" "fq_places (work_queue (demo_thread f)) = 2"
    "posted (demo_thread f) = [(f, 5)]"
proof -
  let ?s = "\<lparr>is_joined = False, name = ''worker'', stop_requests = 0, work_queue = demo_queue, work_items = [], posted = [], executed = []\<rparr>"
  have ok: "work_ok [] ?s" "jobs ?s = []" "executed ?s = []" using demo_queue_facts by (simp_all add: work_ok_def jobs_def)
  have cap: "fq_capacity demo_queue = 2"
    by (simp add: demo_queue_def fixed_queue_new_def list_new_internal_def semaphore_new_def)
  have fresh: "fresh_alloc (item_alloc demo_thread_env)" by (simp add: demo_thread_env_def)
  have alloc: "item_alloc demo_thread_env (live (work_items ?s)) \<noteq> NULL" by (simp add: demo_thread_env_def arena_alloc_def)
  have room: "\<not> fq_full (work_queue ?s)" using demo_queue_facts by (simp add: fq_full_def)
  from thread_post_ok [OF ok(1) assms fresh alloc room, of 5] obtain s' where
    "thread_post demo_thread_env f 5 ?s = Inr (True, s')" "work_ok [] s'" "jobs s' = [(f, 5)]" "executed s' = []"
    "fq_capacity (work_queue s') = 2" "posted s' = [(f, 5)]"
    using ok(2,3) cap by auto
  then show "work_ok [] (demo_thread f)" "jobs (demo_thread f) = [(f, 5)]" "executed (demo_thread f) = []"
    "fq_capacity (work_queue (demo_thread f)) = 2" "fq_places (work_queue (demo_thread f)) = 2"
    "posted (demo_thread f) = [(f, 5)]"
    by (simp_all add: demo_thread_def fq_places_def)
qed

lemma demo_serve:
  "\<exists>s1. serve demo_thread_env [ServeEvent, PostEvent 7 4] (demo_thread 8) = Inr s1 \<and>
     posted s1 = [(8, 5), (7, 4)] \<and> jobs s1 = [(7, 4)]"
proof -
  have "(case serve demo_thread_env [ServeEvent, PostEvent 7 4] (demo_thread 8) of Inl _ \<Rightarrow> False
    | Inr s1 \<Rightarrow> posted s1 = [(8, 5), (7, 4)] \<and> jobs s1 = [(7, 4)])"
    by code_simp
  then show ?thesis by (auto split: sum.splits)
qed

text \<open>The end of \<open>run_thread\<close>: all items of the queue are run when they post nothing.\<close>

lemma run_thread_drains:
  assumes "serve env events s = Inr s1" and "work_ok [] s1" and "quiet_jobs env s1"
  shows "\<exists>s'. run_thread env True True events s = Inr (True, s') \<and> executed s' = executed s1 @ jobs s1 \<and>
    posted s' = posted s1 \<and> jobs s' = [] \<and> work_items s' = []"
proof (cases "fq_content (work_queue s1)")
  case Nil
  then have "fixed_queue_try_dequeue (work_queue s1) = Inr (NULL, work_queue s1)"
    using bq.dequeue_empty [OF work_okD(1) [OF assms(2)]] by blast
  moreover have none: "jobs s1 = []" using Nil by (simp add: jobs_def)
  moreover have "work_items s1 = []" using work_okD(4) [OF assms(2)] Nil by simp
  ultimately show ?thesis using assms(1) by (simp add: run_thread_def drain_rounds_def)
next
  case (Cons p ps)
  obtain q where q: "fixed_queue_try_dequeue (work_queue s1) = Inr (p, q)" "work_ok [p] (s1\<lparr>work_queue := q\<rparr>)" "p \<noteq> NULL"
    "jobs (s1\<lparr>work_queue := q\<rparr>) = tl (jobs s1)" "job (s1\<lparr>work_queue := q\<rparr>) p = hd (jobs s1)"
    by (rule take_out_ok [OF assms(2) Cons])
  obtain j js where j: "jobs s1 = j # js" using Cons by (simp add: jobs_def)
  have "quiet_jobs env (s1\<lparr>work_queue := q\<rparr>)" "posts env (fst j) (snd j) = []"
    using assms(3) j q(4) by (simp_all add: quiet_jobs_def)
  moreover have "length (jobs (s1\<lparr>work_queue := q\<rparr>)) < drain_rounds s1"
    using jobs_le_capacity [OF assms(2)] j q(4) by (simp add: drain_rounds_def)
  ultimately obtain s' where s': "drain_loop env (drain_rounds s1) p (s1\<lparr>work_queue := q\<rparr>) = Inr s'" "work_ok [] s'"
    "executed s' = executed s1 @ j # js" "fq_content (work_queue s') = []" "posted s' = posted s1"
    using drain_ok [OF q(2)] q(3,4,5) j by auto
  have "work_items s' = []" using work_okD(4) [OF s'(2)] s'(4) by simp
  then show ?thesis using assms(1) q(1) j s'(1,3,4,5) by (simp add: run_thread_def jobs_def)
qed

text \<open>
  C23. Work posted before the reactor stops is not lost. Let other threads post and the reactor
  serve items in any order, items posting further items as they like. Then the only thing that
  can happen on the way is waiting: a post on a full queue, or a call of the callback on an empty
  one. Otherwise, when the reactor stops, the jobs that were posted are exactly those that ran
  and those in the queue, in this order; and if the jobs still in the queue post nothing and
  nobody posts any more, \<open>run_thread\<close> returns having run every posted job exactly once, in the order
  of posting, with the queue empty and all items freed. (If the jobs in the queue post further
  items, the final loop may drop one: \<open>thread_drain_drops_item\<close>.)
\<close>

theorem thread_runs_all_work:
  assumes "work_ok [] s" and "posted s = executed s @ jobs s" and "calls_ok env" "memory_ok env s"
    and "\<forall>f ctx. PostEvent f ctx \<in> set events \<longrightarrow> f \<noteq> NULL"
  shows "case serve env events s of
      Inl e \<Rightarrow> e = Blocks \<and> run_thread env True True events s = Inl Blocks
    | Inr s1 \<Rightarrow> posted s1 = executed s1 @ jobs s1 \<and>
        (quiet_jobs env s1 \<longrightarrow>
          (\<exists>s'. run_thread env True True events s = Inr (True, s') \<and> posted s' = posted s1 \<and>
             executed s' = posted s' \<and> jobs s' = [] \<and> work_items s' = []))"
proof -
  from serve_total [OF assms(1,3,4,2,5)] show ?thesis
  proof (elim disjE exE conjE)
    assume "serve env events s = Inl Blocks"
    then show ?thesis by (simp add: run_thread_def)
  next
    fix s1 assume s1: "serve env events s = Inr s1" "work_ok [] s1" "posted s1 = executed s1 @ jobs s1"
    show ?thesis using run_thread_drains [OF s1(1,2)] s1(1,3) by auto
  qed
qed

theorem thread_runs_all_work_witness:
  "work_ok [] (demo_thread 8) \<and>
   (\<exists>s'. run_thread demo_thread_env True True [ServeEvent, PostEvent 7 4] (demo_thread 8) = Inr (True, s') \<and>
      executed s' = posted s' \<and> posted s' = [(8, 5), (7, 4)])"
proof -
  note d = demo_thread_facts [of 8]
  have "fq_places (work_queue (demo_thread 8)) + 1 = 3" using d(5) by simp
  then have env: "calls_ok demo_thread_env" "memory_ok demo_thread_env (demo_thread 8)"
    using alloc_room_arena [of "[16, 32, 48, 64]" 3] by (simp_all add: calls_ok_def memory_ok_def demo_thread_env_def)
  obtain s1 where s1: "serve demo_thread_env [ServeEvent, PostEvent 7 4] (demo_thread 8) = Inr s1" "posted s1 = [(8, 5), (7, 4)]"
      "jobs s1 = [(7, 4)]"
    using demo_serve by blast
  then have "quiet_jobs demo_thread_env s1" by (simp add: quiet_jobs_def demo_thread_env_def)
  with thread_runs_all_work [OF d(1) _ env, of "[ServeEvent, PostEvent 7 4]"] d(2,3,6) s1
  show ?thesis using d(1) by (auto simp del: serve.simps)
qed

text \<open>
  A thread whose work queue could not be registered serves nothing, and the process dies on the
  assertion of \<open>reactor_unregister\<close> as soon as the thread is stopped.
\<close>

lemma run_thread_unregistered:
  "run_thread env True False events s = Inr r \<Longrightarrow> False"
  "serve env (filter (\<lambda>e. e \<noteq> ServeEvent) events) s = Inr s1 \<Longrightarrow> run_thread env True False events s = Inl AssertFailed"
  by (simp_all add: run_thread_def c_assert_def)

text \<open>
  The limit of the final loop drops an item: when the items of a thread keep posting themselves,
  the loop at the end of \<open>run_thread\<close> runs capacity + 1 items and has then dequeued one more, which
  it neither runs nor frees.
\<close>

theorem thread_drain_drops_item:
  assumes "work_ok [] s" and "jobs s = [(f, ctx)]" and "0 < fq_places (work_queue s)" and "f \<noteq> NULL"
    and "posts env f ctx = [(f, ctx)]" and "fresh_alloc (item_alloc env)" and "alloc_room (item_alloc env) 1"
  shows "\<exists>s' x. run_thread env True True [] s = Inr (True, s') \<and>
    executed s' = executed s @ replicate (unat (fixed_queue_capacity (work_queue s)) + 1) (f, ctx) \<and>
    fq_content (work_queue s') = [] \<and> set (live (work_items s')) = {x}"
proof -
  obtain p where c: "fq_content (work_queue s) = [p]" using assms(2) by (cases "fq_content (work_queue s)") (auto simp: jobs_def)
  obtain q where q: "fixed_queue_try_dequeue (work_queue s) = Inr (p, q)" "work_ok [p] (s\<lparr>work_queue := q\<rparr>)" "p \<noteq> NULL"
    "fq_content q = []" "job (s\<lparr>work_queue := q\<rparr>) p = hd (jobs s)" "fq_capacity q = fq_capacity (work_queue s)"
    by (rule take_out_ok [OF assms(1) c])
  have "0 < fq_places q" using assms(3) q(6) by (simp add: fq_places_def)
  then obtain s' x where s': "drain_loop env (drain_rounds s) p (s\<lparr>work_queue := q\<rparr>) = Inr s'" "work_ok [x] s'"
    "fq_content (work_queue s') = []" "executed s' = executed s @ replicate (drain_rounds s) (f, ctx)"
    using drain_repost [OF q(2) _ _ q(3) _ assms(4-7), of "drain_rounds s"] q(4,5) assms(2) by auto
  then have "set (live (work_items s')) = {x}" using work_okD(4) [OF s'(2)] by simp
  then show ?thesis using s' q(1) by (auto simp: run_thread_def drain_rounds_def)
qed

theorem thread_drain_drops_item_witness:
  "\<exists>s' x. run_thread demo_thread_env True True [] (demo_thread 9) = Inr (True, s') \<and>
     executed s' = [(9, 5), (9, 5), (9, 5)] \<and> fq_content (work_queue s') = [] \<and> set (live (work_items s')) = {x}"
proof -
  note d = demo_thread_facts [of 9]
  have env: "posts demo_thread_env 9 5 = [(9, 5)]" "fresh_alloc (item_alloc demo_thread_env)"
    "alloc_room (item_alloc demo_thread_env) 1"
    using alloc_room_arena [of "[16, 32, 48, 64]" 1] by (simp_all add: demo_thread_env_def)
  have two: "unat (2 :: size_t) = 2" by simp
  have three: "replicate (2 + 1) x = [x, x, x]" for x :: "ptr \<times> ptr" by (simp add: numeral_eq_Suc)
  have "replicate (unat (2 :: size_t) + 1) (9 :: ptr, 5 :: ptr) = [(9, 5), (9, 5), (9, 5)]" unfolding two by (rule three)
  then show ?thesis
    using thread_drain_drops_item [of "demo_thread 9" 9 5 demo_thread_env] d env
    by (simp add: fixed_queue_capacity_def)
qed

text \<open>
  Futures: an await waits until the value is there and then answers exactly the value given to
  \<open>future_ready\<close>; an immediate future answers at once; making a future ready twice, or an
  immediate one at all, fails the assertion.
\<close>

theorem future_protocol:
  "\<exists>f f'. future_new True = Some f \<and> future_await (Some f) = Inl Blocks \<and>
     future_ready v (Some f) = Inr f' \<and> future_await (Some f') = Inr v \<and>
     future_ready w (Some f') = Inl AssertFailed \<and>
     future_await (Some (future_new_immediate v)) = Inr v \<and>
     future_ready w (Some (future_new_immediate v)) = Inl AssertFailed \<and>
     future_new False = None"
  by (simp add: future_new_def future_await_def future_ready_def future_new_immediate_def semaphore_new_def)

end
