(* ===== verification/FutureThreads.thy ===== *)
theory FutureThreads
  imports Thread Steps
begin

text \<open>
  A future (\<open>src/future.c\<close>) between two threads: one calls \<open>future_ready\<close>, the other one
  \<open>future_await\<close>, which frees the future. One step is one access to the shared object or one
  operation on its semaphore, in the order of the code. Every access checks that the object has not
  been freed. The theory shows that the value arrives, that nothing is used after it was freed,
  and that every run ends with both calls returned.
\<close>

section \<open>The two threads\<close>

datatype ready_pc = RAssert | RFlag | RValue | RPost | RDone

datatype await_pc = AWait | ARead | AFree | ADone

text \<open>\<open>cell\<close> is the object until it is freed, \<open>answer\<close> the local variable \<open>result\<close> of \<open>future_await\<close>.\<close>

record future_sys =
  cell :: "future_t option"
  rpc :: ready_pc
  apc :: await_pc
  answer :: "ptr option"

definition deref_cell :: "future_sys \<Rightarrow> future_t res" where
  "deref_cell x = (case cell x of None \<Rightarrow> Inl BadPointer | Some f \<Rightarrow> Inr f)"

definition ready_step :: "ptr \<Rightarrow> future_sys \<Rightarrow> future_sys res" where
  "ready_step v x =
     (if rpc x = RDone then Inl Blocks
      else rbind (deref_cell x) (\<lambda>f.
        case rpc x of
          RAssert \<Rightarrow> rbind (c_assert (ready_can_be_called f)) (\<lambda>_. Inr (x\<lparr>rpc := RFlag\<rparr>))
        | RFlag \<Rightarrow> Inr (x\<lparr>cell := Some (f\<lparr>ready_can_be_called := False\<rparr>), rpc := RValue\<rparr>)
        | RValue \<Rightarrow> Inr (x\<lparr>cell := Some (f\<lparr>fut_result := v\<rparr>), rpc := RPost\<rparr>)
        | RPost \<Rightarrow> rbind (case fut_semaphore f of None \<Rightarrow> Inl BadPointer | Some sem \<Rightarrow> semaphore_post sem) (\<lambda>sem.
            Inr (x\<lparr>cell := Some (f\<lparr>fut_semaphore := Some sem\<rparr>), rpc := RDone\<rparr>))
        | RDone \<Rightarrow> Inl Blocks))"

definition await_step :: "future_sys \<Rightarrow> future_sys res" where
  "await_step x =
     (if apc x = ADone then Inl Blocks
      else rbind (deref_cell x) (\<lambda>f.
        case apc x of
          AWait \<Rightarrow> (case fut_semaphore f of None \<Rightarrow> Inr (x\<lparr>apc := ARead\<rparr>)
            | Some sem \<Rightarrow> rbind (semaphore_wait sem) (\<lambda>sem1.
                Inr (x\<lparr>cell := Some (f\<lparr>fut_semaphore := Some sem1\<rparr>), apc := ARead\<rparr>)))
        | ARead \<Rightarrow> Inr (x\<lparr>answer := Some (fut_result f), apc := AFree\<rparr>)
        | AFree \<Rightarrow> Inr (x\<lparr>cell := None, apc := ADone\<rparr>)
        | ADone \<Rightarrow> Inl Blocks))"

inductive future_step :: "ptr \<Rightarrow> future_sys \<Rightarrow> future_sys \<Rightarrow> bool" for v where
  ready: "ready_step v x = Inr y \<Longrightarrow> future_step v x y"
| await: "await_step x = Inr y \<Longrightarrow> future_step v x y"

inductive_simps future_step_iff: "future_step v x y"

definition future_start :: future_sys where
  "future_start = \<lparr>cell = future_new True, rpc = RAssert, apc = AWait, answer = None\<rparr>"

section \<open>The invariant\<close>

fun ready_count :: "ready_pc \<Rightarrow> nat" where
  "ready_count RAssert = 0" | "ready_count RFlag = 1" | "ready_count RValue = 2"
| "ready_count RPost = 3" | "ready_count RDone = 4"

fun await_count :: "await_pc \<Rightarrow> nat" where
  "await_count AWait = 0" | "await_count ARead = 1" | "await_count AFree = 2" | "await_count ADone = 3"

text \<open>
  The object lives until the waiting thread has freed it; that thread gets past its wait only after the
  other one is done; the number of steps so far is that of the two program counters.
\<close>

definition future_ok :: "ptr \<Rightarrow> nat \<Rightarrow> future_sys \<Rightarrow> bool" where
  "future_ok v n x \<longleftrightarrow> n = ready_count (rpc x) + await_count (apc x) \<and> (apc x \<noteq> AWait \<longrightarrow> rpc x = RDone) \<and>
     (apc x \<in> {AFree, ADone} \<longrightarrow> answer x = Some v) \<and>
     cell x = (if apc x = ADone then None
       else Some \<lparr>ready_can_be_called = (rpc x \<in> {RAssert, RFlag}),
         fut_semaphore = Some \<lparr>sem_count = (if rpc x = RDone \<and> apc x = AWait then 1 else 0), sem_nonblock = False\<rparr>,
         fut_result = (if rpc x \<in> {RPost, RDone} then v else NULL)\<rparr>)"

lemma future_ok_start: "future_ok v 0 future_start"
  by (simp add: future_ok_def future_start_def future_new_def semaphore_new_def)

lemma ready_step_ok:
  assumes "future_ok v n x"
  shows "if rpc x = RDone then ready_step v x = Inl Blocks else \<exists>y. ready_step v x = Inr y \<and> future_ok v (Suc n) y"
  using assms by (cases "rpc x"; cases "apc x") (auto simp: future_ok_def ready_step_def deref_cell_def)

lemma await_step_ok:
  assumes "future_ok v n x"
  shows "if rpc x \<noteq> RDone \<or> apc x = ADone then await_step x = Inl Blocks
    else \<exists>y. await_step x = Inr y \<and> future_ok v (Suc n) y"
  using assms by (cases "rpc x"; cases "apc x") (auto simp: future_ok_def await_step_def deref_cell_def)

lemma future_step_ok: "future_ok v n x \<Longrightarrow> future_step v x y \<Longrightarrow> future_ok v (Suc n) y"
  using ready_step_ok [of v n x] await_step_ok [of v n x] by (auto simp: future_step_iff split: if_splits)

lemma future_ok_count:
  assumes "future_ok v n x"
  shows "n \<le> 7" "n = 7 \<longleftrightarrow> rpc x = RDone \<and> apc x = ADone"
  using assms by (cases "rpc x"; cases "apc x"; simp add: future_ok_def)+

interpretation fs: counted_system "future_step v" "future_ok v" 7 for v
proof
  fix n x y
  assume ok: "future_ok v n x"
  show "future_step v x y \<Longrightarrow> future_ok v (Suc n) y" by (rule future_step_ok [OF ok])
  show "n \<le> 7" by (rule future_ok_count(1) [OF ok])
  show "n < 7 \<Longrightarrow> \<exists>y. future_step v x y"
    using ready_step_ok [OF ok] await_step_ok [OF ok] future_ok_count(2) [OF ok]
    by (auto simp: future_step_iff split: if_splits)
qed

section \<open>Properties\<close>

text \<open>
  C19. A future delivers. In every interleaving of one \<open>future_ready\<close> with value \<open>v\<close> and one \<open>future_await\<close> no
  assertion fails and no freed memory is accessed (a thread that cannot move only waits or has
  returned); after at most seven steps both calls have returned, a run that has not got so far can
  go on, and \<open>future_await\<close> then has answered \<open>v\<close> and freed the future.
\<close>

theorem future_delivers:
  assumes "(future_step v ^^ n) future_start x"
  shows "n \<le> 7 \<and> (\<forall>e. ready_step v x = Inl e \<or> await_step x = Inl e \<longrightarrow> e = Blocks) \<and>
    (if n = 7 then rpc x = RDone \<and> apc x = ADone \<and> answer x = Some v \<and> cell x = None
     else \<exists>y. future_step v x y)"
proof -
  have ok: "future_ok v n x" by (rule fs.run_count [OF assms future_ok_start])
  have "answer x = Some v" "cell x = None" if "apc x = ADone" using ok that by (simp_all add: future_ok_def)
  then show ?thesis
    using ready_step_ok [OF ok] await_step_ok [OF ok] future_ok_count [OF ok]
    by (auto simp: future_step_iff split: if_splits)
qed

theorem future_delivers_witness:
  "\<exists>x. (future_step 9 ^^ 7) future_start x \<and> answer x = Some 9 \<and> cell x = None"
  using fs.run_exists [OF future_ok_start, of 7 9] future_delivers [of 7 9] by auto

end
