(* ===== verification/DataDispatcher.thy ===== *)
theory DataDispatcher
  imports HashMap FixedQueue
begin

text \<open>
  The data dispatcher of \<open>src/data_dispatcher.c\<close>: a table from types to queues, and a default queue.

  The table is the hash map of \<open>HashMap\<close>, used through the contract \<open>key_store\<close>; the queues
  belong to the clients and are objects of a store, used through the contract \<open>bounded_queue\<close>.
\<close>

section \<open>The code\<close>

record data_dispatcher_t =
  dd_name :: string
  dispatch_table :: "(size_t, ptr, unit) hash_map_t"
  default_queue :: ptr

definition DEFAULT_TABLE_BUCKETS :: size_t where
  "DEFAULT_TABLE_BUCKETS = 10"

text \<open>\<open>map_p\<close>, \<open>bucket_p\<close> and \<open>alloc\<close> are the answers of the allocator for the table.\<close>

definition data_dispatcher_new :: "ptr \<Rightarrow> ptr \<Rightarrow> alloc_fn \<Rightarrow> string option \<Rightarrow> data_dispatcher_t option res" where
  "data_dispatcher_new map_p bucket_p alloc nm =
     rbind (case nm of None \<Rightarrow> Inl AssertFailed | Some n \<Rightarrow> Inr n) (\<lambda>n.
     rbind (hash_map_new_internal map_p bucket_p DEFAULT_TABLE_BUCKETS hash_function_naive None None None alloc) (\<lambda>t.
     case t of None \<Rightarrow> Inr None
     | Some table \<Rightarrow> Inr (Some \<lparr>dd_name = c_string n, dispatch_table = table, default_queue = NULL\<rparr>)))"

definition data_dispatcher_free :: "data_dispatcher_t option \<Rightarrow> unit res" where
  "data_dispatcher_free d = (case d of None \<Rightarrow> Inr () | Some x \<Rightarrow> hash_map_free (Some (dispatch_table x)) ())"

definition data_dispatcher_register :: "ptr \<Rightarrow> size_t \<Rightarrow> ptr \<Rightarrow> data_dispatcher_t \<Rightarrow> data_dispatcher_t res" where
  "data_dispatcher_register list_p type queue d =
     rbind (hash_map_erase (dispatch_table d) type ()) (\<lambda>(_, t1, _).
     if queue \<noteq> NULL
     then rbind (hash_map_set list_p t1 type (Some queue) ()) (\<lambda>(_, t2, _). Inr (d\<lparr>dispatch_table := t2\<rparr>))
     else Inr (d\<lparr>dispatch_table := t1\<rparr>))"

definition data_dispatcher_register_default :: "ptr \<Rightarrow> data_dispatcher_t \<Rightarrow> data_dispatcher_t" where
  "data_dispatcher_register_default queue d = d\<lparr>default_queue := queue\<rparr>"

definition data_dispatcher_dispatch ::
  "data_dispatcher_t \<Rightarrow> size_t \<Rightarrow> ptr \<Rightarrow> (ptr \<times> fixed_queue_t) list \<Rightarrow> (bool \<times> (ptr \<times> fixed_queue_t) list) res" where
  "data_dispatcher_dispatch d type data qs =
     rbind (c_assert (data \<noteq> NULL)) (\<lambda>_.
     rbind (hash_map_get (dispatch_table d) type) (\<lambda>found.
     let queue = (case found of None \<Rightarrow> default_queue d | Some q \<Rightarrow> q) in
     if queue \<noteq> NULL
     then rbind (deref qs queue) (\<lambda>q.
          rbind (fixed_queue_enqueue q data) (\<lambda>q1. Inr (True, store_at queue q1 qs)))
     else Inr (False, qs)))"

section \<open>Properties\<close>

definition dd_ok :: "data_dispatcher_t \<Rightarrow> bool" where
  "dd_ok d \<longleftrightarrow> hm_good (dispatch_table d) \<and> keys_are_equal (dispatch_table d) = default_key_equality"

text \<open>The queue responsible for a type; null when there is none.\<close>

definition handler :: "data_dispatcher_t \<Rightarrow> size_t \<Rightarrow> ptr" where
  "handler d type = (case hm_lookup (dispatch_table d) type of None \<Rightarrow> default_queue d | Some q \<Rightarrow> q)"

lemma dd_okD: "dd_ok d \<Longrightarrow> hm_good (dispatch_table d)" "dd_ok d \<Longrightarrow> keys_are_equal (dispatch_table d) x y \<longleftrightarrow> x = y"
  by (simp_all add: dd_ok_def default_key_equality_def)

lemma data_dispatcher_new_ok:
  assumes "map_p \<noteq> NULL" and "bucket_p \<noteq> NULL" and "fresh_alloc alloc"
  shows "\<exists>d. data_dispatcher_new map_p bucket_p alloc (Some n) = Inr (Some d) \<and> dd_ok d \<and> (\<forall>type. handler d type = NULL) \<and>
    hm_allocator (dispatch_table d) = alloc \<and> entries (dispatch_table d) = []"
proof -
  obtain m :: "(size_t, ptr, unit) hash_map_t" where
    m: "hash_map_new_internal map_p bucket_p DEFAULT_TABLE_BUCKETS hash_function_naive None None None alloc = Inr (Some m)"
    "hm_inv m" "hm_size_ok m" "hm_lookup m = (\<lambda>_. None)" "keys_are_equal m = default_key_equality"
    "hm_allocator m = alloc" "entries m = []"
    using hash_map_new_ok [OF assms(1,2), of DEFAULT_TABLE_BUCKETS alloc hash_function_naive None None None] assms(3)
      key_laws_default [of hash_function_naive]
    by (auto simp: DEFAULT_TABLE_BUCKETS_def)
  then show ?thesis by (simp add: data_dispatcher_new_def dd_ok_def hm_good_def handler_def)
qed

lemma data_dispatcher_register_ok:
  assumes ok: "hm_good (dispatch_table d)" and eq: "\<And>x y. keys_are_equal (dispatch_table d) x y \<longleftrightarrow> x = y"
    and "dd_ok d" and "hm_room list_p (dispatch_table d)"
  shows "\<exists>d'. data_dispatcher_register list_p ty queue d = Inr d' \<and> dd_ok d' \<and>
     (\<forall>t. handler d' t = (if t = ty then if queue \<noteq> NULL then queue else default_queue d else handler d t))"
proof (cases "queue = NULL")
  case True
  obtain t1 where t1: "hash_map_erase (dispatch_table d) ty () = Inr (hm_lookup (dispatch_table d) ty \<noteq> None, t1, ())"
    "hm_good t1" "keys_are_equal t1 = keys_are_equal (dispatch_table d)"
    "\<forall>k'. hm_lookup t1 k' = (if keys_are_equal (dispatch_table d) ty k' then None else hm_lookup (dispatch_table d) k')"
    using hm.erase_lookup [OF ok, of ty "()" list_p] by auto
  have run: "data_dispatcher_register list_p ty queue d = Inr (d\<lparr>dispatch_table := t1\<rparr>)"
    using True t1(1) by (simp add: data_dispatcher_register_def)
  show ?thesis
    by (rule exI [of _ "d\<lparr>dispatch_table := t1\<rparr>"])
       (use run True t1(2-4) assms(3) eq in \<open>auto simp: dd_ok_def handler_def split: option.split\<close>)
next
  case False
  obtain t1 t2 where t: "hash_map_erase (dispatch_table d) ty () = Inr (hm_lookup (dispatch_table d) ty \<noteq> None, t1, ())"
    "hash_map_set list_p t1 ty (Some queue) () = Inr (True, t2, ())" "hm_good t2"
    "keys_are_equal t2 = keys_are_equal (dispatch_table d)"
    "\<forall>k'. hm_lookup t2 k' = (if keys_are_equal (dispatch_table d) ty k' then Some queue else hm_lookup (dispatch_table d) k')"
    using hm.erase_put [OF ok assms(4), of ty "()" queue] by auto
  have run: "data_dispatcher_register list_p ty queue d = Inr (d\<lparr>dispatch_table := t2\<rparr>)"
    using False t(1,2) by (simp add: data_dispatcher_register_def)
  show ?thesis
    by (rule exI [of _ "d\<lparr>dispatch_table := t2\<rparr>"])
       (use run False t(3-5) assms(3) eq in \<open>auto simp: dd_ok_def handler_def split: option.split\<close>)
qed

lemma data_dispatcher_dispatch_ok:
  assumes ok: "hm_good (dispatch_table d)" and data: "data \<noteq> NULL"
    and responsible: "handler d type \<noteq> NULL \<Longrightarrow> map_of qs (handler d type) = Some q \<and> fq_inv q"
  shows "if handler d type = NULL then data_dispatcher_dispatch d type data qs = Inr (False, qs)
     else if fq_full q then data_dispatcher_dispatch d type data qs = Inl Blocks
     else \<exists>q' qs'. data_dispatcher_dispatch d type data qs = Inr (True, qs') \<and>
       fq_content q' = fq_content q @ [data] \<and> map_of qs' = (map_of qs)(handler d type \<mapsto> q')"
proof (cases "handler d type = NULL")
  case True
  then show ?thesis using data hm.get_lookup [OF ok] by (simp add: data_dispatcher_dispatch_def handler_def [symmetric] Let_def)
next
  case False
  then have q: "map_of qs (handler d type) = Some q" "fq_inv q" using responsible by simp_all
  have run: "data_dispatcher_dispatch d type data qs =
      rbind (fixed_queue_enqueue q data) (\<lambda>q1. Inr (True, store_at (handler d type) q1 qs))"
    using False data hm.get_lookup [OF ok] q(1) by (simp add: data_dispatcher_dispatch_def handler_def [symmetric] Let_def)
  show ?thesis
  proof (rule bq.enqueue_cases [OF q(2) data])
    assume "fq_full q" "fixed_queue_enqueue q data = Inl Blocks"
    then show ?thesis using False run by simp
  next
    fix q' assume "\<not> fq_full q" "fixed_queue_enqueue q data = Inr q'" "fq_content q' = fq_content q @ [data]"
    then show ?thesis using False run by (simp, intro exI [of _ q'] exI [of _ "store_at (handler d type) q' qs"]) simp
  qed
qed

text \<open>
  C32. Routing: registering a queue for a type makes it (or, for a null queue, the default queue)
  responsible for that type and changes no other type; dispatching appends the datum to the
  responsible queue and to no other, waits when that queue is full, and answers false without
  any effect when nobody is responsible.
\<close>

theorem data_dispatcher_routes:
  assumes "dd_ok d" and "hm_room list_p (dispatch_table d)" and "data \<noteq> NULL"
    and "handler d type \<noteq> NULL \<longrightarrow> map_of qs (handler d type) = Some q \<and> fq_inv q"
  shows "(\<exists>d'. data_dispatcher_register list_p ty queue d = Inr d' \<and> dd_ok d' \<and>
       (\<forall>t. handler d' t = (if t = ty then if queue \<noteq> NULL then queue else default_queue d else handler d t))) \<and>
    (if handler d type = NULL then data_dispatcher_dispatch d type data qs = Inr (False, qs)
     else if fq_full q then data_dispatcher_dispatch d type data qs = Inl Blocks
     else \<exists>q' qs'. data_dispatcher_dispatch d type data qs = Inr (True, qs') \<and>
       fq_content q' = fq_content q @ [data] \<and> map_of qs' = (map_of qs)(handler d type \<mapsto> q'))"
  using data_dispatcher_register_ok [OF dd_okD [OF assms(1)] assms(1,2)]
    data_dispatcher_dispatch_ok [OF dd_okD(1) [OF assms(1)] assms(3)] assms(4)
  by blast

theorem data_dispatcher_routes_witness:
  "\<exists>d d'. data_dispatcher_new 8 16 (arena_alloc [16, 32, 48]) (Some ''hci'') = Inr (Some d) \<and>
     data_dispatcher_register 64 3 100 d = Inr d' \<and> handler d' 3 = 100 \<and> handler d' 4 = NULL \<and>
     data_dispatcher_dispatch d 3 7 [] = Inr (False, [])"
proof -
  obtain d where d: "data_dispatcher_new 8 16 (arena_alloc [16, 32, 48]) (Some ''hci'') = Inr (Some d)" "dd_ok d"
    "\<forall>type. handler d type = NULL" "hm_allocator (dispatch_table d) = arena_alloc [16, 32, 48]" "entries (dispatch_table d) = []"
    using data_dispatcher_new_ok [of 8 16 "arena_alloc [16, 32, 48]" "''hci''"] by auto
  have room: "hm_room 64 (dispatch_table d)"
    using alloc_room_arena [of "[16, 32, 48]" 0] d(4,5) by (simp add: hm_room_def)
  from data_dispatcher_routes [OF d(2) room, of 7 3 "[]" demo_queue 3 100] d(1,3) show ?thesis by auto
qed

end
