(* ===== verification/HashMapUtils.thy ===== *)
theory HashMapUtils
  imports HashMap
begin

text \<open>
  Parameter strings as maps (\<open>src/hash_map_utils.c\<close>): \<open>"key1=value1;key2;key3=value3"\<close>.

  Keys and values are the contents of the strings the map owns; the client state of the map is
  the list of strings that were given to \<open>osi_free\<close>. \<open>strtok_r\<close> and \<open>strchr\<close> are written out.
  The answers of the allocator are arguments as in \<open>HashMap\<close>.
\<close>

section \<open>The code\<close>

type_synonym param_map = "(string, string, string list) hash_map_t"

definition BUCKETS_NUM :: size_t where
  "BUCKETS_NUM = 5"

definition string_equals :: "string \<Rightarrow> string \<Rightarrow> bool" where
  "string_equals key_a key_b \<longleftrightarrow> c_string key_a = c_string key_b"

definition free_string :: "string \<Rightarrow> string list \<Rightarrow> string list" where
  "free_string x freed = freed @ [x]"

text \<open>
  \<open>strtok_r\<close> with the delimiter \<open>;\<close>: leading delimiters are skipped; the token ends in front of the
  next one, which is overwritten.
\<close>

definition strtok_r :: "string \<Rightarrow> (string \<times> string) option" where
  "strtok_r s =
     (let t = dropWhile (\<lambda>c. c = CHR '';'') s in
      if t = [] then None
      else Some (takeWhile (\<lambda>c. c \<noteq> CHR '';'') t, drop 1 (dropWhile (\<lambda>c. c \<noteq> CHR '';'') t)))"

lemma strtok_r_length: "strtok_r s = Some (tok, rest) \<Longrightarrow> length rest < length s"
proof -
  assume a: "strtok_r s = Some (tok, rest)"
  let ?t = "dropWhile (\<lambda>c. c = CHR '';'') s"
  have ne: "?t \<noteq> []" and rest: "rest = drop 1 (dropWhile (\<lambda>c. c \<noteq> CHR '';'') ?t)"
    using a by (auto simp: strtok_r_def Let_def split: if_splits)
  have "length (dropWhile (\<lambda>c. c \<noteq> CHR '';'') ?t) \<le> length ?t" "length ?t \<le> length s"
    by (rule length_dropWhile_le)+
  moreover have "0 < length ?t" using ne by (metis length_greater_0_conv)
  ultimately show ?thesis unfolding rest length_drop by linarith
qed

text \<open>The key and the value of one token; none when it starts with \<open>=\<close>.\<close>

definition split_pair :: "string \<Rightarrow> (string \<times> string) option" where
  "split_pair kvpair =
     (if CHR ''='' \<in> set kvpair
      then
        let key = takeWhile (\<lambda>c. c \<noteq> CHR ''='') kvpair;
            eq = dropWhile (\<lambda>c. c \<noteq> CHR ''='') kvpair
        in if key = [] then None else Some (key, drop 1 eq)
      else Some (kvpair, []))"

text \<open>The parsing loop; the answer of \<open>hash_map_set\<close> is ignored.\<close>

function params_loop :: "ptr \<Rightarrow> string \<Rightarrow> param_map \<Rightarrow> string list \<Rightarrow> (param_map \<times> string list) res" where
  "params_loop list_p str m w =
     (case strtok_r str of
        None \<Rightarrow> Inr (m, w)
      | Some (kvpair, rest) \<Rightarrow>
          if kvpair = [] then Inr (m, w)
          else
            (case split_pair kvpair of
               None \<Rightarrow> params_loop list_p rest m w
             | Some (key, val) \<Rightarrow>
                 rbind (hash_map_set list_p m key (Some val) w) (\<lambda>(_, m1, w1). params_loop list_p rest m1 w1)))"
  by pat_completeness auto
termination
  by (relation "measure (\<lambda>(_, str, _). length str)") (auto dest: strtok_r_length)

declare params_loop.simps [simp del]

definition hash_map_utils_new_from_string_params ::
  "ptr \<Rightarrow> ptr \<Rightarrow> ptr \<Rightarrow> alloc_fn \<Rightarrow> bool \<Rightarrow> string option \<Rightarrow> (param_map \<times> string list) option res" where
  "hash_map_utils_new_from_string_params map_p bucket_p list_p alloc sg params =
     rbind (case params of None \<Rightarrow> Inl AssertFailed | Some p \<Rightarrow> Inr p) (\<lambda>p.
     rbind (hash_map_new_internal map_p bucket_p BUCKETS_NUM (hash_function_string sg) (Some free_string)
              (Some free_string) (Some string_equals) alloc) (\<lambda>mo.
     case mo of None \<Rightarrow> Inr None
     | Some m \<Rightarrow> rbind (params_loop list_p (c_string p) m []) (\<lambda>r. Inr (Some r))))"

text \<open>\<open>hash_map_utils_dump_string_keys_string_values\<close>: the lines it logs.\<close>

definition dump_entry :: "(string, string) hash_map_entry_t \<Rightarrow> (string \<times> string) list \<Rightarrow> (bool \<times> (string \<times> string) list) res" where
  "dump_entry entry out = Inr (True, out @ [(entry_key entry, entry_data entry)])"

definition hash_map_utils_dump_string_keys_string_values :: "param_map option \<Rightarrow> (string \<times> string) list res" where
  "hash_map_utils_dump_string_keys_string_values mo =
     (case mo of None \<Rightarrow> Inr [] | Some m \<Rightarrow> hash_map_foreach m dump_entry [])"

section \<open>The intended meaning of a parameter string\<close>

text \<open>The pieces between the semicolons.\<close>

fun split_on :: "char \<Rightarrow> string \<Rightarrow> string list" where
  "split_on d [] = [[]]"
| "split_on d (c # cs) =
     (if c = d then [] # split_on d cs
      else case split_on d cs of [] \<Rightarrow> [[c]] | x # xs \<Rightarrow> (c # x) # xs)"

text \<open>
  One piece read from left to right: the key is what comes before the first \<open>=\<close>, the value what
  comes behind it; a piece without \<open>=\<close> is all key.
\<close>

fun pair_of :: "string \<Rightarrow> string \<times> string" where
  "pair_of [] = ([], [])"
| "pair_of (c # cs) =
     (if c = CHR ''='' then ([], cs) else case pair_of cs of (key, val) \<Rightarrow> (c # key, val))"

text \<open>The pairs of a parameter string: those of its pieces that have a key.\<close>

definition param_pairs :: "string \<Rightarrow> (string \<times> string) list" where
  "param_pairs s = filter (\<lambda>(key, val). key \<noteq> []) (map pair_of (split_on (CHR '';'') s))"

lemma pair_of_eq: "CHR ''='' \<notin> set key \<Longrightarrow> pair_of (key @ CHR ''='' # val) = (key, val)"
  by (induction key) auto

lemma pair_of_no_eq: "CHR ''='' \<notin> set key \<Longrightarrow> pair_of key = (key, [])"
  by (induction key) auto

text \<open>What the code takes from a token is the pair of that token.\<close>

lemma split_pair_pair_of:
  assumes "tok \<noteq> []"
  shows "split_pair tok = (if fst (pair_of tok) = [] then None else Some (pair_of tok))"
proof (cases "CHR ''='' \<in> set tok")
  case True
  then obtain key val where "tok = key @ CHR ''='' # val" "CHR ''='' \<notin> set key"
    by (meson split_list_first)
  moreover from this have "takeWhile (\<lambda>c. c \<noteq> CHR ''='') tok = key" "dropWhile (\<lambda>c. c \<noteq> CHR ''='') tok = CHR ''='' # val"
    by (induction key arbitrary: tok) auto
  ultimately show ?thesis using True by (simp add: pair_of_eq split_pair_def)
next
  case False
  with assms show ?thesis by (simp add: pair_of_no_eq split_pair_def)
qed

lemma param_pairs_nonempty:
  "param_pairs s = filter (\<lambda>(key, val). key \<noteq> [])
     (map pair_of (filter (\<lambda>t. t \<noteq> []) (split_on (CHR '';'') s)))"
proof -
  have "filter (\<lambda>(key, val). key \<noteq> []) (map pair_of ts) =
      filter (\<lambda>(key, val). key \<noteq> []) (map pair_of (filter (\<lambda>t. t \<noteq> []) ts))" for ts
    by (induction ts) auto
  then show ?thesis by (simp add: param_pairs_def)
qed

lemma split_on_nonempty [simp]: "split_on d s \<noteq> []"
  by (cases s) (auto split: list.splits)

lemma split_on_piece:
  "d \<notin> set t \<Longrightarrow> split_on d (t @ d # s) = t # split_on d s"
  by (induction t) auto

lemma split_on_last: "d \<notin> set t \<Longrightarrow> split_on d t = [t]"
  by (induction t) auto

lemma split_on_leading:
  "filter (\<lambda>t. t \<noteq> []) (split_on d (dropWhile (\<lambda>c. c = d) s)) = filter (\<lambda>t. t \<noteq> []) (split_on d s)"
  by (induction s) auto

lemma split_on_first:
  fixes d :: char
  assumes "t \<noteq> []" and "hd t \<noteq> d"
  shows "filter (\<lambda>x. x \<noteq> []) (split_on d t) =
      takeWhile (\<lambda>c. c \<noteq> d) t # filter (\<lambda>x. x \<noteq> []) (split_on d (drop 1 (dropWhile (\<lambda>c. c \<noteq> d) t)))"
    and "takeWhile (\<lambda>c. c \<noteq> d) t \<noteq> []"
proof -
  let ?tok = "takeWhile (\<lambda>c. c \<noteq> d) t"
  have no: "d \<notin> set ?tok" by (auto dest: set_takeWhileD)
  show ne: "?tok \<noteq> []" using assms by (cases t) auto
  show "filter (\<lambda>x. x \<noteq> []) (split_on d t) =
      ?tok # filter (\<lambda>x. x \<noteq> []) (split_on d (drop 1 (dropWhile (\<lambda>c. c \<noteq> d) t)))"
  proof (cases "dropWhile (\<lambda>c. c \<noteq> d) t")
    case Nil
    then have tokt: "?tok = t" by (metis append_Nil2 takeWhile_dropWhile_id)
    have "split_on d t = [?tok]" using split_on_last [OF no] unfolding tokt .
    then show ?thesis using ne Nil by (simp del: dropWhile_eq_Nil_conv)
  next
    case (Cons c cs)
    have "\<not> hd (dropWhile (\<lambda>c. c \<noteq> d) t) \<noteq> d" by (rule hd_dropWhile) (simp only: Cons list.distinct not_False_eq_True)
    then have "c = d" by (simp only: Cons list.sel not_not)
    then have tcs: "?tok @ d # cs = t" using Cons by (metis takeWhile_dropWhile_id)
    have "split_on d t = ?tok # split_on d cs" using split_on_piece [OF no, of cs] unfolding tcs .
    then show ?thesis using ne Cons by simp
  qed
qed

lemma strtok_tokens:
  "filter (\<lambda>t. t \<noteq> []) (split_on (CHR '';'') s) =
     (case strtok_r s of None \<Rightarrow> [] | Some (tok, rest) \<Rightarrow> tok # filter (\<lambda>t. t \<noteq> []) (split_on (CHR '';'') rest)) \<and>
   (case strtok_r s of None \<Rightarrow> True | Some (tok, rest) \<Rightarrow> tok \<noteq> [])"
proof -
  define t where "t = dropWhile (\<lambda>c. c = CHR '';'') s"
  have lead: "filter (\<lambda>t. t \<noteq> []) (split_on (CHR '';'') s) = filter (\<lambda>t. t \<noteq> []) (split_on (CHR '';'') t)"
    unfolding t_def by (rule split_on_leading [symmetric])
  have tok: "strtok_r s = (if t = [] then None
      else Some (takeWhile (\<lambda>c. c \<noteq> CHR '';'') t, drop 1 (dropWhile (\<lambda>c. c \<noteq> CHR '';'') t)))"
    by (simp add: strtok_r_def Let_def t_def [symmetric])
  show ?thesis
  proof (cases "t = []")
    case False
    then have "hd t \<noteq> CHR '';''" using hd_dropWhile [of "\<lambda>c. c = CHR '';''" s] by (auto simp: t_def [symmetric])
    from split_on_first [OF False this] show ?thesis using False by (simp add: tok lead)
  qed (simp add: tok lead)
qed

lemma param_pairs_step:
  "strtok_r s = None \<Longrightarrow> param_pairs s = []"
  "strtok_r s = Some (tok, rest) \<Longrightarrow> tok \<noteq> [] \<and>
     param_pairs s = (case split_pair tok of None \<Rightarrow> [] | Some kv \<Rightarrow> [kv]) @ param_pairs rest"
  using strtok_tokens [of s]
  by (auto simp: param_pairs_nonempty split_pair_pair_of split: option.splits prod.splits)

section \<open>Properties\<close>

lemma find_append:
  "List.find P (xs @ ys) = (case List.find P xs of None \<Rightarrow> List.find P ys | Some x \<Rightarrow> Some x)"
  by (induction xs) auto

lemma params_loop_ok:
  assumes "hm_good m" and "list_p \<noteq> NULL" and "alloc_room (hm_allocator m) n"
    and "length (entries m) + length (param_pairs str) \<le> Suc n" and "keys_are_equal m = string_equals"
  shows "\<exists>m' w'. params_loop list_p str m w = Inr (m', w') \<and> hm_good m' \<and>
    (\<forall>k. hm_lookup m' k = (case List.find (\<lambda>(k', _). string_equals k' k) (rev (param_pairs str)) of
       None \<Rightarrow> hm_lookup m k | Some (_, v) \<Rightarrow> Some v))"
  using assms(1,3-5)
proof (induction str arbitrary: m w rule: measure_induct_rule [of length])
  case (less str)
  show ?case
  proof (cases "strtok_r str")
    case None
    then show ?thesis using less.prems(1) param_pairs_step(1) [OF None] by (simp add: params_loop.simps)
  next
    case (Some x)
    obtain tok rest where tr: "strtok_r str = Some (tok, rest)" using Some by (cases x) simp
    have tok: "tok \<noteq> []" and pairs: "param_pairs str = (case split_pair tok of None \<Rightarrow> [] | Some kv \<Rightarrow> [kv]) @ param_pairs rest"
      using param_pairs_step(2) [OF tr] by auto
    have len: "length rest < length str" by (rule strtok_r_length [OF tr])
    show ?thesis
    proof (cases "split_pair tok")
      case None
      then have "params_loop list_p str m w = params_loop list_p rest m w" "param_pairs str = param_pairs rest"
        using tr tok pairs by (simp_all add: params_loop.simps [of list_p str])
      then show ?thesis using less.IH [OF len less.prems(1,2), of w] less.prems(3,4) by simp
    next
      case (Some kv)
      obtain key val where kv: "kv = (key, val)" by (cases kv)
      have pr: "param_pairs str = (key, val) # param_pairs rest" using pairs Some kv by simp
      have room: "alloc_room (hm_allocator m) (length (entries m))"
        using less.prems(2,3) pr by (auto simp: alloc_room_def)
      obtain m1 w1 where m1: "hash_map_set list_p m key (Some val) w = Inr (True, m1, w1)" "hm_inv m1" "hm_size_ok m1"
        "hm_same_cfg m m1" "length (entries m1) = length (entries m) + (if hm_lookup m key = None then 1 else 0)"
        "\<forall>k'. hm_lookup m1 k' = (if keys_are_equal m key k' then Some val else hm_lookup m k')"
        using hash_map_set_ok [of m list_p key val w] less.prems(1) assms(2) room by (auto simp: hm_good_def)
      have cfg: "hm_allocator m1 = hm_allocator m" "keys_are_equal m1 = keys_are_equal m"
        using m1(4) by (simp_all add: hm_same_cfg_def)
      have "hm_good m1" using m1(2,3) by (simp add: hm_good_def)
      with less.IH [OF len, of m1 w1] obtain m' w' where m': "params_loop list_p rest m1 w1 = Inr (m', w')" "hm_good m'"
        "\<forall>k. hm_lookup m' k = (case List.find (\<lambda>(k', _). string_equals k' k) (rev (param_pairs rest)) of
           None \<Rightarrow> hm_lookup m1 k | Some (_, v) \<Rightarrow> Some v)"
        using less.prems(2-4) m1(5) pr cfg by (auto split: if_splits)
      have "params_loop list_p str m w = Inr (m', w')"
        using tr tok Some kv m1(1) m'(1) by (simp add: params_loop.simps [of list_p str])
      then show ?thesis
        using m'(2,3) m1(6) less.prems(4) by (auto simp: pr find_append split: option.splits)
    qed
  qed
qed

text \<open>
  C33. Reading a parameter string: with memory available, every key (string equality) leads to the
  value of the last pair \<open>key=value\<close> in the string that has it, a key without \<open>=\<close> leads to the empty
  string, pieces that are empty or start with \<open>=\<close> count for nothing, and all other keys are absent.
  The pairs are those of \<open>param_pairs\<close>, which reads the string character by character and shares no
  definition with the code.
\<close>

theorem string_params_correct:
  assumes "map_p \<noteq> NULL" and "bucket_p \<noteq> NULL" and "list_p \<noteq> NULL" and "fresh_alloc alloc"
    and "alloc_room alloc (length (param_pairs (c_string params)))"
  shows "\<exists>m w. hash_map_utils_new_from_string_params map_p bucket_p list_p alloc sg (Some params) = Inr (Some (m, w)) \<and>
    hm_good m \<and>
    (\<forall>k. hash_map_get m k = Inr (map_option snd
       (List.find (\<lambda>(k', _). string_equals k' k) (rev (param_pairs (c_string params))))))"
proof -
  have laws: "key_laws (hash_function_string sg) string_equals"
    by (auto simp: key_laws_def string_equals_def hash_function_string_def intro!: equivpI reflpI sympI transpI)
  have five: "0 < BUCKETS_NUM" "BUCKETS_NUM < 2 ^ 61" by (simp_all add: BUCKETS_NUM_def)
  obtain m0 :: param_map where
    m0: "hash_map_new_internal map_p bucket_p BUCKETS_NUM (hash_function_string sg) (Some free_string)
        (Some free_string) (Some string_equals) alloc = Inr (Some m0)" "hm_good m0" "entries m0 = []"
      "hm_lookup m0 = (\<lambda>_. None)" "hm_allocator m0 = alloc" "keys_are_equal m0 = string_equals"
    using hash_map_new_ok [OF assms(1,2) five assms(4), of "hash_function_string sg" "Some string_equals" "Some free_string" "Some free_string"] laws
    by (auto simp: hm_good_def)
  obtain m w where m: "params_loop list_p (c_string params) m0 [] = Inr (m, w)" "hm_good m"
    "\<forall>k. hm_lookup m k = (case List.find (\<lambda>(k', _). string_equals k' k) (rev (param_pairs (c_string params))) of
       None \<Rightarrow> hm_lookup m0 k | Some (_, v) \<Rightarrow> Some v)"
    using params_loop_ok [OF m0(2) assms(3), of "length (param_pairs (c_string params))" "c_string params" "[]"] m0 assms(5) by auto
  have "hash_map_get m k = Inr (map_option snd
       (List.find (\<lambda>(k', _). string_equals k' k) (rev (param_pairs (c_string params)))))" for k
    using hm.get_lookup [OF m(2)] m(3) m0(4) by (auto split: option.splits)
  then show ?thesis using m0(1) m(1,2) by (simp add: hash_map_utils_new_from_string_params_def)
qed

theorem string_params_correct_witness:
  "param_pairs ''a=1;;b;=c;a=2'' = [(''a'', ''1''), (''b'', []), (''a'', ''2'')] \<and>
   (\<exists>m w. hash_map_utils_new_from_string_params 8 16 24 (arena_alloc [16, 32, 48, 64, 80]) True (Some ''a=1;;b;=c;a=2'') = Inr (Some (m, w)) \<and>
      hash_map_get m ''a'' = Inr (Some ''2'') \<and> hash_map_get m ''b'' = Inr (Some []) \<and> hash_map_get m ''c'' = Inr None)"
proof -
  have c: "c_string ''a=1;;b;=c;a=2'' = ''a=1;;b;=c;a=2''" by (simp add: c_string_def)
  have pairs: "param_pairs ''a=1;;b;=c;a=2'' = [(''a'', ''1''), (''b'', []), (''a'', ''2'')]"
    by (simp add: param_pairs_def)
  have room: "alloc_room (arena_alloc [16, 32, 48, 64, 80]) (length (param_pairs (c_string ''a=1;;b;=c;a=2'')))"
    unfolding c pairs by (rule alloc_room_arena) simp_all
  have nn: "(8 :: ptr) \<noteq> NULL" "(16 :: ptr) \<noteq> NULL" "(24 :: ptr) \<noteq> NULL" by simp_all
  show ?thesis
    using string_params_correct [OF nn fresh_arena_alloc room, of True] pairs
    unfolding c pairs by (auto simp: string_equals_def c_string_def)
qed

end
