(* ===== verification/Socket.thy ===== *)
theory Socket
  imports FixedQueue
begin

text \<open>
  Sockets: \<open>src/socket.c\<close>, and the local (Unix domain) sockets of \<open>src/socket_utils\<close>.

  The kernel is the multiset of open descriptors, the paths that were unlinked and the calls
  made; the answers of the system calls are parameters. The address of a local
  socket is the array \<open>sun_path\<close> of 108 bytes, written with a check of its bounds. The build is
  the one for Linux (\<open>__linux__\<close>).
\<close>

section \<open>Descriptors\<close>

text \<open>
  The calls that leave this file: to the reactor, with the descriptor and which of the two
  callbacks is not NULL, and to \<open>send\<close> or \<open>sendmsg\<close>, with the descriptor that rides along.
\<close>

datatype net_call = RegisterCall int bool bool | UnregisterCall ptr | SendCall int string "int option"

record net_state =
  net_fds :: "int list"
  unlinked :: "string list"
  net_log :: "net_call list"

record net_env =
  socket_ret :: int
  setsockopt_ok :: bool
  bind_ok :: bool
  listen_ok :: bool
  connect_ok :: bool
  accept_ret :: int
  send_ret :: int
  recv_ret :: "int \<times> string"
  ioctl_ret :: "int option"

text \<open>\<open>socket\<close> and \<open>accept\<close> open a descriptor unless they answer a negative number.\<close>

definition open_fd :: "int \<Rightarrow> net_state \<Rightarrow> net_state" where
  "open_fd f s = (if f < 0 then s else s\<lparr>net_fds := f # net_fds s\<rparr>)"

definition close_fd :: "int \<Rightarrow> net_state \<Rightarrow> net_state" where
  "close_fd f s = (if f < 0 then s else s\<lparr>net_fds := remove1 f (net_fds s)\<rparr>)"

definition log_call :: "net_call \<Rightarrow> net_state \<Rightarrow> net_state" where
  "log_call c s = s\<lparr>net_log := net_log s @ [c]\<rparr>"

section \<open>Network sockets\<close>

record socket_t =
  sk_fd :: int
  sk_reactor_object :: ptr
  sk_read_ready :: ptr
  sk_write_ready :: ptr
  sk_context :: ptr

text \<open>The zeroed block of \<open>osi_calloc\<close> with its descriptor set.\<close>

definition new_socket_t :: "int \<Rightarrow> socket_t" where
  "new_socket_t f = \<lparr>sk_fd = f, sk_reactor_object = NULL, sk_read_ready = NULL, sk_write_ready = NULL, sk_context = NULL\<rparr>"

definition socket_new :: "net_env \<Rightarrow> net_state \<Rightarrow> socket_t option \<times> net_state" where
  "socket_new env s =
     (let f = socket_ret env; s1 = open_fd f s in
      if f = -1 then (None, close_fd f s1)
      else if \<not> setsockopt_ok env then (None, close_fd f s1)
      else (Some (new_socket_t f), s1))"

definition socket_new_from_fd :: "int \<Rightarrow> socket_t res" where
  "socket_new_from_fd f = rbind (c_assert (f \<noteq> -1)) (\<lambda>_. Inr (new_socket_t f))"

text \<open>An operation whose pointer to the socket is asserted not to be NULL.\<close>

definition with_socket :: "socket_t option \<Rightarrow> (socket_t \<Rightarrow> 'a res) \<Rightarrow> 'a res" where
  "with_socket sko op = (case sko of None \<Rightarrow> Inl AssertFailed | Some sk \<Rightarrow> op sk)"

definition socket_unregister :: "socket_t option \<Rightarrow> net_state \<Rightarrow> (socket_t \<times> net_state) res" where
  "socket_unregister sko s = with_socket sko (\<lambda>sk.
     Inr (sk\<lparr>sk_reactor_object := NULL\<rparr>,
      if sk_reactor_object sk \<noteq> NULL then log_call (UnregisterCall (sk_reactor_object sk)) s else s))"

text \<open>\<open>obj\<close> is what \<open>reactor_register\<close> answers.\<close>

definition socket_register :: "ptr \<Rightarrow> ptr \<Rightarrow> ptr \<Rightarrow> ptr \<Rightarrow> socket_t option \<Rightarrow> net_state \<Rightarrow> (socket_t \<times> net_state) res" where
  "socket_register obj ctx read_cb write_cb sko s = with_socket sko (\<lambda>sk.
     rbind (socket_unregister (Some sk) s) (\<lambda>(sk1, s1).
     Inr (sk1\<lparr>sk_read_ready := read_cb, sk_write_ready := write_cb, sk_context := ctx, sk_reactor_object := obj\<rparr>,
          log_call (RegisterCall (sk_fd sk1) (read_cb \<noteq> NULL) (write_cb \<noteq> NULL)) s1)))"

definition socket_free :: "socket_t option \<Rightarrow> net_state \<Rightarrow> net_state res" where
  "socket_free sko s =
     (case sko of None \<Rightarrow> Inr s
      | Some sk \<Rightarrow> rbind (socket_unregister (Some sk) s) (\<lambda>(sk1, s1). Inr (close_fd (sk_fd sk1) s1)))"

definition socket_listen :: "net_env \<Rightarrow> socket_t option \<Rightarrow> bool res" where
  "socket_listen env sko = with_socket sko (\<lambda>sk.
     Inr (if \<not> bind_ok env then False else if \<not> listen_ok env then False else True))"

definition socket_accept :: "net_env \<Rightarrow> socket_t option \<Rightarrow> net_state \<Rightarrow> (socket_t option \<times> net_state) res" where
  "socket_accept env sko s = with_socket sko (\<lambda>sk.
     let f = accept_ret env; s1 = open_fd f s in
     if f = -1 then Inr (None, s1) else Inr (Some (new_socket_t f), s1))"

text \<open>A buffer is \<open>None\<close> when its pointer is NULL; its contents are the \<open>count\<close> bytes of the call.\<close>

definition socket_read :: "net_env \<Rightarrow> socket_t option \<Rightarrow> string option \<Rightarrow> (int \<times> string) res" where
  "socket_read env sko buf = with_socket sko (\<lambda>sk.
     rbind (c_assert (buf \<noteq> None)) (\<lambda>_. Inr (recv_ret env)))"

definition socket_write :: "net_env \<Rightarrow> socket_t option \<Rightarrow> string option \<Rightarrow> net_state \<Rightarrow> (int \<times> net_state) res" where
  "socket_write env sko buf s = with_socket sko (\<lambda>sk.
     case buf of None \<Rightarrow> Inl AssertFailed
     | Some bytes \<Rightarrow> Inr (send_ret env, log_call (SendCall (sk_fd sk) bytes None) s))"

definition socket_write_and_transfer_fd ::
  "net_env \<Rightarrow> socket_t option \<Rightarrow> string option \<Rightarrow> int \<Rightarrow> net_state \<Rightarrow> (int \<times> net_state) res" where
  "socket_write_and_transfer_fd env sko buf f s = with_socket sko (\<lambda>sk.
     case buf of None \<Rightarrow> Inl AssertFailed
     | Some bytes \<Rightarrow>
         if f = -1 then socket_write env (Some sk) buf s
         else Inr (send_ret env, close_fd f (log_call (SendCall (sk_fd sk) bytes (Some f)) s)))"

definition socket_bytes_available :: "net_env \<Rightarrow> socket_t option \<Rightarrow> int res" where
  "socket_bytes_available env sko = with_socket sko (\<lambda>sk.
     Inr (case ioctl_ret env of None \<Rightarrow> -1 | Some n \<Rightarrow> n))"

text \<open>\<open>internal_read_ready\<close> and \<open>internal_write_ready\<close>: the function and context that are called.\<close>

definition internal_read_ready :: "socket_t option \<Rightarrow> (ptr \<times> ptr) res" where
  "internal_read_ready sko = with_socket sko (\<lambda>sk.
     if sk_read_ready sk = NULL then Inl BadPointer else Inr (sk_read_ready sk, sk_context sk))"

definition internal_write_ready :: "socket_t option \<Rightarrow> (ptr \<times> ptr) res" where
  "internal_write_ready sko = with_socket sko (\<lambda>sk.
     if sk_write_ready sk = NULL then Inl BadPointer else Inr (sk_write_ready sk, sk_context sk))"

lemmas socket_ops = socket_unregister_def socket_register_def socket_free_def socket_listen_def socket_accept_def
  socket_write_def socket_write_and_transfer_fd_def with_socket_def open_fd_def close_fd_def log_call_def new_socket_t_def

section \<open>Local sockets\<close>

datatype socket_namespace = ABSTRACT | RESERVED | FILESYSTEM | OtherNamespace

definition ANDROID_RESERVED_SOCKET_PREFIX :: string where
  "ANDROID_RESERVED_SOCKET_PREFIX = ''/dev/socket/''"

definition SUN_PATH_SIZE :: nat where
  "SUN_PATH_SIZE = 108"

definition SUN_PATH_OFFSET :: nat where
  "SUN_PATH_OFFSET = 2"

text \<open>Copying bytes into \<open>sun_path\<close>.\<close>

definition path_write :: "nat \<Rightarrow> string \<Rightarrow> string \<Rightarrow> string res" where
  "path_write i xs path =
     (if i + length xs \<le> length path then Inr (take i path @ xs @ drop (i + length xs) path) else Inl OutOfBounds)"

text \<open>\<open>strcpy\<close> and \<open>strcat\<close> copy the terminating NUL too.\<close>

definition path_strcpy :: "string \<Rightarrow> string \<Rightarrow> string res" where
  "path_strcpy src path = path_write 0 (src @ [NUL]) path"

definition path_strcat :: "string \<Rightarrow> string \<Rightarrow> string res" where
  "path_strcat src path = path_write (length (c_string path)) (src @ [NUL]) path"

text \<open>The answer is \<open>None\<close> for -1, otherwise the path and the length of the address.\<close>

definition osi_socket_make_sockaddr_un :: "string \<Rightarrow> socket_namespace \<Rightarrow> (string \<times> nat) option res" where
  "osi_socket_make_sockaddr_un nm namespaceId =
     (let name = c_string nm; path0 = replicate SUN_PATH_SIZE NUL; path_max = SUN_PATH_SIZE - 1 in
      case namespaceId of
        ABSTRACT \<Rightarrow>
          let namelen = length name in
          if namelen + 1 > SUN_PATH_SIZE then Inr None
          else rbind (path_write 0 [NUL] path0) (\<lambda>p1.
               rbind (path_write 1 name p1) (\<lambda>p2.
                 Inr (Some (p2, namelen + SUN_PATH_OFFSET + 1))))
      | RESERVED \<Rightarrow>
          let namelen = length name + length ANDROID_RESERVED_SOCKET_PREFIX in
          if namelen > path_max then Inr None
          else rbind (path_strcpy ANDROID_RESERVED_SOCKET_PREFIX path0) (\<lambda>p1.
               rbind (path_strcat name p1) (\<lambda>p2.
                 Inr (Some (p2, namelen + SUN_PATH_OFFSET + 1))))
      | FILESYSTEM \<Rightarrow>
          let namelen = length name in
          if namelen > path_max then Inr None
          else rbind (path_strcpy name path0) (\<lambda>p1.
                 Inr (Some (p1, namelen + SUN_PATH_OFFSET + 1)))
      | OtherNamespace \<Rightarrow> Inr None)"

definition osi_socket_local_client_connect :: "net_env \<Rightarrow> int \<Rightarrow> string \<Rightarrow> socket_namespace \<Rightarrow> int res" where
  "osi_socket_local_client_connect env f nm namespaceId =
     rbind (osi_socket_make_sockaddr_un nm namespaceId) (\<lambda>addr.
     case addr of None \<Rightarrow> Inr (-1)
     | Some _ \<Rightarrow> if \<not> connect_ok env then Inr (-1) else Inr f)"

definition osi_socket_local_client :: "net_env \<Rightarrow> string \<Rightarrow> socket_namespace \<Rightarrow> net_state \<Rightarrow> (int \<times> net_state) res" where
  "osi_socket_local_client env nm namespaceId s =
     (let f = socket_ret env; s1 = open_fd f s in
      if f < 0 then Inr (-1, s1)
      else rbind (osi_socket_local_client_connect env f nm namespaceId) (\<lambda>r.
        if 0 > r then Inr (-1, close_fd f s1) else Inr (f, s1)))"

definition osi_socket_local_server_bind ::
  "net_env \<Rightarrow> int \<Rightarrow> string \<Rightarrow> socket_namespace \<Rightarrow> net_state \<Rightarrow> (int \<times> net_state) res" where
  "osi_socket_local_server_bind env f nm namespaceId s =
     rbind (osi_socket_make_sockaddr_un nm namespaceId) (\<lambda>addr.
     case addr of None \<Rightarrow> Inr (-1, s)
     | Some (path, alen) \<Rightarrow>
         let s1 = (if namespaceId = RESERVED \<or> namespaceId = FILESYSTEM
                   then s\<lparr>unlinked := unlinked s @ [c_string path]\<rparr> else s)
         in if \<not> bind_ok env then Inr (-1, s1) else Inr (f, s1))"

text \<open>\<open>is_stream\<close> is \<open>(type & SOCK_TYPE_MASK) == SOCK_STREAM\<close>.\<close>

definition osi_socket_local_server ::
  "net_env \<Rightarrow> string \<Rightarrow> socket_namespace \<Rightarrow> bool \<Rightarrow> net_state \<Rightarrow> (int \<times> net_state) res" where
  "osi_socket_local_server env nm namespaceId is_stream s =
     (let f = socket_ret env; s1 = open_fd f s in
      if f < 0 then Inr (-1, s1)
      else rbind (osi_socket_local_server_bind env f nm namespaceId s1) (\<lambda>(err, s2).
        if err < 0 then Inr (-1, close_fd f s2)
        else if is_stream \<and> \<not> listen_ok env then Inr (-1, close_fd f s2)
        else Inr (f, s2)))"

section \<open>The address\<close>

definition namespace_prefix :: "socket_namespace \<Rightarrow> string" where
  "namespace_prefix n = (if n = RESERVED then ANDROID_RESERVED_SOCKET_PREFIX else [])"

lemma path_strcpy_ok:
  assumes "length xs < n"
  shows "path_strcpy xs (replicate n NUL) = Inr (xs @ replicate (n - length xs) NUL)"
proof -
  have "[NUL] @ replicate (n - (length xs + 1)) NUL = replicate (n - length xs) NUL"
    using assms by (simp flip: replicate_Suc)
  then show ?thesis using assms by (simp add: path_strcpy_def path_write_def)
qed

lemma c_string_padded: "NUL \<notin> set xs \<Longrightarrow> 0 < k \<Longrightarrow> c_string (xs @ replicate k NUL) = xs"
  by (cases k) (simp_all add: c_string_terminated)

lemma path_strcat_ok:
  assumes "NUL \<notin> set xs" and "length ys < k"
  shows "path_strcat ys (xs @ replicate k NUL) = Inr (xs @ ys @ replicate (k - length ys) NUL)"
proof -
  have len: "length (c_string (xs @ replicate k NUL)) = length xs" using assms by (simp add: c_string_padded)
  have "[NUL] @ replicate (k - (length ys + 1)) NUL = replicate (k - length ys) NUL"
    using assms(2) by (simp flip: replicate_Suc)
  then show ?thesis unfolding path_strcat_def len using assms(2) by (simp add: path_write_def)
qed

lemma prefix_facts: "NUL \<notin> set ANDROID_RESERVED_SOCKET_PREFIX" "length ANDROID_RESERVED_SOCKET_PREFIX = 12"
  by (simp_all add: ANDROID_RESERVED_SOCKET_PREFIX_def)

lemma make_sockaddr_path:
  assumes n: "n = RESERVED \<or> n = FILESYSTEM" and len: "length (namespace_prefix n) + length (c_string nm) \<le> 107"
  shows "osi_socket_make_sockaddr_un nm n = Inr (Some (namespace_prefix n @ c_string nm @
     replicate (108 - length (namespace_prefix n) - length (c_string nm)) NUL, length (namespace_prefix n) + length (c_string nm) + 3))"
  using n
proof
  assume r: "n = RESERVED"
  have l: "length (c_string nm) \<le> 95" using len r by (simp add: namespace_prefix_def prefix_facts)
  have cpy: "path_strcpy ANDROID_RESERVED_SOCKET_PREFIX (replicate 108 NUL) = Inr (ANDROID_RESERVED_SOCKET_PREFIX @ replicate 96 NUL)"
    using path_strcpy_ok [of ANDROID_RESERVED_SOCKET_PREFIX 108] by (simp add: prefix_facts)
  have "path_strcat (c_string nm) (ANDROID_RESERVED_SOCKET_PREFIX @ replicate 96 NUL) =
      Inr (ANDROID_RESERVED_SOCKET_PREFIX @ c_string nm @ replicate (96 - length (c_string nm)) NUL)"
    using l by (intro path_strcat_ok) (simp_all add: prefix_facts)
  with cpy show ?thesis using r l
    by (simp add: Let_def osi_socket_make_sockaddr_un_def namespace_prefix_def prefix_facts SUN_PATH_SIZE_def SUN_PATH_OFFSET_def)
next
  assume f: "n = FILESYSTEM"
  have l: "length (c_string nm) < 108" using len f by (simp add: namespace_prefix_def)
  from path_strcpy_ok [OF this] show ?thesis using f l
    by (simp add: Let_def osi_socket_make_sockaddr_un_def namespace_prefix_def SUN_PATH_SIZE_def SUN_PATH_OFFSET_def)
qed

lemma make_sockaddr_abstract:
  assumes len: "length (c_string nm) \<le> 107"
  shows "osi_socket_make_sockaddr_un nm ABSTRACT = Inr (Some (NUL # c_string nm @ replicate (107 - length (c_string nm)) NUL,
     length (c_string nm) + 3))"
proof -
  have rep: "replicate 108 NUL = NUL # replicate 107 NUL" by (simp add: numeral_eq_Suc)
  show ?thesis using len
    by (simp add: Let_def osi_socket_make_sockaddr_un_def path_write_def SUN_PATH_SIZE_def SUN_PATH_OFFSET_def rep)
qed

lemma make_sockaddr_un_ok:
  "osi_socket_make_sockaddr_un nm n = Inr
    (if n = OtherNamespace \<or> length (namespace_prefix n) + length (c_string nm) > 107 then None
     else if n = ABSTRACT then Some (NUL # c_string nm @ replicate (107 - length (c_string nm)) NUL, length (c_string nm) + 3)
     else Some (namespace_prefix n @ c_string nm @ replicate (108 - length (namespace_prefix n) - length (c_string nm)) NUL,
        length (namespace_prefix n) + length (c_string nm) + 3))"
proof (cases "n = OtherNamespace \<or> length (namespace_prefix n) + length (c_string nm) > 107")
  case True
  then show ?thesis
    by (cases n) (auto simp: Let_def osi_socket_make_sockaddr_un_def namespace_prefix_def prefix_facts SUN_PATH_SIZE_def)
next
  case False
  then consider "n = ABSTRACT" "length (c_string nm) \<le> 107"
    | "n \<noteq> ABSTRACT" "n = RESERVED \<or> n = FILESYSTEM" "length (namespace_prefix n) + length (c_string nm) \<le> 107"
    by (cases n) (auto simp: namespace_prefix_def)
  then show ?thesis
  proof cases
    case 1
    then show ?thesis using make_sockaddr_abstract [OF 1(2)] False by simp
  next
    case 2
    then show ?thesis using make_sockaddr_path [OF 2(2,3)] False by simp
  qed
qed

section \<open>Properties\<close>

text \<open>
  C34. The address of a local socket: for every name and namespace the function returns without
  writing outside \<open>sun_path\<close>; it refuses exactly the names that do not fit and the unknown
  namespaces; otherwise the address holds the prefix of the namespace and the name, terminated
  for paths, and its length covers exactly these bytes.
\<close>

theorem make_sockaddr_un_correct:
  "osi_socket_make_sockaddr_un nm n = Inr
    (if n = OtherNamespace \<or> length (namespace_prefix n) + length (c_string nm) > 107 then None
     else if n = ABSTRACT then Some (NUL # c_string nm @ replicate (107 - length (c_string nm)) NUL, length (c_string nm) + 3)
     else Some (namespace_prefix n @ c_string nm @ replicate (108 - length (namespace_prefix n) - length (c_string nm)) NUL,
        length (namespace_prefix n) + length (c_string nm) + 3))"
  by (rule make_sockaddr_un_ok)

lemma local_client_cases:
  "\<exists>r s'. osi_socket_local_client env nm n s = Inr (r, s') \<and> unlinked s' = unlinked s \<and>
      (if r < 0 then r = -1 \<and> net_fds s' = net_fds s else r = socket_ret env \<and> net_fds s' = r # net_fds s)"
  by (simp add: osi_socket_local_client_def osi_socket_local_client_connect_def make_sockaddr_un_ok
      open_fd_def close_fd_def Let_def del: rbind_eq_Inr)

text \<open>The path that is unlinked is the path of the address.\<close>

lemma unlinked_path:
  assumes "osi_socket_make_sockaddr_un nm n = Inr (Some (path, alen))" and "n = RESERVED \<or> n = FILESYSTEM"
  shows "c_string path = namespace_prefix n @ c_string nm"
proof -
  have "NUL \<notin> set (namespace_prefix n @ c_string nm)"
    by (simp add: namespace_prefix_def prefix_facts c_string_no_NUL)
  then show ?thesis
    using assms c_string_padded [of "namespace_prefix n @ c_string nm"]
    by (auto simp: make_sockaddr_un_ok split: if_splits)
qed

lemma server_bind_cases:
  "\<exists>r s'. osi_socket_local_server_bind env f nm n s = Inr (r, s') \<and> (r = -1 \<or> r = f) \<and> net_fds s' = net_fds s \<and>
      (unlinked s' = unlinked s \<or>
       (n = RESERVED \<or> n = FILESYSTEM) \<and> unlinked s' = unlinked s @ [namespace_prefix n @ c_string nm])"
proof -
  obtain addr where addr: "osi_socket_make_sockaddr_un nm n = Inr addr" by (simp add: make_sockaddr_un_ok)
  show ?thesis
  proof (cases addr)
    case None
    then show ?thesis using addr by (simp add: osi_socket_local_server_bind_def)
  next
    case (Some a)
    obtain path alen where a: "a = (path, alen)" by (cases a)
    show ?thesis using unlinked_path [of nm n path alen] addr Some a
      by (auto simp: osi_socket_local_server_bind_def Let_def)
  qed
qed

lemma local_server_cases:
  "\<exists>r s'. osi_socket_local_server env nm n is_stream s = Inr (r, s') \<and>
      (unlinked s' = unlinked s \<or>
       (n = RESERVED \<or> n = FILESYSTEM) \<and> unlinked s' = unlinked s @ [namespace_prefix n @ c_string nm]) \<and>
      (if r < 0 then r = -1 \<and> net_fds s' = net_fds s else r = socket_ret env \<and> net_fds s' = r # net_fds s)"
proof -
  obtain r s' where b: "osi_socket_local_server_bind env (socket_ret env) nm n (open_fd (socket_ret env) s) = Inr (r, s')"
    "r = -1 \<or> r = socket_ret env" "net_fds s' = net_fds (open_fd (socket_ret env) s)"
    "unlinked s' = unlinked (open_fd (socket_ret env) s) \<or>
       (n = RESERVED \<or> n = FILESYSTEM) \<and> unlinked s' = unlinked (open_fd (socket_ret env) s) @ [namespace_prefix n @ c_string nm]"
    using server_bind_cases [of env "socket_ret env" nm n "open_fd (socket_ret env) s"] by blast
  let ?f = "socket_ret env"
  have eq: "osi_socket_local_server env nm n is_stream s = Inr (if ?f < 0 then (-1, open_fd ?f s)
      else if r < 0 \<or> is_stream \<and> \<not> listen_ok env then (-1, close_fd ?f s') else (?f, s'))"
    using b(1) by (simp add: osi_socket_local_server_def Let_def del: rbind_eq_Inr)
  consider "?f < 0" | "\<not> ?f < 0" "r < 0 \<or> is_stream \<and> \<not> listen_ok env" | "\<not> ?f < 0" "\<not> r < 0" "\<not> (is_stream \<and> \<not> listen_ok env)"
    by blast
  then show ?thesis
    by cases (use b eq in \<open>simp_all add: open_fd_def close_fd_def\<close>)
qed

text \<open>
  C35. Descriptors are neither leaked nor closed twice: the two local constructors either answer a
  new open descriptor or -1 with the set of open descriptors as before; a file is unlinked only
  for a path name, and it is the path of the socket; a network socket that is created (or
  not) and freed leaves the descriptors as they were; so does one that is accepted and freed;
  a transferred descriptor is sent once and closed, whatever \<open>sendmsg\<close> answers.
\<close>

theorem socket_descriptor_accounting:
  assumes "- 1 \<le> socket_ret env" and "- 1 \<le> accept_ret env" and "0 \<le> f"
  shows "(\<exists>r s'. osi_socket_local_client env nm n s = Inr (r, s') \<and> unlinked s' = unlinked s \<and>
      (if r < 0 then r = -1 \<and> net_fds s' = net_fds s else r = socket_ret env \<and> net_fds s' = r # net_fds s)) \<and>
    (\<exists>r s'. osi_socket_local_server env nm n is_stream s = Inr (r, s') \<and>
      (unlinked s' = unlinked s \<or>
       (n = RESERVED \<or> n = FILESYSTEM) \<and> unlinked s' = unlinked s @ [namespace_prefix n @ c_string nm]) \<and>
      (if r < 0 then r = -1 \<and> net_fds s' = net_fds s else r = socket_ret env \<and> net_fds s' = r # net_fds s)) \<and>
    (\<exists>s'. socket_free (fst (socket_new env s)) (snd (socket_new env s)) = Inr s' \<and> net_fds s' = net_fds s) \<and>
    (\<exists>sko s1 s'. socket_accept env (Some sk) s = Inr (sko, s1) \<and> socket_free sko s1 = Inr s' \<and> net_fds s' = net_fds s) \<and>
    (\<exists>s'. socket_write_and_transfer_fd env (Some sk) (Some bytes) f (s\<lparr>net_fds := f # net_fds s\<rparr>) = Inr (send_ret env, s') \<and>
      net_fds s' = net_fds s \<and> net_log s' = net_log s @ [SendCall (sk_fd sk) bytes (Some f)])"
proof (intro conjI)
  show "\<exists>s'. socket_free (fst (socket_new env s)) (snd (socket_new env s)) = Inr s' \<and> net_fds s' = net_fds s"
    using assms(1) by (auto simp: socket_new_def socket_ops Let_def)
  show "\<exists>sko s1 s'. socket_accept env (Some sk) s = Inr (sko, s1) \<and> socket_free sko s1 = Inr s' \<and> net_fds s' = net_fds s"
    using assms(2) by (auto simp: socket_ops Let_def)
  show "\<exists>s'. socket_write_and_transfer_fd env (Some sk) (Some bytes) f (s\<lparr>net_fds := f # net_fds s\<rparr>) = Inr (send_ret env, s') \<and>
      net_fds s' = net_fds s \<and> net_log s' = net_log s @ [SendCall (sk_fd sk) bytes (Some f)]"
    using assms(3) by (auto simp: socket_ops)
qed (rule local_client_cases local_server_cases)+

theorem socket_descriptor_accounting_witness:
  "\<exists>s'. socket_write_and_transfer_fd
      \<lparr>socket_ret = 4, setsockopt_ok = True, bind_ok = True, listen_ok = False, connect_ok = False, accept_ret = -1,
       send_ret = 1, recv_ret = (0, []), ioctl_ret = None\<rparr>
      (Some (new_socket_t 3)) (Some ''x'') 5 \<lparr>net_fds = 5 # [3], unlinked = [], net_log = []\<rparr> = Inr (1, s') \<and>
    net_fds s' = [3] \<and> net_log s' = [SendCall 3 ''x'' (Some 5)]"
  using socket_descriptor_accounting [of
      "\<lparr>socket_ret = 4, setsockopt_ok = True, bind_ok = True, listen_ok = False, connect_ok = False, accept_ret = -1,
       send_ret = 1, recv_ret = (0, []), ioctl_ret = None\<rparr>" 5 "[]" ABSTRACT
      "\<lparr>net_fds = [3], unlinked = [], net_log = []\<rparr>" False "new_socket_t 3" "''x''"]
  by (simp add: new_socket_t_def)

text \<open>
  A socket is registered at most once: \<open>socket_register\<close> first drops the previous registration, and
  the callback that the reactor gets is never one whose function is NULL.
\<close>

theorem socket_register_once:
  assumes "socket_register obj ctx rcb wcb (Some sk) s = Inr (sk', s')"
  shows "net_log s' = net_log s @ (if sk_reactor_object sk = NULL then [] else [UnregisterCall (sk_reactor_object sk)])
      @ [RegisterCall (sk_fd sk) (rcb \<noteq> NULL) (wcb \<noteq> NULL)]"
    and "rcb \<noteq> NULL \<Longrightarrow> internal_read_ready (Some sk') = Inr (rcb, ctx)"
    and "wcb \<noteq> NULL \<Longrightarrow> internal_write_ready (Some sk') = Inr (wcb, ctx)"
  using assms by (auto simp: socket_ops internal_read_ready_def internal_write_ready_def split: if_splits)

end
