(* ===== verification/OsiMisc.thy ===== *)
theory OsiMisc
  imports Prelude
begin

text \<open>
  The small services of the library: random numbers (\<open>src/osi.c\<close>), system properties
  (\<open>src/properties.c\<close>, the \<open>OS_GENERIC\<close> build), the boot clock (\<open>src/time.c\<close>) and the global
  recursive mutex (\<open>src/mutex.c\<close>). What the kernel answers is an argument of each operation.
\<close>

section \<open>Random numbers\<close>

text \<open>
  \<open>open_ok\<close> says whether the device could be opened, \<open>read_bytes\<close> and \<open>r\<close> what \<open>read\<close> delivered.
  The negation is the one of two's complement.
\<close>

definition osi_rand :: "bool \<Rightarrow> int \<Rightarrow> 32 word \<Rightarrow> 32 word res" where
  "osi_rand open_ok read_bytes r =
     rbind (c_assert open_ok) (\<lambda>_.
     rbind (c_assert (read_bytes = 4)) (\<lambda>_.
     Inr (if sint r < 0 then - r else r)))"

section \<open>Properties of the system\<close>

definition PROPERTY_VALUE_MAX :: nat where
  "PROPERTY_VALUE_MAX = 92"

text \<open>\<open>value\<close> is the array of the caller; writing past its end is an error of the model.\<close>

definition osi_property_get :: "string \<Rightarrow> string option \<Rightarrow> (int \<times> string) res" where
  "osi_property_get val default_value =
     (case default_value of None \<Rightarrow> Inr (-1, val)
      | Some d \<Rightarrow>
          let len0 = length (c_string d);
              len = (if len0 \<ge> PROPERTY_VALUE_MAX then PROPERTY_VALUE_MAX - 1 else len0) in
          if len > length val then Inl OutOfBounds
          else let v1 = take len (c_string d) @ drop len val in
          if len < length v1 then Inr (int len, v1[len := NUL]) else Inl OutOfBounds)"

definition osi_property_set :: "string \<Rightarrow> string \<Rightarrow> int" where
  "osi_property_set key val = -1"

section \<open>The boot clock\<close>

definition time_get_os_boottime_ms :: "nat \<Rightarrow> nat \<Rightarrow> uint32_t" where
  "time_get_os_boottime_ms tv_sec tv_nsec = of_nat (tv_sec * 1000 + tv_nsec div 1000000)"

section \<open>The global mutex\<close>

text \<open>
  A recursive POSIX mutex: the thread that owns it and how often it locked it; \<open>None\<close> when the
  mutex was not initialized or is destroyed.
\<close>

type_synonym global_lock = "(nat \<times> nat) option option"

definition mutex_init :: global_lock where
  "mutex_init = Some None"

definition mutex_cleanup :: "global_lock \<Rightarrow> global_lock" where
  "mutex_cleanup m = None"

definition mutex_global_lock :: "nat \<Rightarrow> global_lock \<Rightarrow> global_lock res" where
  "mutex_global_lock t m =
     (case m of None \<Rightarrow> Inl BadPointer
      | Some None \<Rightarrow> Inr (Some (Some (t, 1)))
      | Some (Some (u, n)) \<Rightarrow> if t = u then Inr (Some (Some (u, n + 1))) else Inl Blocks)"

text \<open>Unlocking by a thread that is not the owner is refused by the kernel and has no effect.\<close>

definition mutex_global_unlock :: "nat \<Rightarrow> global_lock \<Rightarrow> global_lock res" where
  "mutex_global_unlock t m =
     (case m of None \<Rightarrow> Inl BadPointer
      | Some None \<Rightarrow> Inr m
      | Some (Some (u, n)) \<Rightarrow>
          if t \<noteq> u then Inr m else if n \<le> 1 then Inr (Some None) else Inr (Some (Some (u, n - 1))))"

fun repeat_res :: "nat \<Rightarrow> ('a \<Rightarrow> 'a res) \<Rightarrow> 'a \<Rightarrow> 'a res" where
  "repeat_res 0 f x = Inr x"
| "repeat_res (Suc k) f x = rbind (f x) (repeat_res k f)"

section \<open>Properties\<close>

lemma word_INT_MIN_cases:
  fixes r :: "32 word"
  assumes neg: "sint r < 0"
  shows "sint (- r) < 0 \<longleftrightarrow> r = 0x80000000"
proof -
  have range: "- (2 ^ 31) \<le> sint r" using sint_ge [of r] by simp
  have "sint (- r) = signed_take_bit 31 (- sint r)" by (simp add: sint_word_ariths)
  also have "\<dots> = (- sint r + 2 ^ 31) mod 2 ^ 32 - 2 ^ 31" by (simp add: signed_take_bit_eq_take_bit_shift take_bit_eq_mod)
  finally have e: "sint (- r) = (- sint r + 2 ^ 31) mod 2 ^ 32 - 2 ^ 31" .
  show ?thesis
  proof (cases "sint r = - (2 ^ 31)")
    case True
    then have "word_of_int (sint r) = (word_of_int (- (2 ^ 31)) :: 32 word)" by simp
    then have "r = 0x80000000" by simp
    then show ?thesis using e True by simp
  next
    case False
    then have "- sint r + 2 ^ 31 < 2 ^ 32" "0 \<le> - sint r + 2 ^ 31" using range neg by simp_all
    then have "sint (- r) = - sint r" using e by simp
    moreover have "r \<noteq> 0x80000000" using False by auto
    ultimately show ?thesis using neg by simp
  qed
qed

text \<open>
  \<open>osi_rand\<close>: whenever it returns, its answer is the absolute value of the four bytes read,
  and lies between 0 and \<open>INT_MAX\<close> as documented, except for the one bit pattern of \<open>INT_MIN\<close>,
  whose negation is itself.
\<close>

theorem osi_rand_range:
  "osi_rand open_ok n r =
     (if open_ok \<and> n = 4 then Inr (if sint r < 0 then - r else r) else Inl AssertFailed) \<and>
   (osi_rand True 4 r = Inr v \<longrightarrow> (0 \<le> sint v \<longleftrightarrow> r \<noteq> 0x80000000) \<and> (r = 0x80000000 \<longrightarrow> v = r))"
proof (cases "sint r < 0")
  case True
  then show ?thesis using word_INT_MIN_cases [OF True] by (auto simp: osi_rand_def c_assert_def not_less)
next
  case False
  then have "r \<noteq> 0x80000000" by auto
  then show ?thesis using False by (auto simp: osi_rand_def c_assert_def)
qed

theorem osi_rand_range_witness:
  "osi_rand True 4 0x80000000 = Inr 0x80000000 \<and> \<not> 0 \<le> sint (0x80000000 :: 32 word)"
  using osi_rand_range [of True 4 "0x80000000" "0x80000000"] by (simp add: osi_rand_def)

text \<open>
  \<open>osi_property_get\<close> with a default and an array of at least \<open>PROPERTY_VALUE_MAX\<close> bytes: it
  writes the longest prefix of the default that fits, terminated, answers its length, which is
  below \<open>PROPERTY_VALUE_MAX\<close>, and writes nothing beyond.
\<close>

theorem osi_property_get_correct:
  assumes room: "PROPERTY_VALUE_MAX \<le> length val"
  shows "\<exists>len val'. osi_property_get val (Some d) = Inr (int len, val') \<and> len = min (length (c_string d)) (PROPERTY_VALUE_MAX - 1) \<and>
    c_string val' = take len (c_string d) \<and> length val' = length val \<and> drop (len + 1) val' = drop (len + 1) val"
proof -
  define len where "len = min (length (c_string d)) (PROPERTY_VALUE_MAX - 1)"
  have lt: "len < length val" using room by (simp add: len_def PROPERTY_VALUE_MAX_def)
  have pre: "length (take len (c_string d)) = len" by (simp add: len_def)
  have len_eq: "(if PROPERTY_VALUE_MAX \<le> length (c_string d) then PROPERTY_VALUE_MAX - 1 else length (c_string d)) = len"
    by (simp add: len_def PROPERTY_VALUE_MAX_def)
  define val' where "val' = take len (c_string d) @ NUL # drop (Suc len) val"
  have "drop len val = val ! len # drop (Suc len) val" using lt by (rule Cons_nth_drop_Suc [symmetric])
  then have "(take len (c_string d) @ drop len val)[len := NUL] = val'"
    by (simp add: val'_def list_update_append pre len_def)
  moreover have "length (take len (c_string d) @ drop len val) = length val" using pre lt by simp
  ultimately have "osi_property_get val (Some d) = Inr (int len, val')"
    using lt unfolding osi_property_get_def option.case Let_def len_eq by simp
  moreover have "NUL \<notin> set (take len (c_string d))" using c_string_no_NUL [of d] by (auto dest: in_set_takeD)
  then have "c_string val' = take len (c_string d)" unfolding val'_def by (rule c_string_terminated)
  moreover have "length val' = length val" "drop (len + 1) val' = drop (len + 1) val"
    using pre lt by (simp_all add: val'_def)
  ultimately show ?thesis using len_def by blast
qed

theorem osi_property_get_correct_witness:
  "\<exists>len val'. osi_property_get (replicate 92 (CHR ''x'')) (Some ''ab'') = Inr (int len, val') \<and> len = 2 \<and> c_string val' = ''ab''"
  using osi_property_get_correct [of "replicate 92 (CHR ''x'')" "''ab''"]
  by (auto simp: PROPERTY_VALUE_MAX_def c_string_def)

text \<open>
  The clock wraps every 49.7 days, and still the difference of two readings, taken in 32 bits,
  is the elapsed time as long as less than one period went by.
\<close>

theorem boottime_difference:
  assumes "s1 * 1000 + n1 div 1000000 \<le> s2 * 1000 + n2 div 1000000"
    and "s2 * 1000 + n2 div 1000000 < s1 * 1000 + n1 div 1000000 + 2 ^ 32"
  shows "unat (time_get_os_boottime_ms s2 n2 - time_get_os_boottime_ms s1 n1)
    = (s2 * 1000 + n2 div 1000000) - (s1 * 1000 + n1 div 1000000)"
proof -
  let ?a = "s1 * 1000 + n1 div 1000000" and ?b = "s2 * 1000 + n2 div 1000000"
  have "time_get_os_boottime_ms s2 n2 - time_get_os_boottime_ms s1 n1 = of_nat (?b - ?a)"
    unfolding time_get_os_boottime_ms_def using assms(1) by (rule of_nat_diff [symmetric])
  moreover have "?b - ?a < 2 ^ 32" using assms by linarith
  ultimately show ?thesis by (simp add: unat_of_nat take_bit_eq_mod)
qed

theorem boottime_difference_witness:
  "unat (time_get_os_boottime_ms 4294968 0 - time_get_os_boottime_ms 4294967 295000000) = 705"
  using boottime_difference [of 4294967 295000000 4294968 0] by simp

text \<open>
  The mutex is recursive: while a thread holds it \<open>k + 1\<close> times every other thread blocks, and as
  many unlocks by the owner, and no fewer, make it free again.
\<close>

lemma lock_again:
  "repeat_res k (mutex_global_lock t) (Some (Some (t, n))) = Inr (Some (Some (t, n + k)))"
  by (induction k arbitrary: n) (simp_all add: mutex_global_lock_def)

lemma unlock_again:
  "k < n \<Longrightarrow> repeat_res k (mutex_global_unlock t) (Some (Some (t, n))) = Inr (Some (Some (t, n - k)))"
  by (induction k arbitrary: n) (simp_all add: mutex_global_unlock_def)

theorem mutex_recursive:
  "repeat_res (Suc k) (mutex_global_lock t) mutex_init = Inr (Some (Some (t, Suc k))) \<and>
   (u \<noteq> t \<longrightarrow> mutex_global_lock u (Some (Some (t, Suc k))) = Inl Blocks \<and>
     mutex_global_unlock u (Some (Some (t, Suc k))) = Inr (Some (Some (t, Suc k)))) \<and>
   (j \<le> k \<longrightarrow> repeat_res j (mutex_global_unlock t) (Some (Some (t, Suc k))) = Inr (Some (Some (t, Suc k - j)))) \<and>
   mutex_global_unlock t (Some (Some (t, 1))) = Inr mutex_init"
proof (intro conjI impI)
  show "repeat_res (Suc k) (mutex_global_lock t) mutex_init = Inr (Some (Some (t, Suc k)))"
    using lock_again [of k t 1] by (simp add: mutex_init_def mutex_global_lock_def)
  show "j \<le> k \<Longrightarrow> repeat_res j (mutex_global_unlock t) (Some (Some (t, Suc k))) = Inr (Some (Some (t, Suc k - j)))"
    by (rule unlock_again) simp
qed (simp_all add: mutex_global_lock_def mutex_global_unlock_def mutex_init_def)

end
