(* ===== verification/Spec2Isabelle.thy ===== *)
theory Spec2Isabelle
  imports HashMap RingBuffer OsiArray Compat QueueThreads ConfigFile Alarm AlarmQueues AlarmThreads AlarmWakelock Metrics Wakelock
    AllocTracker Buffer ReactorThreads EagerReader FutureThreads DataDispatcher HashMapUtils Socket OsiMisc
begin

text \<open>
  A verification development of osi, the operating system interface library of the Bluetooth stack
  (C, \<open>src/\<close> and \<open>include/\<close>): containers, queues and semaphores, an event loop with threads
  and eager readers on top of it, alarms with wake locks, a configuration store, a checking
  allocator, and small services.

  \<^bold>\<open>How the code is represented.\<close> A struct is a record, an enumeration a datatype, and each C
  function is one HOL function of the same name (a name that clashes or ends in an underscore is
  changed; loops are separate functions such as \<open>list_remove_loop\<close>). \<open>size_t\<close>, pointers and times are
  64-bit words and wrap around; \<open>unsigned int\<close> is a 32-bit word. A function that may not return
  has a result of type \<open>res\<close>: \<open>Inl\<close> says how it stopped (\<open>AssertFailed\<close>, \<open>BadPointer\<close>,
  \<open>OutOfBounds\<close>, \<open>DivByZero\<close>, \<open>Diverges\<close>, \<open>Blocks\<close>). Objects reached by pointers live in association
  lists by address, so freed memory is an address without an entry. What the platform
  answers (the allocator, descriptors, clocks, timers, \<open>epoll\<close>, files, the serialiser) is an
  argument of the function that asks; a property says what it assumes of these answers, and its
  witness gives concrete ones. Logging has no effect in the model.

  \<^bold>\<open>Theories and sources.\<close>

  \<^item> \<open>Prelude\<close>: types, results, object stores, and the locale \<open>fifo\<close>, the contract of a component that
    hands items on in order. \<open>Steps\<close>: systems of threads as step relations with an invariant.
  \<^item> \<open>OsiList\<close> (\<open>list.c\<close>), \<open>HashFunctions\<close> (\<open>hash_functions.c\<close>), \<open>HashMap\<close> (\<open>hash_map.c\<close>), \<open>HashMapUtils\<close>
    (\<open>hash_map_utils.c\<close>), \<open>RingBuffer\<close> (\<open>ringbuffer.c\<close>), \<open>OsiArray\<close> (\<open>array.c\<close>), \<open>Buffer\<close> (\<open>buffer.c\<close>), \<open>Compat\<close>
    (\<open>compat.c\<close>): the containers and strings. The list is a chain of nodes in a store; the
    hash map is a table of such lists; it refines a finite map modulo the key equality, the list a sequence,
    the ring buffer a bounded byte queue. Buffers share storage by reference counts.
  \<^item> \<open>Semaphore\<close> (\<open>semaphore.c\<close>), \<open>FixedQueue\<close> (\<open>fixed_queue.c\<close>) as one thread runs them, and \<open>QueueThreads\<close>, the
    same queue under any interleaving of threads: capacity, order, mutual exclusion and
    progress of the blocking operations, and the race of the non-blocking ones. A wait that a signal
    interrupts (\<open>semaphore_wait_intr\<close>) returns without having taken anything; the queues and futures
    are modelled with waits that are not interrupted.
  \<^item> \<open>Reactor\<close> (\<open>reactor.c\<close>), \<open>Thread\<close> (\<open>thread.c\<close>, \<open>future.c\<close>), \<open>FutureThreads\<close> (\<open>future.c\<close> between two threads),
    \<open>EagerReader\<close> (\<open>eager_reader.c\<close>), \<open>DataDispatcher\<close> (\<open>data_dispatcher.c\<close>), \<open>Socket\<close> (\<open>socket.c\<close>,
    \<open>socket_utils\<close>): the event loop and its clients. Registrations that a callback removes are not
    dispatched; a callback that changes its own registration deadlocks (\<open>reactor_self_change_deadlock\<close>), since
    the loop holds the lock of the object. Work posted while the reactor of a thread serves runs once
    and in order, if what is left at the stop posts nothing more; bytes read are the bytes delivered.
    \<open>ReactorThreads\<close> interleaves the loop with threads that register, change and unregister objects, one
    lock operation or access at a time, and proves the argument of the comment in \<open>reactor_unregister\<close>: no object
    is used after it was freed. It says who can wait for whom: but for the callback above there is no deadlock.
  \<^item> \<open>Alarm\<close> (\<open>alarm.c\<close>): the ordered list of pending alarms, the timers, the dispatcher and the processing of a
    queue, every operation with the monitor held. \<open>AlarmQueues\<close> justifies that \<open>Alarm\<close> speaks of the
    processing queues as sequences: on the fixed queues of \<open>FixedQueue\<close> the same happens, blocking
    included. \<open>AlarmThreads\<close> interleaves the operations of several threads and adds the callback locks: what
    \<open>alarm_cancel\<close> promises about running callbacks, that \<open>alarm_free\<close> leaves no reference behind unless another
    thread is still in \<open>alarm_cancel\<close> of the alarm, and when the wait for a callback deadlocks. \<open>AlarmWakelock\<close> runs the rescheduling of the root alarm on the
    model of the wake lock.
  \<^item> \<open>Metrics\<close> (\<open>metrics.cpp\<close>, \<open>protos/bluetooth.proto\<close>) and \<open>Wakelock\<close> (\<open>wakelock.c\<close>), which reports its events
    to the metrics and accounts for them exactly in its statistics. This theory joins the two.
  \<^item> \<open>Config\<close> and \<open>ConfigFile\<close> (\<open>config.c\<close>): sections and entries, and the text format; the reader makes
    exactly the assignments that the lines of the text mean; saving and loading is the identity, and a
    failed save leaves the old file (and the temporary one when \<open>unlink\<close> fails too).
  \<^item> \<open>AllocTracker\<close> (\<open>allocation_tracker.c\<close>, \<open>allocator.c\<close>): the table of allocations, over the hash map model, and
    the canaries in a byte-addressed heap.
  \<^item> \<open>OsiMisc\<close> (\<open>osi.c\<close>, \<open>properties.c\<close>, \<open>time.c\<close>, \<open>mutex.c\<close>): the small services.

  \<^bold>\<open>Interfaces.\<close> \<open>ptr_seq\<close> is the contract of the list, \<open>key_store\<close> that of the hash map,
  \<open>bounded_queue\<close> that of the fixed queue, \<open>pending_queue\<close> that of the list of pending alarms,
  \<open>text_store\<close> that of the configuration; \<open>fifo\<close> is interpreted by the fixed queue, the ring buffer and
  the eager reader, and gives the order of whole streams of operations. \<open>step_system\<close> (interpreted by the
  threads of the fixed queue and of the reactor) and \<open>counted_system\<close> (by the two threads of a future) give
  invariants of reachable states and the length of runs.

  \<^bold>\<open>Loops and fuel.\<close> A loop over a linked structure has the number of nodes as fuel and answers
  \<open>Diverges\<close> when it runs out; the invariants show that this never happens. Fuel of other loops
  is a bound that is proved to be enough: in \<open>read_loop\<close> the bytes asked for and the
  buffers waiting, in \<open>drain_fixed_queue\<close> any number greater than the length of the queue.
  The loops of the reactor, the thread and the dispatcher may run for ever in the code; their
  models take the sequence of rounds that happen (for a thread, of posts and callbacks), or their number.

  \<^bold>\<open>Not modelled.\<close> \<open>log.h\<close> (macros that format text for the platform log); the tests; the layout of
  printed dumps, of which the numbers are modelled; the generated protocol buffer code, which is a
  parameter; \<open>metrics_linux.cpp\<close>, whose bodies are empty; constructors that only pass the default
  allocator (\<open>list_new\<close>, \<open>hash_map_new\<close>) and accessors that only answer a field (\<open>thread_name\<close>,
  \<open>thread_get_reactor\<close>, \<open>semaphore_get_fd\<close> and the like). Threads are interleaved for the
  fixed queue, the futures, the reactor and the alarms; elsewhere the code of one thread runs alone and
  other threads appear as changes between its steps. A configuration is a value, so \<open>config_free\<close> has nothing to
  act on. In \<open>AlarmThreads\<close> the module is not cleaned up, and in \<open>ReactorThreads\<close> a callback touches no
  registration but its own. That \<open>EPOLL_CTL_DEL\<close> fails on a registered descriptor is not modelled, nor
  is a clock that fails other than by showing 0.
\<close>

section \<open>Wake locks and metrics\<close>

lemma wake_event_blocks: "log_locked m \<Longrightarrow> metrics_wake_event ty req nm t m = Inl Blocks"
  using locked_blocks [of m undefined "WakeCall ty req nm t"] by simp

text \<open>
  C17. The failing \<open>metrics_write\<close> reaches the wake locks: after a call of it whose serialisation
  failed, the next effective acquire or release of the wake lock (an acquire while it is not held, a
  release while it is) does not return, because it reports its event to the metrics and waits for
  their mutex.
\<close>

theorem wakelock_blocked_by_metrics:
  assumes "initialized s" and "\<not> log_locked (wl_metrics s)" and "SerializeToString menv (current_log (wl_metrics s)) = None"
  shows "\<exists>m. metrics_write menv fd clear (wl_metrics s) = Inr m \<and>
    (if is_acquired (wl_stats s) then wakelock_release env (s\<lparr>wl_metrics := m\<rparr>) = Inl Blocks
     else wakelock_acquire env (s\<lparr>wl_metrics := m\<rparr>) = Inl Blocks)"
proof -
  obtain m where "metrics_write menv fd clear (wl_metrics s) = Inr m" "log_locked m"
    using metrics_write_keeps_lock [OF assms(2,3)] by blast
  then show ?thesis using assms(1) wake_event_blocks [of m]
    by (auto simp: wakelock_release_def wakelock_release_native_def wakelock_acquire_def wakelock_acquire_native_def
        once_initialize_def update_wakelock_released_stats_def update_wakelock_acquired_stats_def Let_def)
qed

theorem wakelock_blocked_by_metrics_witness:
  "\<exists>m. metrics_write (demo_metrics_env\<lparr>SerializeToString := \<lambda>_. None\<rparr>) 3 True (wl_metrics demo_wakelock) = Inr m \<and>
    wakelock_acquire demo_wl_env (demo_wakelock\<lparr>wl_metrics := m\<rparr>) = Inl Blocks"
  using wakelock_blocked_by_metrics [of demo_wakelock "demo_metrics_env\<lparr>SerializeToString := \<lambda>_. None\<rparr>" 3 True demo_wl_env]
  by (auto simp: demo_wakelock_def reset_wakelock_stats_def start_metrics_def)

end
